(* ===== verification/Eo_Prelude.thy ===== *)
theory Eo_Prelude
  imports Main "HOL-Library.Word" "HOL-Library.Multiset"
begin

section \<open>Shared vocabulary of the eotan development\<close>

text \<open>
  The machine types of the i686 build, the bit scan of
  \<^verbatim>\<open>src/include/i686/bits.h\<close>, the error codes of
  \<^verbatim>\<open>src/include/mitron4/errno.h\<close>, and the generic lemmas on words and lists the
  component theories share. The simp collections are \<open>word_nat\<close> (moving word
  arithmetic to \<^typ>\<open>nat\<close>) and \<open>bit_simps32\<close> (single-bit masks).
\<close>

unbundle bit_operations_syntax

named_theorems word_nat \<open>unsigned word arithmetic as arithmetic on natural numbers\<close>
named_theorems bit_simps32 \<open>bits of masks built from a single shifted bit\<close>

type_synonym u8 = "8 word"
type_synonym u32 = "32 word"
type_synonym addr = "32 word"

subsection \<open>Word lemmas\<close>

declare word_less_nat_alt [word_nat] word_le_nat_alt [word_nat]

lemma unat_u32_less [simp, intro]: "unat (w :: u32) < 4294967296"
  using unsigned_less [of w] by simp

lemma unat_add_no_wrap [word_nat]:
  "unat (a :: u32) + unat b < 4294967296 \<Longrightarrow> unat (a + b) = unat a + unat b"
  by (simp add: unat_word_ariths)

lemma unat_sub_no_wrap [word_nat]:
  "unat (b :: u32) \<le> unat a \<Longrightarrow> unat (a - b) = unat a - unat b"
  by (simp add: unat_sub word_le_nat_alt)

text \<open>The mask \<^verbatim>\<open>1 << b\<close> of a bit position.\<close>

definition bit_at :: "nat \<Rightarrow> u32" where
  "bit_at b = push_bit b 1"

lemma bit_bit_at [simp, bit_simps32]: "bit (bit_at b) i \<longleftrightarrow> i = b \<and> b < 32"
  by (auto simp: bit_at_def bit_exp_iff)

lemma bit_clear_mask [bit_simps32]:
  "bit (w AND NOT (bit_at b)) i \<longleftrightarrow> bit w i \<and> i \<noteq> b" for w :: u32
  using bit_imp_le_length [of w i] by (auto simp: bit_and_iff bit_not_iff)

lemma bit_set_mask [bit_simps32]:
  "bit (w OR bit_at b) i \<longleftrightarrow> bit w i \<or> i = b \<and> b < 32" for w :: u32
  by (auto simp: bit_or_iff)

lemma test_bit_mask: "w AND bit_at b \<noteq> 0 \<longleftrightarrow> b < 32 \<and> bit w b" for w :: u32
proof -
  have "w AND bit_at b = (if b < 32 \<and> bit w b then bit_at b else 0)"
    by (rule bit_word_eqI) (auto simp: bit_and_iff)
  moreover have "b < 32 \<Longrightarrow> bit_at b \<noteq> 0"
    using bit_bit_at [of b b] by (metis bit_0_eq bot_apply bot_bool_def)
  ultimately show ?thesis by auto
qed

lemma and_31_mod_nat: "n AND 31 = n mod 32" for n :: nat
proof -
  have "n AND 31 = n AND mask 5" by (simp add: mask_eq_exp_minus_1)
  then show ?thesis by (simp add: take_bit_eq_mask [symmetric] take_bit_eq_mod)
qed

lemma unat_and_31: "unat (w AND 31) = unat w mod 32" for w :: u32
  by (simp add: unsigned_and_eq and_31_mod_nat)

lemma and_split: "(a AND m) + (a AND NOT m) = a" for a m :: int
proof -
  have "(a AND m) + (a AND NOT m) = (a AND m) OR (a AND NOT m)"
    by (rule disjunctive_add) (simp add: bit_and_iff bit_not_iff)
  also have "\<dots> = a" by (rule bit_eqI) (auto simp: bit_and_iff bit_or_iff bit_not_iff)
  finally show ?thesis .
qed

lemma word_zero_iff_no_bit: "w = 0 \<longleftrightarrow> (\<forall>i < 32. \<not> bit w i)" for w :: u32
  by (auto intro: bit_word_eqI)

subsection \<open>The bit scan \<^verbatim>\<open>count_ntz\<close>\<close>

text \<open>
  \<^verbatim>\<open>bsfl\<close> scans a register from bit 0 upwards and yields the index of the first set
  bit; \<^verbatim>\<open>count_ntz\<close> guards it with the zero test, since \<^verbatim>\<open>bsfl\<close> leaves its destination
  undefined for 0.
\<close>

fun bsfl :: "u32 \<Rightarrow> nat \<Rightarrow> nat \<Rightarrow> nat" where
  "bsfl d i 0 = i"
| "bsfl d i (Suc n) = (if bit d i then i else bsfl d (Suc i) n)"

lemma bsfl_numeral:
  "bsfl d i (numeral n) = (if bit d i then i else bsfl d (Suc i) (pred_numeral n))"
  by (simp add: numeral_eq_Suc)

definition count_ntz :: "u32 \<Rightarrow> nat" where
  "count_ntz d = (if d = 0 then 32 else bsfl d 0 32)"

lemma bsfl_first:
  assumes "\<exists>j. i \<le> j \<and> j < i + n \<and> bit d j"
  shows "bit d (bsfl d i n) \<and> i \<le> bsfl d i n \<and> bsfl d i n < i + n \<and>
    (\<forall>k. i \<le> k \<and> k < bsfl d i n \<longrightarrow> \<not> bit d k)"
  using assms
proof (induction n arbitrary: i)
  case 0
  then show ?case by auto
next
  case (Suc n)
  show ?case
  proof (cases "bit d i")
    case True
    then show ?thesis by auto
  next
    case False
    have "\<exists>j. Suc i \<le> j \<and> j < Suc i + n \<and> bit d j"
      using Suc.prems False by (metis add_Suc_shift le_eq_less_or_eq Suc_leI add_Suc_right)
    from Suc.IH [OF this] False show ?thesis
      by (auto simp: Suc_le_eq) (metis le_neq_implies_less)
  qed
qed

lemma count_ntz_first:
  assumes "d \<noteq> 0"
  shows "count_ntz d < 32" and "bit d (count_ntz d)"
    and "k < count_ntz d \<Longrightarrow> \<not> bit d k"
proof -
  from assms obtain j where "j < 32" "bit d j"
    by (auto simp: word_zero_iff_no_bit)
  then have "\<exists>j. 0 \<le> j \<and> j < 0 + 32 \<and> bit d j" by auto
  from bsfl_first [OF this] assms
  show "count_ntz d < 32" "bit d (count_ntz d)" "k < count_ntz d \<Longrightarrow> \<not> bit d k"
    by (auto simp: count_ntz_def)
qed

subsection \<open>Kernel error codes\<close>

text \<open>The values of \<^verbatim>\<open>ER\<close> the kernel returns (\<^verbatim>\<open>mitron4/errno.h\<close>, \<^verbatim>\<open>constants.h\<close>).\<close>

abbreviation (input) E_OK :: int where "E_OK \<equiv> 0"
abbreviation (input) E_SYS :: int where "E_SYS \<equiv> - 5"
abbreviation (input) E_NOSPT :: int where "E_NOSPT \<equiv> - 9"
abbreviation (input) E_RSATR :: int where "E_RSATR \<equiv> - 11"
abbreviation (input) E_PAR :: int where "E_PAR \<equiv> - 17"
abbreviation (input) E_ID :: int where "E_ID \<equiv> - 18"
abbreviation (input) E_ILUSE :: int where "E_ILUSE \<equiv> - 28"
abbreviation (input) E_NOMEM :: int where "E_NOMEM \<equiv> - 33"
abbreviation (input) E_NOID :: int where "E_NOID \<equiv> - 34"
abbreviation (input) E_OBJ :: int where "E_OBJ \<equiv> - 41"
abbreviation (input) E_NOEXS :: int where "E_NOEXS \<equiv> - 42"
abbreviation (input) E_QOVR :: int where "E_QOVR \<equiv> - 43"
abbreviation (input) E_RLWAI :: int where "E_RLWAI \<equiv> - 49"
abbreviation (input) E_DLT :: int where "E_DLT \<equiv> - 51"

subsection \<open>Chains of links\<close>

text \<open>The elements reached from a pointer by following the links to the end.\<close>

fun path :: "('a \<Rightarrow> 'a option) \<Rightarrow> 'a option \<Rightarrow> 'a list \<Rightarrow> bool" where
  "path nx p [] \<longleftrightarrow> p = None"
| "path nx p (x # xs) \<longleftrightarrow> p = Some x \<and> path nx (nx x) xs"

lemma path_cong: "(\<And>x. x \<in> set xs \<Longrightarrow> nx x = nx' x) \<Longrightarrow> path nx p xs = path nx' p xs"
  by (induction xs arbitrary: p) auto

lemma path_hd: "path nx (Some x) xs \<Longrightarrow> x \<in> set xs \<and> hd xs = x"
  by (cases xs) auto

subsection \<open>Arrays\<close>

text \<open>Elements of an array of limited size; an access outside it is \<^const>\<open>None\<close>.\<close>

definition rd :: "'a list \<Rightarrow> nat \<Rightarrow> 'a option" where
  "rd a i = (if i < length a then Some (a ! i) else None)"

definition wr :: "'a list \<Rightarrow> nat \<Rightarrow> 'a \<Rightarrow> 'a list option" where
  "wr a i x = (if i < length a then Some (a[i := x]) else None)"

lemma rd_append [simp]: "rd (xs @ x # ys) (length xs) = Some x"
  by (simp add: rd_def)

lemma wr_append [simp]: "wr (xs @ x # ys) (length xs) z = Some (xs @ z # ys)"
  by (simp add: wr_def)

end
