(* ===== verification/Eo_Bitmap.thy ===== *)
theory Eo_Bitmap
  imports Eo_Prelude
begin

section \<open>Free maps and number pools\<close>

text \<open>
  Two components keep a set of free numbers as an array of 32-bit blocks: the number
  sequence of \<^verbatim>\<open>lib/libnc/set/sequence.c\<close> and the page map of \<^verbatim>\<open>kernel/palloc.c\<close>.
  Both give number \<open>n\<close> bit \<open>n mod 32\<close> of block \<open>n div 32\<close>. This theory has what they
  share: the set a map denotes with the effect of clearing and setting one bit, and the
  interface \<open>number_pool\<close> that both implement, with what a client may conclude from it.
\<close>

subsection \<open>The set of numbers a map denotes\<close>

definition bm_set :: "u32 list \<Rightarrow> nat set" where
  "bm_set m = {n. n div 32 < length m \<and> bit (m ! (n div 32)) (n mod 32)}"

lemma bm_set_finite [simp]: "finite (bm_set m)"
proof (rule finite_subset)
  show "bm_set m \<subseteq> {..< 32 * length m}"
    by (auto simp: bm_set_def)
qed simp

lemma bm_setD: "n \<in> bm_set m \<Longrightarrow> n div 32 < length m \<and> n < 32 * length m"
  by (auto simp: bm_set_def)

lemma div_mod_32: "b < 32 \<Longrightarrow> (32 * i + b) div 32 = i \<and> (32 * i + b) mod 32 = (b :: nat)"
  by simp

lemma in_bm_set_block: "b < 32 \<Longrightarrow> i < length m \<Longrightarrow> 32 * i + b \<in> bm_set m \<longleftrightarrow> bit (m ! i) b"
  by (simp add: bm_set_def)

lemma num_eq_block: "b < 32 \<Longrightarrow> (n :: nat) div 32 = i \<Longrightarrow> n mod 32 = b \<Longrightarrow> n = 32 * i + b"
  by (metis mult_div_mod_eq)

lemma bm_set_clear:
  assumes "i < length m" and "b < 32"
  shows "bm_set (m[i := m ! i AND NOT (bit_at b)]) = bm_set m - {32 * i + b}"
  (is "?L = ?R")
proof (rule set_eqI)
  fix n
  have "n = 32 * i + b \<longleftrightarrow> n div 32 = i \<and> n mod 32 = b"
    using assms(2) by (auto simp: num_eq_block)
  then show "n \<in> ?L \<longleftrightarrow> n \<in> ?R"
    using assms by (auto simp: bm_set_def nth_list_update bit_simps32)
qed

lemma bm_set_set:
  assumes "i < length m" and "b < 32"
  shows "bm_set (m[i := m ! i OR bit_at b]) = insert (32 * i + b) (bm_set m)"
  (is "?L = ?R")
proof (rule set_eqI)
  fix n
  have "n = 32 * i + b \<longleftrightarrow> n div 32 = i \<and> n mod 32 = b"
    using assms(2) by (auto simp: num_eq_block)
  then show "n \<in> ?L \<longleftrightarrow> n \<in> ?R"
    using assms by (auto simp: bm_set_def nth_list_update bit_simps32)
qed

lemma bm_set_empty_iff: "bm_set m = {} \<longleftrightarrow> (\<forall>i < length m. m ! i = 0)"
proof
  assume e: "bm_set m = {}"
  show "\<forall>i < length m. m ! i = 0"
  proof (intro allI impI)
    fix i assume i: "i < length m"
    show "m ! i = 0"
      using e in_bm_set_block [OF _ i] by (auto simp: word_zero_iff_no_bit)
  qed
qed (auto simp: bm_set_def)

lemma bm_set_block_nonzero:
  assumes "n \<in> bm_set m" shows "m ! (n div 32) \<noteq> 0"
  using assms by (auto simp: bm_set_def)

lemma card_remove_free: "n \<in> bm_set m \<Longrightarrow> card (bm_set m - {n}) = card (bm_set m) - 1"
  by (simp add: card_Diff_singleton)

lemma block_number_as_or:
  assumes "b < 32" shows "push_bit 5 i OR b = 32 * i + (b :: nat)"
proof -
  have "push_bit 5 i AND b = 0"
  proof (rule bit_eqI)
    fix n
    have "take_bit 5 b = b" using assms by (simp add: take_bit_nat_eq_self)
    then have "bit b n \<Longrightarrow> n < 5" by (metis bit_take_bit_iff)
    then show "bit (push_bit 5 i AND b) n \<longleftrightarrow> bit (0 :: nat) n"
      by (auto simp: bit_and_iff bit_push_bit_iff)
  qed
  then show ?thesis
    by (simp add: disjunctive_add_eq_or [symmetric] push_bit_eq_mult)
qed

subsection \<open>The interface of a pool of numbers\<close>

text \<open>
  A client's run over a pool's operations: \<open>None\<close> asks for a number, \<open>Some n\<close> gives \<open>n\<close>
  back. The run keeps the list of numbers the client holds; giving back what is not held is
  not a run.
\<close>

fun pool_run :: "('s \<Rightarrow> nat option \<times> 's) \<Rightarrow> (nat \<Rightarrow> 's \<Rightarrow> 's) \<Rightarrow>
    nat option list \<Rightarrow> 's \<times> nat list \<Rightarrow> ('s \<times> nat list) option" where
  "pool_run get put [] st = Some st"
| "pool_run get put (None # es) (s, held) =
     (case get s of (None, s') \<Rightarrow> pool_run get put es (s', held)
      | (Some n, s') \<Rightarrow> pool_run get put es (s', n # held))"
| "pool_run get put (Some n # es) (s, held) =
     (if n \<in> set held then pool_run get put es (put n s, removeAll n held) else None)"

text \<open>
  \<open>free\<close> is the set of numbers not handed out, \<open>univ\<close> the numbers the pool was made
  for. A \<open>get\<close> that returns no number leaves the pool as it was; one that succeeds takes a
  free number out. \<open>put\<close> gives a handed-out number back.
\<close>

locale number_pool =
  fixes inv :: "'s \<Rightarrow> bool"
    and univ :: "'s \<Rightarrow> nat set"
    and free :: "'s \<Rightarrow> nat set"
    and get :: "'s \<Rightarrow> nat option \<times> 's"
    and put :: "nat \<Rightarrow> 's \<Rightarrow> 's"
  assumes free_univ: "inv s \<Longrightarrow> free s \<subseteq> univ s"
    and get_some: "inv s \<Longrightarrow> free s \<noteq> {} \<Longrightarrow>
      \<exists>n s'. get s = (Some n, s') \<and> n \<in> free s \<and> free s' = free s - {n} \<and>
        univ s' = univ s \<and> inv s'"
    and get_none: "inv s \<Longrightarrow> free s = {} \<Longrightarrow> get s = (None, s)"
    and put_free: "inv s \<Longrightarrow> n \<in> univ s \<Longrightarrow> n \<notin> free s \<Longrightarrow>
      free (put n s) = insert n (free s) \<and> univ (put n s) = univ s \<and> inv (put n s)"
begin

definition pool_ok :: "'s \<times> nat list \<Rightarrow> bool" where
  "pool_ok st \<longleftrightarrow> (case st of (s, held) \<Rightarrow>
     inv s \<and> distinct held \<and> set held \<union> free s = univ s \<and> set held \<inter> free s = {})"

lemma get_cases:
  assumes "inv s"
  obtains (none) "free s = {}" "get s = (None, s)"
  | (some) n s' where "get s = (Some n, s')" "n \<in> free s" "free s' = free s - {n}"
      "univ s' = univ s" "inv s'"
  using get_some [OF assms] get_none [OF assms] by blast

lemma get_result: "inv s \<Longrightarrow> (fst (get s) = None) = (free s = {})"
  by (erule get_cases) auto

lemma get_keeps_inv: "inv s \<Longrightarrow> inv (snd (get s))"
  by (rule get_cases [of s]) auto

lemma put_get_restores:
  assumes "inv s" and "get s = (Some n, s')"
  shows "free (put n s') = free s"
proof -
  have "n \<in> free s" "free s' = free s - {n}" "univ s' = univ s" "inv s'"
    using get_cases [OF assms(1)] assms(2) by (metis Pair_inject option.distinct(1) option.inject)+
  moreover from this free_univ [OF assms(1)] have "n \<in> univ s'" by auto
  ultimately show ?thesis using put_free [of s' n] by auto
qed

lemma pool_run_ok:
  assumes "pool_ok st" and "pool_run get put es st = Some st'"
  shows "pool_ok st'"
  using assms
proof (induction es arbitrary: st)
  case Nil
  then show ?case by simp
next
  case (Cons e es)
  obtain s held where st: "st = (s, held)" by (cases st)
  from Cons.prems(1) have ok: "inv s" "distinct held" "set held \<union> free s = univ s"
    "set held \<inter> free s = {}" by (auto simp: pool_ok_def st)
  show ?case
  proof (cases e)
    case None
    from ok(1) show ?thesis
    proof (cases rule: get_cases)
      case none
      with Cons None show ?thesis by (simp add: st)
    next
      case (some n s')
      with ok have "pool_ok (s', n # held)" by (auto simp: pool_ok_def)
      with Cons.IH some Cons.prems(2) None show ?thesis by (simp add: st)
    qed
  next
    case (Some n)
    with Cons.prems(2) have h: "n \<in> set held"
      and run: "pool_run get put es (put n s, removeAll n held) = Some st'"
      by (auto simp: st split: if_splits)
    from h ok have "n \<in> univ s" "n \<notin> free s" by auto
    from put_free [OF ok(1) this] ok h have "pool_ok (put n s, removeAll n held)"
      by (auto simp: pool_ok_def distinct_removeAll)
    then show ?thesis using run by (rule Cons.IH)
  qed
qed

lemma pool_run_distinct:
  assumes "inv s" and "free s = univ s" and "pool_run get put es (s, []) = Some (s', held)"
  shows "distinct held" and "set held \<inter> free s' = {}" and "set held \<union> free s' = univ s'"
proof -
  from assms(1,2) have "pool_ok (s, [])" by (simp add: pool_ok_def)
  from pool_run_ok [OF this assms(3)]
  show "distinct held" "set held \<inter> free s' = {}" "set held \<union> free s' = univ s'"
    by (auto simp: pool_ok_def)
qed

end

end
