(* ===== verification/Set_Sequence.thy ===== *)
theory Set_Sequence
  imports Eo_Bitmap
begin

section \<open>Number sequences (\<^verbatim>\<open>lib/libnc/set/sequence.c\<close>)\<close>

text \<open>
  A sequence hands out the numbers below a maximum, in rising order from a rotating hand,
  and takes them back. The kernel draws its rendezvous keys from one. The record has the
  fields of \<^verbatim>\<open>sequence_t\<close>; \<^verbatim>\<open>rest\<close> and \<^verbatim>\<open>mask\<close> keep their width, block numbers are natural
  numbers. Results are the code's: a number, or \<open>- 1\<close>.
\<close>

record sequence_t =
  sq_rest :: u32
  sq_clock_block :: nat
  sq_num_of_blocks :: nat
  sq_map :: "u32 list"
  sq_mask :: u32

definition INT_MAX :: nat where
  "INT_MAX = 2147483647"

definition SEQUENCE_BLOCK_SIZE :: "nat \<Rightarrow> nat" where
  "SEQUENCE_BLOCK_SIZE n = drop_bit 5 (n + 31)"

text \<open>
  \<^verbatim>\<open>buf\<close> is the caller's array, \<^const>\<open>None\<close> for a null pointer. The loop stores all-ones
  blocks; the last block is cut to the remainder.
\<close>

definition sequence_initialize ::
  "sequence_t \<Rightarrow> nat \<Rightarrow> u32 list option \<Rightarrow> int \<times> sequence_t" where
  "sequence_initialize s mx buf =
     (if mx = 0 \<or> INT_MAX < mx then (- 1, s)
      else case buf of None \<Rightarrow> (- 1, s)
      | Some cells \<Rightarrow>
         let blocks = SEQUENCE_BLOCK_SIZE mx;
             filled = replicate blocks (- 1) @ drop blocks cells;
             remainder = mx AND 31
         in (0, s\<lparr>sq_rest := of_nat mx, sq_clock_block := 0, sq_num_of_blocks := blocks,
                  sq_map := (if remainder \<noteq> 0
                             then filled[blocks - 1 := bit_at remainder - 1] else filled),
                  sq_mask := 0xffffffff\<rparr>))"

definition sequence_find :: "sequence_t \<Rightarrow> nat \<Rightarrow> int \<times> sequence_t" where
  "sequence_find s block =
     (let bits = sq_map s ! block AND sq_mask s
      in if bits \<noteq> 0 then
           let offset = count_ntz bits; b = bit_at offset
           in (int (push_bit 5 block OR offset),
               s\<lparr>sq_rest := sq_rest s - 1, sq_clock_block := block,
                 sq_map := (sq_map s)[block := sq_map s ! block AND NOT b],
                 sq_mask := NOT (push_bit 1 b - 1)\<rparr>)
         else (- 1, s\<lparr>sq_mask := 0xffffffff\<rparr>))"

text \<open>
  The two loops of \<^verbatim>\<open>sequence_get\<close> run \<^verbatim>\<open>_find\<close> over a range of blocks and stop at the
  first hit; a miss leaves \<^verbatim>\<open>clock_block\<close>, the bound of the second loop, alone.
\<close>

function sequence_scan :: "sequence_t \<Rightarrow> nat \<Rightarrow> nat \<Rightarrow> int \<times> sequence_t" where
  "sequence_scan s i n =
     (if i < n then
        (case sequence_find s i of (r, s') \<Rightarrow>
           if 0 \<le> r then (r, s') else sequence_scan s' (Suc i) n)
      else (- 1, s))"
  by pat_completeness auto
termination
  by (relation "measure (\<lambda>(s, i, n). n - i)") auto

declare sequence_scan.simps [simp del]

definition sequence_get :: "sequence_t \<Rightarrow> int \<times> sequence_t" where
  "sequence_get s =
     (if 0 < sq_rest s then
        (case sequence_scan s (sq_clock_block s) (sq_num_of_blocks s) of (r, s') \<Rightarrow>
           if 0 \<le> r then (r, s') else sequence_scan s' 0 (Suc (sq_clock_block s')))
      else (- 1, s))"

text \<open>The \<^verbatim>\<open>int\<close> argument is its 32-bit pattern, as the casts read it.\<close>

definition sequence_release :: "sequence_t \<Rightarrow> u32 \<Rightarrow> sequence_t" where
  "sequence_release s n =
     (let block = unat (drop_bit 5 n); bits = bit_at (unat (n AND 31))
      in if sq_num_of_blocks s \<le> block then s
         else if sq_map s ! block AND bits \<noteq> 0 then s
         else let s1 = s\<lparr>sq_map := (sq_map s)[block := sq_map s ! block OR bits]\<rparr>;
                  s2 = (if sq_rest s1 = 0
                        then s1\<lparr>sq_clock_block := block, sq_mask := 0xffffffff\<rparr> else s1)
              in s2\<lparr>sq_rest := sq_rest s2 + 1\<rparr>)"

subsection \<open>Invariant and abstraction\<close>

text \<open>
  \<open>seq_free\<close> is the set of numbers not handed out. The mask is always the part of a block
  from some bit upwards; with the clock block it is the hand, the place the next search
  starts at.
\<close>

definition seq_free :: "sequence_t \<Rightarrow> nat set" where
  "seq_free s = bm_set (sq_map s)"

definition mask_from :: "nat \<Rightarrow> u32 \<Rightarrow> bool" where
  "mask_from k m \<longleftrightarrow> k \<le> 32 \<and> (\<forall>i < 32. bit m i = (k \<le> i))"

definition sequence_inv :: "nat \<Rightarrow> sequence_t \<Rightarrow> bool" where
  "sequence_inv mx s \<longleftrightarrow>
     mx \<le> INT_MAX \<and> length (sq_map s) = sq_num_of_blocks s \<and>
     sq_num_of_blocks s = SEQUENCE_BLOCK_SIZE mx \<and>
     sq_clock_block s < sq_num_of_blocks s \<and>
     seq_free s \<subseteq> {..<mx} \<and> unat (sq_rest s) = card (seq_free s) \<and>
     (\<exists>k. mask_from k (sq_mask s))"

definition seq_hand :: "sequence_t \<Rightarrow> nat" where
  "seq_hand s = 32 * sq_clock_block s + (if sq_mask s = 0 then 32 else count_ntz (sq_mask s))"

text \<open>\<open>first_from F h x\<close>: \<open>x\<close> is the first member of \<open>F\<close> at or after \<open>h\<close>.\<close>

definition first_from :: "nat set \<Rightarrow> nat \<Rightarrow> nat \<Rightarrow> bool" where
  "first_from F h x \<longleftrightarrow> x \<in> F \<and> h \<le> x \<and> (\<forall>y\<in>F. h \<le> y \<longrightarrow> x \<le> y)"

lemma SEQUENCE_BLOCK_SIZE_div: "SEQUENCE_BLOCK_SIZE n = (n + 31) div 32"
  by (simp add: SEQUENCE_BLOCK_SIZE_def drop_bit_eq_div)

lemma mask_from_all [simp]: "mask_from 0 0xffffffff"
  by (auto simp: mask_from_def bit_numeral_word_iff less_Suc_eq numeral_eq_Suc)

lemma mask_from_next:
  assumes "b < 32" shows "mask_from (Suc b) (NOT (push_bit 1 (bit_at b) - 1))"
proof -
  have "push_bit 1 (bit_at b) - 1 = (mask (Suc b) :: u32)"
    by (simp add: bit_at_def mask_eq_exp_minus_1)
  then show ?thesis using assms
    by (auto simp: mask_from_def bit_not_iff bit_mask_iff)
qed

lemma mask_from_zero: "mask_from k m \<Longrightarrow> m = 0 \<longleftrightarrow> k = 32"
  by (auto simp: mask_from_def word_zero_iff_no_bit) (meson le_antisym le_refl not_le)

lemma mask_from_hand: "mask_from k m \<Longrightarrow> k = (if m = 0 then 32 else count_ntz m)"
  using mask_from_zero [of k m] count_ntz_first [of m]
  by (auto simp: mask_from_def) (metis linorder_neqE_nat order.refl not_le_imp_less leD)

subsection \<open>One block, then a range of blocks\<close>

text \<open>The state after number \<open>x\<close> has been handed out.\<close>

definition seq_taken :: "sequence_t \<Rightarrow> nat \<Rightarrow> sequence_t" where
  "seq_taken s x = s\<lparr>sq_rest := sq_rest s - 1, sq_clock_block := x div 32,
     sq_map := (sq_map s)[x div 32 := sq_map s ! (x div 32) AND NOT (bit_at (x mod 32))],
     sq_mask := NOT (push_bit 1 (bit_at (x mod 32)) - 1)\<rparr>"

lemma masked_block:
  assumes "i < length (sq_map s)" and "mask_from k (sq_mask s)" and "b < 32"
  shows "bit (sq_map s ! i AND sq_mask s) b \<longleftrightarrow> 32 * i + b \<in> seq_free s \<and> k \<le> b"
  using assms by (auto simp: seq_free_def in_bm_set_block bit_and_iff mask_from_def)

lemma in_block_range:
  "(32 * i + k \<le> y \<and> y < 32 * Suc i) \<longleftrightarrow> (\<exists>b < 32. k \<le> b \<and> y = 32 * i + (b :: nat))"
  by (auto intro: exI [of _ "y - 32 * i"])

lemma sequence_find_miss:
  assumes i: "i < length (sq_map s)" and k: "mask_from k (sq_mask s)"
    and none: "\<forall>y\<in>seq_free s. \<not> (32 * i + k \<le> y \<and> y < 32 * Suc i)"
  shows "sequence_find s i = (- 1, s\<lparr>sq_mask := 0xffffffff\<rparr>)"
proof -
  have "sq_map s ! i AND sq_mask s = 0"
    using none masked_block [OF i k] unfolding in_block_range by (auto simp: word_zero_iff_no_bit)
  then show ?thesis by (simp add: sequence_find_def)
qed

lemma sequence_find_hit:
  assumes i: "i < length (sq_map s)" and k: "mask_from k (sq_mask s)"
    and some: "y \<in> seq_free s" "32 * i + k \<le> y" "y < 32 * Suc i"
  obtains x where "sequence_find s i = (int x, seq_taken s x)"
    and "first_from (seq_free s) (32 * i + k) x"
proof -
  let ?bits = "sq_map s ! i AND sq_mask s"
  let ?b = "count_ntz ?bits"
  let ?x = "32 * i + ?b"
  from some in_block_range [of i k y] obtain b where "b < 32" "k \<le> b" "y = 32 * i + b" by auto
  then have nz: "?bits \<noteq> 0"
    using masked_block [OF i k, of b] some(1) by (auto simp: word_zero_iff_no_bit)
  note scan = count_ntz_first [OF nz]
  have x: "?x \<in> seq_free s" "k \<le> ?b"
    using masked_block [OF i k scan(1)] scan(2) by auto
  have least: "?x \<le> z" if z: "z \<in> seq_free s" "32 * i + k \<le> z" for z
  proof (rule ccontr)
    assume "\<not> ?x \<le> z"
    moreover from this z obtain c where c: "c < 32" "k \<le> c" "z = 32 * i + c"
      using in_block_range [of i k z] scan(1) by auto
    ultimately have "c < ?b" by simp
    moreover from masked_block [OF i k c(1)] z c have "bit ?bits c" by simp
    ultimately show False using scan(3) by blast
  qed
  have "sequence_find s i = (int ?x, seq_taken s ?x)"
    using nz scan(1) by (simp add: sequence_find_def seq_taken_def Let_def block_number_as_or)
  moreover have "first_from (seq_free s) (32 * i + k) ?x"
    using x least by (simp add: first_from_def)
  ultimately show thesis by (rule that)
qed

lemma sequence_scan_hit:
  assumes "n \<le> length (sq_map s)" and "mask_from k (sq_mask s)"
    and "y \<in> seq_free s" and "32 * i + k \<le> y" and "y < 32 * n"
  shows "\<exists>x. sequence_scan s i n = (int x, seq_taken s x) \<and>
    first_from (seq_free s) (32 * i + k) x"
  using assms
proof (induction s i n arbitrary: k rule: sequence_scan.induct)
  case (1 s i n)
  from "1.prems"(4,5) have i: "i < n" by auto
  with "1.prems"(1) have il: "i < length (sq_map s)" by simp
  show ?case
  proof (cases "\<exists>z\<in>seq_free s. 32 * i + k \<le> z \<and> z < 32 * Suc i")
    case True
    then obtain z where "z \<in> seq_free s" "32 * i + k \<le> z" "z < 32 * Suc i" by auto
    from sequence_find_hit [OF il "1.prems"(2) this] obtain x where
      "sequence_find s i = (int x, seq_taken s x)" "first_from (seq_free s) (32 * i + k) x" .
    then show ?thesis using i by (auto simp: sequence_scan.simps [of s i n])
  next
    case False
    let ?s = "s\<lparr>sq_mask := 0xffffffff\<rparr>"
    from False have f: "sequence_find s i = (- 1, ?s)"
      by (intro sequence_find_miss [OF il "1.prems"(2)]) auto
    have fr: "seq_free ?s = seq_free s" by (simp add: seq_free_def)
    from False "1.prems"(3,4) have y: "32 * Suc i + 0 \<le> y"
      by (metis add.right_neutral not_le)
    have "\<exists>x. sequence_scan ?s (Suc i) n = (int x, seq_taken ?s x) \<and>
      first_from (seq_free ?s) (32 * Suc i + 0) x"
      using "1.IH" [OF i f [symmetric], of 0] "1.prems" y fr by simp
    then obtain x where x: "sequence_scan ?s (Suc i) n = (int x, seq_taken ?s x)"
      "first_from (seq_free s) (32 * Suc i) x" using fr by auto
    have "first_from (seq_free s) (32 * i + k) x"
      using x(2) False "1.prems"(2)
      by (auto simp: first_from_def mask_from_def)
    moreover have "sequence_scan s i n = (int x, seq_taken s x)"
      using x(1) f i by (simp add: sequence_scan.simps [of s i n] seq_taken_def)
    ultimately show ?thesis by auto
  qed
qed

lemma sequence_scan_miss:
  assumes "n \<le> length (sq_map s)" and "mask_from k (sq_mask s)"
    and "\<forall>y\<in>seq_free s. \<not> (32 * i + k \<le> y \<and> y < 32 * n)" and "i < n"
  shows "sequence_scan s i n = (- 1, s\<lparr>sq_mask := 0xffffffff\<rparr>)"
  using assms
proof (induction s i n arbitrary: k rule: sequence_scan.induct)
  case (1 s i n)
  let ?s = "s\<lparr>sq_mask := 0xffffffff\<rparr>"
  have none: "\<forall>y\<in>seq_free s. \<not> (32 * i + k \<le> y \<and> y < 32 * Suc i)"
    using "1.prems"(3,4) by (meson Suc_leI less_le_trans mult_le_mono2)
  have f: "sequence_find s i = (- 1, ?s)"
    by (rule sequence_find_miss [OF _ "1.prems"(2) none]) (use "1.prems" in simp)
  show ?case
  proof (cases "Suc i < n")
    case True
    have "\<forall>y\<in>seq_free ?s. \<not> (32 * Suc i + 0 \<le> y \<and> y < 32 * n)"
      using "1.prems"(2,3) by (auto simp: seq_free_def mask_from_def)
    with "1.IH" [OF "1.prems"(4) f [symmetric], of 0] "1.prems" True
    have "sequence_scan ?s (Suc i) n = (- 1, ?s)" by simp
    with f "1.prems"(4) show ?thesis by (simp add: sequence_scan.simps [of s i n])
  next
    case False
    then show ?thesis using f "1.prems"(4)
      by (simp add: sequence_scan.simps [of s i n] sequence_scan.simps [of ?s "Suc i" n])
  qed
qed

subsection \<open>The operations keep the invariant\<close>

lemma seq_free_taken:
  assumes "x \<in> seq_free s" shows "seq_free (seq_taken s x) = seq_free s - {x}"
  using assms bm_set_clear [of "x div 32" "sq_map s" "x mod 32"] bm_setD [of x "sq_map s"]
  by (simp add: seq_free_def seq_taken_def)

lemma sequence_inv_taken:
  assumes inv: "sequence_inv mx s" and x: "x \<in> seq_free s"
  shows "sequence_inv mx (seq_taken s x)"
proof -
  from inv have r: "unat (sq_rest s) = card (seq_free s)" by (simp add: sequence_inv_def)
  have "0 < card (seq_free s)"
    using x by (auto simp: seq_free_def card_gt_0_iff)
  then have "unat (sq_rest s - 1) = card (seq_free s) - 1"
    using r by (simp add: unat_sub_no_wrap)
  then have "unat (sq_rest (seq_taken s x)) = card (seq_free (seq_taken s x))"
    using x by (simp add: seq_free_taken card_Diff_singleton) (simp add: seq_taken_def)
  moreover have "\<exists>k. mask_from k (sq_mask (seq_taken s x))"
    using mask_from_next [of "x mod 32"] by (auto simp: seq_taken_def)
  moreover have "x div 32 < sq_num_of_blocks s"
    using inv x bm_setD [of x "sq_map s"] by (auto simp: sequence_inv_def seq_free_def)
  ultimately show ?thesis
    using inv x seq_free_taken [OF x] by (auto simp: sequence_inv_def seq_taken_def)
qed

lemma seq_hand_mask:
  "mask_from k (sq_mask s) \<Longrightarrow> seq_hand s = 32 * sq_clock_block s + k"
  using mask_from_hand [of k "sq_mask s"] by (simp add: seq_hand_def)

lemma seq_free_bound:
  assumes "sequence_inv mx s" and "y \<in> seq_free s"
  shows "y < 32 * sq_num_of_blocks s"
  using assms bm_setD [of y "sq_map s"] by (simp add: sequence_inv_def seq_free_def)

lemma sequence_get_hit:
  assumes inv: "sequence_inv mx s" and ne: "seq_free s \<noteq> {}"
  shows "\<exists>x. sequence_get s = (int x, seq_taken s x) \<and>
    (if \<exists>y\<in>seq_free s. seq_hand s \<le> y then first_from (seq_free s) (seq_hand s) x
     else first_from (seq_free s) 0 x)"
proof -
  from inv obtain k where k: "mask_from k (sq_mask s)" by (auto simp: sequence_inv_def)
  from inv have len: "sq_num_of_blocks s \<le> length (sq_map s)"
    "Suc (sq_clock_block s) \<le> length (sq_map s)" "sq_clock_block s < sq_num_of_blocks s"
    by (auto simp: sequence_inv_def)
  have pos: "0 < sq_rest s"
    using inv ne by (auto simp: sequence_inv_def word_less_nat_alt card_gt_0_iff seq_free_def)
  show ?thesis
  proof (cases "\<exists>y\<in>seq_free s. seq_hand s \<le> y")
    case True
    then obtain y where y: "y \<in> seq_free s" "32 * sq_clock_block s + k \<le> y"
      using seq_hand_mask [OF k] by auto
    from sequence_scan_hit [OF len(1) k y seq_free_bound [OF inv y(1)]] True pos
    show ?thesis by (auto simp: sequence_get_def seq_hand_mask [OF k])
  next
    case False
    let ?s = "s\<lparr>sq_mask := 0xffffffff\<rparr>"
    have miss: "sequence_scan s (sq_clock_block s) (sq_num_of_blocks s) = (- 1, ?s)"
      using False len by (intro sequence_scan_miss [OF len(1) k]) (auto simp: seq_hand_mask [OF k])
    from ne obtain y where y: "y \<in> seq_free s" by auto
    then have yf: "y \<in> seq_free ?s" by (simp add: seq_free_def)
    from False y have "y < 32 * Suc (sq_clock_block s)"
      using k by (auto simp: seq_hand_mask [OF k] mask_from_def not_le)
    then have "\<exists>x. sequence_scan ?s 0 (Suc (sq_clock_block s)) = (int x, seq_taken ?s x) \<and>
      first_from (seq_free ?s) (32 * 0 + 0) x"
      using yf len(2) by (intro sequence_scan_hit) auto
    then show ?thesis
      using False pos miss by (auto simp: sequence_get_def seq_taken_def seq_free_def)
  qed
qed

lemma sequence_get_empty:
  assumes "sequence_inv mx s" and "seq_free s = {}"
  shows "sequence_get s = (- 1, s)"
  using assms by (auto simp: sequence_get_def sequence_inv_def word_less_nat_alt)

lemma release_block:
  "unat (drop_bit 5 n) = unat n div 32" "unat (n AND 31) = unat n mod 32" for n :: u32
  by (simp_all add: drop_bit_eq_div unat_div unat_and_31)

lemma sequence_release_new:
  assumes inv: "sequence_inv mx s" and n: "unat n < mx" "unat n \<notin> seq_free s"
  shows "seq_free (sequence_release s n) = insert (unat n) (seq_free s)"
    and "sequence_inv mx (sequence_release s n)"
proof -
  let ?i = "unat n div 32" and ?b = "unat n mod 32"
  let ?m = "(sq_map s)[?i := sq_map s ! ?i OR bit_at ?b]"
  from inv have l: "length (sq_map s) = sq_num_of_blocks s"
    and nb: "sq_num_of_blocks s = (mx + 31) div 32" and mx: "mx \<le> INT_MAX"
    and rest: "unat (sq_rest s) = card (seq_free s)" and sub: "seq_free s \<subseteq> {..<mx}"
    by (auto simp: sequence_inv_def SEQUENCE_BLOCK_SIZE_div)
  have i: "?i < sq_num_of_blocks s" using n(1) nb by simp
  have clear: "sq_map s ! ?i AND bit_at ?b = 0"
    using n(2) i l test_bit_mask [of "sq_map s ! ?i" ?b] by (auto simp: seq_free_def bm_set_def)
  have m: "bm_set ?m = insert (unat n) (seq_free s)"
    using bm_set_set [of ?i "sq_map s" ?b] i l by (simp add: seq_free_def)
  have card_le: "card (seq_free s) \<le> mx"
    using card_mono [OF _ sub] by simp
  have "unat (sq_rest s + 1) = Suc (card (seq_free s))"
    using rest card_le mx by (simp add: unat_add_no_wrap INT_MAX_def)
  then have r: "unat (sq_rest s + 1) = card (insert (unat n) (seq_free s))"
    using n(2) by (simp add: seq_free_def)
  have eq: "sequence_release s n = s\<lparr>sq_map := ?m, sq_rest := sq_rest s + 1,
      sq_clock_block := (if sq_rest s = 0 then ?i else sq_clock_block s),
      sq_mask := (if sq_rest s = 0 then 0xffffffff else sq_mask s)\<rparr>"
    using i clear by (simp add: sequence_release_def Let_def release_block)
  show fr: "seq_free (sequence_release s n) = insert (unat n) (seq_free s)"
    using m by (simp add: eq seq_free_def)
  show "sequence_inv mx (sequence_release s n)"
    using inv fr r i n by (auto simp: sequence_inv_def eq intro: mask_from_all)
qed

lemma block_less_iff:
  "(x :: nat) < y \<longleftrightarrow> x div 32 < y div 32 \<or> x div 32 = y div 32 \<and> x mod 32 < y mod 32"
proof -
  have "32 * a + b < 32 * c + d \<longleftrightarrow> a < c \<or> a = c \<and> b < d"
    if "b < 32" "d < 32" for a b c d :: nat
    using that by linarith
  from this [of "x mod 32" "y mod 32" "x div 32" "y div 32"] show ?thesis by simp
qed

lemma block_round_up: "(mx + 31) div 32 = mx div 32 + (if mx mod 32 = 0 then 0 else 1 :: nat)"
proof -
  have "(32 * a + b + 31) div 32 = a + (if b = 0 then 0 else 1)" if "b < 32" for a b :: nat
    using that by auto
  from this [of "mx mod 32" "mx div 32"] show ?thesis by simp
qed

lemma full_map_bits:
  fixes mx :: nat
  assumes n: "n = (mx + 31) div 32"
  shows "x \<in> bm_set (if mx mod 32 \<noteq> 0 then (replicate n (- 1))[n - 1 := bit_at (mx mod 32) - 1]
    else replicate n (- 1)) \<longleftrightarrow> x < mx"
proof (cases "mx mod 32 = 0")
  case True
  then have "n = mx div 32" by (simp add: n block_round_up)
  then show ?thesis
    using True by (auto simp: bm_set_def)
next
  case False
  then have "n = Suc (mx div 32)" by (simp add: n block_round_up)
  then have n1: "n - 1 = mx div 32" and n2: "i < n \<longleftrightarrow> i \<le> mx div 32" for i by auto
  have m: "bit_at (mx mod 32) - 1 = (mask (mx mod 32) :: u32)"
    by (simp add: bit_at_def mask_eq_exp_minus_1)
  have low: "bit (bit_at (mx mod 32) - 1 :: u32) i \<longleftrightarrow> i < mx mod 32" for i
    unfolding m bit_mask_iff using less_trans [OF _ mod_less_divisor, of i mx 32] by auto
  have "x \<in> bm_set ((replicate n (- 1))[n - 1 := bit_at (mx mod 32) - 1]) \<longleftrightarrow>
      x div 32 < mx div 32 \<or> x div 32 = mx div 32 \<and> x mod 32 < mx mod 32"
  proof (cases "x div 32 = mx div 32")
    case True
    then show ?thesis using n1 n2 low by (simp add: bm_set_def)
  next
    case False
    then have "x \<in> bm_set ((replicate n (- 1))[n - 1 := bit_at (mx mod 32) - 1]) \<longleftrightarrow> x div 32 < n"
      using n1 by (simp add: bm_set_def cong: conj_cong)
    then show ?thesis using False n2 [of "x div 32"] by (simp add: le_less)
  qed
  then show ?thesis using False unfolding block_less_iff [of x mx] by simp
qed

lemma sequence_initialize_free:
  assumes mx: "0 < mx" "mx \<le> INT_MAX" and buf: "length cells = SEQUENCE_BLOCK_SIZE mx"
  shows "fst (sequence_initialize s mx (Some cells)) = 0"
    and "seq_free (snd (sequence_initialize s mx (Some cells))) = {..<mx}"
    and "sequence_inv mx (snd (sequence_initialize s mx (Some cells)))"
proof -
  let ?n = "SEQUENCE_BLOCK_SIZE mx" and ?r = "mx AND 31"
  let ?full = "replicate ?n (- 1) :: u32 list"
  let ?m = "if ?r \<noteq> 0 then ?full[?n - 1 := bit_at ?r - 1] else ?full"
  have r: "?r = mx mod 32" by (rule and_31_mod_nat)
  have n: "?n = (mx + 31) div 32" by (rule SEQUENCE_BLOCK_SIZE_div)
  show "fst (sequence_initialize s mx (Some cells)) = 0"
    using mx by (simp add: sequence_initialize_def Let_def)
  have map: "sq_map (snd (sequence_initialize s mx (Some cells))) = ?m"
    using mx buf by (simp add: sequence_initialize_def Let_def)
  have bits: "x \<in> bm_set ?m \<longleftrightarrow> x < mx" for x
    unfolding r by (rule full_map_bits) (rule n)
  show fr: "seq_free (snd (sequence_initialize s mx (Some cells))) = {..<mx}"
    unfolding seq_free_def map by (rule set_eqI) (simp only: bits lessThan_iff)
  have fields: "sq_rest (snd (sequence_initialize s mx (Some cells))) = of_nat mx"
    "sq_clock_block (snd (sequence_initialize s mx (Some cells))) = 0"
    "sq_num_of_blocks (snd (sequence_initialize s mx (Some cells))) = ?n"
    "sq_mask (snd (sequence_initialize s mx (Some cells))) = 0xffffffff"
    using mx by (simp_all add: sequence_initialize_def Let_def)
  have "length ?m = ?n" by simp
  moreover have "unat (of_nat mx :: u32) = mx" using mx by (simp add: unat_of_nat INT_MAX_def)
  moreover have "0 < ?n" using mx by (simp add: n)
  ultimately show "sequence_inv mx (snd (sequence_initialize s mx (Some cells)))"
    unfolding sequence_inv_def fields fr unfolding map using mx by (auto intro: mask_from_all)
qed

subsection \<open>A sequence is a number pool\<close>

definition sequence_get_opt :: "sequence_t \<Rightarrow> nat option \<times> sequence_t" where
  "sequence_get_opt s =
     (case sequence_get s of (r, s') \<Rightarrow> (if r < 0 then None else Some (nat r), s'))"

interpretation seq: number_pool "sequence_inv mx" "\<lambda>_. {..<mx}" seq_free
  sequence_get_opt "\<lambda>n s. sequence_release s (of_nat n)" for mx
proof (unfold_locales, goal_cases)
  case (1 s)
  then show ?case by (auto simp: sequence_inv_def)
next
  case (2 s)
  from sequence_get_hit [OF 2] obtain x where x: "sequence_get s = (int x, seq_taken s x)"
    and "x \<in> seq_free s" by (auto simp: first_from_def split: if_splits)
  with seq_free_taken sequence_inv_taken [OF 2(1)] show ?case
    by (intro exI [of _ x] exI [of _ "seq_taken s x"]) (simp add: sequence_get_opt_def)
next
  case (3 s)
  then show ?case by (simp add: sequence_get_opt_def sequence_get_empty)
next
  case (4 s n)
  then have "unat (of_nat n :: u32) = n"
    by (simp add: unat_of_nat sequence_inv_def INT_MAX_def)
  with sequence_release_new [OF 4(1), of "of_nat n"] 4 show ?case by simp
qed

subsection \<open>Properties\<close>

text \<open>A small sequence for the witnesses: three numbers in one block.\<close>

definition seq_blank :: sequence_t where
  "seq_blank = \<lparr>sq_rest = 0, sq_clock_block = 0, sq_num_of_blocks = 0, sq_map = [], sq_mask = 0\<rparr>"

definition seq_demo :: sequence_t where
  "seq_demo = \<lparr>sq_rest = 3, sq_clock_block = 0, sq_num_of_blocks = 1, sq_map = [7],
     sq_mask = 0xffffffff\<rparr>"

lemma seq_demo_made: "sequence_initialize seq_blank 3 (Some [9]) = (0, seq_demo)"
  by (simp add: sequence_initialize_def seq_blank_def seq_demo_def INT_MAX_def
      SEQUENCE_BLOCK_SIZE_def bit_at_def Let_def and_31_mod_nat)

lemma seq_demo_inv: "sequence_inv 3 seq_demo" "seq_free seq_demo = {..<3}"
  using sequence_initialize_free [of 3 "[9]" seq_blank] seq_demo_made
  by (simp_all add: INT_MAX_def SEQUENCE_BLOCK_SIZE_def)

text \<open>
  After initialisation with a positive maximum in the range of \<^verbatim>\<open>int\<close> and an array of
  \<^verbatim>\<open>SEQUENCE_BLOCK_SIZE\<close> blocks, the sequence reports success, exactly the numbers below the
  maximum are free and the invariant holds: the count of free numbers, the block count and
  the map agree.
\<close>

theorem sequence_initialize_correct:
  assumes "0 < mx" and "mx \<le> INT_MAX" and "length cells = SEQUENCE_BLOCK_SIZE mx"
    and "sequence_initialize s mx (Some cells) = (r, s')"
  shows "r = 0 \<and> seq_free s' = {..<mx} \<and> sequence_inv mx s'"
  using sequence_initialize_free [OF assms(1-3), of s] assms(4) by simp

theorem sequence_initialize_correct_witness:
  "sequence_initialize seq_blank 3 (Some [9]) = (0, seq_demo) \<and>
   seq_free seq_demo = {..<3} \<and> sequence_inv 3 seq_demo"
  using sequence_initialize_correct [OF _ _ _ seq_demo_made]
  by (simp add: seq_demo_made INT_MAX_def SEQUENCE_BLOCK_SIZE_def)

text \<open>
  C20. \<^verbatim>\<open>sequence_get\<close> answers \<open>-1\<close>, and changes nothing, exactly when no number is free. Otherwise it returns a free number and takes
  exactly that one out. The number is the first free one at or after the rotating hand, or,
  when there is none, the first free one of all; the hand moves just behind it.
\<close>

theorem sequence_get_round_robin:
  assumes "sequence_inv mx s" and "sequence_get s = (r, s')"
  shows "if seq_free s = {} then r = - 1 \<and> s' = s else \<exists>x. r = int x \<and> x < mx \<and> seq_free s' = seq_free s - {x} \<and>
    (if \<exists>y\<in>seq_free s. seq_hand s \<le> y then first_from (seq_free s) (seq_hand s) x
     else first_from (seq_free s) 0 x) \<and>
    seq_hand s' = Suc x \<and> sequence_inv mx s'"
proof (cases "seq_free s = {}")
  case True
  then show ?thesis using sequence_get_empty [OF assms(1)] assms(2) by simp
next
  case False
  from sequence_get_hit [OF assms(1) this] assms(2) obtain x where x: "r = int x" "s' = seq_taken s x"
    "if \<exists>y\<in>seq_free s. seq_hand s \<le> y then first_from (seq_free s) (seq_hand s) x
     else first_from (seq_free s) 0 x" by auto
  then have f: "x \<in> seq_free s" by (auto simp: first_from_def split: if_splits)
  then have "x < mx" using assms(1) by (auto simp: sequence_inv_def)
  moreover have "seq_hand s' = Suc x"
    using seq_hand_mask [of "Suc (x mod 32)" "seq_taken s x"] mask_from_next [of "x mod 32"] x(2)
    by (simp add: seq_taken_def)
  ultimately show ?thesis
    using False x f seq_free_taken sequence_inv_taken [OF assms(1)] by auto
qed

theorem sequence_get_round_robin_witness:
  "(\<exists>x s'. sequence_get seq_demo = (int x, s') \<and> x < 3 \<and> seq_free s' = {..<3} - {x} \<and>
     seq_hand s' = Suc x \<and> sequence_inv 3 s') \<and>
   (\<exists>s s'. seq_free s = {} \<and> sequence_inv 3 s \<and> sequence_get s = (- 1, s') \<and> s' = s)"
proof
  obtain r s' where g: "sequence_get seq_demo = (r, s')" by fastforce
  from sequence_get_round_robin [OF seq_demo_inv(1) g] g
  show "\<exists>x s'. sequence_get seq_demo = (int x, s') \<and> x < 3 \<and> seq_free s' = {..<3} - {x} \<and>
     seq_hand s' = Suc x \<and> sequence_inv 3 s'"
    by (auto simp: seq_demo_inv(2) lessThan_empty_iff)
  let ?s = "seq_demo\<lparr>sq_rest := 0, sq_map := [0]\<rparr>"
  have "seq_free ?s = {}" by (auto simp: seq_free_def bm_set_def)
  moreover have "sequence_inv 3 ?s" using seq_demo_inv(1) calculation by (auto simp: sequence_inv_def seq_demo_def)
  ultimately show "\<exists>s s'. seq_free s = {} \<and> sequence_inv 3 s \<and> sequence_get s = (- 1, s') \<and> s' = s"
    using sequence_get_round_robin [of 3 ?s] by (metis prod.exhaust)
qed

text \<open>
  However a client mixes requests and releases of numbers it holds, the numbers it holds
  stay pairwise distinct and below the maximum, and together with the free ones they are all
  numbers of the sequence: none is handed out twice and none is lost.
\<close>

theorem sequence_never_twice:
  assumes "sequence_inv mx s" and "seq_free s = {..<mx}"
    and "pool_run sequence_get_opt (\<lambda>n s. sequence_release s (of_nat n)) es (s, []) = Some (s', held)"
  shows "distinct held \<and> set held \<inter> seq_free s' = {} \<and> set held \<union> seq_free s' = {..<mx}"
  using seq.pool_run_distinct [OF assms(1) assms(2) assms(3)] by simp

theorem sequence_never_twice_witness:
  "\<exists>s' held. pool_run sequence_get_opt (\<lambda>n s. sequence_release s (of_nat n))
       [None, None, Some 0, None] (seq_demo, []) = Some (s', held) \<and> held = [2, 1] \<and>
     distinct held \<and> set held \<union> seq_free s' = {..<3}"
proof -
  have "map_option snd (pool_run sequence_get_opt (\<lambda>n s. sequence_release s (of_nat n))
       [None, None, Some 0, None] (seq_demo, [])) = Some [2, 1]"
    by (simp add: sequence_get_opt_def sequence_get_def sequence_scan.simps sequence_find_def
        sequence_release_def seq_demo_def count_ntz_def bsfl_numeral bit_at_def Let_def)
  then obtain s' where "pool_run sequence_get_opt (\<lambda>n s. sequence_release s (of_nat n))
       [None, None, Some 0, None] (seq_demo, []) = Some (s', [2, 1])" by auto
  from sequence_never_twice [OF seq_demo_inv this] this show ?thesis by auto
qed

end
