(* ===== verification/Set_List.thy ===== *)
theory Set_List
  imports Eo_Prelude
begin

section \<open>Intrusive lists (\<^verbatim>\<open>lib/libnc/set/list.c\<close>, \<^verbatim>\<open>include/set/list.h\<close>)\<close>

text \<open>
  A \<^verbatim>\<open>list_t\<close> is a pair of pointers inside another object; a list is a ring through a guard.
  The model is the store of these pairs: \<open>nxt\<close> and \<open>prv\<close> give the two pointers of a node.
  Each operation does the assignments of the C function in their order, aliasing included.
  What the operations mean is stated over the sequences the rings denote (\<open>rings\<close>), and the
  interface \<open>queue_family\<close> collects these laws for the kernel's queues.
\<close>

record 'n links =
  nxt :: "'n \<Rightarrow> 'n"
  prv :: "'n \<Rightarrow> 'n"

abbreviation set_nxt :: "'n \<Rightarrow> 'n \<Rightarrow> 'n links \<Rightarrow> 'n links" where
  "set_nxt x y h \<equiv> h\<lparr>nxt := (nxt h)(x := y)\<rparr>"

abbreviation set_prv :: "'n \<Rightarrow> 'n \<Rightarrow> 'n links \<Rightarrow> 'n links" where
  "set_prv x y h \<equiv> h\<lparr>prv := (prv h)(x := y)\<rparr>"

definition list_next :: "'n \<Rightarrow> 'n links \<Rightarrow> 'n" where
  "list_next entry h = nxt h entry"

definition list_prev :: "'n \<Rightarrow> 'n links \<Rightarrow> 'n" where
  "list_prev entry h = prv h entry"

definition list_is_empty :: "'n \<Rightarrow> 'n links \<Rightarrow> bool" where
  "list_is_empty entry h \<longleftrightarrow> nxt h entry = entry"

definition list_is_edge :: "'n \<Rightarrow> 'n \<Rightarrow> bool" where
  "list_is_edge guard entry \<longleftrightarrow> guard = entry"

definition list_edge_to_null :: "'n \<Rightarrow> 'n \<Rightarrow> 'n option" where
  "list_edge_to_null guard entry = (if guard = entry then None else Some entry)"

definition list_head :: "'n \<Rightarrow> 'n links \<Rightarrow> 'n option" where
  "list_head guard h = list_edge_to_null guard (nxt h guard)"

definition list_tail :: "'n \<Rightarrow> 'n links \<Rightarrow> 'n option" where
  "list_tail guard h = list_edge_to_null guard (prv h guard)"

definition list_initialize :: "'n \<Rightarrow> 'n links \<Rightarrow> 'n links" where
  "list_initialize entry h = set_prv entry entry (set_nxt entry entry h)"

definition list_append :: "'n \<Rightarrow> 'n \<Rightarrow> 'n links \<Rightarrow> 'n links" where
  "list_append to entry h =
     (let prev = prv h to;
          h1 = set_nxt entry to h;
          h2 = set_prv entry prev h1;
          h3 = set_prv to entry h2
      in set_nxt prev entry h3)"

definition list_insert :: "'n \<Rightarrow> 'n \<Rightarrow> 'n links \<Rightarrow> 'n links" where
  "list_insert to entry h =
     (let next = nxt h to;
          h1 = set_nxt entry next h;
          h2 = set_prv entry to h1;
          h3 = set_nxt to entry h2
      in set_prv next entry h3)"

definition list_remove :: "'n \<Rightarrow> 'n links \<Rightarrow> 'n links" where
  "list_remove entry h =
     (let next = nxt h entry; prev = prv h entry;
          h1 = set_prv next prev h;
          h2 = set_nxt prev next h1
      in list_initialize entry h2)"

definition list_pick :: "'n \<Rightarrow> 'n links \<Rightarrow> 'n option \<times> 'n links" where
  "list_pick guard h =
     (let entry = nxt h guard
      in if list_is_edge guard entry then (None, h) else (Some entry, list_remove entry h))"

definition list_push :: "'n \<Rightarrow> 'n \<Rightarrow> 'n links \<Rightarrow> 'n links" where
  "list_push guard entry h = list_insert guard entry h"

definition list_pop :: "'n \<Rightarrow> 'n links \<Rightarrow> 'n option \<times> 'n links" where
  "list_pop guard h = list_pick guard h"

definition list_enqueue :: "'n \<Rightarrow> 'n \<Rightarrow> 'n links \<Rightarrow> 'n links" where
  "list_enqueue guard entry h = list_append guard entry h"

definition list_dequeue :: "'n \<Rightarrow> 'n links \<Rightarrow> 'n option \<times> 'n links" where
  "list_dequeue guard h = list_pick guard h"

text \<open>
  \<^verbatim>\<open>list_release\<close> follows the ring until it is back at the guard; on a broken ring it would
  not return, which is \<^const>\<open>None\<close>.
\<close>

partial_function (option) list_release_loop :: "'n \<Rightarrow> 'n \<Rightarrow> 'n links \<Rightarrow> 'n links option" where
  "list_release_loop guard entry h =
     (let next = nxt h entry; h' = list_initialize entry h
      in if \<not> list_is_edge guard next then list_release_loop guard next h' else Some h')"

definition list_release :: "'n \<Rightarrow> 'n links \<Rightarrow> 'n links option" where
  "list_release guard h = list_release_loop guard guard h"

subsection \<open>Rings as sequences\<close>

fun linked :: "'n links \<Rightarrow> 'n list \<Rightarrow> bool" where
  "linked h (x # y # zs) \<longleftrightarrow> nxt h x = y \<and> prv h y = x \<and> linked h (y # zs)"
| "linked h _ \<longleftrightarrow> True"

definition ring :: "'n links \<Rightarrow> 'n \<Rightarrow> 'n list \<Rightarrow> bool" where
  "ring h g xs \<longleftrightarrow> distinct (g # xs) \<and> linked h (g # xs @ [g])"

lemma linked_split: "linked h (xs @ y # zs) \<longleftrightarrow> linked h (xs @ [y]) \<and> linked h (y # zs)"
proof (induction xs)
  case (Cons x xs)
  then show ?case by (cases xs) auto
qed simp

lemma linked_cong:
  assumes "\<forall>x\<in>set (butlast l). nxt h' x = nxt h x" and "\<forall>x\<in>set (tl l). prv h' x = prv h x"
  shows "linked h' l = linked h l"
  using assms by (induction h l rule: linked.induct) auto

lemma ring_next: "ring h g xs \<Longrightarrow> nxt h g = hd (xs @ [g])"
  by (cases xs) (auto simp: ring_def)

lemma ring_prev: "ring h g xs \<Longrightarrow> prv h g = last (g # xs)"
proof (cases xs rule: rev_cases)
  case (snoc ys y)
  moreover assume "ring h g xs"
  ultimately have "linked h ((g # ys) @ y # [g])" by (simp add: ring_def)
  then have "prv h g = y" using linked_split [of h "g # ys" y "[g]"] by simp
  with snoc show ?thesis by simp
qed (simp add: ring_def)

lemma ring_frame:
  assumes "ring h g xs" and "\<forall>x\<in>set (g # xs). nxt h' x = nxt h x \<and> prv h' x = prv h x"
  shows "ring h' g xs"
proof -
  have "set (butlast (g # xs @ [g])) \<subseteq> set (g # xs)" "set (tl (g # xs @ [g])) \<subseteq> set (g # xs)"
    by (auto simp: butlast_append split: if_splits)
  then show ?thesis
    using assms linked_cong [of "g # xs @ [g]" h' h] unfolding ring_def by blast
qed

lemma ring_append:
  assumes r: "ring h g xs" and e: "e \<notin> set (g # xs)"
  shows "ring (list_append g e h) g (xs @ [e])"
proof -
  define p where "p = last (g # xs)"
  define ys where "ys = butlast (g # xs)"
  let ?h = "list_append g e h"
  have gx: "g # xs = ys @ [p]" unfolding p_def ys_def by (rule append_butlast_last_id [symmetric]) simp
  have d: "distinct (ys @ [p])" "e \<notin> set (ys @ [p])" using r e gx unfolding ring_def by metis+
  have hp: "prv h g = p" using ring_prev [OF r] p_def by simp
  have tl: "g \<notin> set (tl (ys @ [p]))" using r unfolding gx [symmetric] ring_def by simp
  have etl: "e \<notin> set (tl (ys @ [p]))" using d(2) by (cases ys) auto
  have upd: "nxt ?h = (nxt h)(e := g, p := e)" "prv ?h = (prv h)(e := p, g := e)"
    by (simp_all add: list_append_def Let_def hp)
  have "linked h ((g # xs) @ [g])" using r by (simp add: ring_def)
  then have "linked h (ys @ [p])" using linked_split [of h ys p "[g]"] unfolding gx by simp
  moreover have "linked ?h (ys @ [p]) = linked h (ys @ [p])"
    using d tl etl by (intro linked_cong) (auto simp: upd)
  moreover have "linked ?h [p, e, g]"
    using e d(2) by (auto simp: upd)
  ultimately have "linked ?h ((ys @ [p]) @ [e, g])" using linked_split [of ?h ys p "[e, g]"] by simp
  then show ?thesis using r e unfolding gx [symmetric] by (auto simp: ring_def)
qed

lemma ring_insert:
  assumes r: "ring h g xs" and e: "e \<notin> set (g # xs)"
  shows "ring (list_insert g e h) g (e # xs)"
proof -
  let ?h = "list_insert g e h"
  let ?n = "hd (xs @ [g])"
  have n: "nxt h g = ?n" by (rule ring_next [OF r])
  have upd: "nxt ?h = (nxt h)(e := ?n, g := e)" "prv ?h = (prv h)(e := g, ?n := e)"
    by (simp_all add: list_insert_def Let_def n)
  have d: "distinct (g # xs)" and lk: "linked h (g # xs @ [g])" using r by (auto simp: ring_def)
  obtain ms where ms: "xs @ [g] = ?n # ms" by (cases xs) auto
  have "linked h (xs @ [g])" using lk by (cases xs) auto
  moreover have "linked ?h (xs @ [g]) = linked h (xs @ [g])"
  proof (rule linked_cong)
    show "\<forall>x\<in>set (butlast (xs @ [g])). nxt ?h x = nxt h x" using d e by (auto simp: upd)
    show "\<forall>x\<in>set (tl (xs @ [g])). prv ?h x = prv h x"
      using d e by (cases xs) (auto simp: upd)
  qed
  moreover have "linked ?h (g # e # ?n # ms) = linked ?h (?n # ms)"
    using e by (auto simp: upd) (metis hd_append2 hd_in_set list.sel(1) self_append_conv2)
  ultimately show ?thesis using d e ms by (auto simp: ring_def)
qed

lemma ring_remove:
  assumes r: "ring h g (as @ e # bs)"
  shows "ring (list_remove e h) g (as @ bs)"
    and "x \<notin> set (g # as @ e # bs) \<Longrightarrow>
      nxt (list_remove e h) x = nxt h x \<and> prv (list_remove e h) x = prv h x"
    and "nxt (list_remove e h) e = e" and "prv (list_remove e h) e = e"
proof -
  let ?h = "list_remove e h"
  define p where "p = last (g # as)"
  define ys where "ys = butlast (g # as)"
  define n where "n = hd (bs @ [g])"
  define zs where "zs = tl (bs @ [g])"
  have ga: "g # as = ys @ [p]" unfolding p_def ys_def by (rule append_butlast_last_id [symmetric]) simp
  have bg: "bs @ [g] = n # zs" unfolding n_def zs_def by simp
  have "linked h ((g # as) @ e # (bs @ [g]))" using r by (simp add: ring_def)
  then have "linked h (ys @ p # e # n # zs)" unfolding ga bg by simp
  then have l1: "linked h (ys @ [p])" and l2: "nxt h p = e" "prv h e = p" "nxt h e = n" "prv h n = e"
    and l3: "linked h (n # zs)" using linked_split [of h ys p "e # n # zs"] by auto
  have d: "distinct (g # as @ e # bs)" using r by (simp add: ring_def)
  have d1: "distinct (ys @ [p])" "e \<notin> set (ys @ [p])" "e \<notin> set (n # zs)"
    using d unfolding ga [symmetric] bg [symmetric] by auto
  have upd: "nxt ?h = (nxt h)(p := n, e := e)" "prv ?h = (prv h)(n := p, e := e)"
    by (simp_all add: list_remove_def list_initialize_def Let_def l2 fun_eq_iff)
  have pn: "p \<in> set (g # as)" "n \<in> set (bs @ [g])" unfolding ga bg by simp_all
  have ntl: "n \<notin> set (tl (ys @ [p]))"
    using d pn(2) unfolding ga [symmetric] by auto
  have pz: "p \<notin> set (butlast (n # zs))"
    using d pn(1) unfolding bg [symmetric] by (auto simp: butlast_append)
  have nz: "n \<notin> set zs"
    using d bg by (cases bs) auto
  have "linked ?h (ys @ [p]) = linked h (ys @ [p])"
    using d1 ntl by (intro linked_cong) (auto simp: upd dest: list.set_sel(2) [rotated])
  moreover have "linked ?h (n # zs) = linked h (n # zs)"
    using d1 pz nz by (intro linked_cong) (auto simp: upd dest: in_set_butlastD)
  moreover have "nxt ?h p = n" "prv ?h n = p" using d1 by (auto simp: upd)
  ultimately have "linked ?h (ys @ p # n # zs)"
    using l1 l3 linked_split [of ?h ys p "n # zs"] by simp
  then have "linked ?h (g # as @ bs @ [g])" using ga bg by (metis append.assoc append_Cons append_Nil)
  with d show "ring ?h g (as @ bs)" by (simp add: ring_def)
  show "x \<notin> set (g # as @ e # bs) \<Longrightarrow> nxt ?h x = nxt h x \<and> prv ?h x = prv h x"
    using pn by (auto simp: upd)
  show "nxt ?h e = e" "prv ?h e = e" by (simp_all add: upd)
qed

subsection \<open>All rings of a store together\<close>

text \<open>
  \<open>rings G N Q h\<close>: the guards are \<open>G\<close>, guard \<open>g\<close> holds the sequence \<open>Q g\<close>, no entry is in
  two sequences and no guard is an entry, and an initialised node (\<open>N\<close>) in no sequence points
  to itself.
\<close>

definition queued :: "'n set \<Rightarrow> ('n \<Rightarrow> 'n list) \<Rightarrow> 'n \<Rightarrow> bool" where
  "queued G Q x \<longleftrightarrow> (\<exists>g\<in>G. x \<in> set (Q g))"

definition rings :: "'n set \<Rightarrow> 'n set \<Rightarrow> ('n \<Rightarrow> 'n list) \<Rightarrow> 'n links \<Rightarrow> bool" where
  "rings G N Q h \<longleftrightarrow>
     (\<forall>g\<in>G. ring h g (Q g) \<and> set (Q g) \<inter> G = {}) \<and>
     (\<forall>g\<in>G. \<forall>g'\<in>G. g \<noteq> g' \<longrightarrow> set (Q g) \<inter> set (Q g') = {}) \<and>
     (\<forall>x\<in>N. x \<notin> G \<longrightarrow> \<not> queued G Q x \<longrightarrow> nxt h x = x \<and> prv h x = x)"

lemma ringsD:
  assumes "rings G N Q h"
  shows "g \<in> G \<Longrightarrow> ring h g (Q g)" and "g \<in> G \<Longrightarrow> set (Q g) \<inter> G = {}"
    and "g \<in> G \<Longrightarrow> g' \<in> G \<Longrightarrow> g \<noteq> g' \<Longrightarrow> set (Q g) \<inter> set (Q g') = {}"
    and "x \<in> N \<Longrightarrow> x \<notin> G \<Longrightarrow> \<not> queued G Q x \<Longrightarrow> nxt h x = x \<and> prv h x = x"
  using assms unfolding rings_def by blast+

lemma rings_distinct: "rings G N Q h \<Longrightarrow> g \<in> G \<Longrightarrow> distinct (Q g) \<and> g \<notin> set (Q g)"
  using ringsD(1) [of G N Q h g] by (simp add: ring_def)

lemma rings_cong: "(\<And>g. g \<in> G \<Longrightarrow> Q g = Q' g) \<Longrightarrow> rings G N Q h = rings G N Q' h"
  by (simp add: rings_def queued_def)

lemma rings_mono: "rings G N Q h \<Longrightarrow> N' \<subseteq> N \<Longrightarrow> rings G N' Q h"
  unfolding rings_def by blast

lemma rings_next: "rings G N Q h \<Longrightarrow> g \<in> G \<Longrightarrow> nxt h g = hd (Q g @ [g])"
  by (rule ring_next, rule ringsD(1))

lemma rings_prev: "rings G N Q h \<Longrightarrow> g \<in> G \<Longrightarrow> prv h g = last (g # Q g)"
  by (rule ring_prev, rule ringsD(1))

lemma rings_head:
  assumes "rings G N Q h" and "g \<in> G"
  shows "list_head g h = (case Q g of [] \<Rightarrow> None | x # _ \<Rightarrow> Some x)"
  using rings_next [OF assms] rings_distinct [OF assms]
  by (cases "Q g") (auto simp: list_head_def list_edge_to_null_def)

lemma rings_tail:
  assumes "rings G N Q h" and "g \<in> G"
  shows "list_tail g h = (if Q g = [] then None else Some (last (Q g)))"
proof (cases "Q g = []")
  case False
  then have "last (Q g) \<noteq> g" using rings_distinct [OF assms] last_in_set by metis
  with False rings_prev [OF assms] show ?thesis by (simp add: list_tail_def list_edge_to_null_def)
qed (use rings_prev [OF assms] in \<open>simp add: list_tail_def list_edge_to_null_def\<close>)

lemma rings_is_empty:
  assumes "rings G N Q h" and "g \<in> G"
  shows "list_is_empty g h = (Q g = [])"
  using rings_next [OF assms] rings_distinct [OF assms]
  by (cases "Q g") (auto simp: list_is_empty_def)

text \<open>What one operation must do to keep the family: change one ring and touch no other.\<close>

lemma rings_change:
  assumes R: "rings G N Q h" and g: "g \<in> G" and ring': "ring h' g ys"
    and sub: "set ys \<subseteq> insert e (set (Q g))" and e: "e \<notin> G" "\<forall>g'\<in>G. g' \<noteq> g \<longrightarrow> e \<notin> set (Q g')"
    and frame: "\<And>x. x \<notin> set (g # Q g) \<Longrightarrow> x \<noteq> e \<Longrightarrow> nxt h' x = nxt h x \<and> prv h' x = prv h x"
    and gone: "\<And>x. x \<in> insert e (set (Q g)) \<Longrightarrow> x \<notin> set ys \<Longrightarrow> nxt h' x = x \<and> prv h' x = x"
  shows "rings G (insert e N) (Q(g := ys)) h'"
  unfolding rings_def
proof (intro conjI ballI impI)
  fix g' assume g': "g' \<in> G"
  show "ring h' g' ((Q(g := ys)) g')"
  proof (cases "g' = g")
    case False
    have rg: "ring h g' (Q g')" by (rule ringsD(1) [OF R g'])
    have out: "x \<notin> set (g # Q g) \<and> x \<noteq> e" if "x \<in> set (g' # Q g')" for x
      using that False g g' e ringsD(2) [OF R] ringsD(3) [OF R g' g False] by auto
    have "ring h' g' (Q g')"
      by (rule ring_frame [OF rg]) (use frame out in blast)
    with False show ?thesis by simp
  qed (use ring' in simp)
  show "set ((Q(g := ys)) g') \<inter> G = {}"
    using g g' sub e(1) ringsD(2) [OF R] by auto
next
  fix g1 g2 assume "g1 \<in> G" "g2 \<in> G" "g1 \<noteq> g2"
  then show "set ((Q(g := ys)) g1) \<inter> set ((Q(g := ys)) g2) = {}"
    using g sub e(2) ringsD(3) [OF R] by (auto; blast)
next
  fix x assume x: "x \<in> insert e N" "x \<notin> G" "\<not> queued G (Q(g := ys)) x"
  have "nxt h' x = x \<and> prv h' x = x"
  proof (cases "x \<in> insert e (set (Q g))")
    case True
    then show ?thesis using x(3) g by (intro gone) (auto simp: queued_def)
  next
    case False
    then have "\<not> queued G Q x" using x(3) by (auto simp: queued_def split: if_splits)
    with False x ringsD(4) [OF R, of x] frame [of x] g show ?thesis by auto
  qed
  then show "nxt h' x = x" "prv h' x = x" by auto
qed

lemma rings_append:
  assumes R: "rings G N Q h" and g: "g \<in> G" and e: "e \<notin> G" "\<not> queued G Q e"
  shows "rings G (insert e N) (Q(g := Q g @ [e])) (list_append g e h)"
proof (rule rings_change [OF R g _ _ e(1)])
  note r = ringsD(1) [OF R g]
  show "ring (list_append g e h) g (Q g @ [e])"
    using e g by (intro ring_append [OF r]) (auto simp: queued_def)
  show "nxt (list_append g e h) x = nxt h x \<and> prv (list_append g e h) x = prv h x"
    if "x \<notin> set (g # Q g)" "x \<noteq> e" for x
    using that ring_prev [OF r] last_in_set [of "g # Q g"] by (auto simp: list_append_def Let_def)
qed (use e in \<open>auto simp: queued_def\<close>)

lemma rings_insert:
  assumes R: "rings G N Q h" and g: "g \<in> G" and e: "e \<notin> G" "\<not> queued G Q e"
  shows "rings G (insert e N) (Q(g := e # Q g)) (list_insert g e h)"
proof (rule rings_change [OF R g _ _ e(1)])
  note r = ringsD(1) [OF R g]
  show "ring (list_insert g e h) g (e # Q g)"
    using e g by (intro ring_insert [OF r]) (auto simp: queued_def)
  show "nxt (list_insert g e h) x = nxt h x \<and> prv (list_insert g e h) x = prv h x"
    if "x \<notin> set (g # Q g)" "x \<noteq> e" for x
    using that ring_next [OF r] hd_in_set [of "Q g @ [g]"] by (auto simp: list_insert_def Let_def)
qed (use e in \<open>auto simp: queued_def\<close>)

lemma rings_remove_queued:
  assumes R: "rings G N Q h" and g: "g \<in> G" and e: "e \<in> set (Q g)"
  shows "rings G (insert e N) (Q(g := removeAll e (Q g))) (list_remove e h)"
proof -
  obtain as bs where q: "Q g = as @ e # bs" using e by (meson split_list)
  have d: "e \<notin> set as" "e \<notin> set bs" using rings_distinct [OF R g] q by auto
  then have ra: "removeAll e (Q g) = as @ bs" using q by simp
  note r = ring_remove [OF ringsD(1) [OF R g, unfolded q]]
  show ?thesis
  proof (rule rings_change [OF R g, where e = e])
    show "ring (list_remove e h) g (removeAll e (Q g))" unfolding ra by (rule r(1))
    show "e \<notin> G" using e g ringsD(2) [OF R g] by auto
    show "\<forall>g'\<in>G. g' \<noteq> g \<longrightarrow> e \<notin> set (Q g')" using e g ringsD(3) [OF R] by blast
  qed (use r q ra in auto)
qed

lemma rings_remove_single:
  assumes "rings G N Q h" and "e \<notin> G" and "\<not> queued G Q e" and "e \<in> N"
  shows "list_remove e h = h"
  using ringsD(4) [OF assms(1) assms(4) assms(2) assms(3)]
  by (auto simp: list_remove_def list_initialize_def Let_def fun_upd_idem)

lemma rings_remove:
  assumes R: "rings G N Q h" and e: "e \<notin> G" "e \<in> N \<or> queued G Q e"
  shows "rings G (insert e N) (\<lambda>g. removeAll e (Q g)) (list_remove e h)"
proof (cases "queued G Q e")
  case True
  then obtain g where g: "g \<in> G" "e \<in> set (Q g)" by (auto simp: queued_def)
  have "(Q(g := removeAll e (Q g))) g' = removeAll e (Q g')" if "g' \<in> G" for g'
    using that g ringsD(3) [OF R, of g g'] by (cases "g' = g") (auto intro!: removeAll_id [symmetric])
  with rings_remove_queued [OF R g] show ?thesis
    using rings_cong [of G "Q(g := removeAll e (Q g))" "\<lambda>g. removeAll e (Q g)"] by blast
next
  case False
  then have "removeAll e (Q g) = Q g" if "g \<in> G" for g
    using that by (auto simp: queued_def)
  moreover from False e have "list_remove e h = h" "e \<in> N"
    using rings_remove_single [OF R] by auto
  ultimately show ?thesis
    using R rings_cong [of G "\<lambda>g. removeAll e (Q g)" Q] by (simp add: insert_absorb)
qed

lemma rings_initialize:
  assumes R: "rings G N Q h" and e: "e \<notin> G" "\<not> queued G Q e"
  shows "rings G (insert e N) Q (list_initialize e h)"
  unfolding rings_def
proof (intro conjI ballI impI)
  fix g assume g: "g \<in> G"
  show "ring (list_initialize e h) g (Q g)"
    by (rule ring_frame [OF ringsD(1) [OF R g]])
      (use g e in \<open>auto simp: list_initialize_def queued_def\<close>)
qed (use R in \<open>auto simp: rings_def list_initialize_def\<close>)

lemma rings_new_guard:
  assumes R: "rings G N Q h" and g: "g \<notin> G" "\<not> queued G Q g"
  shows "rings (insert g G) N (Q(g := [])) (list_initialize g h)"
  unfolding rings_def
proof (intro conjI ballI impI)
  fix g' assume g': "g' \<in> insert g G"
  show "ring (list_initialize g h) g' ((Q(g := [])) g')"
  proof (cases "g' = g")
    case False
    with g' have "g' \<in> G" by simp
    show ?thesis
      using False g g' ring_frame [OF ringsD(1) [OF R \<open>g' \<in> G\<close>], of "list_initialize g h"]
      by (auto simp: list_initialize_def queued_def)
  qed (simp add: ring_def list_initialize_def)
  show "set ((Q(g := [])) g') \<inter> insert g G = {}"
    using g g' ringsD(2) [OF R] by (auto simp: queued_def)
next
  fix g1 g2 assume "g1 \<in> insert g G" "g2 \<in> insert g G" "g1 \<noteq> g2"
  then show "set ((Q(g := [])) g1) \<inter> set ((Q(g := [])) g2) = {}"
    using ringsD(3) [OF R, of g1 g2] by auto
next
  fix x assume x: "x \<in> N" "x \<notin> insert g G" "\<not> queued (insert g G) (Q(g := [])) x"
  then have "\<not> queued G Q x" using g(1) unfolding queued_def by (metis fun_upd_apply insertI2)
  with x ringsD(4) [OF R, of x] have "nxt h x = x \<and> prv h x = x" by auto
  with x(2) show "nxt (list_initialize g h) x = x" "prv (list_initialize g h) x = x"
    by (auto simp: list_initialize_def)
qed

lemma rings_drop_guard:
  assumes R: "rings G N Q h" and g: "g \<in> G" "Q g = []"
  shows "rings (G - {g}) (insert g N) Q h"
proof -
  have "queued (G - {g}) Q x = queued G Q x" for x
    using g(2) by (auto simp: queued_def)
  moreover have "nxt h g = g \<and> prv h g = g" using ringsD(1) [OF R g(1)] g(2) by (simp add: ring_def)
  ultimately show ?thesis using R unfolding rings_def by auto
qed

lemma rings_pick:
  assumes R: "rings G N Q h" and g: "g \<in> G"
  shows "Q g = [] \<Longrightarrow> list_pick g h = (None, h)"
    and "Q g = x # xs \<Longrightarrow> \<exists>h'. list_pick g h = (Some x, h') \<and> rings G (insert x N) (Q(g := xs)) h'"
proof -
  note n = rings_next [OF R g]
  show "Q g = [] \<Longrightarrow> list_pick g h = (None, h)"
    using n by (simp add: list_pick_def list_is_edge_def)
  assume q: "Q g = x # xs"
  then have "x \<noteq> g" "x \<notin> set xs" using rings_distinct [OF R g] by auto
  then have "list_pick g h = (Some x, list_remove x h)" "removeAll x (Q g) = xs"
    using n q by (auto simp: list_pick_def list_is_edge_def)
  then show "\<exists>h'. list_pick g h = (Some x, h') \<and> rings G (insert x N) (Q(g := xs)) h'"
    using rings_remove_queued [OF R g, of x] q by auto
qed

subsection \<open>Releasing a whole list\<close>

fun next_path :: "'n links \<Rightarrow> 'n list \<Rightarrow> bool" where
  "next_path h (x # y # zs) \<longleftrightarrow> nxt h x = y \<and> next_path h (y # zs)"
| "next_path h _ \<longleftrightarrow> True"

lemma linked_next_path: "linked h l \<Longrightarrow> next_path h l"
  by (induction h l rule: linked.induct) auto

lemma next_path_cong:
  "\<forall>x\<in>set (butlast l). nxt h' x = nxt h x \<Longrightarrow> next_path h' l = next_path h l"
  by (induction h l rule: next_path.induct) auto

lemma list_release_loop_ring:
  assumes "distinct (e # xs)" and "g \<notin> set xs" and "next_path h (e # xs @ [g])"
  shows "list_release_loop g e h =
    Some \<lparr>nxt = (\<lambda>x. if x \<in> set (e # xs) then x else nxt h x),
          prv = (\<lambda>x. if x \<in> set (e # xs) then x else prv h x), \<dots> = links.more h\<rparr>"
  using assms
proof (induction xs arbitrary: e h)
  case Nil
  then show ?case
    by (subst list_release_loop.simps)
      (auto simp: list_initialize_def list_is_edge_def Let_def fun_eq_iff intro: links.equality)
next
  case (Cons y ys)
  let ?h = "list_initialize e h"
  have "next_path ?h (y # ys @ [g]) = next_path h (y # ys @ [g])"
    using Cons.prems by (intro next_path_cong) (auto simp: list_initialize_def butlast_append)
  with Cons.prems Cons.IH [of y ?h] have
    "list_release_loop g y ?h =
      Some \<lparr>nxt = (\<lambda>x. if x \<in> set (y # ys) then x else nxt ?h x),
            prv = (\<lambda>x. if x \<in> set (y # ys) then x else prv ?h x), \<dots> = links.more ?h\<rparr>" by simp
  with Cons.prems show ?case
    by (subst list_release_loop.simps)
      (auto simp: list_initialize_def list_is_edge_def Let_def fun_eq_iff intro!: links.equality)
qed

subsection \<open>Request sequences\<close>

text \<open>Dequeueing \<open>n\<close> times, and serving a sequence of requests: \<open>Some e\<close> enqueues, \<open>None\<close> dequeues.\<close>

fun queue_drain :: "('n \<Rightarrow> 'h \<Rightarrow> 'n option \<times> 'h) \<Rightarrow> 'n \<Rightarrow> nat \<Rightarrow> 'h \<Rightarrow> 'n list \<times> 'h" where
  "queue_drain deq g 0 h = ([], h)"
| "queue_drain deq g (Suc n) h =
     (case deq g h of (None, h') \<Rightarrow> ([], h')
      | (Some x, h') \<Rightarrow> (case queue_drain deq g n h' of (xs, h'') \<Rightarrow> (x # xs, h'')))"

fun queue_run :: "('n \<Rightarrow> 'n \<Rightarrow> 'h \<Rightarrow> 'h) \<Rightarrow> ('n \<Rightarrow> 'h \<Rightarrow> 'n option \<times> 'h) \<Rightarrow> 'n \<Rightarrow>
    'n option list \<Rightarrow> 'h \<Rightarrow> 'n option list \<times> 'h" where
  "queue_run enq deq g [] h = ([], h)"
| "queue_run enq deq g (Some e # es) h = queue_run enq deq g es (enq g e h)"
| "queue_run enq deq g (None # es) h =
     (case deq g h of (r, h') \<Rightarrow>
        (case queue_run enq deq g es h' of (rs, h'') \<Rightarrow> (r # rs, h'')))"

text \<open>The specification: the same requests served by a mathematical list.\<close>

fun fifo_run :: "'n list \<Rightarrow> 'n option list \<Rightarrow> 'n option list \<times> 'n list" where
  "fifo_run q [] = ([], q)"
| "fifo_run q (Some e # es) = fifo_run (q @ [e]) es"
| "fifo_run [] (None # es) = (case fifo_run [] es of (rs, q) \<Rightarrow> (None # rs, q))"
| "fifo_run (x # q) (None # es) = (case fifo_run q es of (rs, q') \<Rightarrow> (Some x # rs, q'))"

text \<open>Requests are proper when an enqueued node is not in a queue at that time.\<close>

fun fifo_ok :: "'n set \<Rightarrow> ('n \<Rightarrow> 'n list) \<Rightarrow> 'n \<Rightarrow> 'n option list \<Rightarrow> bool" where
  "fifo_ok G Q g [] \<longleftrightarrow> True"
| "fifo_ok G Q g (Some e # es) \<longleftrightarrow>
     e \<notin> G \<and> \<not> queued G Q e \<and> fifo_ok G (Q(g := Q g @ [e])) g es"
| "fifo_ok G Q g (None # es) \<longleftrightarrow> fifo_ok G (Q(g := tl (Q g))) g es"

subsection \<open>The interface the queues' clients rely on\<close>

text \<open>
  A store of queues over nodes: \<open>R G N Q h\<close> says that store \<open>h\<close> holds the queues \<open>Q\<close> at the
  guards \<open>G\<close>. Enqueueing puts a node at the end, dequeueing takes the first, a node can be
  taken out of whatever queue it is in, and no operation disturbs another queue.
\<close>

locale queue_family =
  fixes R :: "'n set \<Rightarrow> 'n set \<Rightarrow> ('n \<Rightarrow> 'n list) \<Rightarrow> 'h \<Rightarrow> bool"
    and enqueue :: "'n \<Rightarrow> 'n \<Rightarrow> 'h \<Rightarrow> 'h"
    and dequeue :: "'n \<Rightarrow> 'h \<Rightarrow> 'n option \<times> 'h"
    and remove :: "'n \<Rightarrow> 'h \<Rightarrow> 'h"
    and head :: "'n \<Rightarrow> 'h \<Rightarrow> 'n option"
  assumes enqueue_law: "R G N Q h \<Longrightarrow> g \<in> G \<Longrightarrow> e \<notin> G \<Longrightarrow> \<not> queued G Q e \<Longrightarrow>
      R G (insert e N) (Q(g := Q g @ [e])) (enqueue g e h)"
    and dequeue_empty: "R G N Q h \<Longrightarrow> g \<in> G \<Longrightarrow> Q g = [] \<Longrightarrow> dequeue g h = (None, h)"
    and dequeue_law: "R G N Q h \<Longrightarrow> g \<in> G \<Longrightarrow> Q g = x # xs \<Longrightarrow>
      \<exists>h'. dequeue g h = (Some x, h') \<and> R G (insert x N) (Q(g := xs)) h'"
    and remove_law: "R G N Q h \<Longrightarrow> e \<notin> G \<Longrightarrow> e \<in> N \<or> queued G Q e \<Longrightarrow>
      R G (insert e N) (\<lambda>g. removeAll e (Q g)) (remove e h)"
    and head_law: "R G N Q h \<Longrightarrow> g \<in> G \<Longrightarrow>
      head g h = (case Q g of [] \<Rightarrow> None | x # _ \<Rightarrow> Some x)"
    and queue_distinct: "R G N Q h \<Longrightarrow> g \<in> G \<Longrightarrow> distinct (Q g)"
begin

lemma head_none_iff: "R G N Q h \<Longrightarrow> g \<in> G \<Longrightarrow> head g h = None \<longleftrightarrow> Q g = []"
  by (simp add: head_law split: list.splits)

lemma dequeue_head: "R G N Q h \<Longrightarrow> g \<in> G \<Longrightarrow> fst (dequeue g h) = head g h"
  using dequeue_empty [of G N Q h g] dequeue_law [of G N Q h g] head_law [of G N Q h g]
  by (cases "Q g") auto

text \<open>Dequeueing as long as there is a node yields the queue in order and leaves it empty.\<close>

lemma drain:
  assumes "R G N Q h" and "g \<in> G"
  shows "\<exists>h' N'. queue_drain dequeue g (length (Q g)) h = (Q g, h') \<and> N \<subseteq> N' \<and>
    R G N' (Q(g := [])) h'"
  using assms
proof (induction "Q g" arbitrary: Q N h)
  case Nil
  then show ?case by (metis fun_upd_triv list.size(3) queue_drain.simps(1) order_refl)
next
  case (Cons x xs)
  from dequeue_law [OF Cons.prems Cons.hyps(2) [symmetric]] obtain h1 where
    h1: "dequeue g h = (Some x, h1)" "R G (insert x N) (Q(g := xs)) h1" by auto
  from Cons.hyps(1) [of "Q(g := xs)", OF _ h1(2) Cons.prems(2)] obtain h' N' where
    "queue_drain dequeue g (length xs) h1 = (xs, h')" "insert x N \<subseteq> N'" "R G N' (Q(g := [])) h'"
    by auto
  with h1 Cons.hyps(2) [symmetric] show ?case by (intro exI [of _ h'] exI [of _ N']) auto
qed

text \<open>A queue served by a sequence of enqueue and dequeue requests answers like a list.\<close>

lemma run_fifo:
  assumes "R G N Q h" and "g \<in> G" and "fifo_ok G Q g es"
  shows "\<exists>h' N'. queue_run enqueue dequeue g es h = (fst (fifo_run (Q g) es), h') \<and>
    R G N' (Q(g := snd (fifo_run (Q g) es))) h'"
  using assms
proof (induction es arbitrary: Q N h)
  case Nil
  then show ?case by auto
next
  case (Cons ev es)
  show ?case
  proof (cases ev)
    case (Some e)
    let ?Q = "Q(g := Q g @ [e])"
    from Cons.prems Some have "R G (insert e N) ?Q (enqueue g e h)" by (auto intro: enqueue_law)
    from Cons.IH [OF this Cons.prems(2)] Cons.prems(3) Some show ?thesis
      by (simp del: fun_upd_apply add: fun_upd_same)
  next
    case None
    show ?thesis
    proof (cases "Q g")
      case Nil
      with dequeue_empty [OF Cons.prems(1,2)] Cons.IH [OF Cons.prems(1,2)] Cons.prems(3) None
      show ?thesis by (auto simp del: fun_upd_apply simp: fun_upd_idem split: prod.splits)
    next
      case (Cons x xs)
      from dequeue_law [OF Cons.prems(1,2) Cons] obtain h1 where
        "dequeue g h = (Some x, h1)" "R G (insert x N) (Q(g := xs)) h1" by auto
      with Cons.IH [of "insert x N" "Q(g := xs)" h1] Cons.prems(2,3) None Cons
      show ?thesis by (auto simp del: fun_upd_apply simp: fun_upd_same split: prod.splits)
    qed
  qed
qed

end

interpretation lists: queue_family rings list_enqueue list_dequeue list_remove list_head
proof unfold_locales
  show "rings G N Q h \<Longrightarrow> g \<in> G \<Longrightarrow> e \<notin> G \<Longrightarrow> \<not> queued G Q e \<Longrightarrow>
      rings G (insert e N) (Q(g := Q g @ [e])) (list_enqueue g e h)" for G N Q h g and e :: 'n
    unfolding list_enqueue_def by (rule rings_append)
  show "rings G N Q h \<Longrightarrow> e \<notin> G \<Longrightarrow> e \<in> N \<or> queued G Q e \<Longrightarrow>
      rings G (insert e N) (\<lambda>g. removeAll e (Q g)) (list_remove e h)" for G N Q h and e :: 'n
    by (rule rings_remove)
qed (auto simp: list_dequeue_def rings_pick rings_head rings_distinct split: list.splits)

text \<open>A store in which every node is alone; any of them can serve as a guard.\<close>

definition alone :: "'n links" where
  "alone = \<lparr>nxt = (\<lambda>x. x), prv = (\<lambda>x. x)\<rparr>"

lemma rings_alone: "rings G N (\<lambda>_. []) alone"
  by (simp add: rings_def ring_def alone_def)

subsection \<open>What the lists promise\<close>

text \<open>
  C19. A sequence of \<^verbatim>\<open>list_enqueue\<close> and \<^verbatim>\<open>list_dequeue\<close> calls on one guard answers exactly
  like a first-in first-out queue, from any store of rings: the dequeued nodes are the list
  model's, the ring afterwards denotes the list model's rest, and the rings of all the other
  guards are what they were.
\<close>

theorem list_queue_is_fifo:
  assumes "rings G N Q h" and "g \<in> G" and "fifo_ok G Q g es"
  shows "\<exists>h' N'. queue_run list_enqueue list_dequeue g es h = (fst (fifo_run (Q g) es), h') \<and>
    rings G N' (Q(g := snd (fifo_run (Q g) es))) h'"
  by (rule lists.run_fifo [OF assms])

theorem list_queue_is_fifo_witness:
  "fst (queue_run list_enqueue list_dequeue 0 [Some 5, Some 6, None, Some 7, None, None, None]
      (alone :: nat links)) = [Some 5, Some 6, Some 7, None]"
  using list_queue_is_fifo [OF rings_alone [of "{0, 1 :: nat}" "{}"], of 0
      "[Some 5, Some 6, None, Some 7, None, None, None]"]
  by (auto simp: queued_def)

text \<open>
  \<^verbatim>\<open>list_remove\<close> takes a node out of whichever queue holds it: the other members of that
  queue keep their order, every other queue is untouched, and the node is linked to itself, so
  that removing it once more changes nothing.
\<close>

theorem list_remove_anywhere:
  assumes "rings G N Q h" and "e \<notin> G" and "e \<in> N \<or> queued G Q e"
  shows "rings G (insert e N) (\<lambda>g. removeAll e (Q g)) (list_remove e h) \<and>
    list_is_empty e (list_remove e h) \<and> list_remove e (list_remove e h) = list_remove e h"
proof (intro conjI)
  show R: "rings G (insert e N) (\<lambda>g. removeAll e (Q g)) (list_remove e h)"
    by (rule rings_remove [OF assms])
  have "\<not> queued G (\<lambda>g. removeAll e (Q g)) e" by (simp add: queued_def)
  with rings_remove_single [OF R assms(2)] ringsD(4) [OF R _ assms(2)]
  show "list_remove e (list_remove e h) = list_remove e h" "list_is_empty e (list_remove e h)"
    by (auto simp: list_is_empty_def)
qed

theorem list_remove_anywhere_witness:
  "list_is_empty 5 (list_remove 5 (list_append 0 5 (alone :: nat links)))"
  using list_remove_anywhere [of "{0 :: nat}" "insert 5 {}" "(\<lambda>_. [])(0 := [5])" "list_append 0 5 alone" 5]
    rings_append [OF rings_alone [of "{0 :: nat}" "{}"], of 0 5]
  by (simp add: queued_def)

text \<open>
  \<^verbatim>\<open>list_release\<close> ends on every proper ring, whatever its length, and leaves the guard and
  every former member linked to itself and every node outside the ring as it was.
\<close>

theorem list_release_ends:
  assumes "ring h g xs"
  shows "\<exists>h'. list_release g h = Some h' \<and>
    (\<forall>x. list_next x h' = (if x \<in> set (g # xs) then x else list_next x h) \<and>
         list_prev x h' = (if x \<in> set (g # xs) then x else list_prev x h))"
  using assms list_release_loop_ring [of g xs g h] linked_next_path [of h "g # xs @ [g]"]
  by (simp add: ring_def list_release_def list_next_def list_prev_def)

theorem list_release_ends_witness:
  "\<exists>h'. list_release 0 (list_append 0 6 (list_append 0 5 (alone :: nat links))) = Some h' \<and>
    list_is_empty 0 h'"
proof -
  have "ring (list_append 0 6 (list_append 0 5 (alone :: nat links))) 0 [5, 6]"
    by (simp add: ring_def list_append_def alone_def)
  from list_release_ends [OF this] show ?thesis by (auto simp: list_is_empty_def list_next_def)
qed

end
