(* ===== verification/Kernel_Palloc.thy ===== *)
theory Kernel_Palloc
  imports Eo_Bitmap
begin

section \<open>The page allocator (\<^verbatim>\<open>kernel/palloc.c\<close>)\<close>

text \<open>
  The kernel hands out 4096-byte pages. \<^verbatim>\<open>MemoryMap\<close> has one bit per physical page (set when
  free), the number of free pages and \<^verbatim>\<open>clock_block\<close>, below which no block has a free page.
  Addresses are 32-bit words; the kernel sees a physical page at its address with the top bit
  set (\<^verbatim>\<open>kern_p2v\<close>). Memory is a map from the addresses of 32-bit cells to their contents, so
  that the clearing of a page by \<^verbatim>\<open>pzero\<close> is visible.
\<close>

record memory_map =
  mm_rest_pages :: u32
  mm_clock_block :: nat
  mm_num_blocks :: nat
  mm_max_pages :: nat
  mm_map :: "u32 list"

record page_state =
  memory_map :: memory_map
  memory :: "addr \<Rightarrow> u32"

definition SUPERVISOR_START :: addr where
  "SUPERVISOR_START = 0x80000000"

definition kern_p2v :: "addr \<Rightarrow> addr" where
  "kern_p2v a = a OR SUPERVISOR_START"

definition kern_v2p :: "addr \<Rightarrow> addr" where
  "kern_v2p a = a AND NOT SUPERVISOR_START"

text \<open>\<^verbatim>\<open>p[i] = 0\<close> for the \<^verbatim>\<open>PAGE_SIZE / sizeof(*p)\<close> cells of the page.\<close>

fun pzero_loop :: "addr \<Rightarrow> nat \<Rightarrow> (addr \<Rightarrow> u32) \<Rightarrow> (addr \<Rightarrow> u32)" where
  "pzero_loop p 0 m = m"
| "pzero_loop p (Suc i) m = (pzero_loop p i m)(p + of_nat (4 * i) := 0)"

definition pzero :: "addr \<Rightarrow> (addr \<Rightarrow> u32) \<Rightarrow> (addr \<Rightarrow> u32)" where
  "pzero p m = pzero_loop p (4096 div 4) m"

text \<open>The search loop of \<^verbatim>\<open>palloc\<close>; the result 0 is the null pointer.\<close>

function palloc_loop :: "page_state \<Rightarrow> nat \<Rightarrow> addr \<times> page_state" where
  "palloc_loop st i =
     (let mm = memory_map st
      in if i < mm_num_blocks mm then
           let d = mm_map mm ! i
           in if d \<noteq> 0 then
                let b = count_ntz d;
                    mp = (mm_map mm)[i := mm_map mm ! i AND NOT (bit_at b)];
                    mm' = mm\<lparr>mm_map := mp,
                             mm_clock_block := (if mp ! i \<noteq> 0 then i else i + 1),
                             mm_rest_pages := mm_rest_pages mm - 1\<rparr>;
                    a = kern_p2v (push_bit 12 (of_nat (push_bit 5 i OR b)))
                in (a, st\<lparr>memory_map := mm', memory := pzero a (memory st)\<rparr>)
              else palloc_loop st (Suc i)
         else (0, st))"
  by pat_completeness auto
termination
  by (relation "measure (\<lambda>(st, i). mm_num_blocks (memory_map st) - i)") auto

declare palloc_loop.simps [simp del]

definition palloc :: "page_state \<Rightarrow> addr \<times> page_state" where
  "palloc st =
     (if mm_rest_pages (memory_map st) \<noteq> 0
      then palloc_loop st (mm_clock_block (memory_map st)) else (0, st))"

definition pfree :: "addr \<Rightarrow> page_state \<Rightarrow> page_state" where
  "pfree vaddr st =
     (let a = kern_v2p vaddr; i = unat (drop_bit 17 a); mm = memory_map st
      in if mm_num_blocks mm \<le> i then st
         else let b = bit_at (unat (drop_bit 12 a AND 31))
              in if mm_map mm ! i AND b \<noteq> 0 then st
                 else st\<lparr>memory_map := mm\<lparr>
                        mm_map := (mm_map mm)[i := mm_map mm ! i OR b],
                        mm_clock_block := (if i < mm_clock_block mm then i else mm_clock_block mm),
                        mm_rest_pages := mm_rest_pages mm + 1\<rparr>\<rparr>)"

subsection \<open>Addresses and page numbers\<close>

definition page_addr :: "nat \<Rightarrow> addr" where
  "page_addr n = kern_p2v (push_bit 12 (of_nat n))"

definition page_of :: "addr \<Rightarrow> nat" where
  "page_of a = unat (drop_bit 12 (kern_v2p a))"

abbreviation MAX_BLOCKS :: nat where
  "MAX_BLOCKS \<equiv> 16384"

lemma bit_SUPERVISOR [simp]: "bit SUPERVISOR_START i \<longleftrightarrow> i = 31"
proof -
  have s: "SUPERVISOR_START = bit_at 31" by (simp add: SUPERVISOR_START_def bit_at_def)
  show ?thesis unfolding s by auto
qed

lemma unat_page: "n < 524288 \<Longrightarrow> unat (push_bit 12 (of_nat n) :: addr) = 4096 * n"
  by (simp add: push_bit_eq_mult unat_word_ariths unat_of_nat)

lemma page_no_top_bit: "n < 524288 \<Longrightarrow> \<not> bit (push_bit 12 (of_nat n) :: addr) 31"
proof -
  assume "n < 524288"
  then have "take_bit 19 n = n" by (simp add: take_bit_nat_eq_self)
  then have "\<not> bit n 19" by (metis bit_take_bit_iff less_irrefl)
  then show ?thesis by (simp add: bit_push_bit_iff bit_of_nat_iff)
qed

lemma v2p_page_addr: "n < 524288 \<Longrightarrow> kern_v2p (page_addr n) = push_bit 12 (of_nat n)"
  unfolding page_addr_def kern_v2p_def kern_p2v_def
  by (rule bit_word_eqI) (use page_no_top_bit [of n] in \<open>auto simp: bit_and_iff bit_or_iff bit_not_iff\<close>)

lemma page_of_page_addr [simp]: "n < 524288 \<Longrightarrow> page_of (page_addr n) = n"
  by (simp add: page_of_def v2p_page_addr drop_bit_eq_div unat_div unat_page)

lemma page_addr_nonzero [simp]: "page_addr n \<noteq> 0"
proof
  assume "page_addr n = 0"
  then have "bit (page_addr n) 31 = bit (0 :: addr) 31" by simp
  then show False by (simp add: page_addr_def kern_p2v_def bit_or_iff)
qed

lemma page_of_parts:
  "unat (drop_bit 17 (kern_v2p a)) = page_of a div 32"
  "unat (drop_bit 12 (kern_v2p a) AND 31) = page_of a mod 32"
  by (simp_all add: page_of_def drop_bit_eq_div unat_div unat_and_31 div_mult2_eq [symmetric])

lemma v2p_take_bit: "kern_v2p a = take_bit 31 a"
proof (rule bit_word_eqI)
  fix i assume "i < LENGTH(32)"
  then show "bit (kern_v2p a) i = bit (take_bit 31 a) i"
    by (auto simp: kern_v2p_def bit_and_iff bit_not_iff bit_take_bit_iff)
qed

lemma page_of_alt: "page_of a = unat a mod 2147483648 div 4096"
proof -
  have "unat (take_bit 31 a) = unat a mod 2147483648"
    by (simp add: take_bit_eq_mod unat_mod)
  then show ?thesis by (simp add: page_of_def v2p_take_bit drop_bit_eq_div unat_div)
qed

lemma unat_page_addr: "n < 524288 \<Longrightarrow> unat (page_addr n) = 2147483648 + 4096 * n"
proof -
  assume n: "n < 524288"
  let ?p = "push_bit 12 (of_nat n) :: addr"
  have "?p AND SUPERVISOR_START = 0"
    by (rule bit_word_eqI) (use page_no_top_bit [OF n] in \<open>auto simp: bit_and_iff\<close>)
  then have "page_addr n = ?p + SUPERVISOR_START"
    by (simp add: page_addr_def kern_p2v_def disjunctive_add_eq_or)
  then have "unat (page_addr n) = (4096 * n + 2147483648) mod 4294967296"
    by (simp add: unat_word_ariths unat_page [OF n] SUPERVISOR_START_def)
  then show ?thesis using n by simp
qed

lemma page_of_cell: "n < 524288 \<Longrightarrow> i < 1024 \<Longrightarrow> page_of (page_addr n + of_nat (4 * i)) = n"
proof -
  assume n: "n < 524288" and i: "i < 1024"
  then have "unat (page_addr n + of_nat (4 * i)) = 2147483648 + (4096 * n + 4 * i)"
    by (simp add: unat_word_ariths unat_page_addr unat_of_nat)
  with n i show ?thesis by (simp add: page_of_alt)
qed

lemma pzero_loop_cell: "i < k \<Longrightarrow> pzero_loop p k m (p + of_nat (4 * i)) = 0"
  by (induction k) (auto simp: less_Suc_eq)

lemma pzero_loop_other: "\<forall>i < k. a \<noteq> p + of_nat (4 * i) \<Longrightarrow> pzero_loop p k m a = m a"
  by (induction k) auto

lemma pzero_page:
  assumes "n < 524288"
  shows "i < 1024 \<Longrightarrow> pzero (page_addr n) m (page_addr n + of_nat (4 * i)) = 0"
    and "page_of a \<noteq> n \<Longrightarrow> pzero (page_addr n) m a = m a"
proof -
  show "i < 1024 \<Longrightarrow> pzero (page_addr n) m (page_addr n + of_nat (4 * i)) = 0"
    unfolding pzero_def by (rule pzero_loop_cell) simp
  show "page_of a \<noteq> n \<Longrightarrow> pzero (page_addr n) m a = m a"
    unfolding pzero_def by (rule pzero_loop_other) (use page_of_cell [OF assms] in auto)
qed

subsection \<open>Invariant and abstraction\<close>

text \<open>
  \<open>U\<close> is the set of pages the machine has for allocation; \<^verbatim>\<open>MAX_PAGES\<close> of
  \<^verbatim>\<open>include/nerve/config.h\<close> bounds the map to 16384 blocks.
\<close>

definition free_pages :: "page_state \<Rightarrow> nat set" where
  "free_pages st = bm_set (mm_map (memory_map st))"

definition palloc_inv :: "nat set \<Rightarrow> page_state \<Rightarrow> bool" where
  "palloc_inv U st \<longleftrightarrow> (let mm = memory_map st in
     mm_num_blocks mm \<le> MAX_BLOCKS \<and> length (mm_map mm) = mm_num_blocks mm \<and>
     U \<subseteq> {..<32 * mm_num_blocks mm} \<and> free_pages st \<subseteq> U \<and>
     unat (mm_rest_pages mm) = card (free_pages st) \<and>
     (\<forall>i < mm_clock_block mm. i < mm_num_blocks mm \<longrightarrow> mm_map mm ! i = 0))"

text \<open>The state after page \<open>n\<close> has been handed out.\<close>

definition page_taken :: "page_state \<Rightarrow> nat \<Rightarrow> page_state" where
  "page_taken st n =
     (let mm = memory_map st; i = n div 32;
          mp = (mm_map mm)[i := mm_map mm ! i AND NOT (bit_at (n mod 32))]
      in st\<lparr>memory_map := mm\<lparr>mm_map := mp,
             mm_clock_block := (if mp ! i \<noteq> 0 then i else i + 1),
             mm_rest_pages := mm_rest_pages mm - 1\<rparr>,
            memory := pzero (page_addr n) (memory st)\<rparr>)"

lemma palloc_loop_hit:
  assumes "length (mm_map (memory_map st)) = mm_num_blocks (memory_map st)"
    and "\<forall>j < i. j < mm_num_blocks (memory_map st) \<longrightarrow> mm_map (memory_map st) ! j = 0"
    and "free_pages st \<noteq> {}"
  shows "palloc_loop st i = (page_addr (Min (free_pages st)), page_taken st (Min (free_pages st)))"
  using assms
proof (induction st i rule: palloc_loop.induct)
  case (1 st i)
  let ?mm = "memory_map st"
  let ?m = "mm_map ?mm"
  have fin: "finite (free_pages st)" by (simp add: free_pages_def)
  obtain y where y: "y \<in> free_pages st" using "1.prems"(3) by auto
  have yi: "i \<le> z div 32 \<and> z div 32 < mm_num_blocks ?mm" if "z \<in> free_pages st" for z
    using that "1.prems"(1,2) bm_setD [of z ?m] bm_set_block_nonzero [of z ?m]
    by (metis free_pages_def not_le)
  from yi [OF y] have i: "i < mm_num_blocks ?mm" by simp
  show ?case
  proof (cases "?m ! i = 0")
    case True
    with "1.prems"(2) have "\<forall>j < Suc i. j < mm_num_blocks ?mm \<longrightarrow> ?m ! j = 0"
      by (auto simp: less_Suc_eq)
    with "1.IH" [OF refl i refl] True "1.prems"
    have "palloc_loop st (Suc i) = (page_addr (Min (free_pages st)), page_taken st (Min (free_pages st)))"
      by simp
    with True i show ?thesis by (simp add: palloc_loop.simps [of st i] Let_def)
  next
    case False
    let ?b = "count_ntz (?m ! i)"
    let ?n = "32 * i + ?b"
    note scan = count_ntz_first [OF False]
    have n: "?n \<in> free_pages st"
      using scan i "1.prems"(1) by (simp add: free_pages_def in_bm_set_block)
    have "?n \<le> z" if z: "z \<in> free_pages st" for z
    proof (cases "z div 32 = i")
      case True
      with z have "bit (?m ! i) (z mod 32)" by (auto simp: free_pages_def bm_set_def)
      then have "?b \<le> z mod 32" using scan(3) by (meson not_le)
      moreover have "z = 32 * i + z mod 32" using True by (metis mult_div_mod_eq)
      ultimately show ?thesis by linarith
    next
      case False
      with yi [OF z] have "Suc i \<le> z div 32" by simp
      then have "32 * Suc i \<le> z" by (metis dual_order.trans mult.commute mult_le_mono2 times_div_less_eq_dividend)
      then show ?thesis using scan(1) by simp
    qed
    then have m: "Min (free_pages st) = ?n" using fin n by (intro Min_eqI) auto
    have "palloc_loop st i = (page_addr ?n, page_taken st ?n)"
      using i False scan(1)
      by (simp add: palloc_loop.simps [of st i] Let_def page_taken_def page_addr_def block_number_as_or)
    then show ?thesis using m by simp
  qed
qed

lemma free_page_bound:
  assumes "palloc_inv U st" and "n \<in> free_pages st"
  shows "n < 524288" and "n div 32 < mm_num_blocks (memory_map st)"
  using assms bm_setD [of n "mm_map (memory_map st)"]
  by (auto simp: palloc_inv_def Let_def free_pages_def)

lemma palloc_hit:
  assumes "palloc_inv U st" and "free_pages st \<noteq> {}"
  shows "palloc st = (page_addr (Min (free_pages st)), page_taken st (Min (free_pages st)))"
proof -
  have "0 < card (free_pages st)"
    using assms(2) by (simp add: card_gt_0_iff) (simp add: free_pages_def)
  with assms(1) have "mm_rest_pages (memory_map st) \<noteq> 0"
    by (auto simp: palloc_inv_def Let_def)
  then show ?thesis
    using palloc_loop_hit [OF _ _ assms(2)] assms(1) by (simp add: palloc_def palloc_inv_def Let_def)
qed

lemma free_pages_taken:
  assumes "palloc_inv U st" and "n \<in> free_pages st"
  shows "free_pages (page_taken st n) = free_pages st - {n}"
  using bm_set_clear [of "n div 32" "mm_map (memory_map st)" "n mod 32"] assms
    free_page_bound(2) [OF assms]
  by (simp add: free_pages_def page_taken_def Let_def palloc_inv_def)

lemma page_taken_inv:
  assumes inv: "palloc_inv U st" and n: "n \<in> free_pages st" "\<forall>z\<in>free_pages st. n \<le> z"
  shows "palloc_inv U (page_taken st n)"
proof -
  let ?mm = "memory_map st" and ?mm' = "memory_map (page_taken st n)"
  have fr: "free_pages (page_taken st n) = free_pages st - {n}"
    by (rule free_pages_taken [OF inv n(1)])
  have "unat (mm_rest_pages ?mm') = card (free_pages st) - 1"
  proof -
    have "0 < card (free_pages st)" using n(1) by (auto simp: free_pages_def card_gt_0_iff)
    then show ?thesis using inv
      by (simp add: palloc_inv_def Let_def page_taken_def unat_sub_no_wrap)
  qed
  then have rest: "unat (mm_rest_pages ?mm') = card (free_pages (page_taken st n))"
    using n(1) by (simp add: fr card_Diff_singleton)
  have "mm_map ?mm' ! j = 0" if j: "j < mm_clock_block ?mm'" "j < mm_num_blocks ?mm" for j
  proof (rule ccontr)
    assume nz: "mm_map ?mm' ! j \<noteq> 0"
    then obtain b where b: "b < 32" "bit (mm_map ?mm' ! j) b" using word_zero_iff_no_bit by blast
    have "length (mm_map ?mm') = mm_num_blocks ?mm"
      using inv by (simp add: page_taken_def palloc_inv_def Let_def)
    then have "32 * j + b \<in> free_pages (page_taken st n)"
      using b j(2) by (simp add: free_pages_def in_bm_set_block)
    then have "n \<le> 32 * j + b" "32 * j + b \<noteq> n" using fr n(2) by auto
    then have "n div 32 \<le> j" using b(1) by (metis div_le_mono div_mod_32)
    then have "j = n div 32" "mm_map ?mm' ! (n div 32) = 0"
      using j(1) nz by (auto simp: page_taken_def Let_def split: if_splits)
    with nz show False by simp
  qed
  moreover have "mm_num_blocks ?mm' = mm_num_blocks ?mm" "length (mm_map ?mm') = length (mm_map ?mm)"
    by (simp_all add: page_taken_def Let_def)
  ultimately show ?thesis
    using rest fr inv unfolding palloc_inv_def Let_def by auto
qed

lemma palloc_empty:
  assumes "palloc_inv U st" and "free_pages st = {}"
  shows "palloc st = (0, st)"
  using assms by (auto simp: palloc_def palloc_inv_def Let_def unat_eq_0)

lemma pfree_new:
  assumes inv: "palloc_inv U st" and n: "page_of a \<in> U" "page_of a \<notin> free_pages st"
  shows "free_pages (pfree a st) = insert (page_of a) (free_pages st)" and "palloc_inv U (pfree a st)"
proof -
  let ?mm = "memory_map st" and ?n = "page_of a"
  let ?m = "(mm_map ?mm)[?n div 32 := mm_map ?mm ! (?n div 32) OR bit_at (?n mod 32)]"
  from inv have l: "length (mm_map ?mm) = mm_num_blocks ?mm" "mm_num_blocks ?mm \<le> MAX_BLOCKS"
    and rest: "unat (mm_rest_pages ?mm) = card (free_pages st)"
    and sub: "free_pages st \<subseteq> U" "U \<subseteq> {..<32 * mm_num_blocks ?mm}"
    and low: "\<forall>j < mm_clock_block ?mm. j < mm_num_blocks ?mm \<longrightarrow> mm_map ?mm ! j = 0"
    by (simp_all add: palloc_inv_def Let_def)
  have "?n < 32 * mm_num_blocks ?mm" using n(1) sub(2) by auto
  then have i: "?n div 32 < mm_num_blocks ?mm" by (simp add: less_mult_imp_div_less mult.commute)
  have clear: "mm_map ?mm ! (?n div 32) AND bit_at (?n mod 32) = 0"
    using n(2) i l test_bit_mask [of "mm_map ?mm ! (?n div 32)" "?n mod 32"]
    by (auto simp: free_pages_def bm_set_def)
  have m: "bm_set ?m = insert ?n (free_pages st)"
    using bm_set_set [of "?n div 32" "mm_map ?mm" "?n mod 32"] i l by (simp add: free_pages_def)
  have eq: "pfree a st = st\<lparr>memory_map := ?mm\<lparr>mm_map := ?m,
      mm_clock_block := (if ?n div 32 < mm_clock_block ?mm then ?n div 32 else mm_clock_block ?mm),
      mm_rest_pages := mm_rest_pages ?mm + 1\<rparr>\<rparr>"
    using i clear by (simp add: pfree_def Let_def page_of_parts)
  show fr: "free_pages (pfree a st) = insert ?n (free_pages st)"
    using m by (simp add: eq free_pages_def)
  have "card (free_pages st) \<le> 32 * mm_num_blocks ?mm"
    using card_mono [of "{..<32 * mm_num_blocks ?mm}" "free_pages st"] sub by auto
  then have "unat (mm_rest_pages ?mm + 1) = card (insert ?n (free_pages st))"
    using rest l n(2) by (simp add: unat_add_no_wrap) (simp add: free_pages_def)
  then show "palloc_inv U (pfree a st)"
    using inv fr i n low by (auto simp: palloc_inv_def Let_def eq nth_list_update)
qed

subsection \<open>The page map is a number pool\<close>

definition palloc_opt :: "page_state \<Rightarrow> nat option \<times> page_state" where
  "palloc_opt st =
     (case palloc st of (a, st') \<Rightarrow> (if a = 0 then None else Some (page_of a), st'))"

lemma Min_free:
  assumes "free_pages st \<noteq> {}"
  shows "Min (free_pages st) \<in> free_pages st" and "\<forall>z\<in>free_pages st. Min (free_pages st) \<le> z"
  using assms by (auto intro: Min_in simp: free_pages_def)

interpretation pages: number_pool "palloc_inv U" "\<lambda>_. U" free_pages
  palloc_opt "\<lambda>n. pfree (page_addr n)" for U
proof (unfold_locales, goal_cases)
  case (1 st)
  then show ?case by (simp add: palloc_inv_def Let_def)
next
  case (2 st)
  let ?n = "Min (free_pages st)"
  note n = Min_free [OF 2(2)]
  have "palloc_opt st = (Some ?n, page_taken st ?n)"
    using palloc_hit [OF 2] free_page_bound [OF 2(1) n(1)] by (simp add: palloc_opt_def)
  then show ?case
    using n free_pages_taken [OF 2(1) n(1)] page_taken_inv [OF 2(1) n] by auto
next
  case (3 st)
  then show ?case by (simp add: palloc_opt_def palloc_empty)
next
  case (4 st n)
  from 4(1,2) have "n < 524288" by (auto simp: palloc_inv_def Let_def)
  with pfree_new [OF 4(1), of "page_addr n"] 4 show ?case by simp
qed

subsection \<open>Properties\<close>

text \<open>A machine with one block of pages, of which pages 1 and 4 are free.\<close>

definition page_demo :: page_state where
  "page_demo = \<lparr>memory_map = \<lparr>mm_rest_pages = 2, mm_clock_block = 0, mm_num_blocks = 1,
     mm_max_pages = 32, mm_map = [18]\<rparr>, memory = (\<lambda>_. 5)\<rparr>"

lemma page_demo_free: "free_pages page_demo = {1, 4}"
proof (rule set_eqI)
  fix n
  have eq: "(18 :: u32) = bit_at 1 OR bit_at 4" by (simp add: bit_at_def)
  have "bit (18 :: u32) k \<longleftrightarrow> k = 1 \<or> k = 4" for k
    unfolding eq by (auto simp: bit_or_iff)
  from this [of "n mod 32"] show "n \<in> free_pages page_demo \<longleftrightarrow> n \<in> {1, 4}"
    by (auto simp: free_pages_def bm_set_def page_demo_def div_eq_0_iff)
qed

lemma page_demo_inv: "palloc_inv {1, 4} page_demo"
  by (simp add: palloc_inv_def page_demo_free) (simp add: page_demo_def)

text \<open>
  C24. \<^verbatim>\<open>palloc\<close> answers the null pointer, and changes nothing, exactly when no page is free. Otherwise it returns the kernel address of the lowest free page, which
  is not null. That page, and no other, leaves the free set; all 1024 cells of it read 0
  afterwards, no cell of another page has changed, and the allocator's invariant (free count,
  clock block and map agree) holds again.
\<close>

theorem palloc_lowest_zeroed:
  assumes "palloc_inv U st" and "palloc st = (a, st')"
  shows "if free_pages st = {} then a = 0 \<and> st' = st else \<exists>n. a = page_addr n \<and> a \<noteq> 0 \<and> n \<in> free_pages st \<and> (\<forall>z\<in>free_pages st. n \<le> z) \<and>
    free_pages st' = free_pages st - {n} \<and>
    (\<forall>i < 1024. memory st' (a + of_nat (4 * i)) = 0) \<and>
    (\<forall>c. page_of c \<noteq> n \<longrightarrow> memory st' c = memory st c) \<and> palloc_inv U st'"
proof (cases "free_pages st = {}")
  case True
  then show ?thesis using palloc_empty [OF assms(1)] assms(2) by simp
next
  case False
  let ?n = "Min (free_pages st)"
  note n = Min_free [OF False]
  have st': "a = page_addr ?n" "st' = page_taken st ?n"
    using palloc_hit [OF assms(1) False] assms(2) by auto
  have "memory st' = pzero (page_addr ?n) (memory st)"
    by (simp add: st' page_taken_def Let_def)
  then show ?thesis
    using False n st' free_pages_taken [OF assms(1) n(1)] page_taken_inv [OF assms(1) n]
      pzero_page [OF free_page_bound(1) [OF assms(1) n(1)], where m = "memory st"]
    by (simp only: if_False) (intro exI [of _ ?n], auto)
qed

theorem palloc_lowest_zeroed_witness:
  "\<exists>st'. palloc page_demo = (page_addr 1, st') \<and> free_pages st' = {4} \<and>
     memory st' (page_addr 1 + 4) = 0 \<and> memory st' (page_addr 4) = 5 \<and> palloc_inv {1, 4} st'"
proof -
  obtain a st' where p: "palloc page_demo = (a, st')" by fastforce
  have ne: "free_pages page_demo \<noteq> {}" by (simp add: page_demo_free)
  obtain n where n: "a = page_addr n" "n \<in> free_pages page_demo" "\<forall>z\<in>free_pages page_demo. n \<le> z"
    "free_pages st' = free_pages page_demo - {n}" "\<forall>i < 1024. memory st' (a + of_nat (4 * i)) = 0"
    "\<forall>c. page_of c \<noteq> n \<longrightarrow> memory st' c = memory page_demo c" "palloc_inv {1, 4} st'"
    using palloc_lowest_zeroed [OF page_demo_inv p] ne by auto
  then have "n = 1" by (auto simp: page_demo_free)
  moreover have "memory st' (a + of_nat (4 * 1)) = 0" using n(5) [rule_format, of 1] by simp
  moreover have "memory st' (page_addr 4) = 5"
    using n(6) \<open>n = 1\<close> by (simp add: page_demo_def)
  ultimately show ?thesis using n p by (auto simp: page_demo_free)
qed

text \<open>
  However the kernel mixes allocations and frees of pages it holds, the pages it holds are
  pairwise distinct, none of them is free, and held and free pages together are exactly the
  pages of the machine: no page is handed out twice and none leaks.
\<close>

theorem palloc_never_twice:
  assumes "palloc_inv U st" and "free_pages st = U"
    and "pool_run palloc_opt (\<lambda>n. pfree (page_addr n)) es (st, []) = Some (st', held)"
  shows "distinct held \<and> set held \<inter> free_pages st' = {} \<and> set held \<union> free_pages st' = U"
  using pages.pool_run_distinct [OF assms(1) assms(2) assms(3)] by simp

theorem palloc_never_twice_witness:
  "\<exists>st' held. pool_run palloc_opt (\<lambda>n. pfree (page_addr n)) [None, None, Some 1] (page_demo, [])
      = Some (st', held) \<and> distinct held \<and> set held \<union> free_pages st' = {1, 4}"
proof -
  obtain n s1 where 1: "palloc_opt page_demo = (Some n, s1)" "free_pages s1 = {1, 4} - {n}"
    "palloc_inv {1, 4} s1" "n \<in> {1, 4}"
    using pages.get_some [OF page_demo_inv] by (auto simp: page_demo_free)
  then have "free_pages s1 \<noteq> {}" by auto
  then obtain k s2 where 2: "palloc_opt s1 = (Some k, s2)" "k \<in> {1, 4} - {n}"
    using pages.get_some [OF 1(3)] 1(2) by auto
  let ?run = "pool_run palloc_opt (\<lambda>n. pfree (page_addr n)) [None, None, Some 1] (page_demo, [])"
  from 1 2 obtain st' held where "?run = Some (st', held)" by auto
  with palloc_never_twice [OF page_demo_inv page_demo_free this] show ?thesis by auto
qed

text \<open>
  The two refusals of \<^verbatim>\<open>pfree\<close>: freeing an address beyond the map, or a page that is
  already free, changes nothing at all, so a double free cannot corrupt the free count.
\<close>

theorem pfree_refuses:
  assumes "length (mm_map (memory_map st)) = mm_num_blocks (memory_map st)"
    and "32 * mm_num_blocks (memory_map st) \<le> page_of a \<or> page_of a \<in> free_pages st"
  shows "pfree a st = st"
proof (cases "mm_num_blocks (memory_map st) \<le> page_of a div 32")
  case True
  then show ?thesis by (simp add: pfree_def Let_def page_of_parts)
next
  case False
  then have "page_of a < 32 * mm_num_blocks (memory_map st)" by (simp add: not_le div_less_iff_less_mult)
  with assms have "bit (mm_map (memory_map st) ! (page_of a div 32)) (page_of a mod 32)"
    by (auto simp: free_pages_def bm_set_def)
  then have "mm_map (memory_map st) ! (page_of a div 32) AND bit_at (page_of a mod 32) \<noteq> 0"
    by (simp add: test_bit_mask)
  then show ?thesis by (simp add: pfree_def Let_def page_of_parts)
qed

theorem pfree_refuses_witness:
  "pfree (page_addr 4) page_demo = page_demo"
  using pfree_refuses [of page_demo "page_addr 4"] page_demo_free by (simp add: page_demo_def)

end
