(* ===== verification/Set_Map.thy ===== *)
theory Set_Map
  imports Set_Tree
begin

section \<open>AA trees as finite maps\<close>

text \<open>
  What the trees hold and that their operations are those of a finite map. The keys are ordered
  by the comparison function of the tree, which ranks them (interface \<open>comparator\<close>); the clients'
  view of a tree is the interface \<open>keyed_store\<close>.
\<close>

subsection \<open>Nodes under an order of the keys\<close>

lemma sorted_mid:
  "sorted_wrt (<) (map fst (xs @ (x, a) # ys)) \<longleftrightarrow>
     sorted_wrt (<) (map fst xs) \<and> sorted_wrt (<) (map fst ys) \<and>
     (\<forall>y\<in>fst ` set xs. y < x) \<and> (\<forall>y\<in>fst ` set ys. x < (y :: 'k :: linorder))"
  by (auto simp: sorted_wrt_append dest: less_trans)

lemma bst_Node [simp]:
  "bst f (Node a k v l r) \<longleftrightarrow> bst f l \<and> bst f r \<and>
     (\<forall>y\<in>fst ` set (contents f l). y < f k) \<and> (\<forall>y\<in>fst ` set (contents f r). f k < y)"
  unfolding bst_def contents.simps by (rule sorted_mid)

lemma bst_nil [simp]: "bst f nil_node"
  by (simp add: bst_def)

lemma bst_distinct: "bst f p \<Longrightarrow> distinct (map fst (contents f p))"
  by (simp add: bst_def strict_sorted_iff)

definition unlinked :: "'n option \<Rightarrow> 'n tree_t \<Rightarrow> 'n tree_t" where
  "unlinked a t = (case a of None \<Rightarrow> t | Some a \<Rightarrow> t\<lparr>removed := Some a, node_num := node_num t - 1\<rparr>)"

lemma filter_other: "x \<notin> fst ` set xs \<Longrightarrow> filter (\<lambda>e. fst e \<noteq> x) xs = xs"
  by (auto simp: filter_id_conv)

lemma map_of_other: "x \<notin> fst ` set xs \<Longrightarrow> map_of xs x = None"
  by (simp add: map_of_eq_None_iff)

locale comparator =
  fixes cmp :: "int \<Rightarrow> int \<Rightarrow> int" and f :: "int \<Rightarrow> int"
  assumes cmp_zero: "cmp a b = 0 \<longleftrightarrow> f a = f b"
    and cmp_less: "cmp a b < 0 \<longleftrightarrow> f a < f b"
begin

lemma bst_sides:
  assumes "bst f (Node a k v l r)"
  shows "bst f l" "bst f r" "f k \<notin> fst ` set (contents f l)" "f k \<notin> fst ` set (contents f r)"
    "x < f k \<Longrightarrow> x \<notin> fst ` set (contents f r)" "f k < x \<Longrightarrow> x \<notin> fst ` set (contents f l)"
  using assms unfolding bst_Node by (auto dest: less_asym)

lemma node_get_contents: "bst f p \<Longrightarrow> node_get cmp p key = map_of (contents f p) (f key)"
proof (induction p)
  case (Node a k v l r)
  note sides = bst_sides [OF Node.prems]
  note IH = Node.IH(1) [OF sides(1)] Node.IH(2) [OF sides(2)]
  show ?case
  proof (cases "f key" "f k" rule: linorder_cases)
    case less
    then have "map_of (contents f r) (f key) = None"
      using sides(5) by (simp add: map_of_eq_None_iff)
    with less IH(1) show ?thesis
      using cmp_zero [of key k] cmp_less [of key k]
      by (simp add: Let_def map_add_def split: option.split)
  next
    case equal
    then have "map_of (contents f l) (f key) = None"
      using sides(3) by (simp add: map_of_eq_None_iff)
    with equal show ?thesis using cmp_zero [of key k] by (simp add: Let_def map_add_def)
  next
    case greater
    then have "map_of (contents f l) (f key) = None"
      using sides(6) by (simp add: map_of_eq_None_iff)
    with greater IH(2) show ?thesis
      using cmp_zero [of key k] cmp_less [of key k]
      by (simp add: Let_def map_add_def split: option.split)
  qed
qed simp

lemma node_put_present:
  "bst f p \<Longrightarrow> f (key_of child) \<in> fst ` set (contents f p) \<Longrightarrow> node_put cmp p child = Some None"
proof (induction p)
  case (Node a k v l r)
  let ?k = "key_of child"
  note sides = bst_sides [OF Node.prems(1)]
  have c: "f ?k \<in> fst ` set (contents f l) \<or> f ?k = f k \<or> f ?k \<in> fst ` set (contents f r)"
    using Node.prems(2) by auto
  show ?case
  proof (cases "f ?k" "f k" rule: linorder_cases)
    case less
    then have "node_put cmp l child = Some None"
      using c sides(1,5) Node.IH(1) by auto
    with less show ?thesis using cmp_zero [of ?k k] cmp_less [of ?k k] by (simp add: Let_def)
  next
    case greater
    then have "node_put cmp r child = Some None"
      using c sides(2,6) Node.IH(2) by auto
    with greater show ?thesis using cmp_zero [of ?k k] cmp_less [of ?k k] by (simp add: Let_def)
  qed (use cmp_zero [of ?k k] in simp)
qed simp

lemma node_put_absent:
  assumes "bst f p" and "aa p" and "f k \<notin> fst ` set (contents f p)"
  shows "\<exists>q xs ys. node_put cmp p (Node c k 1 nil_node nil_node) = Some (Some q) \<and> grown p q \<and>
    bst f q \<and> contents f p = xs @ ys \<and> contents f q = xs @ (f k, c) # ys"
  using assms
proof (induction p)
  case nil_node
  then show ?case by (auto simp: grown_def)
next
  case (Node a k' v l r)
  let ?child = "Node c k 1 nil_node nil_node"
  show ?case
  proof (cases "f k < f k'")
    case True
    from Node.IH(1) Node.prems obtain q xs ys where
      q: "node_put cmp l ?child = Some (Some q)" "grown l q" "bst f q" "contents f l = xs @ ys"
        "contents f q = xs @ (f k, c) # ys" by auto
    from grown_left [OF Node.prems(2) q(2)] obtain p p' where
      p: "node_skew (Node a k' v q r) = Some p" "node_split p = Some p'" "grown (Node a k' v l r) p'"
      by blast
    have "contents f p' = xs @ (f k, c) # ys @ (f k', a) # contents f r"
      using contents_split [OF p(2), of f] contents_skew [OF p(1), of f] q(5) by simp
    moreover have "bst f (Node a k' v q r)" using Node.prems(1) q(3-5) True by auto
    then have "bst f p'"
      using contents_split [OF p(2), of f] contents_skew [OF p(1), of f] by (simp add: bst_def)
    ultimately show ?thesis
      using True q(1,4) p cmp_zero [of k k'] cmp_less [of k k']
      by (intro exI [of _ p'] exI [of _ xs] exI [of _ "ys @ (f k', a) # contents f r"])
        (simp add: Let_def del: node_skew.simps)
  next
    case False
    with Node.prems(3) have gt: "f k' < f k" by auto
    from Node.IH(2) Node.prems obtain q xs ys where
      q: "node_put cmp r ?child = Some (Some q)" "grown r q" "bst f q" "contents f r = xs @ ys"
        "contents f q = xs @ (f k, c) # ys" by auto
    from grown_right [OF Node.prems(2) q(2)] obtain p p' where
      p: "node_skew (Node a k' v l q) = Some p" "node_split p = Some p'" "grown (Node a k' v l r) p'"
      by blast
    have "contents f p' = (contents f l @ (f k', a) # xs) @ (f k, c) # ys"
      using contents_split [OF p(2), of f] contents_skew [OF p(1), of f] q(5) by simp
    moreover have "bst f (Node a k' v l q)" using Node.prems(1) q(3-5) gt by auto
    then have "bst f p'"
      using contents_split [OF p(2), of f] contents_skew [OF p(1), of f] by (simp add: bst_def)
    moreover have "contents f (Node a k' v l r) = (contents f l @ (f k', a) # xs) @ ys"
      using q(4) by simp
    ultimately show ?thesis
      using gt q(1) p cmp_zero [of k k'] cmp_less [of k k']
      by (intro exI [of _ p'] exI [of _ "contents f l @ (f k', a) # xs"] exI [of _ ys])
        (simp add: Let_def del: node_skew.simps)
  qed
qed

lemma shrunk_single:
  "aa (Node a k v nil_node r) \<Longrightarrow> shrunk (Node a k v nil_node r) r"
  by (cases r) (auto simp: shrunk_def)

lemma node_remove_swap_ok:
  assumes "aa p" and "p \<noteq> nil_node" and "bst f p"
  shows "\<exists>q a k r'. node_remove_swap t p (Node b kb v l r) = Some (q, Node a k v l r', node_destroy t (Node b kb v l r)) \<and>
    shrunk p q \<and> contents f p = (f k, a) # contents f q"
  using assms
proof (induction p)
  case (Node a k u pl pr)
  show ?case
  proof (cases "pl = nil_node")
    case True
    then show ?thesis using Node.prems shrunk_single [of a k u pr] by (auto simp: is_nil_def)
  next
    case False
    with Node obtain q a' k' r' where
      q: "node_remove_swap t pl (Node b kb v l r) = Some (q, Node a' k' v l r', node_destroy t (Node b kb v l r))"
        "shrunk pl q" "contents f pl = (f k', a') # contents f q" by auto
    from shrunk_left [OF Node.prems(1) q(2)] obtain p where
      p: "node_rebalance (Node a k u q pr) = Some p" "shrunk (Node a k u pl pr) p" by blast
    then have "contents f p = contents f q @ (f k, a) # contents f pr"
      using contents_rebalance [of "Node a k u q pr" p f] by simp
    with False q p show ?thesis by (auto simp: is_nil_def)
  qed
qed simp

lemma node_remove_ok:
  assumes "aa p" and "bst f p" and "compare t = cmp"
  shows "\<exists>q. node_remove t p key = Some (q, unlinked (map_of (contents f p) (f key)) t) \<and> shrunk p q \<and>
    contents f q = filter (\<lambda>e. fst e \<noteq> f key) (contents f p)"
  using assms
proof (induction p)
  case nil_node
  then show ?case by (simp add: shrunk_def unlinked_def)
next
  case (Node a k v l r)
  note sides = bst_sides [OF Node.prems(2)]
  have aa: "aa l" "aa r" using Node.prems(1) by auto
  show ?case
  proof (cases "f key" "f k" rule: linorder_cases)
    case less
    have n: "f key \<notin> fst ` set (contents f r)" by (rule sides(5) [OF less])
    then have m: "map_of (contents f (Node a k v l r)) (f key) = map_of (contents f l) (f key)"
      using less map_of_other [OF n] by (simp add: map_add_def split: option.split)
    from Node.IH(1) aa(1) sides(1) Node.prems(3) obtain q where
      q: "node_remove t l key = Some (q, unlinked (map_of (contents f l) (f key)) t)" "shrunk l q"
        "contents f q = filter (\<lambda>e. fst e \<noteq> f key) (contents f l)" by blast
    from shrunk_left [OF Node.prems(1) q(2)] obtain p where
      p: "node_rebalance (Node a k v q r) = Some p" "shrunk (Node a k v l r) p" by blast
    then show ?thesis
      using contents_rebalance [OF p(1), of f] less q(1,3) filter_other [OF n] m Node.prems(3)
        cmp_zero [of key k] cmp_less [of key k]
      by (simp add: Let_def)
  next
    case greater
    have n: "f key \<notin> fst ` set (contents f l)" by (rule sides(6) [OF greater])
    then have m: "map_of (contents f (Node a k v l r)) (f key) = map_of (contents f r) (f key)"
      using greater map_of_other [OF n] by (simp add: map_add_def split: option.split)
    from Node.IH(2) aa(2) sides(2) Node.prems(3) obtain q where
      q: "node_remove t r key = Some (q, unlinked (map_of (contents f r) (f key)) t)" "shrunk r q"
        "contents f q = filter (\<lambda>e. fst e \<noteq> f key) (contents f r)" by blast
    from shrunk_right [OF Node.prems(1) q(2)] obtain p where
      p: "node_rebalance (Node a k v l q) = Some p" "shrunk (Node a k v l r) p" by blast
    then show ?thesis
      using contents_rebalance [OF p(1), of f] greater q(1,3) filter_other [OF n] m Node.prems(3)
        cmp_zero [of key k] cmp_less [of key k]
      by (simp add: Let_def)
  next
    case equal
    have z: "compare t key k = 0" using equal cmp_zero Node.prems(3) by simp
    have m: "map_of (contents f (Node a k v l r)) (f key) = Some a"
      using map_of_other [OF sides(3)] map_of_other [OF sides(4)] equal by (simp add: map_add_def)
    have fl: "filter (\<lambda>e. fst e \<noteq> f key) (contents f (Node a k v l r)) = contents f l @ contents f r"
      using filter_other [OF sides(3)] filter_other [OF sides(4)] equal by simp
    consider "l = nil_node" | "l \<noteq> nil_node" "r \<noteq> nil_node"
      using Node.prems(1) aa_level_zero [OF aa(1)] by (cases "r = nil_node") auto
    then show ?thesis
    proof cases
      case 1
      then show ?thesis
        using z m fl shrunk_single [of a k v r] Node.prems(1)
        by (auto simp: is_nil_def unlinked_def simp del: aa.simps)
    next
      case 2
      from node_remove_swap_ok [OF aa(2) 2(2) sides(2), of t a k v l r] obtain q a' k' r' where
        q: "node_remove_swap t r (Node a k v l r) = Some (q, Node a' k' v l r', node_destroy t (Node a k v l r))"
          "shrunk r q" "contents f r = (f k', a') # contents f q" by blast
      have "aa (Node a' k' v l r)" using Node.prems(1) by auto
      from shrunk_right [OF this q(2)] obtain p where
        p: "node_rebalance (Node a' k' v l q) = Some p" "shrunk (Node a' k' v l r) p" by blast
      then have "shrunk (Node a k v l r) p" by (simp add: shrunk_def)
      then show ?thesis
        using z m fl q(1,3) p(1) 2 contents_rebalance [OF p(1), of f]
        by (simp add: is_nil_def unlinked_def)
    qed
  qed
qed

end

subsection \<open>The interface of the maps\<close>

datatype 'n kv_event = Get int | Put int 'n | Del int

datatype 'n kv_answer = Found "'n option" | Stored bool | Removed "'n option"

fun kv_run :: "('s \<Rightarrow> int \<Rightarrow> 'n option) \<Rightarrow> ('s \<Rightarrow> int \<Rightarrow> 'n \<Rightarrow> (bool \<times> 's) option) \<Rightarrow>
    ('s \<Rightarrow> int \<Rightarrow> ('n option \<times> 's) option) \<Rightarrow> 'n kv_event list \<Rightarrow> 's \<Rightarrow>
    ('n kv_answer list \<times> 's) option" where
  "kv_run g p r [] s = Some ([], s)"
| "kv_run g p r (Get k # es) s =
     do { (as, s') \<leftarrow> kv_run g p r es s; Some (Found (g s k) # as, s') }"
| "kv_run g p r (Put k n # es) s =
     do { (b, s1) \<leftarrow> p s k n; (as, s') \<leftarrow> kv_run g p r es s1; Some (Stored b # as, s') }"
| "kv_run g p r (Del k # es) s =
     do { (a, s1) \<leftarrow> r s k; (as, s') \<leftarrow> kv_run g p r es s1; Some (Removed a # as, s') }"

text \<open>The specification: the same requests answered by a mathematical map from ranks.\<close>

fun kv_spec :: "(int \<Rightarrow> int) \<Rightarrow> 'n kv_event list \<Rightarrow> (int \<rightharpoonup> 'n) \<Rightarrow> 'n kv_answer list \<times> (int \<rightharpoonup> 'n)" where
  "kv_spec f [] m = ([], m)"
| "kv_spec f (Get k # es) m = (case kv_spec f es m of (as, m') \<Rightarrow> (Found (m (f k)) # as, m'))"
| "kv_spec f (Put k n # es) m =
     (case kv_spec f es (if m (f k) = None then m(f k \<mapsto> n) else m) of
        (as, m') \<Rightarrow> (Stored (m (f k) = None) # as, m'))"
| "kv_spec f (Del k # es) m =
     (case kv_spec f es (m(f k := None)) of (as, m') \<Rightarrow> (Removed (m (f k)) # as, m'))"

locale keyed_store =
  fixes inv :: "'s \<Rightarrow> bool" and amap :: "'s \<Rightarrow> int \<rightharpoonup> 'n" and f :: "int \<Rightarrow> int"
    and get :: "'s \<Rightarrow> int \<Rightarrow> 'n option"
    and put :: "'s \<Rightarrow> int \<Rightarrow> 'n \<Rightarrow> (bool \<times> 's) option"
    and remove :: "'s \<Rightarrow> int \<Rightarrow> ('n option \<times> 's) option"
    and num :: "'s \<Rightarrow> u32"
  assumes get_law: "inv s \<Longrightarrow> get s k = amap s (f k)"
    and put_absent: "inv s \<Longrightarrow> amap s (f k) = None \<Longrightarrow>
      \<exists>s'. put s k n = Some (True, s') \<and> inv s' \<and> amap s' = (amap s)(f k \<mapsto> n)"
    and put_present: "inv s \<Longrightarrow> amap s (f k) \<noteq> None \<Longrightarrow> put s k n = Some (False, s)"
    and remove_law: "inv s \<Longrightarrow>
      \<exists>s'. remove s k = Some (amap s (f k), s') \<and> inv s' \<and> amap s' = (amap s)(f k := None)"
    and num_law: "inv s \<Longrightarrow> finite (dom (amap s)) \<and> num s = of_nat (card (dom (amap s)))"
begin

lemma put_get: "inv s \<Longrightarrow> amap s (f k) = None \<Longrightarrow> \<exists>s'. put s k n = Some (True, s') \<and>
    get s' k = Some n \<and> (\<forall>k'. f k' \<noteq> f k \<longrightarrow> get s' k' = get s k')"
  using put_absent [of s k n] get_law by fastforce

lemma remove_get: "inv s \<Longrightarrow> \<exists>a s'. remove s k = Some (a, s') \<and> a = get s k \<and>
    get s' k = None \<and> (\<forall>k'. f k' \<noteq> f k \<longrightarrow> get s' k' = get s k')"
  using remove_law [of s k] get_law by fastforce

lemma kv_run_spec:
  assumes "inv s"
  shows "\<exists>s'. kv_run get put remove es s = Some (fst (kv_spec f es (amap s)), s') \<and> inv s' \<and>
    amap s' = snd (kv_spec f es (amap s))"
  using assms
proof (induction es arbitrary: s)
  case (Cons e es)
  show ?case
  proof (cases e)
    case (Get k)
    with Cons show ?thesis by (fastforce simp: get_law split: prod.splits)
  next
    case (Put k n)
    show ?thesis
    proof (cases "amap s (f k) = None")
      case True
      from put_absent [OF Cons.prems this] obtain s1 where
        "put s k n = Some (True, s1)" "inv s1" "amap s1 = (amap s)(f k \<mapsto> n)" by blast
      with True Put Cons.IH [of s1] show ?thesis by (auto split: prod.splits simp del: fun_upd_apply)
    next
      case False
      with Put put_present [OF Cons.prems False] Cons.IH [OF Cons.prems] show ?thesis
        by (auto split: prod.splits)
    qed
  next
    case (Del k)
    from remove_law [OF Cons.prems, of k] obtain s1 where
      "remove s k = Some (amap s (f k), s1)" "inv s1" "amap s1 = (amap s)(f k := None)" by blast
    with Del Cons.IH [of s1] show ?thesis by (auto split: prod.splits simp del: fun_upd_apply)
  qed
qed simp

end

subsection \<open>Trees as maps\<close>

text \<open>
  \<open>slot\<close> is the root a rank belongs to: the only root, or an entry of the lookup table.
\<close>

definition tree_map :: "(int \<Rightarrow> int) \<Rightarrow> (int \<Rightarrow> nat) \<Rightarrow> 'n tree_t \<Rightarrow> int \<rightharpoonup> 'n" where
  "tree_map f slot t x = map_of (contents f (roots t ! slot x)) x"

definition root_ok :: "(int \<Rightarrow> int) \<Rightarrow> (int \<Rightarrow> nat) \<Rightarrow> nat \<Rightarrow> 'n node_t \<Rightarrow> bool" where
  "root_ok f slot i p \<longleftrightarrow> aa p \<and> bst f p \<and> (\<forall>x\<in>fst ` set (contents f p). slot x = i)"

definition tree_inv :: "(int \<Rightarrow> int) \<Rightarrow> (int \<Rightarrow> nat) \<Rightarrow> 'n tree_t \<Rightarrow> bool" where
  "tree_inv f slot t \<longleftrightarrow> comparator (compare t) f \<and>
     (\<forall>k. select_root t k = slot (f k)) \<and> (\<forall>x. slot x < length (roots t)) \<and>
     (\<forall>i<length (roots t). root_ok f slot i (roots t ! i)) \<and>
     node_num t = of_nat (sum_list (map node_count (roots t)))"

lemma tree_invD:
  assumes "tree_inv f slot t"
  shows "comparator (compare t) f" "select_root t k = slot (f k)" "slot x < length (roots t)"
    "i < length (roots t) \<Longrightarrow> root_ok f slot i (roots t ! i)"
    "node_num t = of_nat (sum_list (map node_count (roots t)))"
  using assms by (auto simp: tree_inv_def)

lemma node_count_update:
  assumes "i < length ps"
  shows "sum_list (map node_count (ps[i := q])) + node_count (ps ! i) =
    sum_list (map node_count ps) + node_count q"
  using assms elem_le_sum_list [of i "map node_count ps"]
  by (simp add: map_update sum_list_update)

lemma tree_map_root:
  "tree_map f slot (t\<lparr>roots := (roots t)[i := q]\<rparr>) x =
    (if slot x = i \<and> i < length (roots t) then map_of (contents f q) x else tree_map f slot t x)"
  by (cases "i < length (roots t)") (auto simp: tree_map_def nth_list_update list_update_beyond)

lemma tree_get_map: "tree_inv f slot t \<Longrightarrow> tree_get t k = tree_map f slot t (f k)"
  using comparator.node_get_contents [OF tree_invD(1)] tree_invD
  by (fastforce simp: tree_get_def tree_map_def root_ok_def)

lemma tree_put_present:
  assumes "tree_inv f slot t" and "tree_map f slot t (f k) \<noteq> None"
  shows "tree_put t k n = Some (False, t)"
proof -
  let ?p = "roots t ! slot (f k)"
  have "bst f ?p" "f k \<in> fst ` set (contents f ?p)"
    using tree_invD(3,4) [OF assms(1)] assms(2)
    by (auto simp: root_ok_def tree_map_def map_of_eq_None_iff)
  then have "node_put (compare t) ?p (Node n k 1 nil_node nil_node) = Some None"
    using comparator.node_put_present [OF tree_invD(1) [OF assms(1)]] by force
  then show ?thesis using tree_invD(2) [OF assms(1)] by (simp add: tree_put_def Let_def)
qed

lemma map_of_insert_mid:
  assumes "x \<notin> fst ` set (xs @ ys)"
  shows "map_of (xs @ (x, a) # ys) = (map_of (xs @ ys))(x \<mapsto> a)"
proof -
  have "map_of xs x = None" using assms by (intro map_of_other) (simp add: image_Un)
  then show ?thesis by (auto simp: fun_eq_iff map_add_def split: option.split)
qed

lemma tree_put_absent:
  assumes t: "tree_inv f slot t" and k: "tree_map f slot t (f k) = None"
  shows "\<exists>t'. tree_put t k n = Some (True, t') \<and> tree_inv f slot t' \<and>
    tree_map f slot t' = (tree_map f slot t)(f k \<mapsto> n)"
proof -
  let ?i = "slot (f k)" let ?p = "roots t ! ?i"
  have i: "?i < length (roots t)" by (rule tree_invD(3) [OF t])
  then have p: "aa ?p" "bst f ?p" "\<forall>x\<in>fst ` set (contents f ?p). slot x = ?i"
    using tree_invD(4) [OF t] by (auto simp: root_ok_def)
  have ab: "f k \<notin> fst ` set (contents f ?p)" using k by (simp add: tree_map_def map_of_eq_None_iff)
  from comparator.node_put_absent [OF tree_invD(1) [OF t] p(2,1) ab, of n] obtain q xs ys where
    q: "node_put (compare t) ?p (Node n k 1 nil_node nil_node) = Some (Some q)" "grown ?p q" "bst f q"
      "contents f ?p = xs @ ys" "contents f q = xs @ (f k, n) # ys" by blast
  let ?t = "t\<lparr>roots := (roots t)[?i := q]\<rparr>"
  have put: "tree_put t k n = Some (True, ?t\<lparr>node_num := node_num t + 1\<rparr>)"
    using q(1) tree_invD(2) [OF t] by (simp add: tree_put_def Let_def)
  have "node_count q = node_count ?p + 1" using q(4,5) by (simp flip: length_contents [of f])
  then have num: "sum_list (map node_count ((roots t)[?i := q])) = sum_list (map node_count (roots t)) + 1"
    using node_count_update [OF i, of q] by simp
  have ok: "root_ok f slot ?i q" using p(3) q by (auto simp: root_ok_def grown_def)
  have "tree_inv f slot (?t\<lparr>node_num := node_num t + 1\<rparr>)"
    using t ok i num by (auto simp: tree_inv_def nth_list_update)
  moreover have "map_of (contents f q) = (map_of (contents f ?p))(f k \<mapsto> n)"
    using ab q(4,5) map_of_insert_mid [of "f k" xs ys n] by simp
  then have "tree_map f slot ?t = (tree_map f slot t)(f k \<mapsto> n)"
    using i by (auto simp: fun_eq_iff tree_map_root) (simp_all add: tree_map_def)
  then have "tree_map f slot (?t\<lparr>node_num := node_num t + 1\<rparr>) = (tree_map f slot t)(f k \<mapsto> n)"
    by (simp add: tree_map_def fun_eq_iff)
  ultimately show ?thesis using put by blast
qed

lemma map_of_filter_other: "map_of (filter (\<lambda>e. fst e \<noteq> x) xs) = (map_of xs)(x := None)"
  by (induction xs) (auto simp: fun_eq_iff)

lemma unlinked_simps [simp]:
  "compare (unlinked a t) = compare t" "select_root (unlinked a t) = select_root t"
  "roots (unlinked a t) = roots t"
  by (auto simp: unlinked_def split: option.split)

lemma length_filter_other:
  "distinct (map fst xs) \<Longrightarrow>
    length (filter (\<lambda>e. fst e \<noteq> x) xs) + (if map_of xs x = None then 0 else 1) = length xs"
  by (induction xs) (auto simp: filter_other map_of_other)

lemma tree_remove_ok:
  assumes t: "tree_inv f slot t"
  shows "\<exists>t'. tree_remove t k = Some (tree_map f slot t (f k), t') \<and> tree_inv f slot t' \<and>
    tree_map f slot t' = (tree_map f slot t)(f k := None)"
proof -
  let ?i = "slot (f k)" let ?p = "roots t ! ?i" let ?s = "t\<lparr>removed := None\<rparr>"
  let ?a = "map_of (contents f ?p) (f k)"
  have i: "?i < length (roots t)" by (rule tree_invD(3) [OF t])
  then have p: "aa ?p" "bst f ?p" "\<forall>x\<in>fst ` set (contents f ?p). slot x = ?i"
    using tree_invD(4) [OF t] by (auto simp: root_ok_def)
  have "compare ?s = compare t" by simp
  from comparator.node_remove_ok [OF tree_invD(1) [OF t] p(1,2) this] obtain q where
    q: "node_remove ?s ?p k = Some (q, unlinked ?a ?s)" "shrunk ?p q"
      "contents f q = filter (\<lambda>e. fst e \<noteq> f k) (contents f ?p)" by blast
  let ?t = "(unlinked ?a ?s)\<lparr>roots := (roots t)[?i := q]\<rparr>"
  have "removed (unlinked ?a ?s) = ?a" by (simp add: unlinked_def split: option.split)
  then have rem: "tree_remove t k = Some (tree_map f slot t (f k), ?t)"
    using q(1) tree_invD(2) [OF t] by (simp add: tree_remove_def Let_def tree_map_def)
  have "node_count q + (if ?a = None then 0 else 1) = node_count ?p"
    using length_filter_other [OF bst_distinct [OF p(2)], of "f k"] q(3)
    by (simp flip: length_contents [of f])
  then have num: "sum_list (map node_count ((roots t)[?i := q])) + (if ?a = None then 0 else 1) =
      sum_list (map node_count (roots t))"
    using node_count_update [OF i, of q] by (simp split: if_splits)
  have "bst f q"
    using p(2) q(3) sorted_wrt_filter [of "\<lambda>a b. fst a < fst b" "contents f ?p"]
    by (simp add: bst_def sorted_wrt_map)
  moreover have "fst ` set (contents f q) \<subseteq> fst ` set (contents f ?p)" using q(3) by auto
  ultimately have ok: "root_ok f slot ?i q" using p(3) q(2) unfolding root_ok_def shrunk_def by blast
  have "node_num ?t = of_nat (sum_list (map node_count ((roots t)[?i := q])))"
    using tree_invD(5) [OF t] by (cases ?a) (simp_all add: unlinked_def flip: num)
  then have "tree_inv f slot ?t"
    using t ok i unfolding tree_inv_def by (simp add: nth_list_update)
  moreover have "tree_map f slot (t\<lparr>roots := (roots t)[?i := q]\<rparr>) = (tree_map f slot t)(f k := None)"
    using i q(3) by (auto simp: fun_eq_iff tree_map_root map_of_filter_other) (simp_all add: tree_map_def)
  then have "tree_map f slot ?t = (tree_map f slot t)(f k := None)"
    by (simp add: tree_map_def fun_eq_iff)
  ultimately show ?thesis using rem by blast
qed

lemma tree_num:
  assumes t: "tree_inv f slot t"
  shows "finite (dom (tree_map f slot t)) \<and> tree_size t = of_nat (card (dom (tree_map f slot t)))"
proof -
  let ?n = "length (roots t)" let ?K = "\<lambda>i. fst ` set (contents f (roots t ! i))"
  have ok: "root_ok f slot i (roots t ! i)" if "i < ?n" for i using tree_invD(4) [OF t that] .
  have d: "dom (tree_map f slot t) = (\<Union>i<?n. ?K i)"
  proof (intro set_eqI iffI)
    fix x assume "x \<in> dom (tree_map f slot t)"
    then have "x \<in> ?K (slot x)" by (metis domIff map_of_eq_None_iff tree_map_def)
    then show "x \<in> (\<Union>i<?n. ?K i)" using tree_invD(3) [OF t] by blast
  next
    fix x assume "x \<in> (\<Union>i<?n. ?K i)"
    then obtain i where "i < ?n" "x \<in> ?K i" by blast
    moreover from this have "slot x = i" using ok [of i] by (auto simp: root_ok_def)
    ultimately have "x \<in> ?K (slot x)" by simp
    then show "x \<in> dom (tree_map f slot t)" by (metis domIff map_of_eq_None_iff tree_map_def)
  qed
  have "card (?K i) = node_count (roots t ! i)" if "i < ?n" for i
    using ok [OF that] bst_distinct [of f "roots t ! i"] distinct_card [of "map fst (contents f (roots t ! i))"]
    by (simp add: root_ok_def length_contents)
  moreover have "card (\<Union>i<?n. ?K i) = (\<Sum>i<?n. card (?K i))"
  proof (rule card_UN_disjoint)
    show "\<forall>i\<in>{..<?n}. \<forall>j\<in>{..<?n}. i \<noteq> j \<longrightarrow> ?K i \<inter> ?K j = {}"
    proof (intro ballI impI)
      fix i j assume "i \<in> {..<?n}" "j \<in> {..<?n}" "i \<noteq> j"
      then have "\<forall>x\<in>?K i. slot x = i" "\<forall>x\<in>?K j. slot x = j"
        using ok [of i] ok [of j] unfolding root_ok_def by blast+
      with \<open>i \<noteq> j\<close> show "?K i \<inter> ?K j = {}" by (metis disjoint_iff)
    qed
  qed auto
  ultimately have "card (\<Union>i<?n. ?K i) = sum_list (map node_count (roots t))"
    by (simp add: sum_list_sum_nth atLeast0LessThan)
  with d show ?thesis using tree_invD(5) [OF t] by (simp add: tree_size_def)
qed

interpretation trees: keyed_store "tree_inv f slot" "tree_map f slot" f tree_get tree_put tree_remove tree_size
  for f slot
proof unfold_locales
  fix s :: "'n tree_t" and k n
  assume s: "tree_inv f slot s"
  show "tree_get s k = tree_map f slot s (f k)" by (rule tree_get_map [OF s])
  show "\<exists>s'. tree_put s k n = Some (True, s') \<and> tree_inv f slot s' \<and>
      tree_map f slot s' = (tree_map f slot s)(f k \<mapsto> n)" if "tree_map f slot s (f k) = None"
    by (rule tree_put_absent [OF s that])
  show "tree_put s k n = Some (False, s)" if "tree_map f slot s (f k) \<noteq> None"
    by (rule tree_put_present [OF s that])
  show "\<exists>s'. tree_remove s k = Some (tree_map f slot s (f k), s') \<and> tree_inv f slot s' \<and>
      tree_map f slot s' = (tree_map f slot s)(f k := None)" by (rule tree_remove_ok [OF s])
  show "finite (dom (tree_map f slot s)) \<and> tree_size s = of_nat (card (dom (tree_map f slot s)))"
    by (rule tree_num [OF s])
qed

interpretation ints: comparator compare_int "\<lambda>k. k"
  by unfold_locales (auto simp: compare_int_def)

lemma tree_create_inv:
  "tree_inv (\<lambda>k. k) (\<lambda>x. 0) (tree_create None None t) \<and>
    tree_map (\<lambda>k. k) (\<lambda>x. 0) (tree_create None None t) = Map.empty"
  by (auto simp: tree_inv_def tree_create_def root_ok_def select_root_direct_def tree_map_def
      fun_eq_iff ints.comparator_axioms)

lemma tree_create_lookup_inv:
  assumes "\<And>k. sel k < n"
  shows "tree_inv (\<lambda>k. k) sel (tree_initialize_lookup n (tree_create None (Some sel) t)) \<and>
    tree_map (\<lambda>k. k) sel (tree_initialize_lookup n (tree_create None (Some sel) t)) = Map.empty"
  using assms
  by (auto simp: tree_inv_def tree_create_def tree_initialize_lookup_def root_ok_def tree_map_def
      fun_eq_iff ints.comparator_axioms sum_list_replicate)

lemma node_first_contents: "node_to_null (node_first p) = map_option snd (case contents f p of [] \<Rightarrow> None | e # _ \<Rightarrow> Some e)"
proof (induction p)
  case (Node a k v l r)
  then show ?case by (cases l; cases "contents f l") (auto simp: is_nil_def)
qed simp

text \<open>Visiting a list with a callback that may ask to stop.\<close>

fun visit :: "('n \<Rightarrow> 's \<Rightarrow> bool \<times> 's) \<Rightarrow> 'n list \<Rightarrow> 's \<Rightarrow> bool \<times> 's" where
  "visit g [] s = (False, s)"
| "visit g (a # as) s = (case g a s of (True, s') \<Rightarrow> (True, s') | (False, s') \<Rightarrow> visit g as s')"

lemma visit_append:
  "visit g (as @ bs) s = (case visit g as s of (True, s') \<Rightarrow> (True, s') | (False, s') \<Rightarrow> visit g bs s')"
  by (induction as arbitrary: s) (auto split: prod.split bool.split)

lemma node_traverse_visit: "node_traverse g p s = visit g (map snd (contents f p)) s"
  by (induction p arbitrary: s) (auto simp: visit_append split: prod.split bool.split)

fun node_height :: "'n node_t \<Rightarrow> nat" where
  "node_height nil_node = 0"
| "node_height (Node a k v l r) = max (node_height l) (node_height r) + 1"

lemma aa_count: "aa p \<Longrightarrow> 2 ^ nat (level p) \<le> node_count p + 1"
proof (induction p)
  case (Node a k v l r)
  then have "aa l" "aa r" "v = level l + 1" "level l \<le> level r" by auto
  moreover from this have "nat v = nat (level l) + 1" "nat (level l) \<le> nat (level r)"
    using aa_level_nonneg [of l] by auto
  moreover from this(2) have "(2 :: nat) ^ nat (level l) \<le> 2 ^ nat (level r)"
    by (simp add: power_increasing)
  ultimately show ?case using Node.IH by (simp del: power_increasing_iff)
qed simp

lemma aa_height: "aa p \<Longrightarrow> int (node_height p) \<le> 2 * level p \<and> (sngl p \<longrightarrow> int (node_height p) \<le> 2 * level p - 1)"
proof (induction p)
  case (Node a k v l r)
  then have *: "aa l" "aa r" "v = level l + 1" "level r = level l \<or> level r = v \<and> level (right r) = v - 1"
    by auto
  then have "sngl r" if "level r = v" using that aa_level_nonneg [of l] by (cases r) auto
  with Node.IH * show ?case by auto
qed simp

subsection \<open>What the trees promise\<close>

text \<open>
  C5. Over any sequence of \<^verbatim>\<open>tree_get\<close>, \<^verbatim>\<open>tree_put\<close> and \<^verbatim>\<open>tree_remove\<close> calls a tree answers
  exactly like a finite map: lookups return the stored node, a put of a present key is refused,
  a removal returns the node that was stored. No call ever rotates or relabels the shared
  sentinel (the run has a result), the tree keeps its invariant, and \<^verbatim>\<open>node_num\<close> counts the keys.
  This holds for every comparison function that ranks the keys and with a lookup table of roots.
\<close>

theorem tree_is_a_map:
  assumes "tree_inv f slot t"
  shows "\<exists>t'. kv_run tree_get tree_put tree_remove es t = Some (fst (kv_spec f es (tree_map f slot t)), t') \<and>
    tree_inv f slot t' \<and> tree_map f slot t' = snd (kv_spec f es (tree_map f slot t)) \<and>
    tree_size t' = of_nat (card (dom (tree_map f slot t')))"
  using trees.kv_run_spec [OF assms, of es] trees.num_law by blast

definition tree_blank :: "nat tree_t" where
  "tree_blank = \<lparr>compare = compare_int, select_root = select_root_direct, roots = [], has_table = True, node_num = 7,
     removed = None\<rparr>"

theorem tree_is_a_map_witness:
  "\<exists>t'. kv_run tree_get tree_put tree_remove [Put 5 50, Put 3 30, Put 5 51, Get 3, Del 5, Get 5]
      (tree_create None None tree_blank) =
    Some ([Stored True, Stored True, Stored False, Found (Some 30), Removed (Some 50), Found None], t')"
proof -
  note c = tree_create_inv [of tree_blank]
  from tree_is_a_map [OF conjunct1 [OF c], of "[Put 5 50, Put 3 30, Put 5 51, Get 3, Del 5, Get 5]"]
  show ?thesis using conjunct2 [OF c] by auto
qed

text \<open>
  \<^verbatim>\<open>tree_create\<close> makes an empty map, and so does \<^verbatim>\<open>tree_initialize_lookup\<close> for a table of
  roots whenever the selector stays inside the table.
\<close>

theorem tree_create_empty:
  assumes "\<And>k. sel k < n"
  shows "tree_inv (\<lambda>k. k) (\<lambda>x. 0) (tree_create None None t) \<and>
    tree_map (\<lambda>k. k) (\<lambda>x. 0) (tree_create None None t) = Map.empty \<and>
    tree_inv (\<lambda>k. k) sel (tree_initialize_lookup n (tree_create None (Some sel) t)) \<and>
    tree_map (\<lambda>k. k) sel (tree_initialize_lookup n (tree_create None (Some sel) t)) = Map.empty"
  using tree_create_inv [of t] tree_create_lookup_inv [OF assms, where t = t] by auto

theorem tree_create_empty_witness:
  "tree_inv (\<lambda>k. k) (\<lambda>k. nat (k mod 4))
    (tree_initialize_lookup 4 (tree_create None (Some (\<lambda>k. nat (k mod 4))) tree_blank))"
  using tree_create_empty [of "\<lambda>k. nat (k mod 4)" 4 tree_blank] by (auto simp: nat_less_iff)

subsection \<open>Order and cost\<close>

text \<open>The number of comparisons of \<^verbatim>\<open>tree_get\<close>: one for every turn of its loop.\<close>

fun get_compares :: "(int \<Rightarrow> int \<Rightarrow> int) \<Rightarrow> 'n node_t \<Rightarrow> int \<Rightarrow> nat" where
  "get_compares cmp nil_node key = 0"
| "get_compares cmp (Node a k v l r) key =
     (let d = cmp key k
      in if d = 0 then 1 else 1 + get_compares cmp (if d < 0 then l else r) key)"

lemma get_compares_height: "get_compares cmp p key \<le> node_height p"
  by (induction cmp p key rule: get_compares.induct) (auto simp: Let_def)

lemma aa_height_count:
  assumes "aa p"
  shows "2 ^ ((node_height p + 1) div 2) \<le> node_count p + 1"
proof -
  have "(node_height p + 1) div 2 \<le> nat (level p)" using aa_height [OF assms] by linarith
  then have "(2 :: nat) ^ ((node_height p + 1) div 2) \<le> 2 ^ nat (level p)" by (rule power_increasing) simp
  with aa_count [OF assms] show ?thesis by linarith
qed

lemma contents_sorted_list:
  assumes "tree_inv f (\<lambda>x. 0) t"
  shows "map fst (contents f (roots t ! 0)) = sorted_list_of_set (dom (tree_map f (\<lambda>x. 0) t))"
    "contents f (roots t ! 0) = map (\<lambda>x. (x, the (tree_map f (\<lambda>x. 0) t x))) (sorted_list_of_set (dom (tree_map f (\<lambda>x. 0) t)))"
proof -
  let ?c = "contents f (roots t ! 0)" and ?m = "tree_map f (\<lambda>x. 0) t"
  have "0 < length (roots t)" using tree_invD(3) [OF assms] by simp
  then have b: "bst f (roots t ! 0)" using tree_invD(4) [OF assms, of 0] by (simp add: root_ok_def)
  have m: "?m = map_of ?c" by (simp add: tree_map_def fun_eq_iff)
  then have d: "dom ?m = set (map fst ?c)" by (simp add: dom_map_of_conv_image_fst)
  show e: "map fst ?c = sorted_list_of_set (dom ?m)"
    unfolding d using b unfolding bst_def by (metis sorted_list_of_set.idem_if_sorted_distinct strict_sorted_iff)
  have "?c = map (\<lambda>x. (x, the (map_of ?c x))) (map fst ?c)"
    unfolding map_map by (rule map_idI [symmetric]) (use bst_distinct [OF b] in \<open>auto simp: map_of_eq_Some_iff\<close>)
  then show "?c = map (\<lambda>x. (x, the (?m x))) (sorted_list_of_set (dom ?m))" unfolding e [unfolded m, symmetric] m .
qed

text \<open>
  C31. In a tree without a lookup table, \<^verbatim>\<open>tree_first\<close> returns the node stored under the least key, or a null pointer if there is none, and
  \<^verbatim>\<open>tree_traverse\<close> calls back for all nodes in the order of their keys, until a callback asks to stop.
\<close>

theorem tree_in_order:
  fixes f t
  defines "m \<equiv> tree_map f (\<lambda>x. 0) t"
  assumes "tree_inv f (\<lambda>x. 0) t" and "\<not> has_table t"
  shows "tree_first t = Some (if dom m = {} then None else m (Min (dom m))) \<and>
    tree_traverse g t s = Some (snd (visit g (map (the \<circ> m) (sorted_list_of_set (dom m))) s))"
proof -
  let ?c = "contents f (roots t ! 0)"
  have fin: "finite (dom m)" using tree_num [OF assms(2)] by (simp add: m_def)
  have c: "?c = map (\<lambda>x. (x, the (m x))) (sorted_list_of_set (dom m))"
    unfolding m_def by (rule contents_sorted_list(2) [OF assms(2)])
  have "node_to_null (node_first (roots t ! 0)) = (if dom m = {} then None else m (Min (dom m)))"
  proof (cases "dom m = {}")
    case True
    then show ?thesis using node_first_contents [of "roots t ! 0" f] c by simp
  next
    case False
    then have "m (Min (dom m)) \<noteq> None" using Min_in [OF fin False] by (simp add: domIff)
    then show ?thesis using node_first_contents [of "roots t ! 0" f] c False
        sorted_list_of_set_nonempty [OF fin False] by auto
  qed
  moreover have "map snd ?c = map (the \<circ> m) (sorted_list_of_set (dom m))" unfolding c by simp
  ultimately show ?thesis
    using node_traverse_visit [of g "roots t ! 0" s f] assms(3) by (simp add: tree_first_def tree_traverse_def)
qed

text \<open>Trees that were made by \<^verbatim>\<open>tree_create\<close> stay without a table.\<close>

lemma node_destroy_table [simp]: "has_table (node_destroy t p) = has_table t"
  by (cases p) auto

lemma node_remove_swap_table: "node_remove_swap t p to = Some (q, to', t') \<Longrightarrow> has_table t' = has_table t"
  by (induction t p to arbitrary: q to' t' rule: node_remove_swap.induct) (auto simp: bind_eq_Some_conv split: if_splits)

lemma node_remove_table: "node_remove t p key = Some (q, t') \<Longrightarrow> has_table t' = has_table t"
  by (induction t p key arbitrary: q t' rule: node_remove.induct)
    (auto simp: bind_eq_Some_conv Let_def split: if_splits dest!: node_remove_swap_table)

lemma kv_run_table: "kv_run tree_get tree_put tree_remove es t = Some (as, t') \<Longrightarrow> has_table t' = has_table t"
proof (induction es arbitrary: t as)
  case (Cons e es)
  have put: "has_table t2 = has_table t" if "tree_put t k n = Some (b, t2)" for k n b t2
    using that by (auto simp: tree_put_def Let_def bind_eq_Some_conv split: option.splits)
  have rem: "has_table t2 = has_table t" if "tree_remove t k = Some (b, t2)" for k b t2
    using that by (auto simp: tree_remove_def Let_def bind_eq_Some_conv dest!: node_remove_table)
  show ?case using Cons by (cases e) (auto simp: bind_eq_Some_conv dest!: put rem)
qed simp

theorem tree_in_order_witness:
  "\<exists>as t. kv_run tree_get tree_put tree_remove [Put 5 50, Put 3 30, Put 9 90] (tree_create None None tree_blank) = Some (as, t) \<and>
    tree_first t = Some (Some 30) \<and> tree_traverse (\<lambda>a s. (False, s @ [a])) t [] = Some [30, 50, 90]"
proof -
  let ?es = "[Put 5 50, Put 3 30, Put 9 90]"
  note c = tree_create_inv [of tree_blank]
  from trees.kv_run_spec [OF conjunct1 [OF c], of ?es] obtain as t where
    t: "kv_run tree_get tree_put tree_remove ?es (tree_create None None tree_blank) = Some (as, t)"
      "tree_inv (\<lambda>k. k) (\<lambda>x. 0) t" "tree_map (\<lambda>k. k) (\<lambda>x. 0) t = [5 \<mapsto> 50, 3 \<mapsto> 30, 9 \<mapsto> 90]"
    using conjunct2 [OF c] by (auto simp: fun_eq_iff)
  have "\<not> has_table t" using kv_run_table [OF t(1)] by (simp add: tree_create_def)
  note o = tree_in_order [OF t(2) this, of "\<lambda>a s. (False, s @ [a])" "[]", unfolded t(3)]
  have d: "dom [5 \<mapsto> 50, 3 \<mapsto> 30, 9 \<mapsto> (90 :: nat)] = {3, 5, 9 :: int}" by auto
  have "sorted_list_of_set {3, 5, 9 :: int} = [3, 5, 9]" by simp
  moreover have "Min {3, 5, 9 :: int} = 3" by simp
  ultimately show ?thesis using o t(1) unfolding d by auto
qed

text \<open>
  C30. Lookups are logarithmic: after any sequence of operations on a new tree, \<^verbatim>\<open>tree_get\<close> makes \<open>c\<close> comparisons only if the tree
  has at least \<open>2 ^ ((c + 1) div 2) - 1\<close> keys, that is, at most \<open>2 * log2 (n + 1)\<close> among \<open>n\<close> keys, whether the key is there or not.
\<close>

theorem tree_get_compares:
  assumes "tree_inv f slot t" and "kv_run tree_get tree_put tree_remove es t = Some (as, t')"
  shows "2 ^ ((get_compares (compare t') (roots t' ! select_root t' key) key + 1) div 2) \<le> card (dom (tree_map f slot t')) + 1"
proof -
  have t': "tree_inv f slot t'" using trees.kv_run_spec [OF assms(1), of es] assms(2) by auto
  let ?p = "roots t' ! select_root t' key" and ?i = "select_root t' key"
  have i: "?i < length (roots t')" using tree_invD(2,3) [OF t'] by simp
  then have ok: "root_ok f slot ?i ?p" using tree_invD(4) [OF t'] by simp
  have "2 ^ ((get_compares (compare t') ?p key + 1) div 2) \<le> (2 :: nat) ^ ((node_height ?p + 1) div 2)"
    using get_compares_height [of "compare t'" ?p key] by (intro power_increasing div_le_mono) auto
  also have "\<dots> \<le> node_count ?p + 1" by (rule aa_height_count) (use ok in \<open>simp add: root_ok_def\<close>)
  also have "node_count ?p \<le> card (dom (tree_map f slot t'))"
  proof -
    have "fst ` set (contents f ?p) \<subseteq> dom (tree_map f slot t')"
    proof
      fix x
      assume x: "x \<in> fst ` set (contents f ?p)"
      then have "slot x = ?i" using ok unfolding root_ok_def by blast
      moreover have "map_of (contents f ?p) x \<noteq> None" using x by (simp add: map_of_eq_None_iff)
      ultimately show "x \<in> dom (tree_map f slot t')" by (simp add: tree_map_def domIff)
    qed
    moreover have "card (fst ` set (contents f ?p)) = node_count ?p"
      using ok bst_distinct [of f ?p] distinct_card [of "map fst (contents f ?p)"]
      by (simp add: root_ok_def length_contents)
    ultimately show ?thesis using card_mono tree_num [OF t'] by metis
  qed
  finally show ?thesis by simp
qed

theorem tree_get_compares_witness:
  "\<exists>as t. kv_run tree_get tree_put tree_remove [Put 5 50, Put 3 30, Put 9 90] (tree_create None None tree_blank) = Some (as, t) \<and>
    2 ^ ((get_compares (compare t) (roots t ! select_root t 4) 4 + 1) div 2) \<le> (4 :: nat)"
proof -
  let ?es = "[Put 5 50, Put 3 30, Put 9 90]"
  note c = tree_create_inv [of tree_blank]
  from trees.kv_run_spec [OF conjunct1 [OF c], of ?es] obtain as t where
    t: "kv_run tree_get tree_put tree_remove ?es (tree_create None None tree_blank) = Some (as, t)"
      "tree_map (\<lambda>k. k) (\<lambda>x. 0) t = [5 \<mapsto> 50, 3 \<mapsto> 30, 9 \<mapsto> 90]"
    using conjunct2 [OF c] by (auto simp: fun_eq_iff)
  have d: "dom [5 \<mapsto> 50, 3 \<mapsto> 30, 9 \<mapsto> (90 :: nat)] = {3, 5, 9 :: int}" by auto
  from tree_get_compares [OF conjunct1 [OF c] t(1), of 4] show ?thesis using t(1) unfolding t(2) d by auto
qed

end
