(* ===== verification/Set_Ring.thy ===== *)
theory Set_Ring
  imports Eo_Prelude
begin

section \<open>Ring buffers (\<^verbatim>\<open>lib/libnc/set/ring.c\<close>, \<^verbatim>\<open>include/set/ring.h\<close>)\<close>

text \<open>
  The byte queue of the system log. One byte of the buffer stays unused, so that equal positions
  mean an empty queue. The positions and sizes are unsigned; the invariant \<open>ring_inv\<close> keeps every
  subtraction of the code non-negative and every sum below the buffer's end, so that they are
  natural numbers here. The interface \<open>byte_queue\<close> states what the two operations promise.
\<close>

record 'c ring_t =
  read :: nat
  wrt :: nat
  size_of :: nat
  buf :: "'c list"

definition SIZEOF_RING :: nat where
  "SIZEOF_RING = 12"

definition cutdown :: "'c ring_t \<Rightarrow> nat \<Rightarrow> nat" where
  "cutdown ring n = (if n \<ge> size_of ring then 0 else n)"

text \<open>\<open>mem\<close> is the memory behind the header: what the buffer holds at first.\<close>

definition ring_create :: "'c list \<Rightarrow> nat \<Rightarrow> 'c ring_t option" where
  "ring_create mem n =
     (if n \<le> SIZEOF_RING + 1 then None
      else Some \<lparr>read = 0, wrt = 0, size_of = n - SIZEOF_RING, buf = mem\<rparr>)"

definition ring_get_rest :: "'c ring_t \<Rightarrow> nat" where
  "ring_get_rest ring =
     (if read ring \<le> wrt ring then size_of ring - wrt ring + read ring - 1
      else read ring - wrt ring - 1)"

text \<open>\<^verbatim>\<open>memcpy\<close> of \<open>xs\<close> into a buffer at offset \<open>i\<close>.\<close>

definition copy_at :: "nat \<Rightarrow> 'c list \<Rightarrow> 'c list \<Rightarrow> 'c list" where
  "copy_at i xs b = take i b @ xs @ drop (i + length xs) b"

text \<open>The loop of \<^verbatim>\<open>ring_get\<close>: \<open>rest\<close> bytes are wanted, \<open>out\<close> is what has been copied.\<close>

function ring_get_loop :: "'c ring_t \<Rightarrow> nat \<Rightarrow> 'c list \<Rightarrow> 'c list \<times> 'c ring_t" where
  "ring_get_loop ring rest out =
     (if rest = 0 then (out, ring)
      else
        let last = (read ring \<le> wrt ring);
            len = (if last then wrt ring - read ring else size_of ring - read ring)
        in if len = 0 then (out, ring)
           else
             let len = min len rest;
                 out = out @ take len (drop (read ring) (buf ring));
                 ring = ring\<lparr>read := cutdown ring (read ring + len)\<rparr>
             in if last then (out, ring) else ring_get_loop ring (rest - len) out)"
  by pat_completeness auto
termination
  by (relation "measure (\<lambda>(ring, rest, out). rest)") auto

definition ring_get :: "'c ring_t \<Rightarrow> nat \<Rightarrow> 'c list \<times> 'c ring_t" where
  "ring_get ring n = ring_get_loop ring n []"

text \<open>The loop of \<^verbatim>\<open>ring_put\<close>: \<open>data\<close> is what remains to be copied.\<close>

function ring_put_loop :: "'c ring_t \<Rightarrow> 'c list \<Rightarrow> 'c list \<times> 'c ring_t" where
  "ring_put_loop ring data =
     (if data = [] then (data, ring)
      else
        let last = (\<not> read ring \<le> wrt ring \<or> read ring = 0);
            len = (if read ring \<le> wrt ring
                   then (if read ring = 0 then size_of ring - wrt ring - 1 else size_of ring - wrt ring)
                   else read ring - wrt ring - 1)
        in if len = 0 then (data, ring)
           else
             let len = min len (length data);
                 ring = ring\<lparr>buf := copy_at (wrt ring) (take len data) (buf ring),
                             wrt := cutdown ring (wrt ring + len)\<rparr>
             in if last then (drop len data, ring) else ring_put_loop ring (drop len data))"
  by pat_completeness auto
termination
  by (relation "measure (\<lambda>(ring, data). length data)") auto

definition ring_put :: "'c ring_t \<Rightarrow> 'c list \<Rightarrow> nat \<times> 'c ring_t" where
  "ring_put ring data =
     (case ring_put_loop ring data of (rest, ring') \<Rightarrow> (length data - length rest, ring'))"

subsection \<open>The queue a ring holds\<close>

definition ring_inv :: "'c ring_t \<Rightarrow> bool" where
  "ring_inv r \<longleftrightarrow> 2 \<le> size_of r \<and> length (buf r) = size_of r \<and> read r < size_of r \<and> wrt r < size_of r"

definition ring_queue :: "'c ring_t \<Rightarrow> 'c list" where
  "ring_queue r =
     (if read r \<le> wrt r then take (wrt r - read r) (drop (read r) (buf r))
      else drop (read r) (buf r) @ take (wrt r) (buf r))"

definition ring_room :: "'c ring_t \<Rightarrow> nat" where
  "ring_room r = size_of r - 1 - length (ring_queue r)"

lemma ring_queue_length:
  "ring_inv r \<Longrightarrow> length (ring_queue r) =
    (if read r \<le> wrt r then wrt r - read r else size_of r - read r + wrt r)"
  by (auto simp: ring_inv_def ring_queue_def)

lemma ring_get_rest_room: "ring_inv r \<Longrightarrow> ring_get_rest r = ring_room r"
  by (auto simp: ring_room_def ring_queue_length ring_get_rest_def) (auto simp: ring_inv_def)

lemma length_copy_at: "i + length xs \<le> length b \<Longrightarrow> length (copy_at i xs b) = length b"
  by (simp add: copy_at_def)

declare ring_get_loop.simps [simp del] ring_put_loop.simps [simp del]

text \<open>The two straight copies: from the read position to the write position, and to the end.\<close>

lemma ring_get_loop_low:
  assumes "ring_inv r" and "read r \<le> wrt r"
  shows "\<exists>r'. ring_get_loop r n out = (out @ take n (ring_queue r), r') \<and> ring_inv r' \<and>
    size_of r' = size_of r \<and> ring_queue r' = drop n (ring_queue r)"
proof -
  have "cutdown r (read r + min (wrt r - read r) n) = read r + min (wrt r - read r) n"
    using assms by (auto simp: cutdown_def ring_inv_def)
  with assms show ?thesis
    by (cases "n < wrt r - read r"; subst ring_get_loop.simps)
      (auto simp: Let_def ring_inv_def ring_queue_def take_drop add.commute)
qed

lemma ring_get_loop_ok:
  assumes "ring_inv r"
  shows "\<exists>r'. ring_get_loop r n out = (out @ take n (ring_queue r), r') \<and> ring_inv r' \<and>
    size_of r' = size_of r \<and> ring_queue r' = drop n (ring_queue r)"
proof (cases "read r \<le> wrt r \<or> n = 0")
  case True
  then show ?thesis
    using ring_get_loop_low [OF assms] assms by (auto simp: ring_get_loop.simps [of r 0])
next
  case False
  let ?len = "min (size_of r - read r) n"
  let ?r = "r\<lparr>read := cutdown r (read r + ?len)\<rparr>"
  have step: "ring_get_loop r n out = ring_get_loop ?r (n - ?len) (out @ take ?len (drop (read r) (buf r)))"
    using False assms by (subst ring_get_loop.simps) (auto simp: Let_def ring_inv_def)
  show ?thesis
  proof (cases "n < size_of r - read r")
    case True
    with False assms show ?thesis
      unfolding step
      by (subst ring_get_loop.simps) (auto simp: cutdown_def ring_inv_def ring_queue_def add.commute)
  next
    case n: False
    then have "?r = r\<lparr>read := 0\<rparr>" "n - ?len = n - (size_of r - read r)"
      using assms by (auto simp: cutdown_def ring_inv_def)
    moreover have "ring_inv (r\<lparr>read := 0\<rparr>)" using assms by (auto simp: ring_inv_def)
    moreover have "ring_queue r = drop (read r) (buf r) @ ring_queue (r\<lparr>read := 0\<rparr>)"
      "length (drop (read r) (buf r)) = size_of r - read r" "take ?len (drop (read r) (buf r)) = drop (read r) (buf r)"
      using False n assms by (auto simp: ring_queue_def ring_inv_def)
    ultimately show ?thesis
      using ring_get_loop_low [of "r\<lparr>read := 0\<rparr>" "n - (size_of r - read r)" "out @ drop (read r) (buf r)"] n
      unfolding step by auto
  qed
qed

lemma take_drop_copy_at:
  assumes "i + length xs \<le> length b" and "k \<le> i"
  shows "take (i + length xs - k) (drop k (copy_at i xs b)) = take (i - k) (drop k b) @ xs"
  using assms by (auto simp: copy_at_def take_drop)

lemma ring_put_loop_high:
  assumes "ring_inv r" and "\<not> read r \<le> wrt r"
  shows "\<exists>r'. ring_put_loop r data = (drop (ring_room r) data, r') \<and> ring_inv r' \<and>
    size_of r' = size_of r \<and> ring_queue r' = ring_queue r @ take (ring_room r) data"
proof -
  let ?len = "min (read r - wrt r - 1) (length data)" let ?xs = "take ?len data"
  have room: "ring_room r = read r - wrt r - 1"
    using assms by (auto simp: ring_room_def ring_queue_length) (auto simp: ring_inv_def)
  have c: "cutdown r (wrt r + ?len) = wrt r + ?len" using assms by (auto simp: cutdown_def ring_inv_def)
  have b: "drop (read r) (copy_at (wrt r) ?xs (buf r)) = drop (read r) (buf r)"
    "take (wrt r + ?len) (copy_at (wrt r) ?xs (buf r)) = take (wrt r) (buf r) @ ?xs"
    "length (copy_at (wrt r) ?xs (buf r)) = length (buf r)"
    using assms by (auto simp: copy_at_def ring_inv_def)
  show ?thesis
  proof (cases "data = [] \<or> read r - wrt r - 1 = 0")
    case True
    then show ?thesis using assms room by (subst ring_put_loop.simps) (auto simp: Let_def)
  next
    case False
    let ?r = "r\<lparr>buf := copy_at (wrt r) ?xs (buf r), wrt := wrt r + ?len\<rparr>"
    have "ring_put_loop r data = (drop ?len data, ?r)"
      using assms False c by (subst ring_put_loop.simps) (simp add: Let_def)
    moreover have "ring_inv ?r" "size_of ?r = size_of r" using assms b by (auto simp: ring_inv_def)
    moreover have "ring_queue ?r = ring_queue r @ ?xs"
      using assms b by (auto simp: ring_queue_def)
    moreover have "drop ?len data = drop (ring_room r) data" "?xs = take (ring_room r) data"
      by (auto simp: room min_def)
    ultimately show ?thesis by auto
  qed
qed

lemma ring_put_loop_ok:
  assumes "ring_inv r"
  shows "\<exists>r'. ring_put_loop r data = (drop (ring_room r) data, r') \<and> ring_inv r' \<and>
    size_of r' = size_of r \<and> ring_queue r' = ring_queue r @ take (ring_room r) data"
proof (cases "read r \<le> wrt r")
  case low: True
  let ?max = "if read r = 0 then size_of r - wrt r - 1 else size_of r - wrt r"
  let ?len = "min ?max (length data)" let ?xs = "take ?len data"
  let ?r = "r\<lparr>buf := copy_at (wrt r) ?xs (buf r), wrt := cutdown r (wrt r + ?len)\<rparr>"
  have room: "ring_room r = size_of r - 1 - wrt r + read r"
    using assms low by (auto simp: ring_room_def ring_queue_length) (auto simp: ring_inv_def)
  have bounds: "wrt r + ?len \<le> size_of r" "wrt r < size_of r" "length (buf r) = size_of r"
    using assms by (auto simp: ring_inv_def)
  then have inv: "ring_inv ?r" using assms by (auto simp: ring_inv_def cutdown_def length_copy_at)
  have q: "take (wrt r + ?len - read r) (drop (read r) (copy_at (wrt r) ?xs (buf r))) = ring_queue r @ ?xs"
    using take_drop_copy_at [of "wrt r" ?xs "buf r" "read r"] bounds low by (simp add: ring_queue_def)
  show ?thesis
  proof (cases "data = [] \<or> ?max = 0")
    case True
    then show ?thesis
      using assms room low by (subst ring_put_loop.simps) (auto simp: Let_def ring_inv_def split: if_splits)
  next
    case False
    show ?thesis
    proof (cases "wrt r + ?len < size_of r")
      case True
      then have q': "ring_queue ?r = ring_queue r @ ?xs"
        using q low by (auto simp: ring_queue_def cutdown_def)
      have "ring_put_loop r data = (drop ?len data, ?r)"
        using low False True by (subst ring_put_loop.simps) (auto simp: Let_def ring_put_loop.simps [of _ "[]"])
      moreover have "drop ?len data = drop (ring_room r) data" "?xs = take (ring_room r) data"
        using True bounds by (auto simp: room min_def split: if_splits)
      ultimately show ?thesis using q' inv by auto
    next
      case full: False
      then have r0: "read r \<noteq> 0" "?len = size_of r - wrt r" using bounds by (auto split: if_splits)
      have step: "ring_put_loop r data = ring_put_loop ?r (drop ?len data)"
        using low False r0 by (subst ring_put_loop.simps) (auto simp: Let_def)
      have q': "ring_queue ?r = ring_queue r @ ?xs" "\<not> read ?r \<le> wrt ?r"
        using q full low r0 bounds by (auto simp: ring_queue_def cutdown_def length_copy_at)
      have room': "ring_room ?r = ring_room r - ?len" using r0 bounds q'(1) by (simp add: ring_room_def)
      have le: "?len \<le> ring_room r" using r0 low bounds by (simp add: room)
      then have td: "take (ring_room r) data = ?xs @ take (ring_room r - ?len) (drop ?len data)"
        "drop (ring_room r - ?len) (drop ?len data) = drop (ring_room r) data"
        using take_add [of ?len "ring_room r - ?len" data] by simp_all
      show ?thesis
        unfolding step td(1) append_assoc [symmetric] q'(1) [symmetric]
        using ring_put_loop_high [OF inv q'(2), of "drop ?len data"] td(2) unfolding room' by simp
    qed
  qed
qed (use ring_put_loop_high [OF assms] in blast)

subsection \<open>The interface of a byte queue\<close>

datatype 'c stream_event = Write "'c list" | Read nat

text \<open>What a run of requests wrote (as far as it was accepted) and what it read.\<close>

fun stream_run :: "('s \<Rightarrow> 'c list \<Rightarrow> nat \<times> 's) \<Rightarrow> ('s \<Rightarrow> nat \<Rightarrow> 'c list \<times> 's) \<Rightarrow>
    'c stream_event list \<Rightarrow> 's \<Rightarrow> 'c list \<times> 'c list \<times> 's" where
  "stream_run put get [] s = ([], [], s)"
| "stream_run put get (Write xs # es) s =
     (case put s xs of (n, s1) \<Rightarrow>
        (case stream_run put get es s1 of (ws, rs, s') \<Rightarrow> (take n xs @ ws, rs, s')))"
| "stream_run put get (Read n # es) s =
     (case get s n of (xs, s1) \<Rightarrow>
        (case stream_run put get es s1 of (ws, rs, s') \<Rightarrow> (ws, xs @ rs, s')))"

locale byte_queue =
  fixes inv :: "'s \<Rightarrow> bool" and queue :: "'s \<Rightarrow> 'c list" and room :: "'s \<Rightarrow> nat"
    and put :: "'s \<Rightarrow> 'c list \<Rightarrow> nat \<times> 's" and get :: "'s \<Rightarrow> nat \<Rightarrow> 'c list \<times> 's"
  assumes put_law: "inv s \<Longrightarrow> \<exists>s'. put s xs = (min (room s) (length xs), s') \<and> inv s' \<and>
      queue s' = queue s @ take (room s) xs \<and> room s' + min (room s) (length xs) = room s"
    and get_law: "inv s \<Longrightarrow> \<exists>s'. get s n = (take n (queue s), s') \<and> inv s' \<and>
      queue s' = drop n (queue s) \<and> room s' = room s + min n (length (queue s))"
begin

text \<open>What has been read and what is still queued is what was queued and what was accepted.\<close>

lemma stream_in_order:
  assumes "inv s"
  shows "case stream_run put get es s of (ws, rs, s') \<Rightarrow>
    inv s' \<and> rs @ queue s' = queue s @ ws \<and> room s' + length (queue s') = room s + length (queue s)"
  using assms
proof (induction es arbitrary: s)
  case (Cons e es)
  show ?case
  proof (cases e)
    case (Write xs)
    obtain s1 where s1: "put s xs = (min (room s) (length xs), s1)" "inv s1"
      "queue s1 = queue s @ take (room s) xs" "room s1 + min (room s) (length xs) = room s"
      using put_law [OF Cons.prems] by blast
    have "take (min (room s) (length xs)) xs = take (room s) xs" by (simp add: min_def)
    with Cons.IH [OF s1(2)] s1 Write show ?thesis by (auto split: prod.splits)
  next
    case (Read n)
    obtain s1 where s1: "get s n = (take n (queue s), s1)" "inv s1" "queue s1 = drop n (queue s)"
      "room s1 = room s + min n (length (queue s))"
      using get_law [OF Cons.prems] by blast
    with Cons.IH [OF s1(2)] Read show ?thesis
      by (auto split: prod.splits)
  qed
qed simp

end

lemma ring_queue_less: "ring_inv r \<Longrightarrow> length (ring_queue r) < size_of r"
  by (auto simp: ring_queue_length) (auto simp: ring_inv_def)

lemma ring_put_ok:
  assumes r: "ring_inv r"
  shows "\<exists>r'. ring_put r xs = (min (ring_room r) (length xs), r') \<and> ring_inv r' \<and>
    ring_queue r' = ring_queue r @ take (ring_room r) xs \<and>
    ring_room r' + min (ring_room r) (length xs) = ring_room r"
proof -
  obtain r' where r': "ring_put_loop r xs = (drop (ring_room r) xs, r')" "ring_inv r'"
    "size_of r' = size_of r" "ring_queue r' = ring_queue r @ take (ring_room r) xs"
    using ring_put_loop_ok [OF r] by blast
  moreover have "length xs - length (drop (ring_room r) xs) = min (ring_room r) (length xs)" by auto
  moreover have "ring_room r' + min (ring_room r) (length xs) = ring_room r"
    using r'(3,4) ring_queue_less [OF r] ring_queue_less [OF r'(2)] by (auto simp: ring_room_def)
  ultimately show ?thesis by (simp add: ring_put_def)
qed

interpretation rbuf: byte_queue ring_inv ring_queue ring_room ring_put ring_get
proof unfold_locales
  fix r :: "'c ring_t" and xs n
  assume r: "ring_inv r"
  show "\<exists>r'. ring_put r xs = (min (ring_room r) (length xs), r') \<and> ring_inv r' \<and>
      ring_queue r' = ring_queue r @ take (ring_room r) xs \<and>
      ring_room r' + min (ring_room r) (length xs) = ring_room r" by (rule ring_put_ok [OF r])
  from ring_get_loop_ok [OF r, of n "[]"] ring_queue_less [OF r]
  show "\<exists>r'. ring_get r n = (take n (ring_queue r), r') \<and> ring_inv r' \<and>
      ring_queue r' = drop n (ring_queue r) \<and> ring_room r' = ring_room r + min n (length (ring_queue r))"
    by (auto simp: ring_get_def ring_room_def)
qed

subsection \<open>What the ring promises\<close>

text \<open>
  C23. Whatever sequence of \<^verbatim>\<open>ring_put\<close> and \<^verbatim>\<open>ring_get\<close> calls is made, no byte is lost,
  duplicated or reordered, across every wrap of the positions: what was read followed by what is
  still in the ring is what the ring held at first followed by what the puts accepted.
\<close>

theorem ring_stream_in_order:
  assumes "ring_inv r" and "stream_run ring_put ring_get es r = (ws, rs, r')"
  shows "ring_inv r' \<and> rs @ ring_queue r' = ring_queue r @ ws \<and>
    ring_room r' + length (ring_queue r') = ring_room r + length (ring_queue r)"
  using rbuf.stream_in_order [OF assms(1), of es] assms(2) by simp

definition ring_demo :: "nat ring_t" where
  "ring_demo = \<lparr>read = 3, wrt = 3, size_of = 4, buf = [0, 0, 0, 0]\<rparr>"

theorem ring_stream_in_order_witness:
  "\<exists>r'. stream_run ring_put ring_get [Write [1, 2], Read 1, Write [3, 4, 5], Read 9] ring_demo =
      ([1, 2, 3, 4], [1, 2, 3, 4], r') \<and> ring_queue r' = []"
proof -
  have i: "ring_inv ring_demo" by (simp add: ring_inv_def ring_demo_def)
  have *: "stream_run ring_put ring_get [Write [1, 2], Read 1, Write [3, 4, 5], Read 9] ring_demo =
      ([1, 2, 3, 4], [1, 2, 3, 4], \<lparr>read = 3, wrt = 3, size_of = 4, buf = [2, 3, 4, 1]\<rparr>)"
    by (simp add: ring_demo_def ring_put_def ring_get_def ring_put_loop.simps ring_get_loop.simps
        copy_at_def cutdown_def Let_def)
  from ring_stream_in_order [OF i *] * show ?thesis by (auto simp: ring_queue_def)
qed

text \<open>
  \<^verbatim>\<open>ring_put\<close> accepts exactly as many bytes as \<^verbatim>\<open>ring_get_rest\<close> announces, or all of them,
  and \<^verbatim>\<open>ring_get\<close> delivers exactly what is there, up to the length asked for; a ring made by
  \<^verbatim>\<open>ring_create\<close> is empty and holds one byte less than its buffer.
\<close>

theorem ring_counts:
  assumes "ring_create mem n = Some r\<^sub>0" and "length mem = n - SIZEOF_RING" and "ring_inv r"
  shows "ring_inv r\<^sub>0 \<and> ring_queue r\<^sub>0 = [] \<and> ring_get_rest r\<^sub>0 = n - SIZEOF_RING - 1 \<and>
    fst (ring_put r xs) = min (ring_get_rest r) (length xs) \<and>
    fst (ring_get r k) = take k (ring_queue r)"
proof -
  have "ring_inv r\<^sub>0" "ring_queue r\<^sub>0 = []" "size_of r\<^sub>0 = n - SIZEOF_RING"
    using assms(1,2) by (auto simp: ring_create_def ring_inv_def ring_queue_def split: if_splits)
  moreover from this have "ring_get_rest r\<^sub>0 = n - SIZEOF_RING - 1"
    by (simp add: ring_get_rest_room ring_room_def)
  ultimately show ?thesis
    using rbuf.put_law [OF assms(3), of xs] rbuf.get_law [OF assms(3), of k]
      ring_get_rest_room [OF assms(3)] by auto
qed

theorem ring_counts_witness:
  "\<exists>r. ring_create [0, 0, 0, 0 :: nat] 16 = Some r \<and> fst (ring_put r [1, 2, 3, 4, 5]) = 3"
proof -
  let ?r = "\<lparr>read = 0, wrt = 0, size_of = 4, buf = [0, 0, 0, 0 :: nat]\<rparr>"
  have "ring_create [0, 0, 0, 0] 16 = Some ?r" by (simp add: ring_create_def SIZEOF_RING_def)
  moreover have "ring_inv ?r" by (simp add: ring_inv_def)
  ultimately show ?thesis
    using ring_counts [of "[0, 0, 0, 0]" 16 ?r ?r "[1, 2, 3, 4, 5]" 0]
    by (simp add: SIZEOF_RING_def)
qed

end
