(* ===== verification/Nc_String.thy ===== *)
theory Nc_String
  imports Eo_Prelude "HOL-Library.Monad_Syntax"
begin

section \<open>Memory blocks and strings (\<^verbatim>\<open>lib/libnc/string\<close>)\<close>

text \<open>
  Memory is a function from addresses to bytes. The functions bounded by a count are recursive in
  it; those that look for the terminating zero are partial functions, \<^const>\<open>None\<close> when there is
  none. Where a search is for a character, the argument is the byte \<^verbatim>\<open>c & 0xff\<close>. \<open>cstr m s xs\<close> says that the string at \<open>s\<close> is \<open>xs\<close>; the lemmas show what each function
  computes and changes over it, that it returns, and that \<^verbatim>\<open>strstr\<close>, which skips ahead by the byte
  behind the window, finds the first occurrence as a plain search would.
\<close>

type_synonym mem = "nat \<Rightarrow> u8"

fun memccpy_loop :: "nat \<Rightarrow> nat \<Rightarrow> u8 \<Rightarrow> nat \<Rightarrow> mem \<Rightarrow> nat option \<times> mem" where
  "memccpy_loop w r c 0 m = (None, m)"
| "memccpy_loop w r c (Suc n) m =
     (let m' = m(w := m r)
      in if m' w = c then (Some (w + 1), m') else memccpy_loop (w + 1) (r + 1) c n m')"

definition memccpy :: "nat \<Rightarrow> nat \<Rightarrow> u32 \<Rightarrow> nat \<Rightarrow> mem \<Rightarrow> nat option \<times> mem" where
  "memccpy s1 s2 c n m = memccpy_loop s1 s2 (ucast (c AND 0xff)) n m"

fun memchr :: "nat \<Rightarrow> u8 \<Rightarrow> nat \<Rightarrow> mem \<Rightarrow> nat option" where
  "memchr p ch 0 m = None"
| "memchr p ch (Suc n) m = (if m p = ch then Some p else memchr (p + 1) ch n m)"

fun memcmp :: "nat \<Rightarrow> nat \<Rightarrow> nat \<Rightarrow> mem \<Rightarrow> int" where
  "memcmp p1 p2 0 m = 0"
| "memcmp p1 p2 (Suc n) m =
     (let diff = uint (m p1) - uint (m p2)
      in if diff \<noteq> 0 then diff else memcmp (p1 + 1) (p2 + 1) n m)"

fun memcpy :: "nat \<Rightarrow> nat \<Rightarrow> nat \<Rightarrow> mem \<Rightarrow> mem" where
  "memcpy w r 0 m = m"
| "memcpy w r (Suc n) m = memcpy (w + 1) (r + 1) n (m(w := m r))"

fun memmove_down :: "nat \<Rightarrow> nat \<Rightarrow> nat \<Rightarrow> mem \<Rightarrow> mem" where
  "memmove_down w r 0 m = m"
| "memmove_down w r (Suc n) m = memmove_down w r n (m(w + n := m (r + n)))"

definition memmove :: "nat \<Rightarrow> nat \<Rightarrow> nat \<Rightarrow> mem \<Rightarrow> mem" where
  "memmove dest src n m = (if dest \<le> src then memcpy dest src n m else memmove_down dest src n m)"

fun memset_loop :: "nat \<Rightarrow> u8 \<Rightarrow> nat \<Rightarrow> mem \<Rightarrow> mem" where
  "memset_loop w v 0 m = m"
| "memset_loop w v (Suc n) m = memset_loop (w + 1) v n (m(w := v))"

definition memset :: "nat \<Rightarrow> u32 \<Rightarrow> nat \<Rightarrow> mem \<Rightarrow> mem" where
  "memset s c n m = memset_loop s (ucast (c AND 0xff)) n m"

text \<open>The loop \<^verbatim>\<open>for (; *r; r++);\<close> of \<^verbatim>\<open>strlen\<close>, \<^verbatim>\<open>strcat\<close> and \<^verbatim>\<open>strncat\<close>.\<close>

partial_function (option) str_end :: "nat \<Rightarrow> mem \<Rightarrow> nat option" where
  "str_end r m = (if m r \<noteq> 0 then str_end (r + 1) m else Some r)"

definition strlen :: "nat \<Rightarrow> mem \<Rightarrow> nat option" where
  "strlen s m = do { r \<leftarrow> str_end s m; Some (r - s) }"

partial_function (option) strcpy_loop :: "nat \<Rightarrow> nat \<Rightarrow> mem \<Rightarrow> mem option" where
  "strcpy_loop w r m =
     (let c = m r; m' = m(w := c)
      in if c = 0 then Some m' else strcpy_loop (w + 1) (r + 1) m')"

definition strcpy :: "nat \<Rightarrow> nat \<Rightarrow> mem \<Rightarrow> mem option" where
  "strcpy s1 s2 m = strcpy_loop s1 s2 m"

definition strcat :: "nat \<Rightarrow> nat \<Rightarrow> mem \<Rightarrow> mem option" where
  "strcat s1 s2 m = do { w \<leftarrow> str_end s1 m; strcpy_loop w s2 m }"

text \<open>The loop \<^verbatim>\<open>for (; n && *r; n--)\<close> of \<^verbatim>\<open>strncpy\<close> and \<^verbatim>\<open>strncat\<close>: where it stops.\<close>

fun strncpy_loop :: "nat \<Rightarrow> nat \<Rightarrow> nat \<Rightarrow> mem \<Rightarrow> nat \<times> nat \<times> mem" where
  "strncpy_loop w r 0 m = (w, 0, m)"
| "strncpy_loop w r (Suc n) m =
     (if m r = 0 then (w, Suc n, m) else strncpy_loop (w + 1) (r + 1) n (m(w := m r)))"

definition strncpy :: "nat \<Rightarrow> nat \<Rightarrow> nat \<Rightarrow> mem \<Rightarrow> mem" where
  "strncpy s1 s2 n m = (case strncpy_loop s1 s2 n m of (w, n', m') \<Rightarrow> memset_loop w 0 n' m')"

definition strncat :: "nat \<Rightarrow> nat \<Rightarrow> nat \<Rightarrow> mem \<Rightarrow> mem option" where
  "strncat s1 s2 n m =
     do { w \<leftarrow> str_end s1 m; Some (case strncpy_loop w s2 n m of (w', _, m') \<Rightarrow> m'(w' := 0)) }"

partial_function (option) strchr :: "nat \<Rightarrow> u8 \<Rightarrow> mem \<Rightarrow> nat option option" where
  "strchr p ch m =
     (let b = m p
      in if b = ch then Some (Some p) else if b = 0 then Some None else strchr (p + 1) ch m)"

partial_function (option) strrchr_loop :: "nat \<Rightarrow> nat option \<Rightarrow> u8 \<Rightarrow> mem \<Rightarrow> nat option option" where
  "strrchr_loop p found ch m =
     (let b = m p; found' = (if b = ch then Some p else found)
      in if b = 0 then Some found' else strrchr_loop (p + 1) found' ch m)"

definition strrchr :: "nat \<Rightarrow> u8 \<Rightarrow> mem \<Rightarrow> nat option option" where
  "strrchr s ch m = strrchr_loop s None ch m"

partial_function (option) strcmp :: "nat \<Rightarrow> nat \<Rightarrow> mem \<Rightarrow> int option" where
  "strcmp p1 p2 m =
     (let diff = uint (m p1) - uint (m p2)
      in if diff \<noteq> 0 \<or> m p1 = 0 then Some diff else strcmp (p1 + 1) (p2 + 1) m)"

fun strncmp :: "nat \<Rightarrow> nat \<Rightarrow> nat \<Rightarrow> mem \<Rightarrow> int" where
  "strncmp p1 p2 0 m = 0"
| "strncmp p1 p2 (Suc n) m =
     (let diff = uint (m p1) - uint (m p2)
      in if diff \<noteq> 0 \<or> m p1 = 0 then diff else strncmp (p1 + 1) (p2 + 1) n m)"

partial_function (option) strspn_loop :: "bool \<Rightarrow> nat \<Rightarrow> nat \<Rightarrow> mem \<Rightarrow> nat option" where
  "strspn_loop want p cs m =
     (if m p = 0 then Some p
      else do { f \<leftarrow> strchr cs (m p) m;
                if (f \<noteq> None) = want then strspn_loop want (p + 1) cs m else Some p })"

definition strspn :: "nat \<Rightarrow> nat \<Rightarrow> mem \<Rightarrow> nat option" where
  "strspn s accept m = do { p \<leftarrow> strspn_loop True s accept m; Some (p - s) }"

definition strcspn :: "nat \<Rightarrow> nat \<Rightarrow> mem \<Rightarrow> nat option" where
  "strcspn s reject m = do { p \<leftarrow> strspn_loop False s reject m; Some (p - s) }"

definition strpbrk :: "nat \<Rightarrow> nat \<Rightarrow> mem \<Rightarrow> nat option option" where
  "strpbrk s accept m = do { p \<leftarrow> strspn_loop False s accept m; Some (if m p = 0 then None else Some p) }"

text \<open>\<^verbatim>\<open>malloc\<close> is a parameter: the block it returns for a size, \<^const>\<open>None\<close> when it fails.\<close>

definition strdup :: "(nat \<Rightarrow> nat option) \<Rightarrow> nat \<Rightarrow> mem \<Rightarrow> (nat option \<times> mem) option" where
  "strdup malloc s1 m =
     do { n \<leftarrow> strlen s1 m;
          Some (case malloc (n + 1) of None \<Rightarrow> (None, m)
                | Some p \<Rightarrow> (Some p, memcpy p s1 (n + 1) m)) }"

definition strtok_r :: "nat option \<Rightarrow> nat \<Rightarrow> nat \<Rightarrow> mem \<Rightarrow> (nat option \<times> nat \<times> mem) option" where
  "strtok_r s sep state m =
     do { let p = (case s of Some s \<Rightarrow> s | None \<Rightarrow> state);
          state' \<leftarrow> strspn_loop True p sep m;
          q \<leftarrow> strspn_loop False state' sep m;
          let (p', m') = (if m q = 0 then (q, m) else (q + 1, m(q := 0)));
          Some (if state' = p' then (None, state', m') else (Some state', p', m')) }"

definition strtok :: "nat option \<Rightarrow> nat \<Rightarrow> nat \<Rightarrow> mem \<Rightarrow> (nat option \<times> nat \<times> mem) option" where
  "strtok s sep state m = strtok_r s sep state m"

text \<open>\<^verbatim>\<open>strstr\<close>: the table of skips, then the search.\<close>

fun strstr_skips :: "nat \<Rightarrow> nat \<Rightarrow> nat \<Rightarrow> mem \<Rightarrow> (u8 \<Rightarrow> nat) \<Rightarrow> (u8 \<Rightarrow> nat)" where
  "strstr_skips needle keyLen 0 m skip = skip"
| "strstr_skips needle keyLen (Suc k) m skip =
     (let i = keyLen - Suc k
      in strstr_skips needle keyLen k m (skip(m (needle + i) := keyLen - i)))"

fun strstr_match :: "nat \<Rightarrow> nat \<Rightarrow> nat \<Rightarrow> mem \<Rightarrow> bool" where
  "strstr_match h k 0 m = True"
| "strstr_match h k (Suc n) m = (m h = m k \<and> strstr_match (h + 1) (k + 1) n m)"

partial_function (option) strstr_loop ::
  "nat \<Rightarrow> nat \<Rightarrow> nat \<Rightarrow> int \<Rightarrow> (u8 \<Rightarrow> nat) \<Rightarrow> mem \<Rightarrow> nat \<Rightarrow> nat option option" where
  "strstr_loop haystack needle keyLen end skip m i =
     (if int i \<le> end then
        if strstr_match (haystack + i) needle keyLen m then Some (Some (haystack + i))
        else strstr_loop haystack needle keyLen end skip m (i + skip (m (haystack + i + keyLen)))
      else Some None)"

definition strstr :: "nat \<Rightarrow> nat \<Rightarrow> mem \<Rightarrow> nat option option" where
  "strstr haystack needle m =
     do { keyLen \<leftarrow> strlen needle m;
          n \<leftarrow> strlen haystack m;
          let end = int n - int keyLen;
          if keyLen = 0 then Some (Some haystack)
          else strstr_loop haystack needle keyLen end
                 (strstr_skips needle keyLen keyLen m (\<lambda>_. keyLen + 1)) m 0 }"

subsection \<open>Blocks\<close>

lemma memcpy_frame: "x < w \<or> w + n \<le> x \<Longrightarrow> memcpy w r n m x = m x"
  by (induction w r n m rule: memcpy.induct) auto

lemma memcpy_copies: "w \<le> r \<or> r + n \<le> w \<Longrightarrow> i < n \<Longrightarrow> memcpy w r n m (w + i) = m (r + i)"
proof (induction w r n m arbitrary: i rule: memcpy.induct)
  case (2 w r n m)
  show ?case
  proof (cases i)
    case 0
    then show ?thesis by (simp add: memcpy_frame)
  next
    case (Suc j)
    with 2 show ?thesis by (auto simp: fun_upd_def)
  qed
qed simp

lemma memmove_down_copies:
  "r \<le> w \<Longrightarrow> memmove_down w r n m x = (if w \<le> x \<and> x < w + n then m (r + (x - w)) else m x)"
  by (induction w r n m rule: memmove_down.induct) auto

lemma memset_loop_sets: "memset_loop w v n m x = (if w \<le> x \<and> x < w + n then v else m x)"
  by (induction w v n m rule: memset_loop.induct) (auto simp: fun_upd_def)

subsection \<open>Strings\<close>

definition cstr :: "mem \<Rightarrow> nat \<Rightarrow> u8 list \<Rightarrow> bool" where
  "cstr m s xs \<longleftrightarrow> 0 \<notin> set xs \<and> (\<forall>i<length xs. m (s + i) = xs ! i) \<and> m (s + length xs) = 0"

lemma cstr_Nil [simp]: "cstr m s [] \<longleftrightarrow> m s = 0"
  by (simp add: cstr_def)

lemma cstr_Cons [simp]: "cstr m s (x # xs) \<longleftrightarrow> x \<noteq> 0 \<and> m s = x \<and> cstr m (s + 1) xs"
  by (auto simp: cstr_def nth_Cons less_Suc_eq_0_disj split: nat.split)

lemma cstr_cong: "cstr m s xs \<Longrightarrow> \<forall>x. s \<le> x \<and> x \<le> s + length xs \<longrightarrow> m' x = m x \<Longrightarrow> cstr m' s xs"
  by (auto simp: cstr_def)

lemma str_end_cstr: "cstr m s xs \<Longrightarrow> str_end s m = Some (s + length xs)"
  by (induction xs arbitrary: s) (auto simp: str_end.simps)

lemma strlen_cstr: "cstr m s xs \<Longrightarrow> strlen s m = Some (length xs)"
  by (simp add: strlen_def str_end_cstr)

lemma strcpy_loop_cstr:
  assumes "cstr m r xs" and "w + length xs < r \<or> r + length xs < w"
  shows "\<exists>m'. strcpy_loop w r m = Some m' \<and> cstr m' w xs \<and>
    (\<forall>x. x < w \<or> w + length xs < x \<longrightarrow> m' x = m x)"
  using assms
proof (induction xs arbitrary: w r m)
  case Nil
  then show ?case by (subst strcpy_loop.simps) simp
next
  case (Cons c xs)
  let ?m = "m(w := c)"
  have "cstr ?m (r + 1) xs"
    by (rule cstr_cong [of m]) (use Cons.prems in auto)
  with Cons.IH [of ?m "r + 1" "w + 1"] Cons.prems obtain m' where
    "strcpy_loop (w + 1) (r + 1) ?m = Some m'" "cstr m' (w + 1) xs"
    "\<forall>x. x < w + 1 \<or> w + 1 + length xs < x \<longrightarrow> m' x = ?m x" by (auto simp del: fun_upd_apply)
  with Cons.prems show ?case by (subst strcpy_loop.simps) auto
qed

lemma strchr_cstr:
  "cstr m s xs \<Longrightarrow> \<exists>f. strchr s c m = Some f \<and> (c \<noteq> 0 \<longrightarrow> f \<noteq> None \<longleftrightarrow> c \<in> set xs)"
  by (induction xs arbitrary: s) (auto simp: strchr.simps)

lemma strcmp_cstr:
  "cstr m s xs \<Longrightarrow> cstr m t ys \<Longrightarrow>
    \<exists>d. strcmp s t m = Some d \<and> (d = 0 \<longleftrightarrow> xs = ys) \<and>
      (d < 0 \<longleftrightarrow> ord.lexordp (\<lambda>x y. uint x < uint y) xs ys)"
proof (induction xs arbitrary: s t ys)
  case Nil
  then show ?case
    by (cases ys) (auto simp: strcmp.simps ord.lexordp_simps word_less_def uint_0_iff order_less_le)
next
  case (Cons x xs)
  show ?case
  proof (cases ys)
    case Nil
    with Cons.prems show ?thesis
      by (auto simp: strcmp.simps ord.lexordp_simps uint_0_iff order_less_le)
  next
    case (Cons y ys')
    then have "\<exists>d. strcmp (s + 1) (t + 1) m = Some d \<and> (d = 0 \<longleftrightarrow> xs = ys') \<and>
      (d < 0 \<longleftrightarrow> ord.lexordp (\<lambda>x y. uint x < uint y) xs ys')"
      using Cons.IH [of "s + 1" "t + 1" ys'] Cons.prems by simp
    with Cons.prems Cons show ?thesis
      by (subst strcmp.simps) (auto simp: ord.lexordp_simps Let_def word_uint_eq_iff)
  qed
qed

subsection \<open>Searching\<close>

definition occurs :: "u8 list \<Rightarrow> u8 list \<Rightarrow> nat \<Rightarrow> bool" where
  "occurs ks xs i \<longleftrightarrow> take (length ks) (drop i xs) = ks"

lemma strstr_match_iff: "strstr_match h k n m \<longleftrightarrow> (\<forall>i<n. m (h + i) = m (k + i))"
proof (induction n arbitrary: h k)
  case (Suc n)
  show ?case by (simp add: Suc less_Suc_eq_0_disj ex_disj_distrib all_conj_distrib conj_disj_distribR) (auto simp: less_Suc_eq_0_disj)
qed simp

lemma strstr_match_occurs:
  assumes "cstr m h xs" and "cstr m k ks" and "i + length ks \<le> length xs"
  shows "strstr_match (h + i) k (length ks) m \<longleftrightarrow> occurs ks xs i"
proof -
  have "occurs ks xs i \<longleftrightarrow> (\<forall>j<length ks. xs ! (i + j) = ks ! j)"
    using assms(3) by (auto simp: occurs_def list_eq_iff_nth_eq)
  with assms show ?thesis by (simp add: strstr_match_iff cstr_def add.assoc)
qed

lemma occurs_bound: "occurs ks xs i \<Longrightarrow> ks \<noteq> [] \<Longrightarrow> i + length ks \<le> length xs"
  unfolding occurs_def by (metis diff_is_0_eq drop_eq_Nil le_diff_conv2 length_drop length_take
      linear min.cobounded1 take_eq_Nil add.commute)

lemma strstr_skips_range:
  "k \<le> n \<Longrightarrow> \<forall>c. 0 < skip c \<and> skip c \<le> n + 1 \<Longrightarrow>
    0 < strstr_skips needle n k m skip c \<and> strstr_skips needle n k m skip c \<le> n + 1"
  by (induction k arbitrary: skip) (auto simp: Let_def)

lemma strstr_skips_le:
  "k \<le> n \<Longrightarrow> \<forall>j<n - k. skip (m (needle + j)) \<le> n - j \<Longrightarrow> j < n \<Longrightarrow>
    strstr_skips needle n k m skip (m (needle + j)) \<le> n - j"
proof (induction k arbitrary: skip)
  case (Suc k)
  let ?i = "n - Suc k"
  have "\<forall>j<n - k. (skip(m (needle + ?i) := n - ?i)) (m (needle + j)) \<le> n - j"
  proof (intro allI impI)
    fix j assume "j < n - k"
    with Suc.prems(1) have "j < ?i \<or> j = ?i" by auto
    with Suc.prems(2) show "(skip(m (needle + ?i) := n - ?i)) (m (needle + j)) \<le> n - j" by auto
  qed
  with Suc show ?case by (simp add: Let_def)
qed simp

lemma strstr_loop_first:
  assumes h: "cstr m h xs" and k: "cstr m k ks" and ne: "ks \<noteq> []"
    and skip: "\<And>c. 0 < skip c \<and> skip c \<le> length ks + 1"
    and le: "\<And>j. j < length ks \<Longrightarrow> skip (ks ! j) \<le> length ks - j"
    and none: "\<forall>j<i. \<not> occurs ks xs j"
  shows "\<exists>r. strstr_loop h k (length ks) (int (length xs) - int (length ks)) skip m i = Some r \<and>
    (case r of None \<Rightarrow> \<forall>j. \<not> occurs ks xs j
     | Some p \<Rightarrow> \<exists>j. p = h + j \<and> occurs ks xs j \<and> (\<forall>j'<j. \<not> occurs ks xs j'))"
  using none
proof (induction "length xs + 1 - i" arbitrary: i rule: less_induct)
  case less
  let ?n = "length ks"
  show ?case
  proof (cases "i + ?n \<le> length xs")
    case False
    then have "\<not> occurs ks xs j" for j using less.prems occurs_bound [OF _ ne, of xs j] by (cases "j < i") auto
    with False show ?thesis by (subst strstr_loop.simps) auto
  next
    case True
    note match = strstr_match_occurs [OF h k True]
    show ?thesis
    proof (cases "occurs ks xs i")
      case True
      with \<open>i + ?n \<le> length xs\<close> match less.prems show ?thesis by (subst strstr_loop.simps) auto
    next
      case no: False
      define c where "c = m (h + i + ?n)"
      have "\<not> occurs ks xs j" if "i < j" "j < i + skip c" for j
      proof
        assume o: "occurs ks xs j"
        let ?e = "?n - (j - i)"
        have e: "?e < ?n" "j + ?e = i + ?n" using that skip [of c] ne by auto
        have "xs ! (j + ?e) = ks ! ?e" "j + ?e < length xs"
          using o e(1) occurs_bound [OF o ne] by (auto simp: occurs_def dest: arg_cong [of _ _ "\<lambda>l. l ! ?e"])
        then have "c = ks ! ?e" using h unfolding c_def cstr_def e(2) by (metis add.assoc)
        with le [OF e(1)] that e show False by auto
      qed
      then have "\<forall>j<i + skip c. \<not> occurs ks xs j" using less.prems no by (metis nat_neq_iff)
      moreover have "length xs + 1 - (i + skip c) < length xs + 1 - i"
        using skip [of c] True by (auto intro: diff_less_mono2)
      ultimately show ?thesis
        using less.hyps [of "i + skip c"] True no match
        by (subst strstr_loop.simps) (simp add: c_def)
    qed
  qed
qed

subsection \<open>What the string functions promise\<close>

text \<open>
  C28. \<^verbatim>\<open>memmove\<close> copies the block as it was before the call, also where source and destination
  overlap, and changes nothing else.
\<close>

theorem memmove_copies:
  "memmove d s n m x = (if d \<le> x \<and> x < d + n then m (s + (x - d)) else m x)"
proof (cases "d \<le> s")
  case True
  then show ?thesis
    using memcpy_copies [of d s n "x - d" m] memcpy_frame [of x d n s m] by (auto simp: memmove_def)
qed (simp add: memmove_def memmove_down_copies)

text \<open>
  \<^verbatim>\<open>strcpy\<close> and \<^verbatim>\<open>strcat\<close> return on terminated strings that do not overlap, leave the copy
  (the concatenation) at the destination, and write nowhere else.
\<close>

theorem strcpy_strcat_correct:
  assumes "cstr m s xs" and "cstr m d ds"
    and "d + length ds + length xs < s \<or> s + length xs < d"
  shows "\<exists>m1 m2. strcpy d s m = Some m1 \<and> cstr m1 d xs \<and>
    (\<forall>x. x < d \<or> d + length xs < x \<longrightarrow> m1 x = m x) \<and>
    strcat d s m = Some m2 \<and> cstr m2 d (ds @ xs) \<and>
    (\<forall>x. x < d \<or> d + length ds + length xs < x \<longrightarrow> m2 x = m x)"
proof -
  obtain m1 where m1: "strcpy_loop d s m = Some m1" "cstr m1 d xs"
    "\<forall>x. x < d \<or> d + length xs < x \<longrightarrow> m1 x = m x"
    using strcpy_loop_cstr [OF assms(1), of d] assms(3) by auto
  obtain m2 where m2: "strcpy_loop (d + length ds) s m = Some m2" "cstr m2 (d + length ds) xs"
    "\<forall>x. x < d + length ds \<or> d + length ds + length xs < x \<longrightarrow> m2 x = m x"
    using strcpy_loop_cstr [OF assms(1), of "d + length ds"] assms(3) by auto
  have "cstr m2 d (ds @ xs)"
    using m2(2,3) assms(2) by (auto simp: cstr_def nth_append add.assoc)
      (metis add.assoc add_diff_inverse_nat nat_add_left_cancel_less)
  with m1 m2 show ?thesis by (auto simp: strcpy_def strcat_def str_end_cstr [OF assms(2)])
qed

definition mem_demo :: mem where
  "mem_demo x = (if x < 3 then [97, 98, 0] ! x else if 10 \<le> x \<and> x < 17 then [97, 97, 98, 99, 97, 98, 0] ! (x - 10) else 0)"

theorem strcpy_strcat_correct_witness:
  "\<exists>m. strcat 10 0 mem_demo = Some m \<and> cstr m 10 [97, 97, 98, 99, 97, 98, 97, 98]"
  using strcpy_strcat_correct [of mem_demo 0 "[97, 98]" 10 "[97, 97, 98, 99, 97, 98]"]
  by (auto simp: mem_demo_def)

text \<open>
  \<^verbatim>\<open>strcmp\<close> returns on terminated strings; its result is zero exactly for equal strings and
  negative exactly when the first is before the second in the order of unsigned bytes.
\<close>

theorem strcmp_orders:
  assumes "cstr m s xs" and "cstr m t ys"
  shows "\<exists>d. strcmp s t m = Some d \<and> (d = 0 \<longleftrightarrow> xs = ys) \<and>
    (d < 0 \<longleftrightarrow> ord.lexordp (\<lambda>x y. uint x < uint y) xs ys)"
  by (rule strcmp_cstr [OF assms])

theorem strcmp_orders_witness: "\<exists>d. strcmp 0 10 mem_demo = Some d \<and> d \<noteq> 0"
  using strcmp_orders [of mem_demo 0 "[97, 98]" 10 "[97, 97, 98, 99, 97, 98]"]
  by (auto simp: mem_demo_def)

text \<open>
  C26. \<^verbatim>\<open>strstr\<close> returns on terminated strings and answers like a plain search: the address of the
  first occurrence, or \<^verbatim>\<open>NULL\<close> when there is none, although it skips ahead after a mismatch.
\<close>

theorem strstr_finds_first:
  assumes "cstr m h xs" and "cstr m k ks"
  shows "\<exists>r. strstr h k m = Some r \<and>
    (case r of None \<Rightarrow> \<forall>j. \<not> occurs ks xs j
     | Some p \<Rightarrow> \<exists>j. p = h + j \<and> occurs ks xs j \<and> (\<forall>j'<j. \<not> occurs ks xs j'))"
proof (cases "ks = []")
  case True
  with assms show ?thesis by (simp add: strstr_def strlen_cstr [OF assms(1)] strlen_cstr [OF assms(2)] occurs_def)
next
  case False
  let ?n = "length ks" let ?skip = "strstr_skips k ?n ?n m (\<lambda>_. ?n + 1)"
  have "?skip (ks ! j) \<le> ?n - j" if "j < ?n" for j
    using strstr_skips_le [of ?n ?n "\<lambda>_. ?n + 1" m k j] that assms(2) by (simp add: cstr_def)
  moreover have "0 < ?skip c \<and> ?skip c \<le> ?n + 1" for c
    by (rule strstr_skips_range) auto
  ultimately show ?thesis
    using strstr_loop_first [OF assms False, of ?skip 0] False
    by (simp add: strstr_def strlen_cstr [OF assms(1)] strlen_cstr [OF assms(2)])
qed

theorem strstr_finds_first_witness: "\<exists>r. strstr 10 0 mem_demo = Some r \<and> r \<noteq> None"
proof -
  have "cstr mem_demo 10 [97, 97, 98, 99, 97, 98]" "cstr mem_demo 0 [97, 98]"
    by (simp_all add: mem_demo_def)
  from strstr_finds_first [OF this] have "\<exists>r. strstr 10 0 mem_demo = Some r \<and>
      (r = None \<longrightarrow> \<not> occurs [97, 98] [97, 97, 98, 99, 97, 98] 1)" by (auto split: option.splits)
  then show ?thesis by (auto simp: occurs_def)
qed

end
