(* ===== verification/Kernel_State.thy ===== *)
theory Kernel_State
  imports Set_List Set_Sequence Kernel_Palloc "HOL-Library.Monad_Syntax"
begin

section \<open>Kernel state, ready queues and dispatching (\<^verbatim>\<open>kernel/ready.c\<close>, \<^verbatim>\<open>kernel/sync.c\<close>)\<close>

text \<open>
  The state all kernel operations work on. Threads and pending replies are named by the address of
  their object; their list heads are the nodes of one store of links (\<open>Set_List\<close>). The trees that
  find a thread by its identifier and a reply by its key are the finite maps they are proved to be
  (\<open>Set_Map\<close>), the slabs behind them the list of free objects, and the reply keys come from the
  sequence of \<open>Set_Sequence\<close>. What a switch of context does to the processor is not modelled:
  \<^verbatim>\<open>context_switch\<close> returns when the thread runs again, so an operation that waits is given in two
  parts, up to the wait and from there on.

  \<^verbatim>\<open>dispatch\<close> calls \<^verbatim>\<open>ipc_notify\<close>, which leaves the serialised section and so may dispatch again;
  the depth of this recursion is the first argument of \<open>dispatch_at\<close>, \<^const>\<open>None\<close> at zero, and
  \<open>dispatch_depth\<close> shows that one level is enough.
\<close>

datatype lnode =
    Ready nat
  | TQueue nat
  | TWait nat
  | TLock nat
  | PCaller nat
  | PReceiver nat
  | RCaller nat

datatype wait_type_e = wait_none | wait_flag | wait_call | wait_reply | wait_receive | wait_send

record ipc_t =
  opened :: bool
  flag :: u32
  port_attr :: u32
  max_call :: nat
  max_reply :: nat

record thread_t =
  node_key :: int
  status :: u32
  wait_type :: wait_type_e
  wait_result :: int
  wait_size :: nat
  wait_message :: addr
  wait_key :: int
  priority :: nat
  quantum :: u32
  attr_priority :: nat
  kstack_tail :: addr
  ustack_top :: addr
  entry_of :: addr
  arg_of :: u32
  port :: ipc_t
  kernel_sp :: addr
  page_table :: addr

text \<open>A delayed call: rotating a ready queue, destroying a thread, or waking the sleepers of a timer, given by their tags.\<close>

datatype delayed = Rotate nat nat | Destroy int | Wakeup "int list"

record 'm kernel =
  thr :: "nat \<Rightarrow> thread_t"
  links_of :: "lnode links"
  ready_bits :: u32
  running :: nat
  thread_tree :: "int \<rightharpoonup> nat"
  thread_slab :: "nat list"
  reply_tree :: "int \<rightharpoonup> nat"
  reply_slab :: "nat list"
  reply_max :: "nat \<Rightarrow> nat"
  reply_sequence :: sequence_t
  interrupt_nest :: nat
  no_request :: bool
  serializing :: bool
  delay_thread_start :: bool
  kqueue :: "delayed list"
  pages :: page_state
  umem :: 'm

abbreviation (input) TTS_RUN :: u32 where "TTS_RUN \<equiv> 1"
abbreviation (input) TTS_RDY :: u32 where "TTS_RDY \<equiv> 2"
abbreviation (input) TTS_WAI :: u32 where "TTS_WAI \<equiv> 4"
abbreviation (input) TTS_SUS :: u32 where "TTS_SUS \<equiv> 8"
abbreviation (input) TTS_WAS :: u32 where "TTS_WAS \<equiv> 12"
abbreviation (input) TTS_DMT :: u32 where "TTS_DMT \<equiv> 16"
abbreviation (input) MIN_PRIORITY :: nat where "MIN_PRIORITY \<equiv> 0"
abbreviation (input) MAX_PRIORITY :: nat where "MAX_PRIORITY \<equiv> 7"
abbreviation (input) TIME_QUANTUM :: u32 where "TIME_QUANTUM \<equiv> 10"
abbreviation (input) PORT_DELAY :: int where "PORT_DELAY \<equiv> 2"
abbreviation (input) EVENT_INTERRUPT :: u32 where "EVENT_INTERRUPT \<equiv> 1"
abbreviation (input) E_TMOUT :: int where "E_TMOUT \<equiv> - 50"

definition update_thread :: "nat \<Rightarrow> (thread_t \<Rightarrow> thread_t) \<Rightarrow> 'm kernel \<Rightarrow> 'm kernel" where
  "update_thread t f k = k\<lparr>thr := (thr k)(t := f (thr k t))\<rparr>"

definition on_links :: "(lnode links \<Rightarrow> lnode links) \<Rightarrow> 'm kernel \<Rightarrow> 'm kernel" where
  "on_links f k = k\<lparr>links_of := f (links_of k)\<rparr>"

subsection \<open>Conversions and serialising (\<^verbatim>\<open>include/nerve/sync.h\<close>, \<^verbatim>\<open>include/nerve/thread.h\<close>)\<close>

fun getThread :: "lnode \<Rightarrow> nat option" where
  "getThread (TQueue t) = Some t"
| "getThread _ = None"

fun getThreadWaiting :: "lnode \<Rightarrow> nat option" where
  "getThreadWaiting (TWait t) = Some t"
| "getThreadWaiting _ = None"

definition thread_id :: "nat \<Rightarrow> 'm kernel \<Rightarrow> int" where
  "thread_id t k = node_key (thr k t)"

definition is_kthread :: "thread_t \<Rightarrow> bool" where
  "is_kthread th \<longleftrightarrow> ustack_top th = 0"

definition get_thread_ptr :: "int \<Rightarrow> 'm kernel \<Rightarrow> nat option" where
  "get_thread_ptr tskid k = thread_tree k tskid"

definition enter_serialize :: "'m kernel \<Rightarrow> 'm kernel" where
  "enter_serialize k = k\<lparr>serializing := True\<rparr>"

definition dispatch_skippable :: "'m kernel \<Rightarrow> bool" where
  "dispatch_skippable k \<longleftrightarrow> interrupt_nest k \<noteq> 0 \<or> no_request k \<or> serializing k"

subsection \<open>Ready queues\<close>

fun ready_init_loop :: "nat \<Rightarrow> lnode links \<Rightarrow> lnode links" where
  "ready_init_loop 0 h = list_initialize (Ready 0) h"
| "ready_init_loop (Suc i) h = list_initialize (Ready (Suc i)) (ready_init_loop i h)"

definition ready_initialize :: "'m kernel \<Rightarrow> 'm kernel" where
  "ready_initialize k = on_links (ready_init_loop MAX_PRIORITY) k\<lparr>ready_bits := 0\<rparr>"

definition ready_enqueue :: "nat \<Rightarrow> lnode \<Rightarrow> 'm kernel \<Rightarrow> 'm kernel" where
  "ready_enqueue pri src k =
     on_links (list_enqueue (Ready pri) src) (k\<lparr>ready_bits := ready_bits k OR bit_at pri\<rparr>)"

function ready_dequeue_loop :: "lnode links \<Rightarrow> u32 \<Rightarrow> lnode option \<times> u32" where
  "ready_dequeue_loop h bits =
     (if bits = 0 then (None, bits)
      else let pri = count_ntz bits
           in case list_head (Ready pri) h of
                Some q \<Rightarrow> (Some q, bits)
              | None \<Rightarrow> ready_dequeue_loop h (bits AND NOT (bit_at pri)))"
  by pat_completeness auto
termination
  by (relation "measure (\<lambda>(h, bits). card {i. bit bits i})")
    (auto intro!: psubset_card_mono simp: bit_clear_mask dest: count_ntz_first)

definition ready_dequeue :: "'m kernel \<Rightarrow> nat option \<times> 'm kernel" where
  "ready_dequeue k =
     (case ready_dequeue_loop (links_of k) (ready_bits k) of
        (q, bits) \<Rightarrow> (Option.bind q getThread, k\<lparr>ready_bits := bits\<rparr>))"

definition release :: "nat \<Rightarrow> 'm kernel \<Rightarrow> 'm kernel" where
  "release t k =
     (let k1 = update_thread t (\<lambda>th. th\<lparr>wait_type := wait_none, status := status th AND NOT TTS_WAI\<rparr>) k
      in if status (thr k1 t) = 0
         then ready_enqueue (priority (thr k t)) (TQueue t)
                (update_thread t (\<lambda>th. th\<lparr>status := TTS_RDY\<rparr>) k1)
         else k1)"

subsection \<open>Dispatching\<close>

definition leave_with :: "('m kernel \<Rightarrow> 'm kernel option) \<Rightarrow> 'm kernel \<Rightarrow> 'm kernel option" where
  "leave_with disp k =
     (let k1 = k\<lparr>serializing := False\<rparr>
      in if \<not> dispatch_skippable k1 then disp k1 else Some k1)"

definition notify_with :: "('m kernel \<Rightarrow> 'm kernel option) \<Rightarrow> int \<Rightarrow> u32 \<Rightarrow> 'm kernel \<Rightarrow>
    (int \<times> 'm kernel) option" where
  "notify_with leave port_id fl k =
     (let k1 = enter_serialize k;
          (result, k2) =
            (case get_thread_ptr port_id k1 of
               None \<Rightarrow> (E_NOEXS, k1)
             | Some t \<Rightarrow>
                 let th = thr k1 t
                 in if status th = TTS_DMT then (E_OBJ, k1)
                    else if (status th = TTS_WAI \<or> status th = TTS_WAS)
                          \<and> (wait_type th = wait_flag \<or> wait_type th = wait_receive)
                    then (E_OK,
                          release t
                            (on_links (list_remove (TWait t))
                              (update_thread t (\<lambda>th. th\<lparr>port := (port th)\<lparr>flag := 0\<rparr>, wait_result := E_RLWAI\<rparr>) k1)))
                    else (E_OK,
                          update_thread t (\<lambda>th. th\<lparr>port := (port th)\<lparr>flag := flag (port th) OR fl\<rparr>\<rparr>) k1))
      in do { k3 \<leftarrow> leave k2; Some (result, k3) })"

text \<open>The part of \<^verbatim>\<open>dispatch\<close> after the request flags: the choice of the next thread.\<close>

definition dispatch_next :: "'m kernel \<Rightarrow> 'm kernel option" where
  "dispatch_next k =
     (let prev = running k
      in case ready_dequeue k of
           (None, k1) \<Rightarrow> None
         | (Some next, k1) \<Rightarrow>
             if next = prev then Some k1
             else
               let k2 = (if status (thr k1 prev) = TTS_RUN
                         then update_thread prev (\<lambda>th. th\<lparr>status := TTS_RDY\<rparr>) k1 else k1);
                   k3 = update_thread next (\<lambda>th. th\<lparr>status := TTS_RUN\<rparr>) k2
               in Some (k3\<lparr>running := next\<rparr>))"

fun dispatch_at :: "nat \<Rightarrow> 'm kernel \<Rightarrow> 'm kernel option" where
  "dispatch_at 0 k = None"
| "dispatch_at (Suc n) k =
     (if serializing k then Some (k\<lparr>no_request := False\<rparr>)
      else
        let k1 = k\<lparr>no_request := True\<rparr>
        in if delay_thread_start k1 then
             do { (_, k2) \<leftarrow> notify_with (leave_with (dispatch_at n)) PORT_DELAY EVENT_INTERRUPT
                              (k1\<lparr>delay_thread_start := False\<rparr>);
                  dispatch_next k2 }
           else dispatch_next k1)"

definition dispatch :: "'m kernel \<Rightarrow> 'm kernel option" where
  "dispatch k = dispatch_at 1 k"

definition leave_serialize :: "'m kernel \<Rightarrow> 'm kernel option" where
  "leave_serialize k = leave_with dispatch k"

definition leave_serialize_and_dispatch :: "'m kernel \<Rightarrow> 'm kernel option" where
  "leave_serialize_and_dispatch k = leave_serialize (k\<lparr>no_request := False\<rparr>)"

definition ipc_notify :: "int \<Rightarrow> u32 \<Rightarrow> 'm kernel \<Rightarrow> (int \<times> 'm kernel) option" where
  "ipc_notify port_id fl k = notify_with leave_serialize port_id fl k"

definition wait_on :: "nat \<Rightarrow> 'm kernel \<Rightarrow> 'm kernel option" where
  "wait_on t k =
     leave_serialize_and_dispatch
       (on_links (list_remove (TQueue t))
         (update_thread t (\<lambda>th. th\<lparr>wait_result := E_OK, status := TTS_WAI\<rparr>) k))"

text \<open>\<^verbatim>\<open>release_all\<close> ends when the list is empty; on a list that is not a ring it may not.\<close>

partial_function (option) release_all :: "lnode \<Rightarrow> 'm kernel \<Rightarrow> 'm kernel option" where
  "release_all waiting k =
     (case list_dequeue waiting (links_of k) of
        (None, _) \<Rightarrow> Some k
      | (Some q, h) \<Rightarrow>
          do { t \<leftarrow> getThreadWaiting q;
               release_all waiting
                 (release t (update_thread t (\<lambda>th. th\<lparr>wait_result := E_DLT\<rparr>) (k\<lparr>links_of := h\<rparr>))) })"

definition ready_rotate :: "nat \<Rightarrow> nat \<Rightarrow> 'm kernel \<Rightarrow> 'm kernel option" where
  "ready_rotate pri t k =
     (let k1 = enter_serialize k;
          guard = Ready pri;
          head = list_next guard (links_of k1);
          k2 = (if head \<noteq> guard \<and> getThread head = Some t \<and> list_prev guard (links_of k1) \<noteq> head
                then on_links (\<lambda>h. list_enqueue guard head (snd (list_dequeue guard h))) k1
                else k1)
      in leave_serialize k2)"

text \<open>Delayed calls (\<^verbatim>\<open>servers/interrupt/main.c\<close>): the queue has a fixed number of entries.\<close>

definition KQUEUE_SIZE :: nat where
  "KQUEUE_SIZE = 1024"

definition kq_enqueue :: "delayed \<Rightarrow> 'm kernel \<Rightarrow> int \<times> 'm kernel" where
  "kq_enqueue param k =
     (if length (kqueue k) + 1 \<ge> KQUEUE_SIZE then (E_TMOUT, k)
      else (E_OK, k\<lparr>kqueue := kqueue k @ [param], no_request := False, delay_thread_start := True\<rparr>))"

definition tick :: "'m kernel \<Rightarrow> 'm kernel" where
  "tick k =
     (let t = running k
      in if is_kthread (thr k t) then k
         else
           let k1 = update_thread t (\<lambda>th. th\<lparr>quantum := quantum th - 1\<rparr>) k
           in if quantum (thr k1 t) = 0
              then snd (kq_enqueue (Rotate (priority (thr k1 t)) t)
                          (update_thread t (\<lambda>th. th\<lparr>quantum := TIME_QUANTUM\<rparr>) k1))
              else k1)"

end
