(* ===== verification/Kernel_Thread.thy ===== *)
theory Kernel_Thread
  imports Kernel_State
begin

section \<open>Threads (\<^verbatim>\<open>kernel/thread.c\<close>)\<close>

text \<open>
  The service calls on threads, each as one function from the kernel state to the error code and the
  new state; \<^const>\<open>None\<close> is the fault of a dispatch with no ready thread. A call that ends in a
  dispatch returns the state in which the chosen thread runs.
\<close>

record t_ctsk =
  tskatr :: u32
  exinf :: u32
  task :: addr
  itskpri :: nat
  stksz :: u32
  stk :: addr
  ctsk_page_table :: addr
  ctsk_ustack_top :: addr

abbreviation (input) TA_ASM :: u32 where "TA_ASM \<equiv> 1"
abbreviation (input) TA_ACT :: u32 where "TA_ACT \<equiv> 2"
abbreviation (input) KTHREAD_STACK_SIZE :: u32 where "KTHREAD_STACK_SIZE \<equiv> 4096"
abbreviation (input) KTHREAD_DIR_ADDR :: addr where "KTHREAD_DIR_ADDR \<equiv> 0x2000"
abbreviation (input) MIN_MANUAL_ID :: int where "MIN_MANUAL_ID \<equiv> 1"
abbreviation (input) MAX_AUTO_ID :: int where "MAX_AUTO_ID \<equiv> 32767"
abbreviation (input) TSK_SELF :: int where "TSK_SELF \<equiv> 0"

definition thread_initialize :: "'m kernel \<Rightarrow> int \<times> 'm kernel" where
  "thread_initialize k = (E_OK, ready_initialize (k\<lparr>thread_tree := Map.empty\<rparr>))"

definition blank_port :: ipc_t where
  "blank_port = \<lparr>opened = False, flag = 0, port_attr = 0, max_call = 0, max_reply = 0\<rparr>"

definition thread_setup :: "nat \<Rightarrow> t_ctsk \<Rightarrow> 'm kernel \<Rightarrow> int \<times> 'm kernel" where
  "thread_setup t pk k =
     (let (p, ps) = (if stk pk \<noteq> 0 then (stk pk, pages k) else palloc (pages k))
      in if p = 0 then (E_NOMEM, k\<lparr>pages := ps\<rparr>)
         else
           let p = (if stk pk \<noteq> 0 then p else p + stksz pk);
               top = kern_p2v p;
               th = \<lparr>node_key = node_key (thr k t), status = TTS_DMT, wait_type = wait_none,
                     wait_result = 0, wait_size = 0, wait_message = 0, wait_key = 0, priority = 0,
                     quantum = 0, attr_priority = itskpri pk, kstack_tail = top,
                     ustack_top = ctsk_ustack_top pk, entry_of = task pk, arg_of = exinf pk,
                     port = blank_port, kernel_sp = top,
                     page_table = (if ctsk_ustack_top pk = 0 then KTHREAD_DIR_ADDR
                                   else ctsk_page_table pk)\<rparr>
           in (E_OK,
               on_links (list_initialize (TLock t) \<circ> list_initialize (TWait t) \<circ> list_initialize (TQueue t))
                 (update_thread t (\<lambda>_. th) (k\<lparr>pages := ps\<rparr>))))"

definition fire :: "nat \<Rightarrow> 'm kernel \<Rightarrow> 'm kernel option" where
  "fire t k =
     leave_serialize_and_dispatch
       (ready_enqueue (attr_priority (thr k t)) (TQueue t)
         (update_thread t
           (\<lambda>th. th\<lparr>priority := attr_priority th, quantum := TIME_QUANTUM,
                    port := (port th)\<lparr>flag := 0\<rparr>, status := TTS_RDY\<rparr>) k))"

text \<open>Unlinking a thread object from the tree and giving it back to its slab.\<close>

definition drop_thread :: "int \<Rightarrow> 'm kernel \<Rightarrow> 'm kernel" where
  "drop_thread tskid k =
     (case thread_tree k tskid of
        None \<Rightarrow> k
      | Some t \<Rightarrow> k\<lparr>thread_tree := (thread_tree k)(tskid := None), thread_slab := t # thread_slab k\<rparr>)"

definition thread_create :: "int \<Rightarrow> t_ctsk \<Rightarrow> 'm kernel \<Rightarrow> (int \<times> 'm kernel) option" where
  "thread_create tskid pk k =
     (if tskid < MIN_MANUAL_ID \<or> tskid > MAX_AUTO_ID then Some (E_ID, k)
      else if tskatr pk AND TA_ASM \<noteq> 0 then Some (E_RSATR, k)
      else if stksz pk \<noteq> KTHREAD_STACK_SIZE then Some (E_PAR, k)
      else
        let k1 = enter_serialize k
        in case thread_slab k1 of
             [] \<Rightarrow> do { k' \<leftarrow> leave_serialize k1; Some (E_NOMEM, k') }
           | t # rest \<Rightarrow>
               if thread_tree k1 tskid \<noteq> None
               then do { k' \<leftarrow> leave_serialize k1; Some (E_OBJ, k') }
               else
                 let k2 = update_thread t (\<lambda>th. th\<lparr>node_key := tskid\<rparr>)
                            (k1\<lparr>thread_slab := rest, thread_tree := (thread_tree k1)(tskid \<mapsto> t)\<rparr>)
                 in case thread_setup t pk k2 of
                      (result, k3) \<Rightarrow>
                        if result \<noteq> E_OK
                        then do { k' \<leftarrow> leave_serialize (drop_thread tskid k3); Some (result, k') }
                        else if tskatr pk AND TA_ACT \<noteq> 0
                        then do { k' \<leftarrow> fire t k3; Some (E_OK, k') }
                        else do { k' \<leftarrow> leave_serialize k3; Some (E_OK, k') })"

definition release_resources :: "nat \<Rightarrow> 'm kernel \<Rightarrow> 'm kernel" where
  "release_resources t k = k\<lparr>pages := pfree (kstack_tail (thr k t) - KTHREAD_STACK_SIZE) (pages k)\<rparr>"

definition thread_destroy :: "int \<Rightarrow> 'm kernel \<Rightarrow> (int \<times> 'm kernel) option" where
  "thread_destroy tskid k =
     (let k1 = enter_serialize k;
          (result, k2) =
            (case get_thread_ptr tskid k1 of
               None \<Rightarrow> (E_NOEXS, k1)
             | Some t \<Rightarrow>
                 if status (thr k1 t) \<noteq> TTS_DMT then (E_OBJ, k1)
                 else (E_OK, drop_thread tskid (release_resources t k1)))
      in do { k' \<leftarrow> leave_serialize k2; Some (result, k') })"

definition thread_start :: "int \<Rightarrow> 'm kernel \<Rightarrow> (int \<times> 'm kernel) option" where
  "thread_start tskid k =
     (let k1 = enter_serialize k;
          tskid = (if tskid = TSK_SELF then thread_id (running k1) k1 else tskid)
      in case get_thread_ptr tskid k1 of
           None \<Rightarrow> do { k' \<leftarrow> leave_serialize k1; Some (E_NOEXS, k') }
         | Some t \<Rightarrow>
             if status (thr k1 t) \<noteq> TTS_DMT
             then do { k' \<leftarrow> leave_serialize k1; Some (E_QOVR, k') }
             else do { k' \<leftarrow> fire t k1; Some (E_OK, k') })"

definition thread_end :: "'m kernel \<Rightarrow> 'm kernel option" where
  "thread_end k =
     (let k1 = enter_serialize k; t = running k1
      in leave_serialize_and_dispatch
           (update_thread t (\<lambda>th. th\<lparr>status := TTS_DMT\<rparr>) (on_links (list_remove (TQueue t)) k1)))"

definition thread_end_and_destroy :: "'m kernel \<Rightarrow> 'm kernel option" where
  "thread_end_and_destroy k =
     (let k1 = enter_serialize k
      in thread_end (snd (kq_enqueue (Destroy (thread_id (running k1) k1)) k1)))"

definition thread_terminate :: "int \<Rightarrow> 'm kernel \<Rightarrow> (int \<times> 'm kernel) option" where
  "thread_terminate tskid k =
     (let k1 = enter_serialize k;
          (result, k2) =
            (case get_thread_ptr tskid k1 of
               None \<Rightarrow> (E_NOEXS, k1)
             | Some t \<Rightarrow>
                 let st = status (thr k1 t)
                 in if st = TTS_RUN then (E_ILUSE, k1)
                    else if st = TTS_RDY then
                      (E_OK, update_thread t (\<lambda>th. th\<lparr>status := TTS_DMT\<rparr>)
                               (on_links (list_remove (TQueue t)) k1))
                    else if st = TTS_WAI \<or> st = TTS_WAS then
                      (E_OK, update_thread t (\<lambda>th. th\<lparr>status := TTS_DMT\<rparr>)
                               (if wait_type (thr k1 t) \<noteq> wait_none
                                then on_links (list_remove (TWait t))
                                       (update_thread t (\<lambda>th. th\<lparr>wait_type := wait_none\<rparr>) k1)
                                else k1))
                    else if st = TTS_SUS then
                      (E_OK, update_thread t (\<lambda>th. th\<lparr>status := TTS_DMT\<rparr>) k1)
                    else (E_OBJ, k1))
      in do { k' \<leftarrow> leave_serialize k2; Some (result, k') })"

definition thread_suspend :: "int \<Rightarrow> 'm kernel \<Rightarrow> (int \<times> 'm kernel) option" where
  "thread_suspend tskid k =
     (let k1 = enter_serialize k
      in case (if tskid = TSK_SELF then Some (running k1) else get_thread_ptr tskid k1) of
           None \<Rightarrow> do { k' \<leftarrow> leave_serialize k1; Some (E_NOEXS, k') }
         | Some t \<Rightarrow>
             let st = status (thr k1 t);
                 suspended = on_links (list_remove (TQueue t))
                               (update_thread t (\<lambda>th. th\<lparr>status := TTS_SUS\<rparr>) k1)
             in if st = TTS_RUN \<and> tskid = TSK_SELF
                then do { k' \<leftarrow> leave_serialize_and_dispatch suspended; Some (E_OK, k') }
                else
                  let (result, k2) =
                        (if st = TTS_RUN \<or> st = TTS_RDY then (E_OK, suspended)
                         else if st = TTS_WAI then
                           (E_OK, update_thread t (\<lambda>th. th\<lparr>status := TTS_WAS\<rparr>) k1)
                         else if st = TTS_SUS \<or> st = TTS_WAS then (E_QOVR, k1)
                         else (E_OBJ, k1))
                  in do { k' \<leftarrow> leave_serialize k2; Some (result, k') })"

definition thread_resume :: "int \<Rightarrow> 'm kernel \<Rightarrow> (int \<times> 'm kernel) option" where
  "thread_resume tskid k =
     (let k1 = enter_serialize k
      in case get_thread_ptr tskid k1 of
           None \<Rightarrow> do { k' \<leftarrow> leave_serialize k1; Some (E_NOEXS, k') }
         | Some t \<Rightarrow>
             let st = status (thr k1 t)
             in if st = TTS_SUS then
                  do { k' \<leftarrow> leave_serialize_and_dispatch
                               (ready_enqueue (priority (thr k1 t)) (TQueue t)
                                 (update_thread t (\<lambda>th. th\<lparr>status := TTS_RDY\<rparr>) k1));
                       Some (E_OK, k') }
                else
                  let (result, k2) =
                        (if st = TTS_WAS then
                           (E_OK, update_thread t (\<lambda>th. th\<lparr>status := TTS_WAI\<rparr>) k1)
                         else (E_OBJ, k1))
                  in do { k' \<leftarrow> leave_serialize k2; Some (result, k') })"

definition thread_get_id :: "'m kernel \<Rightarrow> int" where
  "thread_get_id k = node_key (thr k (running k))"

text \<open>
  The thread of \<^verbatim>\<open>PORT_DELAY\<close> (\<^verbatim>\<open>delay_process\<close> of \<^verbatim>\<open>servers/interrupt/main.c\<close>): one round of its
  loop, \<^const>\<open>False\<close> when the queue was empty and it goes to listen. \<open>wake\<close> is the callback of the timer
  server.
\<close>

definition delay_step :: "(int list \<Rightarrow> 'm kernel \<Rightarrow> 'm kernel option) \<Rightarrow> 'm kernel \<Rightarrow> (bool \<times> 'm kernel) option" where
  "delay_step wake k =
     (case kqueue k of
        [] \<Rightarrow> Some (False, k)
      | Rotate pri t # rest \<Rightarrow>
          do { k' \<leftarrow> ready_rotate pri t (k\<lparr>kqueue := rest\<rparr>); Some (True, k') }
      | Destroy tskid # rest \<Rightarrow>
          do { (_, k') \<leftarrow> thread_destroy tskid (k\<lparr>kqueue := rest\<rparr>); Some (True, k') }
      | Wakeup w # rest \<Rightarrow>
          do { k' \<leftarrow> wake w (k\<lparr>kqueue := rest\<rparr>); Some (True, k') })"

end
