(* ===== verification/Kernel_Ipc.thy ===== *)
theory Kernel_Ipc
  imports Kernel_Thread
begin

section \<open>Message passing (\<^verbatim>\<open>kernel/ipc.c\<close>)\<close>

text \<open>
  A caller meets a receiver at the receiver's port; the reply is found by a key, which together with
  the caller's identifier is the tag of the message. Copying between address spaces
  (\<^verbatim>\<open>memcpy_k2u\<close>, \<^verbatim>\<open>memcpy_u2k\<close>) is the parameter \<open>k2u\<close> or \<open>u2k\<close>: from the thread, the destination, the
  source, the size and the memory to whether it succeeded and the new memory.

  A call that waits is two definitions: up to \<^verbatim>\<open>wait(running)\<close> it returns \<open>Blocked\<close>, and the
  definition with the suffix \<open>_resumed\<close> is what it does when its thread runs again.
\<close>

datatype outcome = Done int | Blocked

record t_cpor =
  poratr :: u32
  maxcmsz :: nat
  maxrmsz :: nat

abbreviation (input) TA_TFIFO :: u32 where "TA_TFIFO \<equiv> 0"
abbreviation (input) MAX_THREAD :: nat where "MAX_THREAD \<equiv> 1024"

type_synonym 'm copier = "nat \<Rightarrow> addr \<Rightarrow> addr \<Rightarrow> nat \<Rightarrow> 'm \<Rightarrow> bool \<times> 'm"

subsection \<open>Tags (\<^verbatim>\<open>include/nerve/ipc_utils.h\<close>)\<close>

definition port_of_ipc :: "int \<Rightarrow> int" where
  "port_of_ipc tag = uint ((word_of_int tag :: u32) AND 0xffff)"

definition key_of_ipc :: "int \<Rightarrow> int" where
  "key_of_ipc tag = uint (drop_bit 16 (word_of_int tag :: u32))"

definition create_ipc_tag :: "int \<Rightarrow> int \<Rightarrow> int" where
  "create_ipc_tag port_id key = sint (push_bit 16 (word_of_int key :: u32) OR word_of_int port_id)"

subsection \<open>Ports\<close>

definition leave_result :: "int \<Rightarrow> 'm kernel \<Rightarrow> (int \<times> 'm kernel) option" where
  "leave_result result k = do { k' \<leftarrow> leave_serialize k; Some (result, k') }"

definition leave_done :: "int \<Rightarrow> 'm kernel \<Rightarrow> (outcome \<times> 'm kernel) option" where
  "leave_done result k = do { k' \<leftarrow> leave_serialize k; Some (Done result, k') }"

definition ipc_initialize :: "'m kernel \<Rightarrow> int \<times> 'm kernel" where
  "ipc_initialize k =
     (case sequence_initialize (reply_sequence k) MAX_THREAD (Some (sq_map (reply_sequence k))) of
        (e, s) \<Rightarrow>
          if e \<noteq> 0 then (E_PAR, k\<lparr>reply_sequence := s\<rparr>)
          else case sequence_get s of
                 (n, s') \<Rightarrow>
                   if n < 0 then (E_SYS, k\<lparr>reply_sequence := s'\<rparr>)
                   else (E_OK, k\<lparr>reply_sequence := s', reply_tree := Map.empty\<rparr>))"

definition clear_port :: "nat \<Rightarrow> t_cpor \<Rightarrow> 'm kernel \<Rightarrow> 'm kernel" where
  "clear_port t pk k =
     on_links (list_initialize (PReceiver t) \<circ> list_initialize (PCaller t))
       (update_thread t
         (\<lambda>th. th\<lparr>port := (port th)\<lparr>opened := True, port_attr := poratr pk, max_call := maxcmsz pk,
                                      max_reply := maxrmsz pk\<rparr>\<rparr>) k)"

definition ipc_open :: "t_cpor option \<Rightarrow> 'm kernel \<Rightarrow> (int \<times> 'm kernel) option" where
  "ipc_open pk_cpor k =
     (case pk_cpor of
        None \<Rightarrow> Some (E_PAR, k)
      | Some pk \<Rightarrow>
          if poratr pk \<noteq> TA_TFIFO then Some (E_RSATR, k)
          else
            let k1 = enter_serialize k; t = running k1
            in if opened (port (thr k1 t)) then leave_result E_OBJ k1
               else leave_result E_OK (clear_port t pk k1))"

definition ipc_close :: "'m kernel \<Rightarrow> (int \<times> 'm kernel) option" where
  "ipc_close k =
     (let k1 = enter_serialize k; t = running k1
      in do { (result, k2) \<leftarrow>
                (if \<not> opened (port (thr k1 t)) then Some (E_OBJ, k1)
                 else
                   do { k2 \<leftarrow> release_all (PReceiver t)
                               (update_thread t (\<lambda>th. th\<lparr>port := (port th)\<lparr>opened := False\<rparr>\<rparr>) k1);
                        k3 \<leftarrow> release_all (PCaller t) k2;
                        Some (E_OK, k3) });
              k3 \<leftarrow> leave_serialize_and_dispatch k2;
              Some (result, k3) })"

definition release_rendezvous :: "int \<Rightarrow> 'm kernel \<Rightarrow> 'm kernel" where
  "release_rendezvous key k =
     (case reply_tree k key of
        None \<Rightarrow> k
      | Some r \<Rightarrow>
          k\<lparr>reply_tree := (reply_tree k)(key := None), reply_slab := r # reply_slab k,
            reply_sequence := sequence_release (reply_sequence k) (word_of_int key)\<rparr>)"

text \<open>A message is handed to a thread that waits for one (\<^verbatim>\<open>ipc_call\<close>, \<^verbatim>\<open>_send\<close> and \<^verbatim>\<open>_reply\<close>).\<close>

definition deliver :: "nat \<Rightarrow> lnode \<Rightarrow> nat \<Rightarrow> int option \<Rightarrow> 'm kernel \<Rightarrow> 'm kernel" where
  "deliver tp q n tag k =
     release tp
       (update_thread tp
         (\<lambda>th. th\<lparr>wait_size := n, wait_key := (case tag of None \<Rightarrow> wait_key th | Some g \<Rightarrow> g)\<rparr>)
         (on_links (list_remove q) k))"

subsection \<open>Calls\<close>

definition ipc_call :: "'m copier \<Rightarrow> int \<Rightarrow> addr \<Rightarrow> nat \<Rightarrow> 'm kernel \<Rightarrow>
    (outcome \<times> int \<times> 'm kernel) option" where
  "ipc_call k2u port_id message n k =
     (let k1 = enter_serialize k;
          fail = (\<lambda>e k. do { k' \<leftarrow> leave_serialize k; Some (Done e, 0, k') })
      in case get_thread_ptr port_id k1 of
           None \<Rightarrow> fail E_NOEXS k1
         | Some t \<Rightarrow>
             let p = port (thr k1 t)
             in if \<not> opened p then fail E_NOEXS k1
                else if n > max_call p then fail E_PAR k1
                else case sequence_get (reply_sequence k1) of
                  (key, s) \<Rightarrow>
                    let k2 = k1\<lparr>reply_sequence := s\<rparr>
                    in if key < 0 then fail E_NOID k2
                       else case reply_slab k2 of
                         [] \<Rightarrow> fail E_NOMEM (k2\<lparr>reply_sequence := sequence_release s (word_of_int key)\<rparr>)
                       | r # rest \<Rightarrow>
                           if reply_tree k2 key \<noteq> None
                           then fail E_SYS (k2\<lparr>reply_sequence := sequence_release s (word_of_int key)\<rparr>)
                           else
                             let k3 = on_links (list_initialize (RCaller r))
                                        (k2\<lparr>reply_slab := rest, reply_tree := (reply_tree k2)(key \<mapsto> r),
                                            reply_max := (reply_max k2)(r := max_reply p)\<rparr>);
                                 me = running k3;
                                 tag = create_ipc_tag (thread_id me k3) key
                             in case list_head (PReceiver t) (links_of k3) of
                                  Some q \<Rightarrow>
                                    do { tp \<leftarrow> getThreadWaiting q;
                                         case k2u tp (wait_message (thr k3 tp)) message n (umem k3) of
                                           (False, m) \<Rightarrow> fail E_PAR (release_rendezvous key (k3\<lparr>umem := m\<rparr>))
                                         | (True, m) \<Rightarrow>
                                             do { let k4 = deliver tp q n (Some tag) (k3\<lparr>umem := m\<rparr>);
                                                  let k5 = on_links (list_enqueue (RCaller r) (TWait me)) k4;
                                                  let k6 = update_thread me
                                                    (\<lambda>th. th\<lparr>wait_type := wait_reply, wait_message := message\<rparr>) k5;
                                                  k7 \<leftarrow> wait_on me k6;
                                                  Some (Blocked, key, k7) } }
                                | None \<Rightarrow>
                                    do { let k4 = on_links (list_enqueue (PCaller t) (TWait me)) k3;
                                         let k5 = update_thread me
                                           (\<lambda>th. th\<lparr>wait_size := n, wait_key := tag, wait_type := wait_call,
                                                    wait_message := message\<rparr>) k4;
                                         k6 \<leftarrow> wait_on me k5;
                                         Some (Blocked, key, k6) })"

definition ipc_call_resumed :: "int \<Rightarrow> 'm kernel \<Rightarrow> (int \<times> 'm kernel) option" where
  "ipc_call_resumed key k =
     (let me = running k
      in if wait_result (thr k me) \<noteq> 0
         then do { k' \<leftarrow> leave_serialize (release_rendezvous key (enter_serialize k));
                   Some (wait_result (thr k' (running k')), k') }
         else Some (int (wait_size (thr k me)), k))"

definition ipc_receive :: "'m copier \<Rightarrow> int \<Rightarrow> addr \<Rightarrow> 'm kernel \<Rightarrow>
    (outcome \<times> int option \<times> 'm kernel) option" where
  "ipc_receive u2k port_id message k =
     (let k1 = enter_serialize k; me = running k1;
          fail = (\<lambda>e k. do { k' \<leftarrow> leave_serialize k; Some (Done e, None, k') })
      in if flag (port (thr k1 me)) \<noteq> 0
         then fail E_RLWAI (update_thread me (\<lambda>th. th\<lparr>port := (port th)\<lparr>flag := 0\<rparr>\<rparr>) k1)
         else case get_thread_ptr port_id k1 of
                None \<Rightarrow> fail E_NOEXS k1
              | Some t \<Rightarrow>
                  if \<not> opened (port (thr k1 t)) then fail E_NOEXS k1
                  else case list_head (PCaller t) (links_of k1) of
                    Some q \<Rightarrow>
                      do { tp \<leftarrow> getThreadWaiting q;
                           let n = wait_size (thr k1 tp);
                           case u2k tp message (wait_message (thr k1 tp)) n (umem k1) of
                             (False, m) \<Rightarrow> fail E_PAR (k1\<lparr>umem := m\<rparr>)
                           | (True, m) \<Rightarrow>
                               do { let k2 = on_links (list_remove q) (k1\<lparr>umem := m\<rparr>);
                                    let tag = wait_key (thr k2 tp);
                                    k3 \<leftarrow> (case wait_type (thr k2 tp) of
                                             wait_call \<Rightarrow>
                                               do { r \<leftarrow> reply_tree k2 (key_of_ipc tag);
                                                    Some (update_thread tp (\<lambda>th. th\<lparr>wait_type := wait_reply\<rparr>)
                                                      (on_links (list_enqueue (RCaller r) (TWait tp)) k2)) }
                                           | wait_send \<Rightarrow> Some (release tp k2)
                                           | _ \<Rightarrow> Some k2);
                                    k4 \<leftarrow> leave_serialize k3;
                                    Some (Done (int n), Some tag, k4) } }
                  | None \<Rightarrow>
                      do { let k2 = on_links (list_enqueue (PReceiver t) (TWait me)) k1;
                           let k3 = update_thread me
                             (\<lambda>th. th\<lparr>wait_message := message, wait_type := wait_receive\<rparr>) k2;
                           k4 \<leftarrow> wait_on me k3;
                           Some (Blocked, None, k4) })"

definition ipc_receive_resumed :: "'m kernel \<Rightarrow> (int \<times> int option \<times> 'm kernel) option" where
  "ipc_receive_resumed k =
     (let k1 = enter_serialize k; th = thr k1 (running k1)
      in do { k2 \<leftarrow> leave_serialize k1;
              Some (if wait_result th \<noteq> 0 then (wait_result th, None, k2)
                    else (int (wait_size th), Some (wait_key th), k2)) })"

definition ipc_reply :: "'m copier \<Rightarrow> int \<Rightarrow> addr \<Rightarrow> nat \<Rightarrow> 'm kernel \<Rightarrow> (outcome \<times> 'm kernel) option" where
  "ipc_reply k2u key message n k =
     (let k1 = enter_serialize k
      in case reply_tree k1 key of
           None \<Rightarrow> leave_done E_OBJ (release_rendezvous key k1)
         | Some r \<Rightarrow>
             if n > reply_max k1 r then leave_done E_PAR (release_rendezvous key k1)
             else case list_head (RCaller r) (links_of k1) of
               Some q \<Rightarrow>
                 do { tp \<leftarrow> getThreadWaiting q;
                      case k2u tp (wait_message (thr k1 tp)) message n (umem k1) of
                        (False, m) \<Rightarrow> leave_done E_PAR (release_rendezvous key (k1\<lparr>umem := m\<rparr>))
                      | (True, m) \<Rightarrow>
                          do { k' \<leftarrow> leave_serialize_and_dispatch
                                       (release_rendezvous key (deliver tp q n None (k1\<lparr>umem := m\<rparr>)));
                               Some (Done E_OK, k') } }
             | None \<Rightarrow>
                 do { k' \<leftarrow> leave_serialize_and_dispatch (release_rendezvous key k1); Some (Done E_OBJ, k') })"

definition ipc_post :: "'m copier \<Rightarrow> int \<Rightarrow> addr \<Rightarrow> nat \<Rightarrow> 'm kernel \<Rightarrow> (outcome \<times> 'm kernel) option" where
  "ipc_post k2u port_id message n k =
     (let k1 = enter_serialize k
      in case get_thread_ptr port_id k1 of
           None \<Rightarrow> leave_done E_NOEXS k1
         | Some t \<Rightarrow>
             let p = port (thr k1 t)
             in if \<not> opened p then leave_done E_NOEXS k1
                else if n > max_call p then leave_done E_PAR k1
                else
                  let me = running k1; tag = create_ipc_tag (thread_id me k1) 0
                  in case list_head (PReceiver t) (links_of k1) of
                       Some q \<Rightarrow>
                         do { tp \<leftarrow> getThreadWaiting q;
                              case k2u tp (wait_message (thr k1 tp)) message n (umem k1) of
                                (False, m) \<Rightarrow> leave_done E_PAR (k1\<lparr>umem := m\<rparr>)
                              | (True, m) \<Rightarrow> leave_done E_OK (deliver tp q n (Some tag) (k1\<lparr>umem := m\<rparr>)) }
                     | None \<Rightarrow>
                         do { let k2 = on_links (list_enqueue (PCaller t) (TWait me)) k1;
                              let k3 = update_thread me
                                (\<lambda>th. th\<lparr>wait_size := n, wait_message := message, wait_key := tag,
                                         wait_type := wait_send\<rparr>) k2;
                              k4 \<leftarrow> wait_on me k3;
                              Some (Blocked, k4) })"

definition ipc_send :: "'m copier \<Rightarrow> int \<Rightarrow> addr \<Rightarrow> nat \<Rightarrow> 'm kernel \<Rightarrow> (outcome \<times> 'm kernel) option" where
  "ipc_send k2u tag message n k =
     (let key = key_of_ipc tag
      in if key \<noteq> 0 then ipc_reply k2u key message n k else ipc_post k2u tag message n k)"

definition ipc_listen :: "'m kernel \<Rightarrow> (outcome \<times> 'm kernel) option" where
  "ipc_listen k =
     (let k1 = enter_serialize k; me = running k1
      in if flag (port (thr k1 me)) \<noteq> 0
         then leave_done E_OK (update_thread me (\<lambda>th. th\<lparr>port := (port th)\<lparr>flag := 0\<rparr>\<rparr>) k1)
         else do { k' \<leftarrow> wait_on me (update_thread me (\<lambda>th. th\<lparr>wait_type := wait_flag\<rparr>) k1);
                   Some (Blocked, k') })"

subsection \<open>The call table (\<^verbatim>\<open>kernel/api.c\<close>)\<close>

definition page_alloc :: "'m kernel \<Rightarrow> (addr \<times> 'm kernel) option" where
  "page_alloc k =
     (case palloc (pages (enter_serialize k)) of
        (p, ps) \<Rightarrow> do { k' \<leftarrow> leave_serialize (enter_serialize k\<lparr>pages := ps\<rparr>); Some (p, k') })"

definition page_free :: "addr \<Rightarrow> 'm kernel \<Rightarrow> 'm kernel option" where
  "page_free p k = leave_serialize (enter_serialize k\<lparr>pages := pfree p (pages k)\<rparr>)"

definition region_copying :: "'m copier \<Rightarrow> int \<Rightarrow> addr \<Rightarrow> addr \<Rightarrow> nat \<Rightarrow> 'm kernel \<Rightarrow>
    (int \<times> 'm kernel) option" where
  "region_copying copy tskid dest src n k =
     (let k1 = enter_serialize k
      in case get_thread_ptr tskid k1 of
           None \<Rightarrow> leave_result E_NOEXS k1
         | Some t \<Rightarrow>
             (case copy t dest src n (umem k1) of
                (False, m) \<Rightarrow> leave_result E_PAR (k1\<lparr>umem := m\<rparr>)
              | (True, m) \<Rightarrow> leave_result E_OK (k1\<lparr>umem := m\<rparr>)))"

definition syscall :: "'m copier \<Rightarrow> int \<Rightarrow> addr \<Rightarrow> nat \<Rightarrow> nat \<Rightarrow> 'm kernel \<Rightarrow>
    (outcome \<times> int \<times> 'm kernel) option" where
  "syscall k2u arg1 arg2 arg3 svcno k =
     (if svcno \<ge> 1 then Some (Done E_NOSPT, 0, k) else ipc_call k2u arg1 arg2 arg3 k)"

end
