(* ===== verification/Kernel_Sched.thy ===== *)
theory Kernel_Sched
  imports Kernel_Ipc
begin

section \<open>Scheduling\<close>

text \<open>
  What the ready queues mean: \<open>sched k T G Q\<close> says that the queue of every priority holds exactly the
  runnable threads of \<open>T\<close> with that priority, that the bits cover the queues that are not empty and
  that at most the running thread has the status of a running thread. The lemmas show that making
  a thread ready, taking it from its queue and dispatching keep this, and which thread is chosen.
\<close>

definition runnable :: "thread_t \<Rightarrow> bool" where
  "runnable th \<longleftrightarrow> status th = TTS_RUN \<or> status th = TTS_RDY"

definition sched_of :: "(nat \<Rightarrow> thread_t) \<Rightarrow> u32 \<Rightarrow> nat \<Rightarrow> lnode links \<Rightarrow> nat set \<Rightarrow> lnode set \<Rightarrow>
    (lnode \<Rightarrow> lnode list) \<Rightarrow> bool" where
  "sched_of th bits run h T G Q \<longleftrightarrow>
     rings G (TQueue ` T) Q h \<and>
     (\<forall>p. Ready p \<in> G \<longleftrightarrow> p \<le> MAX_PRIORITY) \<and> (\<forall>t. TQueue t \<notin> G) \<and>
     (\<forall>p\<le>MAX_PRIORITY. set (Q (Ready p)) = TQueue ` {t \<in> T. runnable (th t) \<and> priority (th t) = p}) \<and>
     (\<forall>p. p \<le> MAX_PRIORITY \<and> Q (Ready p) \<noteq> [] \<longrightarrow> bit bits p) \<and>
     (\<forall>p. bit bits p \<longrightarrow> p \<le> MAX_PRIORITY) \<and>
     (\<forall>g\<in>G. \<forall>t. TQueue t \<in> set (Q g) \<longrightarrow> (\<exists>p. g = Ready p)) \<and>
     (\<forall>t\<in>T. priority (th t) \<le> MAX_PRIORITY) \<and>
     (\<forall>t\<in>T. status (th t) = TTS_RUN \<longrightarrow> t = run)"

definition sched :: "'m kernel \<Rightarrow> nat set \<Rightarrow> lnode set \<Rightarrow> (lnode \<Rightarrow> lnode list) \<Rightarrow> bool" where
  "sched k T G Q \<longleftrightarrow> sched_of (thr k) (ready_bits k) (running k) (links_of k) T G Q"

lemma sched_ofD:
  assumes "sched_of th bits run h T G Q"
  shows "rings G (TQueue ` T) Q h" "Ready p \<in> G \<longleftrightarrow> p \<le> 7" "TQueue t \<notin> G"
    "p \<le> 7 \<Longrightarrow> set (Q (Ready p)) = TQueue ` {t \<in> T. runnable (th t) \<and> priority (th t) = p}"
    "p \<le> 7 \<Longrightarrow> Q (Ready p) \<noteq> [] \<Longrightarrow> bit bits p" "bit bits p \<Longrightarrow> p \<le> 7"
    "g \<in> G \<Longrightarrow> TQueue t \<in> set (Q g) \<Longrightarrow> \<exists>p. g = Ready p"
    "t \<in> T \<Longrightarrow> priority (th t) \<le> 7" "t \<in> T \<Longrightarrow> status (th t) = 1 \<Longrightarrow> t = run"
  using assms unfolding sched_of_def by blast+

lemmas schedD = sched_ofD [OF sched_def [THEN iffD1]]

lemma sched_of_bits:
  assumes "sched_of th bits run h T G Q" and "\<And>p. p \<le> 7 \<Longrightarrow> Q (Ready p) \<noteq> [] \<Longrightarrow> bit b p"
    and "\<And>p. bit b p \<Longrightarrow> p \<le> 7"
  shows "sched_of th b run h T G Q"
proof -
  have "\<forall>p. p \<le> 7 \<and> Q (Ready p) \<noteq> [] \<longrightarrow> bit b p" "\<forall>p. bit b p \<longrightarrow> p \<le> 7"
    using assms(2,3) by blast+
  with assms(1) show ?thesis unfolding sched_of_def by (elim conjE, intro conjI) assumption+
qed

lemma sched_of_status:
  assumes "sched_of th bits run h T G Q"
    and "\<And>t. t \<in> T \<Longrightarrow> runnable (f t) = runnable (th t) \<and> priority (f t) = priority (th t)"
    and "\<And>t. t \<in> T \<Longrightarrow> status (f t) = 1 \<Longrightarrow> t = r"
  shows "sched_of f bits r h T G Q"
proof -
  have "{t \<in> T. runnable (f t) \<and> priority (f t) = p} = {t \<in> T. runnable (th t) \<and> priority (th t) = p}" for p
    using assms(2) by auto
  moreover have "\<forall>t\<in>T. priority (f t) \<le> 7" using assms(2) sched_ofD(8) [OF assms(1)] by simp
  moreover have "\<forall>t\<in>T. status (f t) = 1 \<longrightarrow> t = r" using assms(3) by blast
  ultimately show ?thesis
    using assms(1) unfolding sched_of_def by (elim conjE, intro conjI) (assumption | simp only:)+
qed

lemma ready_dequeue_loop_first:
  assumes "\<And>p. bit bits p \<Longrightarrow> list_head (Ready p) h = (case q p of [] \<Rightarrow> None | x # _ \<Rightarrow> Some x)"
    and "\<And>p. q p \<noteq> [] \<Longrightarrow> bit bits p"
  shows "\<exists>r bits'. ready_dequeue_loop h bits = (r, bits') \<and> (\<forall>p. q p \<noteq> [] \<longrightarrow> bit bits' p) \<and>
    (\<forall>p. bit bits' p \<longrightarrow> bit bits p) \<and>
    (case r of None \<Rightarrow> \<forall>p. q p = []
     | Some x \<Rightarrow> \<exists>p xs. q p = x # xs \<and> (\<forall>p'<p. q p' = []))"
  using assms
proof (induction h bits rule: ready_dequeue_loop.induct)
  case (1 h bits)
  show ?case
  proof (cases "bits = 0")
    case True
    with 1(3) show ?thesis by (subst ready_dequeue_loop.simps) auto
  next
    case False
    define p where "p = count_ntz bits"
    have p: "bit bits p" "\<And>p'. p' < p \<Longrightarrow> \<not> bit bits p'" using count_ntz_first [OF False] by (auto simp: p_def)
    show ?thesis
    proof (cases "q p")
      case (Cons x xs)
      then have "list_head (Ready p) h = Some x" using 1(2) [OF p(1)] by simp
      moreover have "\<forall>p'<p. q p' = []" using p(2) 1(3) by blast
      ultimately show ?thesis
        using Cons False 1(3) by (subst ready_dequeue_loop.simps) (auto simp: Let_def simp flip: p_def)
    next
      case Nil
      then have hd: "list_head (Ready p) h = None" using 1(2) [OF p(1)] by simp
      let ?bits = "bits AND NOT (bit_at p)"
      have "ready_dequeue_loop h bits = ready_dequeue_loop h ?bits"
        using False hd by (subst ready_dequeue_loop.simps) (simp add: Let_def flip: p_def)
      moreover have "\<exists>r bits'. ready_dequeue_loop h ?bits = (r, bits') \<and> (\<forall>p. q p \<noteq> [] \<longrightarrow> bit bits' p) \<and>
        (\<forall>p. bit bits' p \<longrightarrow> bit ?bits p) \<and>
        (case r of None \<Rightarrow> \<forall>p. q p = []
         | Some x \<Rightarrow> \<exists>p xs. q p = x # xs \<and> (\<forall>p'<p. q p' = []))"
        using hd Nil 1(2,3) by (intro 1(1) [OF False p_def]) (auto simp: bit_clear_mask)
      ultimately show ?thesis by (auto simp: bit_clear_mask)
    qed
  qed
qed

lemma ready_dequeue_first:
  assumes s: "sched k T G Q"
  shows "\<exists>r k'. ready_dequeue k = (r, k') \<and> k' = k\<lparr>ready_bits := ready_bits k'\<rparr> \<and> sched k' T G Q \<and>
    (case r of None \<Rightarrow> \<forall>t\<in>T. \<not> runnable (thr k t)
     | Some t \<Rightarrow> t \<in> T \<and> runnable (thr k t) \<and> hd (Q (Ready (priority (thr k t)))) = TQueue t \<and>
         (\<forall>t'\<in>T. runnable (thr k t') \<longrightarrow> priority (thr k t) \<le> priority (thr k t')))"
proof -
  let ?q = "\<lambda>p. if p \<le> 7 then Q (Ready p) else []"
  have "list_head (Ready p) (links_of k) = (case ?q p of [] \<Rightarrow> None | x # _ \<Rightarrow> Some x)"
    if "bit (ready_bits k) p" for p
    using schedD(2,6) [OF s, of p] that lists.head_law [OF schedD(1) [OF s], of "Ready p"] by simp
  moreover have "bit (ready_bits k) p" if "?q p \<noteq> []" for p
    using that schedD(5) [OF s, of p] by (simp split: if_splits)
  ultimately obtain r bits' where l: "ready_dequeue_loop (links_of k) (ready_bits k) = (r, bits')"
      "\<forall>p. ?q p \<noteq> [] \<longrightarrow> bit bits' p" "\<forall>p. bit bits' p \<longrightarrow> bit (ready_bits k) p"
      "case r of None \<Rightarrow> \<forall>p. ?q p = [] | Some x \<Rightarrow> \<exists>p xs. ?q p = x # xs \<and> (\<forall>p'<p. ?q p' = [])"
    using ready_dequeue_loop_first [of "ready_bits k" "links_of k" ?q] by blast
  have runnable: "Q (Ready (priority (thr k t))) \<noteq> []" if "t \<in> T" "runnable (thr k t)" for t
    using schedD(4) [OF s schedD(8) [OF s that(1)]] that by auto
  let ?k = "k\<lparr>ready_bits := bits'\<rparr>"
  have "sched_of (thr k) bits' (running k) (links_of k) T G Q"
  proof (rule sched_of_bits [OF s [unfolded sched_def]])
    show "bit bits' p" if "p \<le> 7" "Q (Ready p) \<noteq> []" for p using that spec [OF l(2), of p] by simp
    show "p \<le> 7" if "bit bits' p" for p using that l(3) schedD(6) [OF s] by blast
  qed
  then have sc: "sched ?k T G Q" by (simp add: sched_def)
  show ?thesis
  proof (cases r)
    case None
    with l(4) have "\<forall>p\<le>7. Q (Ready p) = []" by (auto split: if_splits)
    then have "\<forall>t\<in>T. \<not> runnable (thr k t)" using runnable schedD(8) [OF s] by blast
    with l(1) None sc show ?thesis by (simp add: ready_dequeue_def)
  next
    case (Some x)
    with l(4) obtain p xs where p: "p \<le> 7" "Q (Ready p) = x # xs" "\<forall>p'<p. Q (Ready p') = []"
      by (auto split: if_splits)
    then obtain t where t: "x = TQueue t" "t \<in> T" "runnable (thr k t)" "priority (thr k t) = p"
      using schedD(4) [OF s p(1)] by auto
    moreover have "\<forall>t'\<in>T. runnable (thr k t') \<longrightarrow> p \<le> priority (thr k t')"
      using p(3) runnable by (metis not_le)
    ultimately show ?thesis using l(1) Some sc p(2) by (simp add: ready_dequeue_def)
  qed
qed

text \<open>The choice of \<^verbatim>\<open>dispatch\<close>: the head of the first queue that is not empty.\<close>

lemma dispatch_next_ok:
  assumes s: "sched k T G Q" and r: "running k \<in> T" and ex: "\<exists>t\<in>T. runnable (thr k t)"
  shows "\<exists>k'. dispatch_next k = Some k' \<and> sched k' T G Q \<and> running k' \<in> T \<and>
    status (thr k' (running k')) = (if running k' = running k then status (thr k (running k)) else TTS_RUN) \<and>
    runnable (thr k (running k')) \<and>
    hd (Q (Ready (priority (thr k (running k'))))) = TQueue (running k') \<and>
    (\<forall>t\<in>T. runnable (thr k t) \<longrightarrow> priority (thr k (running k')) \<le> priority (thr k t))"
proof -
  obtain res k1 where d: "ready_dequeue k = (res, k1)" "k1 = k\<lparr>ready_bits := ready_bits k1\<rparr>" "sched k1 T G Q"
    "case res of None \<Rightarrow> \<forall>t\<in>T. \<not> runnable (thr k t)
     | Some t \<Rightarrow> t \<in> T \<and> runnable (thr k t) \<and> hd (Q (Ready (priority (thr k t)))) = TQueue t \<and>
         (\<forall>t'\<in>T. runnable (thr k t') \<longrightarrow> priority (thr k t) \<le> priority (thr k t'))"
    using ready_dequeue_first [OF s] by blast
  then obtain t where t: "res = Some t" "t \<in> T" "runnable (thr k t)"
    "hd (Q (Ready (priority (thr k t)))) = TQueue t"
    "\<forall>t'\<in>T. runnable (thr k t') \<longrightarrow> priority (thr k t) \<le> priority (thr k t')"
    using ex by (cases res) auto
  have same: "thr k1 = thr k" "running k1 = running k" using arg_cong [OF d(2), of thr] arg_cong [OF d(2), of running] by simp_all
  show ?thesis
  proof (cases "t = running k")
    case True
    with d t same show ?thesis by (simp add: dispatch_next_def)
  next
    case False
    let ?f = "(if status (thr k (running k)) = 1
               then (thr k)(running k := (thr k (running k))\<lparr>status := 2\<rparr>) else thr k)"
    let ?g = "?f(t := (?f t)\<lparr>status := 1\<rparr>)"
    have "dispatch_next k = Some (k1\<lparr>thr := ?g, running := t\<rparr>)"
      using d(1) t(1) False same by (simp add: dispatch_next_def update_thread_def Let_def)
    moreover have "sched_of ?g (ready_bits k1) t (links_of k1) T G Q"
    proof (rule sched_of_status [OF d(3) [unfolded sched_def]])
      fix x assume x: "x \<in> T"
      show "runnable (?g x) = runnable (thr k1 x) \<and> priority (?g x) = priority (thr k1 x)"
        using t(3) False by (auto simp: same runnable_def)
      show "x = t" if "status (?g x) = 1"
        using that schedD(9) [OF s x] by (auto split: if_splits)
    qed
    then have "sched (k1\<lparr>thr := ?g, running := t\<rparr>) T G Q" by (simp add: sched_def)
    ultimately show ?thesis using t False by simp
  qed
qed

subsection \<open>Entering and leaving the queues\<close>

lemma not_queued:
  assumes s: "sched_of th bits run h T G Q" and "\<not> runnable (th t)"
  shows "\<not> queued G Q (TQueue t)"
proof
  assume "queued G Q (TQueue t)"
  then obtain g where g: "g \<in> G" "TQueue t \<in> set (Q g)" by (auto simp: queued_def)
  with sched_ofD(7) [OF s] obtain p where "g = Ready p" by blast
  with g sched_ofD(2,4) [OF s, of p] assms(2) show False by auto
qed

lemma sched_of_enqueue:
  assumes s: "sched_of th bits run h T G Q" and t: "t \<in> T" "\<not> runnable (th t)"
    and x: "status x = 2" "priority x = p" "p \<le> 7"
  shows "sched_of (th(t := x)) (bits OR bit_at p) run (list_enqueue (Ready p) (TQueue t) h) T G
    (Q(Ready p := Q (Ready p) @ [TQueue t]))"
  unfolding sched_of_def
proof (intro conjI)
  have "insert (TQueue t) (TQueue ` T) = TQueue ` T" using t(1) by auto
  then show "rings G (TQueue ` T) (Q(Ready p := Q (Ready p) @ [TQueue t])) (list_enqueue (Ready p) (TQueue t) h)"
    using lists.enqueue_law [OF sched_ofD(1) [OF s], of "Ready p" "TQueue t"] sched_ofD(2,3) [OF s]
      not_queued [OF s t(2)] x(3) by simp
  show "\<forall>q\<le>7. set ((Q(Ready p := Q (Ready p) @ [TQueue t])) (Ready q)) =
      TQueue ` {t' \<in> T. runnable ((th(t := x)) t') \<and> priority ((th(t := x)) t') = q}"
    using sched_ofD(4) [OF s] t x by (auto simp: runnable_def)
  show "\<forall>q. q \<le> 7 \<and> (Q(Ready p := Q (Ready p) @ [TQueue t])) (Ready q) \<noteq> [] \<longrightarrow> bit (bits OR bit_at p) q"
    using sched_ofD(5) [OF s] x(3) by (auto simp: bit_set_mask)
  show "\<forall>q. bit (bits OR bit_at p) q \<longrightarrow> q \<le> 7"
    using sched_ofD(6) [OF s] x(3) by (auto simp: bit_set_mask)
  show "\<forall>g\<in>G. \<forall>t'. TQueue t' \<in> set ((Q(Ready p := Q (Ready p) @ [TQueue t])) g) \<longrightarrow> (\<exists>p. g = Ready p)"
    using sched_ofD(7) [OF s] by auto
  show "\<forall>t'\<in>T. status ((th(t := x)) t') = 1 \<longrightarrow> t' = run"
    using sched_ofD(9) [OF s] x(1) by auto
qed (use sched_ofD(2,3,8) [OF s] x in auto)

lemma sched_of_remove:
  assumes s: "sched_of th bits run h T G Q" and t: "t \<in> T"
    and x: "\<not> runnable x" "priority x \<le> 7"
  shows "sched_of (th(t := x)) bits run (list_remove (TQueue t) h) T G (\<lambda>g. removeAll (TQueue t) (Q g))"
  unfolding sched_of_def
proof (intro conjI)
  have "insert (TQueue t) (TQueue ` T) = TQueue ` T" using t by auto
  then show "rings G (TQueue ` T) (\<lambda>g. removeAll (TQueue t) (Q g)) (list_remove (TQueue t) h)"
    using lists.remove_law [OF sched_ofD(1) [OF s] sched_ofD(3) [OF s], of t] t by simp
  show "\<forall>q\<le>7. set (removeAll (TQueue t) (Q (Ready q))) =
      TQueue ` {t' \<in> T. runnable ((th(t := x)) t') \<and> priority ((th(t := x)) t') = q}"
    using sched_ofD(4) [OF s] x by auto
  show "\<forall>q. q \<le> 7 \<and> removeAll (TQueue t) (Q (Ready q)) \<noteq> [] \<longrightarrow> bit bits q"
    using sched_ofD(5) [OF s] by fastforce
  show "\<forall>g\<in>G. \<forall>t'. TQueue t' \<in> set (removeAll (TQueue t) (Q g)) \<longrightarrow> (\<exists>p. g = Ready p)"
    using sched_ofD(7) [OF s] by auto
  show "\<forall>t'\<in>T. status ((th(t := x)) t') = 1 \<longrightarrow> t' = run"
    using sched_ofD(9) [OF s] x(1) by (auto simp: runnable_def)
  show "\<forall>q. bit bits q \<longrightarrow> q \<le> 7" using sched_ofD(6) [OF s] by blast
qed (use sched_ofD(2,3,8) [OF s] x in auto)

subsection \<open>The depth of a dispatch\<close>

lemma no_request_kept [simp]:
  "no_request (update_thread t f k) = no_request k" "no_request (on_links g k) = no_request k"
  "no_request (ready_enqueue p n k) = no_request k" "no_request (release t k) = no_request k"
  "no_request (enter_serialize k) = no_request k"
  by (simp_all add: update_thread_def on_links_def ready_enqueue_def release_def enter_serialize_def Let_def)

lemma leave_with_skips: "no_request k \<Longrightarrow> leave_with d k = Some (k\<lparr>serializing := False\<rparr>)"
  by (simp add: leave_with_def dispatch_skippable_def Let_def)

lemma notify_with_skips:
  assumes "no_request k"
  shows "notify_with (leave_with d) p f k = notify_with (leave_with d') p f k"
  using assms by (auto simp: notify_with_def Let_def leave_with_skips split: option.splits)

subsection \<open>A small system\<close>

definition thread_demo :: "u32 \<Rightarrow> nat \<Rightarrow> thread_t" where
  "thread_demo st pri = \<lparr>node_key = 0, status = st, wait_type = wait_none, wait_result = 0, wait_size = 0,
     wait_message = 0, wait_key = 0, priority = pri, quantum = 1, attr_priority = pri, kstack_tail = 0,
     ustack_top = 1, entry_of = 0, arg_of = 0, port = blank_port, kernel_sp = 0, page_table = 0\<rparr>"

text \<open>Thread 10 of priority 3 runs, thread 11 of priority 7 is ready.\<close>

definition kernel_demo :: "unit kernel" where
  "kernel_demo = \<lparr>thr = (\<lambda>_. thread_demo TTS_DMT 3)(10 := thread_demo TTS_RUN 3, 11 := thread_demo TTS_RDY 7),
     links_of = list_enqueue (Ready 7) (TQueue 11) (list_enqueue (Ready 3) (TQueue 10) alone),
     ready_bits = 0 OR bit_at 3 OR bit_at 7, running = 10, thread_tree = Map.empty, thread_slab = [],
     reply_tree = Map.empty, reply_slab = [], reply_max = (\<lambda>_. 0), reply_sequence = seq_blank,
     interrupt_nest = 0, no_request = True, serializing = False, delay_thread_start = False,
     kqueue = [], pages = page_demo, umem = ()\<rparr>"

abbreviation ready_guards :: "lnode set" where
  "ready_guards \<equiv> {Ready p |p. p \<le> MAX_PRIORITY}"

abbreviation queues_demo :: "lnode \<Rightarrow> lnode list" where
  "queues_demo \<equiv> ((\<lambda>_. [])(Ready 3 := [TQueue 10]))(Ready 7 := [TQueue 11])"

lemma sched_of_alone:
  assumes "\<And>t. t \<in> T \<Longrightarrow> \<not> runnable (th t) \<and> priority (th t) \<le> 7"
  shows "sched_of th 0 run alone T ready_guards (\<lambda>_. [])"
  using assms by (auto simp: sched_of_def rings_alone runnable_def)

lemma sched_of_run:
  assumes "sched_of th bits run h T G Q" and "\<And>t. t \<in> T \<Longrightarrow> status (th t) \<noteq> 1" and "status (th t) = 2"
  shows "sched_of (th(t := (th t)\<lparr>status := 1\<rparr>)) bits t h T G Q"
  by (rule sched_of_status [OF assms(1)]) (use assms(2,3) in \<open>auto simp: runnable_def split: if_splits\<close>)

lemma sched_demo: "sched kernel_demo {10, 11} ready_guards queues_demo"
proof -
  let ?th = "\<lambda>_ :: nat. thread_demo TTS_DMT 3"
  have "sched_of ?th 0 10 alone {10, 11} ready_guards (\<lambda>_. [])"
    by (rule sched_of_alone) (simp add: thread_demo_def runnable_def)
  from sched_of_enqueue [OF this, of 10 "thread_demo 2 3" 3]
  have "sched_of (?th(10 := thread_demo 2 3)) (0 OR bit_at 3) 10 (list_enqueue (Ready 3) (TQueue 10) alone)
      {10, 11} ready_guards ((\<lambda>_. [])(Ready 3 := [TQueue 10]))" by (simp add: thread_demo_def runnable_def)
  from sched_of_enqueue [OF this, of 11 "thread_demo 2 7" 7]
  have "sched_of (?th(10 := thread_demo 2 3, 11 := thread_demo 2 7)) (0 OR bit_at 3 OR bit_at 7) 10
      (links_of kernel_demo) {10, 11} ready_guards queues_demo"
    by (simp add: thread_demo_def runnable_def kernel_demo_def)
  from sched_of_run [OF this, of 10]
  have "sched_of (?th(10 := thread_demo 2 3, 11 := thread_demo 2 7, 10 := thread_demo 1 3))
      (0 OR bit_at 3 OR bit_at 7) 10 (links_of kernel_demo) {10, 11} ready_guards queues_demo"
    by (auto simp: thread_demo_def)
  moreover have "?th(10 := thread_demo 2 3, 11 := thread_demo 2 7, 10 := thread_demo 1 3) = thr kernel_demo"
    by (auto simp: kernel_demo_def)
  ultimately show ?thesis by (simp add: sched_def kernel_demo_def)
qed

subsection \<open>What the scheduler promises\<close>

text \<open>
  The recursion of \<^verbatim>\<open>dispatch\<close> through \<^verbatim>\<open>ipc_notify\<close> and \<^verbatim>\<open>leave_serialize\<close> is never more than
  one level deep: whatever depth is allowed, the result is that of one level, because the request
  flag that \<^verbatim>\<open>dispatch\<close> sets first makes the nested call leave without dispatching.
\<close>

theorem dispatch_depth: "dispatch_at (Suc n) k = dispatch k"
  unfolding dispatch_def One_nat_def dispatch_at.simps Let_def
  using notify_with_skips [of "k\<lparr>no_request := True, delay_thread_start := False\<rparr>" "dispatch_at n" PORT_DELAY
      EVENT_INTERRUPT "dispatch_at 0"]
  by (simp add: dispatch_at.simps(1) [abs_def])

text \<open>
  C1. \<^verbatim>\<open>dispatch\<close>, outside a serialised section and with no delayed call pending, lets the thread
  run that is first in the queue of the best priority any runnable thread has; the queues do not
  change, the thread gets the status of a running thread and no other thread keeps it. With a
  runnable thread there is always such a choice.
\<close>

theorem dispatch_runs_best:
  assumes "sched k T G Q" and "running k \<in> T" and "\<exists>t\<in>T. runnable (thr k t)"
    and "\<not> serializing k" and "\<not> delay_thread_start k"
  shows "\<exists>k'. dispatch k = Some k' \<and> sched k' T G Q \<and> running k' \<in> T \<and>
    runnable (thr k (running k')) \<and> (running k' \<noteq> running k \<longrightarrow> status (thr k' (running k')) = TTS_RUN) \<and>
    hd (Q (Ready (priority (thr k (running k'))))) = TQueue (running k') \<and>
    (\<forall>t\<in>T. runnable (thr k t) \<longrightarrow> priority (thr k (running k')) \<le> priority (thr k t))"
proof -
  let ?k = "k\<lparr>no_request := True\<rparr>"
  have "dispatch k = dispatch_next ?k" using assms(4,5) by (simp add: dispatch_def)
  moreover have "sched ?k T G Q" using assms(1) by (simp add: sched_def)
  ultimately show ?thesis using dispatch_next_ok [of ?k T G Q] assms(2,3) by auto
qed

theorem dispatch_runs_best_witness: "\<exists>k'. dispatch kernel_demo = Some k' \<and> running k' = 10"
proof -
  have "running kernel_demo \<in> {10, 11}" "\<exists>t\<in>{10, 11}. runnable (thr kernel_demo t)"
    "\<not> serializing kernel_demo" "\<not> delay_thread_start kernel_demo"
    by (simp_all add: kernel_demo_def runnable_def thread_demo_def)
  from dispatch_runs_best [OF sched_demo this] show ?thesis
    by (auto simp: kernel_demo_def runnable_def thread_demo_def)
qed

text \<open>
  C6. A running thread that waits leaves the ready queues: after \<^verbatim>\<open>wait\<close> another thread, the best
  runnable one, runs, the waiting thread is in no ready queue and every other thread keeps its
  place.
\<close>

theorem wait_switches:
  assumes "sched k T G Q" and "running k \<in> T" and "\<exists>t\<in>T. t \<noteq> running k \<and> runnable (thr k t)"
    and "interrupt_nest k = 0" and "\<not> delay_thread_start k"
  shows "\<exists>k'. wait_on (running k) k = Some k' \<and> sched k' T G (\<lambda>g. removeAll (TQueue (running k)) (Q g)) \<and>
    running k' \<noteq> running k \<and> running k' \<in> T \<and> status (thr k' (running k')) = TTS_RUN \<and>
    status (thr k' (running k)) = TTS_WAI \<and>
    (\<forall>t\<in>T. t \<noteq> running k \<and> runnable (thr k t) \<longrightarrow> priority (thr k (running k')) \<le> priority (thr k t))"
proof -
  let ?r = "running k" let ?Q = "\<lambda>g. removeAll (TQueue ?r) (Q g)"
  let ?x = "(thr k ?r)\<lparr>wait_result := E_OK, status := TTS_WAI\<rparr>"
  define k1 where "k1 = k\<lparr>thr := (thr k)(?r := ?x), links_of := list_remove (TQueue ?r) (links_of k),
    no_request := False, serializing := False\<rparr>"
  have w: "wait_on ?r k = dispatch k1"
    using assms(4) by (simp add: wait_on_def leave_serialize_and_dispatch_def leave_serialize_def
        leave_with_def dispatch_skippable_def update_thread_def on_links_def k1_def Let_def)
  have "sched_of ((thr k)(?r := ?x)) (ready_bits k) ?r (list_remove (TQueue ?r) (links_of k)) T G ?Q"
    using schedD(8) [OF assms(1,2)]
    by (intro sched_of_remove [OF assms(1) [unfolded sched_def] assms(2)]) (simp_all add: runnable_def)
  then have s: "sched k1 T G ?Q" by (simp add: sched_def k1_def)
  have nr: "\<not> runnable (thr k1 ?r)" "running k1 = ?r" "\<And>t. t \<noteq> ?r \<Longrightarrow> thr k1 t = thr k t"
    by (simp_all add: k1_def runnable_def)
  let ?k = "k1\<lparr>no_request := True\<rparr>"
  have "dispatch k1 = dispatch_next ?k" using assms(5) by (simp add: dispatch_def k1_def)
  moreover have "sched ?k T G ?Q" using s by (simp add: sched_def)
  moreover obtain t where "t \<in> T" "t \<noteq> ?r" "runnable (thr k t)" using assms(3) by blast
  then have "\<exists>t\<in>T. runnable (thr ?k t)" using nr(3) [of t] by (intro bexI [of _ t]) simp_all
  ultimately obtain k' where k': "dispatch k1 = Some k'" "sched k' T G ?Q" "running k' \<in> T"
    "status (thr k' (running k')) = (if running k' = running ?k then status (thr ?k (running ?k)) else TTS_RUN)"
    "runnable (thr ?k (running k'))"
    "\<forall>t\<in>T. runnable (thr ?k t) \<longrightarrow> priority (thr ?k (running k')) \<le> priority (thr ?k t)"
    using dispatch_next_ok [of ?k T G ?Q] assms(2) nr(2) by auto
  have ne: "running k' \<noteq> ?r" using k'(5) nr by auto
  have "status (thr k' ?r) = TTS_WAI"
    using k'(1) ne \<open>dispatch k1 = dispatch_next ?k\<close> nr(2)
    by (auto simp: dispatch_next_def ready_dequeue_def update_thread_def Let_def k1_def
        split: option.splits prod.splits if_splits)
  with k' ne nr w show ?thesis by auto
qed

theorem wait_switches_witness: "\<exists>k'. wait_on 10 kernel_demo = Some k' \<and> running k' = 11"
proof -
  have "running kernel_demo \<in> {10, 11}"
    "\<exists>t\<in>{10, 11}. t \<noteq> running kernel_demo \<and> runnable (thr kernel_demo t)"
    "interrupt_nest kernel_demo = 0" "\<not> delay_thread_start kernel_demo"
    by (simp_all add: kernel_demo_def runnable_def thread_demo_def)
  from wait_switches [OF sched_demo this] show ?thesis by (auto simp: kernel_demo_def)
qed

end
