(* ===== verification/Kernel_Rendezvous.thy ===== *)
theory Kernel_Rendezvous
  imports Kernel_Sched
begin

section \<open>Rendezvous\<close>

text \<open>
  The keys of the calls that wait for a reply: \<open>rdv\<close> says that the keys in the tree of replies are
  exactly the numbers the sequence has handed out, apart from zero, which is taken once and for all
  at the start because a tag without a key is a plain message. The lemmas show that every message
  operation keeps this, and what happens to the key of a call.
\<close>

definition rdv_of :: "sequence_t \<Rightarrow> (int \<rightharpoonup> nat) \<Rightarrow> bool" where
  "rdv_of s tr \<longleftrightarrow> sequence_inv MAX_THREAD s \<and> dom tr \<subseteq> {1..<int MAX_THREAD} \<and>
     seq_free s = {..<MAX_THREAD} - insert 0 (nat ` dom tr)"

definition rdv :: "'m kernel \<Rightarrow> bool" where
  "rdv k \<longleftrightarrow> rdv_of (reply_sequence k) (reply_tree k)"

subsection \<open>What dispatching leaves alone\<close>

definition replies :: "'m kernel \<Rightarrow> (int \<rightharpoonup> nat) \<times> sequence_t \<times> nat list" where
  "replies k = (reply_tree k, reply_sequence k, reply_slab k)"

lemma replies_kept [simp]:
  "replies (update_thread t f k) = replies k" "replies (on_links g k) = replies k"
  "replies (ready_enqueue p n k) = replies k"
  "replies (enter_serialize k) = replies k" "replies (k\<lparr>umem := m\<rparr>) = replies k"
  "replies (k\<lparr>no_request := b\<rparr>) = replies k" "replies (k\<lparr>serializing := b\<rparr>) = replies k"
  "replies (k\<lparr>running := r\<rparr>) = replies k" "replies (k\<lparr>ready_bits := w\<rparr>) = replies k"
  "replies (k\<lparr>delay_thread_start := b\<rparr>) = replies k"
  by (simp_all add: replies_def update_thread_def on_links_def ready_enqueue_def enter_serialize_def)

lemma replies_release [simp]: "replies (release t k) = replies k"
  unfolding release_def Let_def by (simp split: if_split)

lemma replies_deliver [simp]: "replies (deliver tp q n tag k) = replies k"
  by (simp add: deliver_def)

lemma ready_dequeue_replies: "ready_dequeue k = (r, k') \<Longrightarrow> replies k' = replies k"
  by (auto simp: ready_dequeue_def split: prod.splits)

lemma dispatch_next_replies:
  assumes "dispatch_next k = Some k'"
  shows "replies k' = replies k"
proof -
  obtain r k1 where d: "ready_dequeue k = (r, k1)" by fastforce
  with assms obtain t where "r = Some t" by (cases r) (simp_all add: dispatch_next_def)
  with assms d have "replies k' = replies k1"
    by (simp add: dispatch_next_def Let_def split: if_splits) (use replies_kept in force)+
  with ready_dequeue_replies [OF d] show ?thesis by simp
qed

lemma notify_with_replies:
  assumes "notify_with leave p f k = Some (r, k')" and "\<And>k k'. leave k = Some k' \<Longrightarrow> replies k' = replies k"
  shows "replies k' = replies k"
  using assms by (auto simp: notify_with_def Let_def bind_eq_Some_conv split: option.splits if_splits)

lemma dispatch_replies: "dispatch k = Some k' \<Longrightarrow> replies k' = replies k"
proof -
  assume d: "dispatch k = Some k'"
  have skip: "leave_with (dispatch_at 0) x = Some x' \<Longrightarrow> replies x' = replies x" for x x' :: "'a kernel"
    by (auto simp: leave_with_def Let_def split: if_splits)
  show ?thesis
  proof (cases "serializing k \<or> \<not> delay_thread_start k")
    case True
    with d dispatch_next_replies [of "k\<lparr>no_request := True\<rparr>" k'] show ?thesis
      by (auto simp: dispatch_def split: if_splits)
  next
    case False
    with d obtain r k2 where n: "notify_with (leave_with (dispatch_at 0)) PORT_DELAY EVENT_INTERRUPT
        (k\<lparr>no_request := True, delay_thread_start := False\<rparr>) = Some (r, k2)" "dispatch_next k2 = Some k'"
      by (auto simp: dispatch_def bind_eq_Some_conv)
    show ?thesis
      using notify_with_replies [OF n(1) skip] dispatch_next_replies [OF n(2)] by simp
  qed
qed

lemma leave_replies: "leave_serialize k = Some k' \<Longrightarrow> replies k' = replies k"
  using dispatch_replies [of "k\<lparr>serializing := False\<rparr>" k']
  by (auto simp: leave_serialize_def leave_with_def Let_def split: if_splits)

lemma leave_dispatch_replies: "leave_serialize_and_dispatch k = Some k' \<Longrightarrow> replies k' = replies k"
  using leave_replies [of "k\<lparr>no_request := False\<rparr>" k'] by (simp add: leave_serialize_and_dispatch_def)

lemma wait_replies: "wait_on t k = Some k' \<Longrightarrow> replies k' = replies k"
  unfolding wait_on_def by (drule leave_dispatch_replies) simp

subsection \<open>Keys\<close>

lemma rdv_ofD:
  assumes "rdv_of s tr"
  shows "sequence_inv 1024 s" "key \<in> dom tr \<Longrightarrow> 0 < key \<and> key < 1024"
    "x \<in> seq_free s \<longleftrightarrow> 0 < x \<and> x < 1024 \<and> tr (int x) = None"
proof -
  show "sequence_inv 1024 s" using assms by (simp add: rdv_of_def)
  have d: "dom tr \<subseteq> {1..<1024}" using assms by (simp add: rdv_of_def)
  then show "key \<in> dom tr \<Longrightarrow> 0 < key \<and> key < 1024" by auto
  have "x \<in> nat ` dom tr \<longleftrightarrow> 0 < x \<and> tr (int x) \<noteq> None"
  proof
    assume "x \<in> nat ` dom tr"
    with d show "0 < x \<and> tr (int x) \<noteq> None" by auto
  next
    assume "0 < x \<and> tr (int x) \<noteq> None"
    then show "x \<in> nat ` dom tr" by (metis domIff imageI nat_int)
  qed
  then show "x \<in> seq_free s \<longleftrightarrow> 0 < x \<and> x < 1024 \<and> tr (int x) = None"
    using assms by (auto simp: rdv_of_def)
qed

lemma rdv_ofI:
  assumes "sequence_inv 1024 s" and "\<And>key. key \<in> dom tr \<Longrightarrow> 0 < key \<and> key < 1024"
    and "\<And>x. x \<in> seq_free s \<longleftrightarrow> 0 < x \<and> x < 1024 \<and> tr (int x) = None"
  shows "rdv_of s tr"
proof -
  have "dom tr \<subseteq> {1..<1024}" using assms(2) by force
  moreover have "seq_free s = {..<1024} - insert 0 (nat ` dom tr)"
  proof (rule set_eqI)
    fix x
    have "0 < x \<Longrightarrow> x \<in> nat ` dom tr \<longleftrightarrow> tr (int x) \<noteq> None"
      using assms(2) by (auto simp: image_iff) (metis domI nat_int)
    then show "x \<in> seq_free s \<longleftrightarrow> x \<in> {..<1024} - insert 0 (nat ` dom tr)"
      using assms(3) [of x] by auto
  qed
  ultimately show ?thesis using assms(1) by (simp add: rdv_of_def)
qed

lemma rdv_get:
  assumes r: "rdv_of s tr" and g: "sequence_get s = (key, s')"
  shows "key < 0 \<and> s' = s \<and> seq_free s = {} \<or>
    (0 < key \<and> key < 1024 \<and> tr key = None \<and> rdv_of s' (tr(key \<mapsto> v)) \<and>
     rdv_of (sequence_release s' (word_of_int key)) tr)"
proof (cases rule: seq.get_cases [OF rdv_ofD(1) [OF r]])
  case 1
  then show ?thesis using g by (auto simp: sequence_get_opt_def split: if_splits)
next
  case (2 x s1)
  have key: "key = int x" "s1 = s'" using 2(1) g by (auto simp: sequence_get_opt_def split: if_splits)
  have x: "0 < x" "x < 1024" "tr (int x) = None" using 2(2) rdv_ofD(3) [OF r] by auto
  have "rdv_of s' (tr(key \<mapsto> v))"
  proof (rule rdv_ofI)
    show "sequence_inv 1024 s'" using 2(5) key by simp
    show "0 < k \<and> k < 1024" if "k \<in> dom (tr(key \<mapsto> v))" for k
      using that rdv_ofD(2) [OF r, of k] x key by (cases "k = key") auto
    show "y \<in> seq_free s' \<longleftrightarrow> 0 < y \<and> y < 1024 \<and> (tr(key \<mapsto> v)) (int y) = None" for y
      using 2(3) key rdv_ofD(3) [OF r, of y] by (cases "y = x") auto
  qed
  moreover have w: "word_of_int key = (of_nat x :: u32)" by (simp add: key)
  have "seq_free (sequence_release s' (of_nat x)) = insert x (seq_free s')"
    "sequence_inv 1024 (sequence_release s' (of_nat x))"
    using seq.put_free [of 1024 s' x] 2 key x by auto
  then have "rdv_of (sequence_release s' (word_of_int key)) tr"
    unfolding w using 2 key x rdv_ofD [OF r] by (intro rdv_ofI) auto
  ultimately show ?thesis using key x by auto
qed

lemma rdv_release:
  assumes r: "rdv_of s tr" and k: "tr key = Some v"
  shows "rdv_of (sequence_release s (word_of_int key)) (tr(key := None))"
proof -
  have b: "0 < key" "key < 1024" using rdv_ofD(2) [OF r] k by auto
  have w: "word_of_int key = (of_nat (nat key) :: u32)" using b by simp
  have "nat key \<notin> seq_free s" using rdv_ofD(3) [OF r] k b by auto
  with seq.put_free [OF rdv_ofD(1) [OF r], of "nat key"] b
  have "seq_free (sequence_release s (of_nat (nat key))) = insert (nat key) (seq_free s)"
    "sequence_inv 1024 (sequence_release s (of_nat (nat key)))" by auto
  then show ?thesis
    unfolding w using b rdv_ofD [OF r] by (intro rdv_ofI) (auto split: if_splits)
qed

lemma release_rendezvous_rdv:
  "rdv k \<Longrightarrow> rdv (release_rendezvous key k) \<and> reply_tree (release_rendezvous key k) = (reply_tree k)(key := None)"
  using rdv_release [of "reply_sequence k" "reply_tree k" key]
  by (auto simp: rdv_def release_rendezvous_def fun_upd_idem split: option.split)

lemma rdv_replies: "replies k' = replies k \<Longrightarrow> rdv k' = rdv k \<and> reply_tree k' = reply_tree k"
  by (simp add: rdv_def replies_def)

lemma fail_replies:
  assumes "do { k' \<leftarrow> leave_serialize k; Some (Done e, c, k') } = Some (out, x, k1)"
  shows "out = Done e \<and> x = c \<and> replies k1 = replies k"
  using assms leave_replies [of k] by (auto simp: bind_eq_Some_conv)

lemma ipc_call_keys:
  assumes r: "rdv k" and c: "ipc_call k2u port_id message n k = Some (out, key, k')"
  shows "rdv k' \<and> (case out of
      Blocked \<Rightarrow> 0 < key \<and> key < int MAX_THREAD \<and> reply_tree k key = None \<and>
        (\<exists>r. reply_tree k' = (reply_tree k)(key \<mapsto> r))
    | Done e \<Rightarrow> reply_tree k' = reply_tree k)"
proof -
  let ?k = "enter_serialize k"
  have k: "reply_tree ?k = reply_tree k" "reply_sequence ?k = reply_sequence k" "reply_slab ?k = reply_slab k"
    by (simp_all add: enter_serialize_def)
  have stay: ?thesis if "do { k' \<leftarrow> leave_serialize k1; Some (Done e, 0, k') } = Some (out, key, k')"
    "rdv k1" "reply_tree k1 = reply_tree k" for e k1
    using fail_replies [OF that(1)] rdv_replies [of k' k1] that(2,3) by simp
  have same: "rdv ?k" using r k by (simp add: rdv_def)
  obtain g s where seq: "sequence_get (reply_sequence k) = (g, s)" by fastforce
  note get = rdv_get [OF r [unfolded rdv_def] seq]
  show ?thesis
  proof (cases "get_thread_ptr port_id ?k")
    case None
    then show ?thesis using c stay [of ?k E_NOEXS] same k by (simp add: ipc_call_def Let_def)
  next
    case (Some t)
    note t = this
    show ?thesis
    proof (cases "\<not> opened (port (thr ?k t)) \<or> n > max_call (port (thr ?k t)) \<or> g < 0")
      case True
      moreover have "rdv (?k\<lparr>reply_sequence := s\<rparr>)" if "g < 0" using get [of 0] that r k by (simp add: rdv_def)
      ultimately show ?thesis
        using c t stay [of ?k] stay [of "?k\<lparr>reply_sequence := s\<rparr>"] same k seq
        by (simp add: ipc_call_def Let_def split: if_splits)
    next
      case ok: False
      then have g: "0 < g" "g < 1024" "reply_tree k g = None" "rdv_of s ((reply_tree k)(g \<mapsto> v))"
        "rdv_of (sequence_release s (word_of_int g)) (reply_tree k)" for v
        using get [of v] by auto
      show ?thesis
      proof (cases "reply_slab k")
        case Nil
        then show ?thesis
          using c t ok k seq stay [of "?k\<lparr>reply_sequence := sequence_release s (word_of_int g)\<rparr>"] g(5)
          by (simp add: ipc_call_def Let_def rdv_def)
      next
        case (Cons v rest)
        let ?k3 = "on_links (list_initialize (RCaller v))
          (?k\<lparr>reply_sequence := s, reply_slab := rest, reply_tree := (reply_tree k)(g \<mapsto> v),
            reply_max := (reply_max ?k)(v := max_reply (port (thr ?k t)))\<rparr>)"
        have k3: "rdv ?k3" "reply_tree ?k3 = (reply_tree k)(g \<mapsto> v)"
          using g(4) by (simp_all add: rdv_def on_links_def)
        have blocked: ?thesis if "out = Blocked" "key = g" "replies k' = replies ?k3"
          using rdv_replies [OF that(3)] k3 that(1,2) g(1-3) by auto
        have rel: "rdv (release_rendezvous g (?k3\<lparr>umem := m\<rparr>))"
          "reply_tree (release_rendezvous g (?k3\<lparr>umem := m\<rparr>)) = reply_tree k" for m
          using release_rendezvous_rdv [of "?k3\<lparr>umem := m\<rparr>" g] k3 g(3)
            rdv_replies [of "?k3\<lparr>umem := m\<rparr>" ?k3] by (simp_all add: fun_upd_idem)
        show ?thesis
        proof (cases "list_head (PReceiver t) (links_of ?k3)")
          case None
          with c t ok k seq Cons g(3) have "out = Blocked \<and> key = g \<and> replies k' = replies ?k3"
            by (auto simp: ipc_call_def Let_def bind_eq_Some_conv dest!: wait_replies)
          then show ?thesis using blocked by blast
        next
          case (Some q)
          note q = this
          obtain tp where tp: "getThreadWaiting q = Some tp"
            using c t ok k seq Cons g(3) q by (auto simp: ipc_call_def Let_def bind_eq_Some_conv)
          obtain b m where copy: "k2u tp (wait_message (thr ?k3 tp)) message n (umem ?k3) = (b, m)" by fastforce
          show ?thesis
          proof (cases b)
            case True
            with c t ok k seq Cons g(3) q tp copy have "out = Blocked \<and> key = g \<and> replies k' = replies ?k3"
              by (auto simp: ipc_call_def Let_def bind_eq_Some_conv dest!: wait_replies)
            then show ?thesis using blocked by blast
          next
            case False
            with c t ok k seq Cons g(3) q tp copy show ?thesis
              using stay [of "release_rendezvous g (?k3\<lparr>umem := m\<rparr>)" E_PAR] rel
              by (auto simp: ipc_call_def Let_def)
          qed
        qed
      qed
    qed
  qed
qed

lemma leave_done_rdv:
  assumes "leave_done e k = Some (out, k')"
  shows "rdv k' = rdv k \<and> reply_tree k' = reply_tree k"
  using assms rdv_replies [OF leave_replies] by (auto simp: leave_done_def bind_eq_Some_conv)

lemma ipc_reply_key:
  assumes r: "rdv k" and c: "ipc_reply k2u key message n k = Some (out, k')"
  shows "rdv k' \<and> reply_tree k' = (reply_tree k)(key := None)"
proof -
  let ?k = "enter_serialize k"
  have same: "rdv (?k\<lparr>umem := m\<rparr>)" "rdv ?k" "reply_tree (?k\<lparr>umem := m\<rparr>) = reply_tree k" "reply_tree ?k = reply_tree k" for m
    using r by (simp_all add: enter_serialize_def rdv_def)
  have rel: "rdv (release_rendezvous key x) \<and> reply_tree (release_rendezvous key x) = (reply_tree k)(key := None)"
    if "replies x = replies k" for x
    using release_rendezvous_rdv [of x key] rdv_replies [OF that] r by simp
  define good where "good \<longleftrightarrow> rdv k' \<and> reply_tree k' = (reply_tree k)(key := None)"
  have fin: good if "leave_done e (release_rendezvous key x) = Some (out, k')" "replies x = replies k" for e x
    using leave_done_rdv [OF that(1)] rel [OF that(2)] by (simp add: good_def)
  have fin2: good if "leave_serialize_and_dispatch (release_rendezvous key x) = Some k'" "replies x = replies k" for x
    using rdv_replies [OF leave_dispatch_replies [OF that(1)]] rel [OF that(2)] by (simp add: good_def)
  have good
  proof (cases "reply_tree ?k key")
    case (Some v)
    show ?thesis
    proof (cases "list_head (RCaller v) (links_of ?k)")
      case q: (Some q)
      show ?thesis
      proof (cases "n > reply_max ?k v")
        case False
        then obtain tp where tp: "getThreadWaiting q = Some tp"
          using c Some q by (cases "getThreadWaiting q") (auto simp: ipc_reply_def Let_def)
        obtain b m where "k2u tp (wait_message (thr ?k tp)) message n (umem ?k) = (b, m)" by fastforce
        with c Some q False tp show ?thesis
          by (cases b) (auto simp: ipc_reply_def Let_def bind_eq_Some_conv intro: fin fin2)
      qed (use c Some in \<open>auto simp: ipc_reply_def Let_def intro: fin\<close>)
    qed (use c Some in \<open>auto simp: ipc_reply_def Let_def bind_eq_Some_conv split: if_splits intro: fin fin2\<close>)
  qed (use c in \<open>auto simp: ipc_reply_def Let_def intro: fin\<close>)
  then show ?thesis by (simp add: good_def)
qed

subsection \<open>Tags\<close>

lemma word_of_small: "0 \<le> i \<Longrightarrow> i < 65536 \<Longrightarrow> bit (word_of_int i :: u32) j \<Longrightarrow> j < 16"
proof (rule ccontr)
  assume i: "0 \<le> i" "i < 65536" "bit (word_of_int i :: u32) j" "\<not> j < 16"
  then have "bit i j" by (simp add: bit_word_of_int_iff)
  moreover have "take_bit 16 i = i" using i by (simp add: take_bit_int_eq_self_iff)
  ultimately show False using i(4) by (metis bit_take_bit_iff)
qed

lemma create_ipc_tag_word:
  "word_of_int (create_ipc_tag p key) = push_bit 16 (word_of_int key :: u32) OR word_of_int p"
  by (simp add: create_ipc_tag_def)

lemma uint_small: "0 \<le> i \<Longrightarrow> i < 65536 \<Longrightarrow> uint (word_of_int i :: u32) = i"
  by (simp add: uint_word_of_int)

subsection \<open>What message passing promises\<close>

text \<open>
  A tag gives back the port and the key it was made of, for every identifier and key of sixteen
  bits; so a key of zero marks a plain message and any other key a call.
\<close>

theorem tag_round_trip:
  assumes "0 \<le> p" and "p < 65536" and "0 \<le> key" and "key < 65536"
  shows "port_of_ipc (create_ipc_tag p key) = p \<and> key_of_ipc (create_ipc_tag p key) = key"
proof -
  define P K where "P = (word_of_int p :: u32)" and "K = (word_of_int key :: u32)"
  have b: "\<And>j. bit P j \<Longrightarrow> j < 16" "\<And>j. bit K j \<Longrightarrow> j < 16"
    using word_of_small [OF assms(1,2)] word_of_small [OF assms(3,4)] unfolding P_def K_def by blast+
  have m: "(0xffff :: u32) = mask 16" by (simp add: mask_eq_exp_minus_1)
  have "(push_bit 16 K OR P) AND 0xffff = P"
    unfolding m using b(1) by (intro bit_word_eqI) (auto simp: bit_simps)
  moreover have "drop_bit 16 (push_bit 16 K OR P) = K"
    using b by (intro bit_word_eqI) (auto simp: bit_simps dest: b)
  ultimately show ?thesis
    using assms uint_small
    by (simp add: port_of_ipc_def key_of_ipc_def create_ipc_tag_word flip: P_def K_def) (simp add: P_def K_def uint_small)
qed

theorem tag_round_trip_witness: "key_of_ipc (create_ipc_tag 32767 1023) = 1023"
  using tag_round_trip [of 32767 1023] by simp

text \<open>
  C2. Whatever the outcome of \<^verbatim>\<open>ipc_call\<close>, the keys of the pending replies stay exactly the numbers
  handed out by the sequence. A call that waits has a key of its own, not zero and not that of any
  other pending call; a call that fails, for whatever reason, leaves the pending replies as they
  were.
\<close>

theorem ipc_call_key:
  assumes "rdv k" and "ipc_call k2u port_id message n k = Some (out, key, k')"
  shows "rdv k' \<and> (case out of
      Blocked \<Rightarrow> 0 < key \<and> key < int MAX_THREAD \<and> reply_tree k key = None \<and>
        (\<exists>r. reply_tree k' = (reply_tree k)(key \<mapsto> r))
    | Done e \<Rightarrow> reply_tree k' = reply_tree k)"
  by (rule ipc_call_keys [OF assms])

text \<open>
  C29. A reply, whether it is delivered or refused, ends the call of its key: the key can be handed
  out again and every other pending call is untouched.
\<close>

theorem ipc_reply_frees_key:
  assumes "rdv k" and "ipc_reply k2u key message n k = Some (out, k')"
  shows "rdv k' \<and> reply_tree k' = (reply_tree k)(key := None)"
  by (rule ipc_reply_key [OF assms])

definition kernel_ipc_demo :: "unit kernel" where
  "kernel_ipc_demo = kernel_demo\<lparr>reply_sequence :=
     snd (sequence_get (snd (sequence_initialize seq_blank MAX_THREAD (Some (replicate 32 0)))))\<rparr>"

lemma kernel_ipc_demo_keys:
  "rdv_of (reply_sequence kernel_ipc_demo) Map.empty" "seq_hand (reply_sequence kernel_ipc_demo) = 1"
proof -
  let ?s = "snd (sequence_initialize seq_blank 1024 (Some (replicate 32 0)))"
  have s: "seq_free ?s = {..<1024}" "sequence_inv 1024 ?s" "seq_hand ?s = 0"
    using sequence_initialize_free [of 1024 "replicate 32 0" seq_blank] seq_hand_mask [of 0 ?s]
    by (simp_all add: INT_MAX_def SEQUENCE_BLOCK_SIZE_def sequence_initialize_def Let_def)
  have "seq_free ?s \<noteq> {}" using s(1) by (simp add: lessThan_empty_iff)
  from sequence_get_hit [OF s(2) this] obtain x where x: "sequence_get ?s = (int x, seq_taken ?s x)"
    "first_from {..<1024} 0 x" unfolding s(1,3) by (auto split: if_splits)
  then have "x = 0" by (auto simp: first_from_def)
  then have k: "reply_sequence kernel_ipc_demo = seq_taken ?s 0" using x(1) by (simp add: kernel_ipc_demo_def)
  show "rdv_of (reply_sequence kernel_ipc_demo) Map.empty"
    unfolding k using seq_free_taken [of 0 ?s] sequence_inv_taken [OF s(2), of 0] s(1) by (intro rdv_ofI) auto
  show "seq_hand (reply_sequence kernel_ipc_demo) = 1"
    unfolding k using seq_hand_mask [of "Suc (0 mod 32)" "seq_taken ?s 0"] mask_from_next [of "0 mod 32"]
    by (simp add: seq_taken_def)
qed

lemma rdv_demo: "rdv kernel_ipc_demo"
  using kernel_ipc_demo_keys(1) by (simp add: rdv_def kernel_ipc_demo_def kernel_demo_def)

lemma kernel_ipc_key: "fst (sequence_get (reply_sequence kernel_ipc_demo)) = 1"
proof -
  let ?s = "reply_sequence kernel_ipc_demo"
  note r = kernel_ipc_demo_keys(1)
  have one: "1 \<in> seq_free ?s" using rdv_ofD(3) [OF r, of 1] by simp
  then have ne: "seq_free ?s \<noteq> {}" "\<exists>y\<in>seq_free ?s. seq_hand ?s \<le> y" unfolding kernel_ipc_demo_keys(2) by auto
  from sequence_get_hit [OF rdv_ofD(1) [OF r] ne(1)] ne(2) obtain x where
    "sequence_get ?s = (int x, seq_taken ?s x)" "first_from (seq_free ?s) 1 x"
    unfolding kernel_ipc_demo_keys(2) by (auto split: if_splits)
  then show ?thesis using one by (force simp: first_from_def)
qed

theorem ipc_call_key_witness:
  "\<exists>k'. ipc_call (\<lambda>_ _ _ _ m. (True, m)) 5 0 0 kernel_ipc_demo = Some (Done E_NOEXS, 0, k') \<and>
    reply_tree k' = Map.empty"
proof -
  obtain k' where c: "ipc_call (\<lambda>_ _ _ _ m. (True, m)) 5 0 0 kernel_ipc_demo = Some (Done E_NOEXS, 0, k')"
    by (auto simp: ipc_call_def Let_def get_thread_ptr_def enter_serialize_def kernel_ipc_demo_def kernel_demo_def
        leave_serialize_def leave_with_def dispatch_skippable_def)
  from ipc_call_key [OF rdv_demo c] c show ?thesis by (simp add: kernel_ipc_demo_def kernel_demo_def)
qed

text \<open>Thread 10 waits for the reply to its call, which has the key 1; thread 11, which received it, runs.\<close>

definition kernel_call_demo :: "unit kernel" where
  "kernel_call_demo = kernel_ipc_demo\<lparr>
     thr := (thr kernel_ipc_demo)(10 := (thread_demo TTS_WAI 3)\<lparr>wait_type := wait_reply\<rparr>, 11 := thread_demo TTS_RUN 7),
     links_of := list_enqueue (RCaller 100) (TWait 10) (list_enqueue (Ready 7) (TQueue 11) alone),
     ready_bits := bit_at 7, running := 11, reply_tree := [1 \<mapsto> 100], reply_max := (\<lambda>_. 8),
     reply_sequence := snd (sequence_get (reply_sequence kernel_ipc_demo))\<rparr>"

lemma rdv_call_demo: "rdv kernel_call_demo"
proof -
  obtain s where "sequence_get (reply_sequence kernel_ipc_demo) = (1, s)" using kernel_ipc_key by (metis prod.collapse)
  from rdv_get [OF rdv_demo [unfolded rdv_def] this, of 100] this show ?thesis
    by (simp add: rdv_def kernel_call_demo_def kernel_ipc_demo_def kernel_demo_def)
qed

lemma demo_dequeue:
  assumes "nxt h (Ready 3) = TQueue 10"
  shows "ready_dequeue_loop h (bit_at 7 OR bit_at 3) = (Some (TQueue 10), bit_at 7 OR bit_at 3)"
proof -
  have "count_ntz (bit_at 7 OR bit_at 3) = 3" by (simp add: count_ntz_def bsfl_numeral bit_at_def)
  then show ?thesis
    using assms by (subst ready_dequeue_loop.simps) (simp add: list_head_def list_edge_to_null_def bit_at_def)
qed

lemma call_demo_reply: "\<exists>k'. ipc_reply (\<lambda>_ _ _ _ m. (True, m)) 1 0 4 kernel_call_demo = Some (Done E_OK, k')"
proof -
  have d: "interrupt_nest kernel_ipc_demo = 0" "\<not> delay_thread_start kernel_ipc_demo"
    by (simp_all add: kernel_ipc_demo_def kernel_demo_def)
  let ?k = "enter_serialize kernel_call_demo"
  have h: "list_head (RCaller 100) (links_of ?k) = Some (TWait 10)" "reply_tree ?k 1 = Some 100" "reply_max ?k 100 = 8"
    by (simp_all add: enter_serialize_def kernel_call_demo_def list_head_def list_edge_to_null_def list_enqueue_def
        list_append_def alone_def Let_def)
  let ?d = "release_rendezvous 1 (deliver 10 (TWait 10) 4 None (?k\<lparr>umem := umem ?k\<rparr>))"
  have "nxt (links_of ?d) (Ready 3) = TQueue 10 \<and> ready_bits ?d = bit_at 7 OR bit_at 3 \<and> interrupt_nest ?d = 0 \<and> \<not> delay_thread_start ?d"
    using d by (simp add: deliver_def release_def release_rendezvous_def enter_serialize_def update_thread_def on_links_def
        ready_enqueue_def kernel_call_demo_def thread_demo_def list_enqueue_def list_append_def list_remove_def list_initialize_def alone_def
        Let_def)
  then have "\<exists>k'. leave_serialize_and_dispatch ?d = Some k'"
    using demo_dequeue [of "links_of ?d"]
    by (simp add: leave_serialize_and_dispatch_def leave_serialize_def leave_with_def dispatch_skippable_def dispatch_def
        dispatch_next_def ready_dequeue_def Let_def del: ready_dequeue_loop.simps)
  then show ?thesis using h by (auto simp: ipc_reply_def Let_def)
qed

theorem ipc_reply_frees_key_witness:
  "\<exists>k'. reply_tree kernel_call_demo 1 = Some 100 \<and>
    ipc_reply (\<lambda>_ _ _ _ m. (True, m)) 1 0 4 kernel_call_demo = Some (Done E_OK, k') \<and>
    rdv k' \<and> reply_tree k' = Map.empty"
proof -
  obtain k' where c: "ipc_reply (\<lambda>_ _ _ _ m. (True, m)) 1 0 4 kernel_call_demo = Some (Done E_OK, k')"
    using call_demo_reply by blast
  moreover have "reply_tree kernel_call_demo = [1 \<mapsto> 100]" by (simp add: kernel_call_demo_def)
  ultimately show ?thesis using ipc_reply_frees_key [OF rdv_call_demo c] by simp
qed

end
