(* ===== verification/Rc_Zle.thy ===== *)
theory Rc_Zle
  imports Eo_Prelude
begin

section \<open>Zero-length encoding (\<^verbatim>\<open>lib/librc/zle_encode.c\<close>, \<^verbatim>\<open>lib/librc/zle_decode.c\<close>)\<close>

text \<open>
  Runs of zero bytes become the binary digits of their length plus one, without the leading digit;
  every other byte is shifted up by one, with an escape for the last two. The input is a list of
  bytes together with the one-character cache of \<^verbatim>\<open>bgetc\<close> and \<^verbatim>\<open>bungetc\<close>; \<^verbatim>\<open>EOF\<close> is -1 and the empty
  cache -2. The result is the return code and the output; the decoder's is \<^verbatim>\<open>None\<close> where its shift of a
  32-bit 1 by the number of digits is undefined. The lemmas show that decoding inverts
  encoding.
\<close>

type_synonym input = "int \<times> int list"

abbreviation (input) EOF :: int where "EOF \<equiv> - 1"
abbreviation (input) NOT_CACHE :: int where "NOT_CACHE \<equiv> - 2"
abbreviation (input) ERR_UNKNOWN :: int where "ERR_UNKNOWN \<equiv> 1"

fun fgetc :: "int list \<Rightarrow> int \<times> int list" where
  "fgetc [] = (EOF, [])"
| "fgetc (x # xs) = (x, xs)"

fun bgetc :: "input \<Rightarrow> int \<times> input" where
  "bgetc (cache, xs) =
     (if cache = NOT_CACHE then (case fgetc xs of (c, xs') \<Rightarrow> (c, NOT_CACHE, xs'))
      else (cache, NOT_CACHE, xs))"

fun bungetc :: "int \<Rightarrow> input \<Rightarrow> int \<times> input" where
  "bungetc c (cache, xs) = (if cache = NOT_CACHE then (0, c, xs) else (- 1, cache, xs))"

text \<open>What is still to be read.\<close>

fun pending :: "input \<Rightarrow> int list" where
  "pending (cache, xs) = (if cache = NOT_CACHE then xs else if cache = EOF then [] else cache # xs)"

definition bytes :: "int list \<Rightarrow> bool" where
  "bytes xs \<longleftrightarrow> (\<forall>x\<in>set xs. 0 \<le> x \<and> x < 256)"

lemma bgetc_shorter: "bgetc s = (c, s') \<Longrightarrow> c \<noteq> EOF \<Longrightarrow> length (pending s') < length (pending s)"
  by (cases s; cases "snd s") (auto split: if_splits)

function zero_run :: "input \<Rightarrow> nat \<Rightarrow> nat \<times> int \<times> input" where
  "zero_run s cnt =
     (case bgetc s of (nxt, s') \<Rightarrow> if nxt = 0 then zero_run s' (cnt + 1) else (cnt, nxt, s'))"
  by pat_completeness auto
termination
  by (relation "measure (\<lambda>(s, cnt). length (pending s))") (auto dest: bgetc_shorter [OF sym])

function put_digits :: "nat \<Rightarrow> int list" where
  "put_digits cnt = (if cnt \<le> 1 then [] else int (cnt mod 2) # put_digits (cnt div 2))"
  by pat_completeness auto
termination
  by (relation "measure (\<lambda>cnt. cnt)") auto

declare zero_run.simps [simp del] put_digits.simps [simp del]

lemma bungetc_shorter:
  assumes "bgetc s = (c, s')"
  shows "snd (snd (bungetc c s')) = snd s' \<and> fst s' = NOT_CACHE \<and>
    length (pending (snd (bungetc c s'))) \<le> length (pending s)"
  using assms by (cases s; cases "snd s") (auto split: if_splits)

lemma zero_run_shorter:
  "zero_run s cnt = (n, nxt, s') \<Longrightarrow> length (pending (snd (bungetc nxt s'))) \<le> length (pending s)"
proof (induction s cnt rule: zero_run.induct)
  case (1 s cnt)
  obtain c s1 where b: "bgetc s = (c, s1)" by (cases "bgetc s")
  show ?case
  proof (cases "c = 0")
    case True
    then have "zero_run s1 (cnt + 1) = (n, nxt, s')"
      using "1.prems" b by (subst (asm) zero_run.simps) simp
    from "1.IH" [OF b [symmetric] True this] bgetc_shorter [OF b] True show ?thesis by simp
  next
    case False
    then show ?thesis using "1.prems" b bungetc_shorter [OF b] by (subst (asm) zero_run.simps) auto
  qed
qed

function zle_encode :: "input \<Rightarrow> int \<times> int list" where
  "zle_encode s =
     (case bgetc s of
        (c, s1) \<Rightarrow>
          if c = EOF then (0, [])
          else if c = 0 then
            (case zero_run s1 1 of
               (cnt, nxt, s2) \<Rightarrow>
                 (case bungetc nxt s2 of
                    (e, s3) \<Rightarrow>
                      if e \<noteq> 0 then (ERR_UNKNOWN, [])
                      else (case zle_encode s3 of (r, out) \<Rightarrow> (r, put_digits (cnt + 1) @ out))))
          else if c = 0xfe then (case zle_encode s1 of (r, out) \<Rightarrow> (r, 0xff # 0 # out))
          else if c = 0xff then (case zle_encode s1 of (r, out) \<Rightarrow> (r, 0xff # 1 # out))
          else (case zle_encode s1 of (r, out) \<Rightarrow> (r, (c + 1) # out)))"
  by pat_completeness auto
termination
proof (relation "measure (\<lambda>s. length (pending s))")
  fix s c s1 cnt cs nxt s2 e s3
  assume a: "(c, s1) = bgetc s" "c \<noteq> EOF"
    "(cnt, cs) = zero_run s1 1" "(nxt, s2) = cs" "(e, s3) = bungetc nxt s2"
  then have "zero_run s1 1 = (cnt, nxt, s2)" "bungetc nxt s2 = (e, s3)" by auto
  from zero_run_shorter [OF this(1)] this(2) bgetc_shorter [OF a(1) [symmetric] a(2)]
  show "(s3, s) \<in> measure (\<lambda>s. length (pending s))" by simp
qed (auto dest: bgetc_shorter [OF sym])

function read_digits :: "input \<Rightarrow> nat \<Rightarrow> nat \<Rightarrow> nat \<times> nat \<times> int \<times> input" where
  "read_digits s cnt ex =
     (case bgetc s of
        (nxt, s') \<Rightarrow>
          if nxt = EOF \<or> nxt > 1 then (cnt, ex, nxt, s')
          else read_digits s' (cnt + nat nxt * 2 ^ ex) (ex + 1))"
  by pat_completeness auto
termination
  by (relation "measure (\<lambda>(s, cnt, ex). length (pending s))") (auto dest: bgetc_shorter [OF sym])

declare read_digits.simps [simp del] zle_encode.simps [simp del]

lemma read_digits_shorter:
  "read_digits s cnt ex = (n, ex', nxt, s') \<Longrightarrow>
    length (pending (snd (bungetc nxt s'))) \<le> length (pending s)"
proof (induction s cnt ex rule: read_digits.induct)
  case (1 s cnt ex)
  obtain c s1 where b: "bgetc s = (c, s1)" by (cases "bgetc s")
  show ?case
  proof (cases "c = EOF \<or> c > 1")
    case True
    then show ?thesis using "1.prems" b bungetc_shorter [OF b] by (subst (asm) read_digits.simps) auto
  next
    case False
    then have "read_digits s1 (cnt + nat c * 2 ^ ex) (ex + 1) = (n, ex', nxt, s')"
      using "1.prems" b by (subst (asm) read_digits.simps) simp
    from "1.IH" [OF b [symmetric] False this] bgetc_shorter [OF b] False show ?thesis by simp
  qed
qed

function zle_decode :: "input \<Rightarrow> (int \<times> int list) option" where
  "zle_decode s =
     (case bgetc s of
        (c, s1) \<Rightarrow>
          if c = EOF then Some (0, [])
          else if c = 0 \<or> c = 1 then
            (case read_digits s1 (nat c) 1 of
               (cnt, ex, nxt, s2) \<Rightarrow>
                 (case bungetc nxt s2 of
                    (e, s3) \<Rightarrow>
                      if e \<noteq> 0 then Some (ERR_UNKNOWN, [])
                      else if ex > 30 then None
                      else map_option (\<lambda>(r, out). (r, replicate (cnt + 2 ^ ex - 1) 0 @ out))
                             (zle_decode s3)))
          else if c = 0xff then
            (case bgetc s1 of
               (d, s2) \<Rightarrow>
                 if d = EOF then Some (ERR_UNKNOWN, [])
                 else map_option (\<lambda>(r, out). (r, (if d \<noteq> 0 then 0xff else 0xfe) # out)) (zle_decode s2))
          else map_option (\<lambda>(r, out). (r, (c - 1) # out)) (zle_decode s1))"
  by pat_completeness auto
termination
proof (relation "measure (\<lambda>s. length (pending s))")
  fix s c s1 cnt cs ex es nxt ns s2 e s3
  assume a: "(c, s1) = bgetc s" "c \<noteq> EOF"
    "(cnt, cs) = read_digits s1 (nat c) 1" "(ex, es) = cs" "(nxt, s2) = es" "(e, s3) = bungetc nxt s2"
  then have "read_digits s1 (nat c) 1 = (cnt, ex, nxt, s2)" "bungetc nxt s2 = (e, s3)" by auto
  from read_digits_shorter [OF this(1)] this(2) bgetc_shorter [OF a(1) [symmetric] a(2)]
  show "(s3, s) \<in> measure (\<lambda>s. length (pending s))" by simp
next
  fix s c s1 d s2
  assume a: "(c, s1) = bgetc s" "c \<noteq> EOF" "(d, s2) = bgetc s1" "d \<noteq> EOF"
  then show "(s2, s) \<in> measure (\<lambda>s. length (pending s))"
    using bgetc_shorter [OF a(1) [symmetric] a(2)] bgetc_shorter [OF a(3) [symmetric] a(4)] by simp
qed (auto dest!: bgetc_shorter [OF sym])

declare zle_decode.simps [simp del]

subsection \<open>Reading through the cache\<close>

lemma bgetc_nil: "pending s = [] \<Longrightarrow> fst (bgetc s) = EOF"
  by (cases s) (auto split: if_splits)

lemma bgetc_cons: "pending s = x # xs \<Longrightarrow> bytes (pending s) \<Longrightarrow> bgetc s = (x, NOT_CACHE, xs)"
  by (cases s) (auto simp: bytes_def split: if_splits)

lemma bytes_cons [simp]: "bytes (x # xs) \<longleftrightarrow> 0 \<le> x \<and> x < 256 \<and> bytes xs"
  by (auto simp: bytes_def)

lemma bytes_append [simp]: "bytes (xs @ ys) \<longleftrightarrow> bytes xs \<and> bytes ys"
  by (auto simp: bytes_def)

lemma bytes_nil [simp]: "bytes []"
  by (simp add: bytes_def)

lemma bungetc_same:
  assumes "bgetc s = (c, s')" and "bytes (pending s)"
  shows "fst (bungetc c s') = 0 \<and> pending (snd (bungetc c s')) = pending s"
  using assms by (cases s; cases "snd s") (auto simp: bytes_def split: if_splits)

lemma zero_run_reads:
  assumes "pending s = replicate n 0 @ rest" and "rest = [] \<or> hd rest \<noteq> 0" and "bytes (pending s)"
  shows "\<exists>nxt s'. zero_run s cnt = (cnt + n, nxt, s') \<and> fst (bungetc nxt s') = 0 \<and>
    pending (snd (bungetc nxt s')) = rest"
  using assms
proof (induction n arbitrary: s cnt)
  case 0
  obtain c s' where b: "bgetc s = (c, s')" by (cases "bgetc s")
  have "c \<noteq> 0"
    using bgetc_nil [of s] bgetc_cons [of s "hd rest" "tl rest"] b 0 by (cases rest) auto
  then show ?case using b bungetc_same [OF b "0.prems"(3)] 0 by (subst zero_run.simps) simp
next
  case (Suc n)
  let ?s = "(NOT_CACHE, replicate n 0 @ rest)"
  have "bgetc s = (0, ?s)" using bgetc_cons [of s 0] Suc.prems by simp
  then have "zero_run s cnt = zero_run ?s (cnt + 1)" by (subst zero_run.simps) simp
  moreover have "pending ?s = replicate n 0 @ rest" "bytes (pending ?s)" using Suc.prems by auto
  ultimately show ?case using Suc.IH [of ?s "cnt + 1"] Suc.prems(2) by simp
qed

primrec digits_value :: "int list \<Rightarrow> nat" where
  "digits_value [] = 0"
| "digits_value (d # ds) = nat d + 2 * digits_value ds"

lemma read_digits_reads:
  assumes "pending s = ds @ rest" and "set ds \<subseteq> {0, 1}" and "rest = [] \<or> hd rest > 1" and "bytes (pending s)"
  shows "\<exists>nxt s'. read_digits s cnt ex = (cnt + digits_value ds * 2 ^ ex, ex + length ds, nxt, s') \<and>
    fst (bungetc nxt s') = 0 \<and> pending (snd (bungetc nxt s')) = rest"
  using assms
proof (induction ds arbitrary: s cnt ex)
  case Nil
  obtain c s' where b: "bgetc s = (c, s')" by (cases "bgetc s")
  have "c = EOF \<or> c > 1"
    using bgetc_nil [of s] bgetc_cons [of s "hd rest" "tl rest"] b Nil by (cases rest) auto
  then show ?case using b bungetc_same [OF b Nil.prems(4)] Nil by (subst read_digits.simps) simp
next
  case (Cons d ds)
  let ?s = "(NOT_CACHE, ds @ rest)" and ?c = "cnt + nat d * 2 ^ ex"
  have "bgetc s = (d, ?s)" using bgetc_cons [of s d] Cons.prems by simp
  then have step: "read_digits s cnt ex = read_digits ?s ?c (ex + 1)"
    using Cons.prems(2) by (subst read_digits.simps) auto
  have "pending ?s = ds @ rest" "bytes (pending ?s)" "set ds \<subseteq> {0, 1}" using Cons.prems by auto
  from Cons.IH [OF this(1) this(3) Cons.prems(3) this(2), of ?c "ex + 1"] step
  show ?case by (simp add: algebra_simps)
qed

lemma put_digits_value: "m \<ge> 1 \<Longrightarrow> digits_value (put_digits m) + 2 ^ length (put_digits m) = m"
proof (induction m rule: put_digits.induct)
  case (1 m)
  show ?case
  proof (cases "m \<le> 1")
    case True
    then show ?thesis using 1 by (subst put_digits.simps, subst (2) put_digits.simps) simp
  next
    case False
    then have "put_digits m = int (m mod 2) # put_digits (m div 2)" by (subst put_digits.simps) simp
    then have "digits_value (put_digits m) + 2 ^ length (put_digits m) =
        m mod 2 + 2 * (digits_value (put_digits (m div 2)) + 2 ^ length (put_digits (m div 2)))" by simp
    also have "\<dots> = m mod 2 + 2 * (m div 2)" using 1 False by simp
    finally show ?thesis by simp
  qed
qed

lemma put_digits_set: "set (put_digits m) \<subseteq> {0, 1}"
proof (induction m rule: put_digits.induct)
  case (1 m)
  then show ?case by (subst put_digits.simps) auto
qed

lemma put_digits_bytes: "bytes (put_digits m)"
  using put_digits_set [of m] by (auto simp: bytes_def)

lemma put_digits_length:
  assumes "1 \<le> m" and "m < 2 ^ k"
  shows "length (put_digits m) < k"
proof -
  have "2 ^ length (put_digits m) \<le> m" using put_digits_value [OF assms(1)] by linarith
  then have "(2 :: nat) ^ length (put_digits m) < 2 ^ k" using assms(2) by linarith
  then show ?thesis by simp
qed

lemma split_zeros: "\<exists>n rest. xs = replicate n (0 :: int) @ rest \<and> (rest = [] \<or> hd rest \<noteq> 0)"
proof (induction xs)
  case (Cons x xs)
  then obtain n rest where r: "xs = replicate n 0 @ rest" "rest = [] \<or> hd rest \<noteq> 0" by auto
  show ?case
  proof (cases "x = 0")
    case True
    then have "x # xs = replicate (Suc n) 0 @ rest" using r by simp
    then show ?thesis using r by blast
  next
    case False
    then have "x # xs = replicate 0 0 @ (x # xs)" "hd (x # xs) \<noteq> 0" by simp_all
    then show ?thesis by blast
  qed
qed simp

subsection \<open>One step of the loops\<close>

definition inverts :: "int list \<Rightarrow> int list \<Rightarrow> bool" where
  "inverts out xs \<longleftrightarrow> bytes out \<and> (xs = [] \<or> hd xs \<noteq> 0 \<longrightarrow> out = [] \<or> hd out > 1) \<and>
     (\<forall>t. pending t = out \<longrightarrow> zle_decode t = Some (0, xs))"

lemma inverts_bytes: "inverts out xs \<Longrightarrow> bytes out"
  unfolding inverts_def by blast

lemma inverts_decode: "inverts out xs \<Longrightarrow> pending t = out \<Longrightarrow> zle_decode t = Some (0, xs)"
  unfolding inverts_def by blast

lemma zle_decode_byte:
  assumes "bgetc t = (c, s)" and "1 < c" and "c \<noteq> 0xff" and "zle_decode s = Some (0, xs)"
  shows "zle_decode t = Some (0, (c - 1) # xs)"
  unfolding zle_decode.simps [of t] assms(1) prod.case using assms(2-) by simp

lemma zle_decode_escape:
  assumes "bgetc t = (0xff, s)" and "bgetc s = (d, s')" and "d \<noteq> EOF" and "zle_decode s' = Some (0, xs)"
  shows "zle_decode t = Some (0, (if d \<noteq> 0 then 0xff else 0xfe) # xs)"
  unfolding zle_decode.simps [of t] assms(1,2) prod.case using assms(3-) by simp

lemma inverts_nil: "inverts [] []"
proof -
  have "zle_decode t = Some (0, [])" if "pending t = []" for t
    using bgetc_nil [OF that] unfolding zle_decode.simps [of t] by (cases "bgetc t") simp
  then show ?thesis unfolding inverts_def by simp
qed

lemma inverts_byte:
  assumes i: "inverts out xs" and c: "0 < c" "c < 0xfe"
  shows "inverts ((c + 1) # out) (c # xs)"
proof -
  have "zle_decode t = Some (0, c # xs)" if t: "pending t = (c + 1) # out" for t
  proof -
    have "bgetc t = (c + 1, NOT_CACHE, out)" using bgetc_cons [OF t] t c inverts_bytes [OF i] by simp
    from zle_decode_byte [OF this _ _ inverts_decode [OF i]] c show ?thesis by simp
  qed
  then show ?thesis unfolding inverts_def using c inverts_bytes [OF i] by simp
qed

lemma inverts_escape:
  assumes i: "inverts out xs" and c: "c = 0xfe \<or> c = 0xff"
  shows "inverts (0xff # (c - 0xfe) # out) (c # xs)"
proof -
  have "zle_decode t = Some (0, c # xs)" if t: "pending t = 0xff # (c - 0xfe) # out" for t
  proof -
    have 1: "bgetc t = (0xff, NOT_CACHE, (c - 0xfe) # out)"
      using bgetc_cons [OF t] t c inverts_bytes [OF i] by auto
    have 2: "bgetc (NOT_CACHE, (c - 0xfe) # out) = (c - 0xfe, NOT_CACHE, out)" by simp
    from zle_decode_escape [OF 1 2 _ inverts_decode [OF i]] c show ?thesis by auto
  qed
  then show ?thesis unfolding inverts_def using c inverts_bytes [OF i] by auto
qed

lemma inverts_zeros:
  assumes "inverts out xs" and "xs = [] \<or> hd xs \<noteq> 0" and "1 \<le> n" and "n + 1 < 2 ^ 31"
  shows "inverts (put_digits (n + 1) @ out) (replicate n 0 @ xs)"
proof -
  let ?ds = "put_digits (n + 1)"
  have pd: "?ds = int ((n + 1) mod 2) # put_digits ((n + 1) div 2)"
    using assms(3) by (subst put_digits.simps) simp
  let ?d = "int ((n + 1) mod 2)" and ?es = "put_digits ((n + 1) div 2)"
  have bo: "bytes out" and ho: "out = [] \<or> hd out > 1" using assms(1,2) by (auto simp: inverts_def)
  have b: "bytes (?ds @ out)" using bo put_digits_bytes by simp
  have "zle_decode t = Some (0, replicate n 0 @ xs)" if t: "pending t = ?ds @ out" for t
  proof -
    let ?s = "(NOT_CACHE, ?es @ out)"
    have g: "bgetc t = (?d, ?s)" using bgetc_cons [of t ?d] t b pd by simp
    have bs: "pending ?s = ?es @ out" "bytes (pending ?s)" using put_digits_bytes bo by auto
    obtain nxt s' where rd: "read_digits ?s (nat ?d) 1 =
        (nat ?d + digits_value ?es * 2 ^ 1, 1 + length ?es, nxt, s')"
      and un: "fst (bungetc nxt s') = 0" "pending (snd (bungetc nxt s')) = out"
      using read_digits_reads [OF bs(1) put_digits_set ho bs(2), of "nat ?d" 1] by blast
    have dec: "zle_decode (snd (bungetc nxt s')) = Some (0, xs)"
      using inverts_decode [OF assms(1) un(2)] .
    have val: "nat ?d + digits_value ?es * 2 ^ 1 + 2 ^ (1 + length ?es) - 1 = n"
      using put_digits_value [of "n + 1"] pd by simp
    have len: "\<not> 1 + length ?es > 30" using put_digits_length [of "n + 1" 31] assms(4) pd by simp
    have d: "?d \<noteq> EOF" "?d = 0 \<or> ?d = 1" by auto
    show ?thesis
      unfolding zle_decode.simps [of t] g prod.case rd
      using d un(1) dec val len by (cases "bungetc nxt s'") simp
  qed
  then show ?thesis using b assms(3) by (auto simp: inverts_def hd_append)
qed

lemma zle_encode_inverted:
  "bytes (pending s) \<Longrightarrow> length (pending s) + 1 < 2 ^ 31 \<Longrightarrow>
    \<exists>out. zle_encode s = (0, out) \<and> inverts out (pending s)"
proof (induction "length (pending s)" arbitrary: s rule: less_induct)
  case less
  show ?case
  proof (cases "pending s")
    case Nil
    then have "zle_encode s = (0, [])"
      using bgetc_nil [OF Nil] unfolding zle_encode.simps [of s] by (cases "bgetc s") simp
    then show ?thesis using Nil inverts_nil by simp
  next
    case (Cons c xs)
    let ?s = "(NOT_CACHE, xs)"
    have g: "bgetc s = (c, ?s)" using bgetc_cons [OF Cons less.prems(1)] .
    have c: "0 \<le> c" "c < 256" "bytes xs" using less.prems(1) Cons by auto
    show ?thesis
    proof (cases "c = 0")
      case False
      obtain out where o: "zle_encode ?s = (0, out)" "inverts out xs"
        using less.hyps [of ?s] less.prems(2) Cons c(3) by auto
      have e: "zle_encode s = (0, if c = 0xfe \<or> c = 0xff then 0xff # (c - 0xfe) # out else (c + 1) # out)"
        unfolding zle_encode.simps [of s] g prod.case o(1) using False c(1) by simp
      show ?thesis
        using e False c Cons inverts_byte [OF o(2), of c] inverts_escape [OF o(2), of c]
        by (cases "c = 0xfe \<or> c = 0xff") auto
    next
      case True
      obtain n rest where r: "xs = replicate n 0 @ rest" "rest = [] \<or> hd rest \<noteq> 0"
        using split_zeros by blast
      obtain nxt s' where z: "zero_run ?s 1 = (1 + n, nxt, s')"
        and un: "fst (bungetc nxt s') = 0" "pending (snd (bungetc nxt s')) = rest"
        using zero_run_reads [of ?s n rest 1] r c(3) by auto
      let ?r = "snd (bungetc nxt s')"
      obtain out where o: "zle_encode ?r = (0, out)" "inverts out rest"
        using less.hyps [of ?r] less.prems(2) Cons c(3) r(1) un(2) by auto
      have "zle_encode s = (0, put_digits (1 + n + 1) @ out)"
        unfolding zle_encode.simps [of s] g prod.case z
        using True un(1) o(1) by (cases "bungetc nxt s'") simp
      moreover have "inverts (put_digits (1 + n + 1) @ out) (replicate (1 + n) 0 @ rest)"
        using inverts_zeros [OF o(2) r(2), of "1 + n"] less.prems(2) Cons r(1) by simp
      ultimately show ?thesis using Cons True r(1) by simp
    qed
  qed
qed

text \<open>
  C13. Zero-length encoding is a round trip: for every sequence of fewer than 2^31 - 1 bytes the encoder
  ends without an error, its output is a sequence of bytes, and the decoder run on that output ends
  without an error and writes the original sequence.
\<close>

theorem zle_round_trip:
  assumes "bytes xs" and "length xs + 1 < 2 ^ 31"
  shows "fst (zle_encode (NOT_CACHE, xs)) = 0 \<and> bytes (snd (zle_encode (NOT_CACHE, xs))) \<and>
    zle_decode (NOT_CACHE, snd (zle_encode (NOT_CACHE, xs))) = Some (0, xs)"
  using zle_encode_inverted [of "(NOT_CACHE, xs)"] assms by (auto simp: inverts_def)

theorem zle_round_trip_witness:
  "bytes [0, 0, 0, 0, 7, 254, 0, 255] \<and> length [0, 0, 0, 0, 7, 254, 0, 255 :: int] + 1 < 2 ^ 31 \<and>
    zle_decode (NOT_CACHE, snd (zle_encode (NOT_CACHE, [0, 0, 0, 0, 7, 254, 0, 255]))) =
      Some (0, [0, 0, 0, 0, 7, 254, 0, 255])"
  using zle_round_trip [of "[0, 0, 0, 0, 7, 254, 0, 255]"] by simp

end
