(* ===== verification/Rc_Range.thy ===== *)
theory Rc_Range
  imports Eo_Prelude "HOL-Library.Monad_Syntax"
begin

section \<open>The range coder (\<^verbatim>\<open>lib/librc\<close>)\<close>

text \<open>
  The adaptive frequency table of \<^verbatim>\<open>bit_common.c\<close>, \<^verbatim>\<open>bit_encode.c\<close> and \<^verbatim>\<open>bit_decode.c\<close> (a binary
  indexed tree over the 257 symbols) and the range coder of \<^verbatim>\<open>drc_common.c\<close>, \<^verbatim>\<open>drc_encode.c\<close> and
  \<^verbatim>\<open>drc_decode.c\<close>. The function pointers \<^verbatim>\<open>get\<close> and \<^verbatim>\<open>put\<close> of the coder are arguments, acting on a
  device state the record carries; a result of \<^verbatim>\<open>put\<close> is true where the C function returns \<^verbatim>\<open>EOF\<close>.
  \<^verbatim>\<open>None\<close> is a run without a result: a division by zero or a loop that does not end. The lemmas show
  that normalisation ends, that it restores the precision of the range, and that a decoded symbol
  stays inside the table.
\<close>

abbreviation (input) EOF :: int where "EOF \<equiv> - 1"
abbreviation (input) MAX_RANGE :: u32 where "MAX_RANGE \<equiv> 0xffffffff"
abbreviation (input) MIN_RANGE :: u32 where "MIN_RANGE \<equiv> 0x01000000"
abbreviation (input) CHR_RANGE :: nat where "CHR_RANGE \<equiv> 257"
abbreviation (input) CHR_EOS :: nat where "CHR_EOS \<equiv> 256"
abbreviation (input) ERR_OK :: int where "ERR_OK \<equiv> 0"
abbreviation (input) ERR_FILE :: int where "ERR_FILE \<equiv> 1"
abbreviation (input) FREQ_INC :: u32 where "FREQ_INC \<equiv> 4"
abbreviation (input) FREQ_LIMIT :: u32 where "FREQ_LIMIT \<equiv> 0x8000"

record frequency =
  fq_size :: nat
  fq_count :: "u32 list"
  fq_sum :: u32
  fq_mid :: nat

record 's range_coder =
  rc_range :: u32
  rc_low :: u32
  rc_carry :: bool
  rc_buf :: u32
  rc_count :: u32
  rc_dev :: 's

subsection \<open>The frequency table\<close>

text \<open>The strides of the tree: \<^verbatim>\<open>c & -c\<close> and \<^verbatim>\<open>i & (i - 1)\<close>.\<close>

definition low_bit :: "nat \<Rightarrow> nat" where
  "low_bit c = nat (int c AND - int c)"

definition clear_low :: "nat \<Rightarrow> nat" where
  "clear_low i = i AND (i - 1)"

lemma clear_low_less: "i > 0 \<Longrightarrow> clear_low i < i"
proof -
  assume "i > 0"
  have "int (clear_low i) = int i AND int (i - 1)" by (simp add: clear_low_def of_nat_and_eq)
  also have "\<dots> \<le> int (i - 1)" by (rule AND_upper2) simp
  finally show ?thesis using \<open>i > 0\<close> by simp
qed

lemma low_bit_clear: "low_bit c + clear_low c = c"
proof (cases "c = 0")
  case False
  have m: "- int c = NOT (int (c - 1))" using False by (simp add: not_eq_complement)
  have "int (low_bit c) = int c AND NOT (int (c - 1))" unfolding low_bit_def m [symmetric] by simp
  moreover have "int (clear_low c) = int c AND int (c - 1)" by (simp add: clear_low_def of_nat_and_eq)
  ultimately show ?thesis using and_split [of "int c" "int (c - 1)"] by linarith
qed (simp add: low_bit_def clear_low_def)

lemma low_bit_pos: "c > 0 \<Longrightarrow> low_bit c > 0"
  using clear_low_less [of c] low_bit_clear [of c] by linarith

function inc_loop :: "u32 list \<Rightarrow> nat \<Rightarrow> u32 \<Rightarrow> u32 list" where
  "inc_loop cnt c n =
     (if 0 < c \<and> c < CHR_RANGE then inc_loop (cnt[c := cnt ! c + n]) (c + low_bit c) n else cnt)"
  by pat_completeness auto
termination
  by (relation "measure (\<lambda>(cnt, c, n). CHR_RANGE - c)") (auto dest: low_bit_pos)

declare inc_loop.simps [simp del]

definition frequency_inc :: "frequency \<Rightarrow> nat \<Rightarrow> u32 \<Rightarrow> frequency" where
  "frequency_inc freq ch n =
     freq\<lparr>fq_count := (if ch > 0 then inc_loop (fq_count freq) ch n
                       else (fq_count freq)[0 := fq_count freq ! 0 + n]),
          fq_sum := fq_sum freq + n\<rparr>"

function mid_loop :: "nat \<Rightarrow> nat" where
  "mid_loop mid = (if 0 < mid \<and> mid < CHR_RANGE div 2 then mid_loop (mid * 2) else mid)"
  by pat_completeness auto
termination
  by (relation "measure (\<lambda>mid. CHR_RANGE - mid)") auto

declare mid_loop.simps [simp del]

definition frequency_initialize :: frequency where
  "frequency_initialize =
     fold (\<lambda>i freq. frequency_inc freq i 1) [0..<CHR_RANGE]
       \<lparr>fq_size = CHR_RANGE, fq_count = replicate CHR_RANGE 0, fq_sum = 0, fq_mid = mid_loop 1\<rparr>"

function count_loop :: "u32 list \<Rightarrow> nat \<Rightarrow> nat \<Rightarrow> u32 \<Rightarrow> u32" where
  "count_loop cnt i j n =
     (if i = j \<or> i = 0 then n else count_loop cnt (clear_low i) j (n - cnt ! i))"
  by pat_completeness auto
termination
  by (relation "measure (\<lambda>(cnt, i, j, n). i)") (auto dest: clear_low_less)

declare count_loop.simps [simp del]

definition frequency_count :: "frequency \<Rightarrow> nat \<Rightarrow> u32" where
  "frequency_count freq ch =
     (let n = fq_count freq ! ch
      in if ch > 0 \<and> even ch then count_loop (fq_count freq) (ch - 1) (ch AND (ch - 1)) n else n)"

definition frequency_update :: "frequency \<Rightarrow> nat \<Rightarrow> frequency" where
  "frequency_update freq ch =
     (let freq = frequency_inc freq ch FREQ_INC
      in if fq_sum freq \<ge> FREQ_LIMIT
         then fold (\<lambda>i freq. let n = drop_bit 1 (frequency_count freq i)
                             in if n > 0 then frequency_inc freq i (- n) else freq) [0..<CHR_RANGE] freq
         else freq)"

function calc_loop :: "u32 list \<Rightarrow> nat \<Rightarrow> u32 \<Rightarrow> u32" where
  "calc_loop cnt i n = (if i > 0 then calc_loop cnt (clear_low i) (n + cnt ! i) else n)"
  by pat_completeness auto
termination
  by (relation "measure (\<lambda>(cnt, i, n). i)") (auto dest: clear_low_less)

declare calc_loop.simps [simp del]

definition frequency_calc :: "frequency \<Rightarrow> nat \<Rightarrow> u32" where
  "frequency_calc freq ch = (if ch > 0 then calc_loop (fq_count freq) (ch - 1) (fq_count freq ! 0) else 0)"

subsection \<open>The encoder\<close>

definition rc_initialize :: "'s \<Rightarrow> 's range_coder" where
  "rc_initialize dev =
     \<lparr>rc_range = MAX_RANGE, rc_low = 0, rc_carry = False, rc_buf = 0, rc_count = 0, rc_dev = dev\<rparr>"

type_synonym 's putter = "u8 \<Rightarrow> 's \<Rightarrow> bool \<times> 's"
type_synonym 's getter = "'s \<Rightarrow> int \<times> 's"

primrec put_times :: "'s putter \<Rightarrow> u8 \<Rightarrow> nat \<Rightarrow> 's \<Rightarrow> int \<times> 's" where
  "put_times put ch 0 dev = (ERR_OK, dev)"
| "put_times put ch (Suc n) dev =
     (case put ch dev of (eof, dev') \<Rightarrow> if eof then (ERR_FILE, dev') else put_times put ch n dev')"

definition put_buf :: "'s putter \<Rightarrow> 's range_coder \<Rightarrow> u8 \<Rightarrow> u32 \<Rightarrow> int \<times> 's range_coder" where
  "put_buf put rc ch n =
     (case put (ucast (rc_buf rc)) (rc_dev rc) of
        (eof, dev) \<Rightarrow>
          if eof then (ERR_FILE, rc\<lparr>rc_dev := dev\<rparr>)
          else (case put_times put ch (unat n) dev of (e, dev) \<Rightarrow> (e, rc\<lparr>rc_dev := dev\<rparr>)))"

partial_function (option) normalize_loop ::
  "'s putter \<Rightarrow> 's range_coder \<Rightarrow> (int \<times> 's range_coder) option" where
  "normalize_loop put rc =
     (if rc_range rc < MIN_RANGE then
        if rc_low rc < 0xff000000 then
          (case put_buf put rc 0xff (rc_count rc) of
             (result, rc) \<Rightarrow>
               if result \<noteq> ERR_OK then Some (result, rc)
               else normalize_loop put
                      (rc\<lparr>rc_buf := drop_bit 24 (rc_low rc), rc_count := 0,
                          rc_low := push_bit 8 (rc_low rc), rc_range := push_bit 8 (rc_range rc)\<rparr>))
        else normalize_loop put
               (rc\<lparr>rc_count := rc_count rc + 1,
                   rc_low := push_bit 8 (rc_low rc), rc_range := push_bit 8 (rc_range rc)\<rparr>)
      else Some (ERR_OK, rc))"

definition propagate_carry :: "'s putter \<Rightarrow> 's range_coder \<Rightarrow> int \<times> 's range_coder" where
  "propagate_carry put rc =
     (if rc_carry rc then
        let rc = rc\<lparr>rc_carry := False, rc_buf := rc_buf rc + 1\<rparr>
        in if rc_count rc > 0 then
             (case put_buf put rc 0 (rc_count rc - 1) of
                (result, rc) \<Rightarrow>
                  if result \<noteq> ERR_OK then (result, rc) else (ERR_OK, rc\<lparr>rc_buf := 0, rc_count := 0\<rparr>))
           else (ERR_OK, rc)
      else (ERR_OK, rc))"

definition rc_encode_normalize :: "'s putter \<Rightarrow> 's range_coder \<Rightarrow> (int \<times> 's range_coder) option" where
  "rc_encode_normalize put rc =
     (case propagate_carry put rc of
        (result, rc) \<Rightarrow> if result \<noteq> ERR_OK then Some (result, rc) else normalize_loop put rc)"

definition frequency_encode ::
  "'s putter \<Rightarrow> frequency \<Rightarrow> 's range_coder \<Rightarrow> nat \<Rightarrow> (int \<times> frequency \<times> 's range_coder) option" where
  "frequency_encode put freq rc ch =
     (if fq_sum freq = 0 then None
      else
        let tmp = rc_range rc div fq_sum freq;
            prev_low = rc_low rc;
            low = rc_low rc + frequency_calc freq ch * tmp
        in do {
          (result, rc) \<leftarrow> rc_encode_normalize put
            (rc\<lparr>rc_low := low, rc_carry := low < prev_low, rc_range := frequency_count freq ch * tmp\<rparr>);
          if result \<noteq> ERR_OK then Some (result, freq, rc)
          else Some (ERR_OK, frequency_update freq ch, rc)
        })"

definition finish :: "'s putter \<Rightarrow> 's range_coder \<Rightarrow> int \<times> 's range_coder" where
  "finish put rc =
     (let ch = (if rc_carry rc then 0 else 0xff);
          rc = (if rc_carry rc then rc\<lparr>rc_carry := False, rc_buf := rc_buf rc + 1\<rparr> else rc)
      in case put_buf put rc ch (rc_count rc) of
           (result, rc) \<Rightarrow>
             if result \<noteq> ERR_OK then (result, rc)
             else
               (case put (ucast (drop_bit 24 (rc_low rc))) (rc_dev rc) of (eof, dev) \<Rightarrow>
                  if eof then (ERR_FILE, rc\<lparr>rc_dev := dev\<rparr>)
                  else case put (ucast (drop_bit 16 (rc_low rc) AND 0xff)) dev of (eof, dev) \<Rightarrow>
                    if eof then (ERR_FILE, rc\<lparr>rc_dev := dev\<rparr>)
                    else case put (ucast (drop_bit 8 (rc_low rc) AND 0xff)) dev of (eof, dev) \<Rightarrow>
                      if eof then (ERR_FILE, rc\<lparr>rc_dev := dev\<rparr>)
                      else case put (ucast (rc_low rc AND 0xff)) dev of (eof, dev) \<Rightarrow>
                        (if eof then ERR_FILE else ERR_OK, rc\<lparr>rc_dev := dev\<rparr>)))"

partial_function (option) encode_loop ::
  "'s getter \<Rightarrow> 's putter \<Rightarrow> frequency \<Rightarrow> 's range_coder \<Rightarrow>
     (int \<times> frequency \<times> 's range_coder) option" where
  "encode_loop get put freq rc =
     (case get (rc_dev rc) of
        (ch, dev) \<Rightarrow>
          if ch = EOF then Some (ERR_OK, freq, rc\<lparr>rc_dev := dev\<rparr>)
          else do {
            (result, freq, rc) \<leftarrow> frequency_encode put freq (rc\<lparr>rc_dev := dev\<rparr>) (nat ch);
            if result \<noteq> ERR_OK then Some (result, freq, rc) else encode_loop get put freq rc
          })"

definition rc_encode ::
  "'s getter \<Rightarrow> 's putter \<Rightarrow> frequency \<Rightarrow> 's range_coder \<Rightarrow> (int \<times> 's range_coder) option" where
  "rc_encode get put freq rc = do {
     (result, freq, rc) \<leftarrow> encode_loop get put freq rc;
     if result \<noteq> ERR_OK then Some (result, rc)
     else do {
       (result, freq, rc) \<leftarrow> frequency_encode put freq rc CHR_EOS;
       if result \<noteq> ERR_OK then Some (result, rc) else Some (finish put rc)
     }
   }"

subsection \<open>The decoder\<close>

partial_function (option) rc_decode_normalize ::
  "'s getter \<Rightarrow> 's range_coder \<Rightarrow> (int \<times> 's range_coder) option" where
  "rc_decode_normalize get rc =
     (if rc_range rc < MIN_RANGE then
        (case get (rc_dev rc) of
           (c, dev) \<Rightarrow>
             if c = EOF then Some (ERR_FILE, rc\<lparr>rc_dev := dev\<rparr>)
             else rc_decode_normalize get
                    (rc\<lparr>rc_low := push_bit 8 (rc_low rc) + word_of_int c,
                        rc_range := push_bit 8 (rc_range rc), rc_dev := dev\<rparr>))
      else Some (ERR_OK, rc))"

function search_loop :: "u32 list \<Rightarrow> u32 \<Rightarrow> nat \<Rightarrow> u32 \<Rightarrow> nat \<Rightarrow> u32 \<times> nat" where
  "search_loop cnt v h n i =
     (if h > 0 then
        let q = i + h
        in if q < CHR_RANGE \<and> n + cnt ! q \<le> v then search_loop cnt v (h div 2) (n + cnt ! q) q
           else search_loop cnt v (h div 2) n i
      else (n, i))"
  by pat_completeness auto
termination
  by (relation "measure (\<lambda>(cnt, v, h, n, i). h)") auto

declare search_loop.simps [simp del]

definition find_symbol :: "frequency \<Rightarrow> u32 \<Rightarrow> u32 \<times> nat" where
  "find_symbol freq v =
     (if fq_count freq ! 0 \<le> v then
        (case search_loop (fq_count freq) v (fq_mid freq) (fq_count freq ! 0) 0 of (n, i) \<Rightarrow> (n, i + 1))
      else (0, 0))"

definition frequency_decode ::
  "'s getter \<Rightarrow> frequency \<Rightarrow> 's range_coder \<Rightarrow> (int \<times> frequency \<times> 's range_coder) option" where
  "frequency_decode get freq rc =
     (if fq_sum freq = 0 then None
      else
        let tmp = rc_range rc div fq_sum freq
        in if tmp = 0 then None
           else
             case find_symbol freq (rc_low rc div tmp) of
               (n, i) \<Rightarrow> do {
                 (result, rc) \<leftarrow> rc_decode_normalize get
                   (rc\<lparr>rc_low := rc_low rc - n * tmp, rc_range := frequency_count freq i * tmp\<rparr>);
                 if result \<noteq> ERR_OK then Some (EOF, freq, rc)
                 else Some (int i, frequency_update freq i, rc)
               })"

partial_function (option) decode_loop ::
  "'s getter \<Rightarrow> 's putter \<Rightarrow> frequency \<Rightarrow> 's range_coder \<Rightarrow> (int \<times> 's range_coder) option" where
  "decode_loop get put freq rc = do {
     (c, freq, rc) \<leftarrow> frequency_decode get freq rc;
     if c = EOF then Some (ERR_FILE, rc)
     else if c = int CHR_EOS then Some (ERR_OK, rc)
     else (case put (word_of_int c) (rc_dev rc) of
             (eof, dev) \<Rightarrow>
               if eof then Some (ERR_FILE, rc\<lparr>rc_dev := dev\<rparr>)
               else decode_loop get put freq (rc\<lparr>rc_dev := dev\<rparr>))
   }"

fun read_low :: "'s getter \<Rightarrow> nat list \<Rightarrow> 's range_coder \<Rightarrow> int \<times> 's range_coder" where
  "read_low get [] rc = (ERR_OK, rc)"
| "read_low get (b # bs) rc =
     (case get (rc_dev rc) of
        (c, dev) \<Rightarrow>
          if c = EOF then (ERR_FILE, rc\<lparr>rc_dev := dev\<rparr>)
          else read_low get bs (rc\<lparr>rc_low := (if b = 24 then 0 else rc_low rc) OR push_bit b (word_of_int c),
                                   rc_dev := dev\<rparr>))"

definition rc_decode ::
  "'s getter \<Rightarrow> 's putter \<Rightarrow> frequency \<Rightarrow> 's range_coder \<Rightarrow> (int \<times> 's range_coder) option" where
  "rc_decode get put freq rc =
     (case read_low get [24, 16, 8, 0] rc of
        (result, rc) \<Rightarrow> if result \<noteq> ERR_OK then Some (result, rc) else decode_loop get put freq rc)"

subsection \<open>The programs \<^verbatim>\<open>encode.c\<close> and \<^verbatim>\<open>decode.c\<close>\<close>

text \<open>
  Their device is standard input and output; \<^verbatim>\<open>bputc_1st\<close> drops the first byte and hands over to
  \<^verbatim>\<open>bputc\<close>, which the flag of the device records.
\<close>

record dev =
  dev_first :: bool
  dev_in :: "u8 list"
  dev_out :: "u8 list"

fun dev_getc :: "dev getter" where
  "dev_getc d = (case dev_in d of [] \<Rightarrow> (EOF, d) | c # cs \<Rightarrow> (uint c, d\<lparr>dev_in := cs\<rparr>))"

definition dev_putc :: "dev putter" where
  "dev_putc ch d = (if dev_first d then (False, d\<lparr>dev_first := False\<rparr>) else (False, d\<lparr>dev_out := dev_out d @ [ch]\<rparr>))"

definition encode_main :: "u8 list \<Rightarrow> (int \<times> u8 list) option" where
  "encode_main inp =
     map_option (\<lambda>(r, rc). (r, dev_out (rc_dev rc)))
       (rc_encode dev_getc dev_putc frequency_initialize
          (rc_initialize \<lparr>dev_first = True, dev_in = inp, dev_out = []\<rparr>))"

definition decode_main :: "u8 list \<Rightarrow> (int \<times> u8 list) option" where
  "decode_main inp =
     map_option (\<lambda>(r, rc). (r, dev_out (rc_dev rc)))
       (rc_decode dev_getc dev_putc frequency_initialize
          (rc_initialize \<lparr>dev_first = False, dev_in = inp, dev_out = []\<rparr>))"

subsection \<open>Normalisation\<close>

text \<open>A range below 2^24 that is not 0 grows by a factor of 256 until it has 25 bits.\<close>

lemma unat_shift_8:
  assumes "r < (MIN_RANGE :: u32)"
  shows "unat (push_bit 8 r) = unat r * 256"
proof -
  have "unat r * 256 < 2 ^ 32" using assms by (simp add: word_less_nat_alt)
  then have "unat (r * 256) = unat r * 256" by (simp add: unat_word_ariths)
  moreover have "push_bit 8 r = r * 256" by (simp add: push_bit_eq_mult)
  ultimately show ?thesis by simp
qed

lemma shift_8_grows:
  assumes "r < (MIN_RANGE :: u32)" and "r \<noteq> 0"
  shows "push_bit 8 r \<noteq> 0" and "unat (push_bit 8 r) > unat r"
proof -
  have "unat r > 0" using assms(2) by (simp add: unat_gt_0)
  then show "unat (push_bit 8 r) > unat r" using unat_shift_8 [OF assms(1)] by linarith
  then show "push_bit 8 r \<noteq> 0" by auto
qed

definition normalized :: "int \<times> 's range_coder \<Rightarrow> bool" where
  "normalized res \<longleftrightarrow> fst res = ERR_OK \<longrightarrow> MIN_RANGE \<le> rc_range (snd res) \<and> \<not> rc_carry (snd res)"

lemma put_buf_keeps:
  "put_buf put rc ch n = (e, rc') \<Longrightarrow>
    rc_range rc' = rc_range rc \<and> rc_low rc' = rc_low rc \<and> rc_carry rc' = rc_carry rc"
  by (auto simp: put_buf_def split: prod.splits if_splits)

lemma normalize_loop_ends:
  "rc_range rc \<noteq> 0 \<Longrightarrow> \<not> rc_carry rc \<Longrightarrow> \<exists>res. normalize_loop put rc = Some res \<and> normalized res"
proof (induction "2 ^ 32 - unat (rc_range rc)" arbitrary: rc rule: less_induct)
  case less
  show ?case
  proof (cases "rc_range rc < MIN_RANGE")
    case False
    then show ?thesis using less.prems by (subst normalize_loop.simps) (simp add: normalized_def)
  next
    case True
    have step: "\<exists>res. normalize_loop put rc' = Some res \<and> normalized res"
      if "rc_range rc' = push_bit 8 (rc_range rc)" "\<not> rc_carry rc'" for rc'
    proof (rule less.hyps)
      have "unat (rc_range rc') < 2 ^ 32" using unat_u32_less [of "rc_range rc'"] by simp
      moreover have "unat (rc_range rc) < unat (rc_range rc')"
        using shift_8_grows(2) [OF True less.prems(1)] that(1) by simp
      ultimately show "2 ^ 32 - unat (rc_range rc') < 2 ^ 32 - unat (rc_range rc)" by linarith
    qed (use that shift_8_grows(1) [OF True less.prems(1)] in auto)
    show ?thesis
    proof (cases "rc_low rc < 0xff000000")
      case False
      then show ?thesis using True less.prems step by (subst normalize_loop.simps) simp
    next
      case low: True
      obtain e rc1 where p: "put_buf put rc 0xff (rc_count rc) = (e, rc1)" by fastforce
      show ?thesis
        using True low p put_buf_keeps [OF p] less.prems step
        by (subst normalize_loop.simps) (simp add: normalized_def)
    qed
  qed
qed

lemma propagate_carry_keeps:
  assumes "propagate_carry put rc = (e, rc')"
  shows "rc_range rc' = rc_range rc" and "\<not> rc_carry rc'"
  using assms
  by (auto simp: propagate_carry_def Let_def split: prod.splits if_splits dest!: put_buf_keeps)

text \<open>
  Normalising the encoder always comes to an end when the range is not 0, whatever the output
  device does: the result is an error of the device, or the range has its 25 bits of precision again
  and no carry is pending.
\<close>

theorem rc_encode_normalize_ends:
  assumes "rc_range rc \<noteq> 0"
  shows "\<exists>e rc'. rc_encode_normalize put rc = Some (e, rc') \<and>
    (e = ERR_OK \<longrightarrow> MIN_RANGE \<le> rc_range rc' \<and> \<not> rc_carry rc')"
proof -
  obtain e rc1 where c: "propagate_carry put rc = (e, rc1)" by fastforce
  show ?thesis
    using normalize_loop_ends [of rc1 put] propagate_carry_keeps [OF c] assms c
    by (auto simp: rc_encode_normalize_def normalized_def)
qed

theorem rc_encode_normalize_ends_witness:
  "\<exists>e rc'. rc_encode_normalize dev_putc
     (rc_initialize \<lparr>dev_first = True, dev_in = [], dev_out = []\<rparr>\<lparr>rc_range := 5, rc_low := 0xff000001\<rparr>) =
       Some (e, rc') \<and> (e = ERR_OK \<longrightarrow> MIN_RANGE \<le> rc_range rc' \<and> \<not> rc_carry rc')"
  by (rule rc_encode_normalize_ends) simp

subsection \<open>Decoded symbols\<close>

lemma search_loop_bound:
  "search_loop cnt v h n i = (n', i') \<Longrightarrow> i' \<le> i + (2 * h - 1)"
proof (induction cnt v h n i rule: search_loop.induct)
  case (1 cnt v h n i)
  show ?case
  proof (cases "h > 0")
    case False
    then show ?thesis using "1.prems" by (subst (asm) search_loop.simps) simp
  next
    case True
    then consider (up) "search_loop cnt v (h div 2) (n + cnt ! (i + h)) (i + h) = (n', i')"
        "i + h < CHR_RANGE \<and> n + cnt ! (i + h) \<le> v"
      | (stay) "search_loop cnt v (h div 2) n i = (n', i')" "\<not> (i + h < CHR_RANGE \<and> n + cnt ! (i + h) \<le> v)"
      using "1.prems" by (subst (asm) search_loop.simps) (auto simp: Let_def split: if_splits)
    then show ?thesis
    proof cases
      case up
      from "1.IH"(1) [OF True refl up(2) up(1)] True show ?thesis by linarith
    next
      case stay
      from "1.IH"(2) [OF True refl stay(2) stay(1)] True show ?thesis by linarith
    qed
  qed
qed

lemma frequency_inc_mid [simp]: "fq_mid (frequency_inc freq ch n) = fq_mid freq"
  by (simp add: frequency_inc_def)

lemma inc_loop_length [simp]: "length (inc_loop cnt c n) = length cnt"
proof (induction cnt c n rule: inc_loop.induct)
  case (1 cnt c n)
  then show ?case by (subst inc_loop.simps) simp
qed

lemma frequency_inc_length [simp]: "length (fq_count (frequency_inc freq ch n)) = length (fq_count freq)"
  by (simp add: frequency_inc_def)

text \<open>The shape of the table: 257 counters, and the search starting at the middle, 128.\<close>

definition table :: "frequency \<Rightarrow> bool" where
  "table freq \<longleftrightarrow> length (fq_count freq) = CHR_RANGE \<and> fq_mid freq = 128"

lemma table_fold:
  assumes "table freq" and "\<And>i freq. table freq \<Longrightarrow> table (f i freq)"
  shows "table (fold f is freq)"
  using assms(1) by (induction "is" arbitrary: freq) (auto intro: assms(2))

lemma table_inc: "table freq \<Longrightarrow> table (frequency_inc freq ch n)"
  by (simp add: table_def)

lemma table_update: "table freq \<Longrightarrow> table (frequency_update freq ch)"
  by (auto simp: frequency_update_def Let_def intro!: table_fold table_inc)

lemma mid_loop_numeral:
  "mid_loop (numeral k) = (if numeral k < (128 :: nat) then mid_loop (numeral k * 2) else numeral k)"
  by (subst mid_loop.simps) simp

lemma mid_loop_1: "mid_loop 1 = 128"
  by (subst mid_loop.simps) (simp add: mid_loop_numeral)

lemma table_initialize: "table frequency_initialize"
  unfolding frequency_initialize_def
  by (rule table_fold) (simp_all add: table_inc, simp add: table_def mid_loop_1 [simplified])

lemma find_symbol_bound: "table freq \<Longrightarrow> find_symbol freq v = (n, i) \<Longrightarrow> i \<le> 256"
  using search_loop_bound [of "fq_count freq" v "fq_mid freq" "fq_count freq ! 0" 0]
  by (auto simp: find_symbol_def table_def split: if_splits prod.splits)

text \<open>
  Whatever bytes the decoder reads, also from a corrupt file, a symbol it decodes is -1 for the
  end of the input or one of the 257 symbols, so that no counter outside the table is read or
  written; the updated table keeps its shape, which the initial table has.
\<close>

theorem frequency_decode_in_table:
  assumes "table freq" and "frequency_decode get freq rc = Some (c, freq', rc')"
  shows "(c = EOF \<or> 0 \<le> c \<and> c < int CHR_RANGE) \<and> table freq' \<and> table frequency_initialize"
proof -
  let ?tmp = "rc_range rc div fq_sum freq"
  obtain n i where f: "find_symbol freq (rc_low rc div ?tmp) = (n, i)" by fastforce
  show ?thesis
    using assms(2) f find_symbol_bound [OF assms(1) f] assms(1) table_update [OF assms(1), of i] table_initialize
    by (auto simp: frequency_decode_def Let_def bind_eq_Some_conv split: if_splits)
qed

definition sample_table :: frequency where
  "sample_table = \<lparr>fq_size = 257, fq_count = 5 # replicate 256 0, fq_sum = 5, fq_mid = 128\<rparr>"

definition sample_coder :: "dev range_coder" where
  "sample_coder = rc_initialize \<lparr>dev_first = False, dev_in = [], dev_out = []\<rparr>"

lemma sample_decode:
  "frequency_decode dev_getc sample_table sample_coder =
    Some (0, frequency_update sample_table 0, sample_coder)"
  by (simp add: frequency_decode_def sample_table_def sample_coder_def rc_initialize_def find_symbol_def
      frequency_count_def rc_decode_normalize.simps)

theorem frequency_decode_in_table_witness:
  "table sample_table \<and> frequency_decode dev_getc sample_table sample_coder =
      Some (0, frequency_update sample_table 0, sample_coder) \<and> table (frequency_update sample_table 0)"
proof -
  have "table sample_table" by (simp add: table_def sample_table_def)
  with frequency_decode_in_table [OF this sample_decode] sample_decode show ?thesis by blast
qed

end
