(* ===== verification/Set_Heap.thy ===== *)
theory Set_Heap
  imports Eo_Prelude
begin

section \<open>The binary heap (\<^verbatim>\<open>lib/libnc/set/heap.c\<close>, \<^verbatim>\<open>include/set/heap.h\<close>)\<close>

text \<open>
  A min-heap of integers in a buffer of the caller: the record \<^verbatim>\<open>heap_t\<close>, its three operations and
  the inline \<^verbatim>\<open>heap_head\<close>. The lemmas show that both sift loops keep the heap order and the elements;
  the locale \<^verbatim>\<open>priority_queue\<close> states what a client relies on, and its drain lemma gives that a heap
  sorts.
\<close>

abbreviation (input) HEAP_OK :: int where "HEAP_OK \<equiv> 0"
abbreviation (input) HEAP_FULL :: int where "HEAP_FULL \<equiv> 1"
abbreviation (input) HEAP_EMPTY :: int where "HEAP_EMPTY \<equiv> - 1"

record heap =
  hp_cnt :: nat
  hp_max :: nat
  hp_buf :: "int list"

definition heap_initialize :: "nat \<Rightarrow> int list \<Rightarrow> heap" where
  "heap_initialize m b = \<lparr>hp_cnt = 0, hp_max = m, hp_buf = b\<rparr>"

definition heap_head :: "heap \<Rightarrow> int" where
  "heap_head h = (if hp_cnt h \<noteq> 0 then hp_buf h ! 0 else HEAP_EMPTY)"

fun sift_up :: "int list \<Rightarrow> nat \<Rightarrow> int list" where
  "sift_up b c =
     (if c > 0 then
        let p = (c - 1) div 2; v1 = b ! c; v2 = b ! p
        in if v1 < v2 then sift_up (b[p := v1, c := v2]) p else b
      else b)"

definition heap_enqueue :: "heap \<Rightarrow> int \<Rightarrow> int \<times> heap" where
  "heap_enqueue h val =
     (let c = hp_cnt h
      in if c \<ge> hp_max h then (HEAP_FULL, h)
         else (HEAP_OK, h\<lparr>hp_buf := sift_up ((hp_buf h)[c := val]) c, hp_cnt := c + 1\<rparr>))"

definition least_child :: "int list \<Rightarrow> nat \<Rightarrow> nat \<Rightarrow> nat" where
  "least_child b n c = (if c + 1 < n \<and> b ! c > b ! (c + 1) then c + 1 else c)"

lemma least_child_ge: "c \<le> least_child b n c"
  by (simp add: least_child_def)

function sift_down :: "int list \<Rightarrow> nat \<Rightarrow> nat \<Rightarrow> int list" where
  "sift_down b n p =
     (let c = 2 * p + 1
      in if c < n then
           let c = least_child b n c; v1 = b ! c; v2 = b ! p
           in if v1 < v2 then sift_down (b[p := v1, c := v2]) n c else b
         else b)"
  by pat_completeness auto
termination
proof (relation "measure (\<lambda>(b, n, p). n - p)")
  fix b :: "int list" and n p x xa xb xc
  assume "x = 2 * p + 1" "x < n" "xa = least_child b n x"
  then show "((b[p := xb, xa := xc], n, xa), b, n, p) \<in> measure (\<lambda>(b, n, p). n - p)"
    using least_child_ge [of x b n] by simp
qed simp

definition heap_dequeue :: "heap \<Rightarrow> int \<times> heap" where
  "heap_dequeue h =
     (if hp_cnt h \<noteq> 0 then
        let val = hp_buf h ! 0; n = hp_cnt h - 1
        in (val, h\<lparr>hp_cnt := n, hp_buf := sift_down ((hp_buf h)[0 := hp_buf h ! n]) n 0\<rparr>)
      else (HEAP_EMPTY, h))"

declare sift_up.simps [simp del] sift_down.simps [simp del]

subsection \<open>Heap order\<close>

abbreviation (input) par :: "nat \<Rightarrow> nat" where "par j \<equiv> (j - 1) div 2"

definition ordered :: "int list \<Rightarrow> nat \<Rightarrow> bool" where
  "ordered b n \<longleftrightarrow> (\<forall>j. 0 < j \<and> j < n \<longrightarrow> b ! par j \<le> b ! j)"

definition up_inv :: "int list \<Rightarrow> nat \<Rightarrow> nat \<Rightarrow> bool" where
  "up_inv b n c \<longleftrightarrow> (\<forall>j. 0 < j \<and> j < n \<and> j \<noteq> c \<longrightarrow> b ! par j \<le> b ! j) \<and>
     (\<forall>j. 0 < j \<and> j < n \<and> par j = c \<and> c > 0 \<longrightarrow> b ! par c \<le> b ! j)"

definition down_inv :: "int list \<Rightarrow> nat \<Rightarrow> nat \<Rightarrow> bool" where
  "down_inv b n p \<longleftrightarrow> (\<forall>j. 0 < j \<and> j < n \<and> par j \<noteq> p \<longrightarrow> b ! par j \<le> b ! j) \<and>
     (\<forall>j. 0 < j \<and> j < n \<and> par j = p \<and> p > 0 \<longrightarrow> b ! par p \<le> b ! j)"

lemma up_inv_step:
  assumes i: "up_inv b n c" and c: "0 < c" "c < n" "n \<le> length b" and less: "b ! c < b ! par c"
  shows "up_inv (b[par c := b ! c, c := b ! par c]) n (par c)"
proof -
  let ?p = "par c" and ?b = "b[par c := b ! c, c := b ! par c]"
  have pc: "?p < c" using c(1) by simp
  have nth: "?b ! j = (if j = c then b ! ?p else if j = ?p then b ! c else b ! j)" if "j < n" for j
    using that c pc by (auto simp: nth_list_update)
  have 1: "\<And>j. 0 < j \<Longrightarrow> j < n \<Longrightarrow> j \<noteq> c \<Longrightarrow> b ! par j \<le> b ! j"
    and 2: "\<And>j. 0 < j \<Longrightarrow> j < n \<Longrightarrow> par j = c \<Longrightarrow> b ! ?p \<le> b ! j"
    using i c(1) by (auto simp: up_inv_def)
  have A: "?b ! par j \<le> ?b ! j" if j: "0 < j" "j < n" "j \<noteq> ?p" for j
  proof -
    have pj: "par j < j" "par j < n" using j by auto
    consider "j = c" | "j \<noteq> c" "par j = c" | "j \<noteq> c" "par j = ?p" "par j \<noteq> c"
      | "j \<noteq> c" "par j \<noteq> c" "par j \<noteq> ?p" by blast
    then show ?thesis
    proof cases
      case 1
      then show ?thesis using nth [OF j(2)] nth [OF pj(2)] less pc by simp
    next
      case 2
      have "?b ! j = b ! j" "?b ! par j = b ! ?p" using nth [OF j(2)] nth [OF pj(2)] j 2 by simp_all
      then show ?thesis using \<open>\<And>j. 0 < j \<Longrightarrow> j < n \<Longrightarrow> par j = c \<Longrightarrow> b ! ?p \<le> b ! j\<close> [OF j(1,2) 2(2)] by simp
    next
      case 3
      have "?b ! j = b ! j" "?b ! par j = b ! c" using nth [OF j(2)] nth [OF pj(2)] j 3 by simp_all
      then show ?thesis using 1 [OF j(1,2) 3(1)] 3(2) less by simp
    next
      case 4
      have "?b ! j = b ! j" "?b ! par j = b ! par j" using nth [OF j(2)] nth [OF pj(2)] j 4 by simp_all
      then show ?thesis using 1 [OF j(1,2) 4(1)] by simp
    qed
  qed
  have B: "?b ! par ?p \<le> ?b ! j" if j: "0 < j" "j < n" "par j = ?p" "?p > 0" for j
  proof -
    have "b ! par ?p \<le> b ! ?p" using 1 [of ?p] j(4) pc c by simp
    moreover have "?b ! par ?p = b ! par ?p"
    proof -
      have "par ?p < n" "par ?p \<noteq> c" "par ?p \<noteq> ?p" using j(4) pc c by auto
      then show ?thesis using nth [of "par ?p"] by presburger
    qed
    moreover have "b ! ?p \<le> ?b ! j"
    proof (cases "j = c")
      case True
      then show ?thesis using nth [OF j(2)] by simp
    next
      case False
      moreover have "j \<noteq> ?p" using j by auto
      ultimately show ?thesis using nth [OF j(2)] 1 [OF j(1,2)] j(3) by simp
    qed
    ultimately show ?thesis by linarith
  qed
  show ?thesis unfolding up_inv_def using A B by blast
qed

lemma up_inv_done:
  assumes "up_inv b n c" and "c = 0 \<or> \<not> b ! c < b ! par c"
  shows "ordered b n"
  using assms unfolding up_inv_def ordered_def by (metis leI less_irrefl)

lemma sift_up_ordered:
  "up_inv b n c \<Longrightarrow> c < n \<Longrightarrow> n \<le> length b \<Longrightarrow> ordered (sift_up b c) n"
proof (induction b c rule: sift_up.induct)
  case (1 b c)
  show ?case
  proof (cases "c > 0 \<and> b ! c < b ! par c")
    case True
    then have "sift_up b c = sift_up (b[par c := b ! c, c := b ! par c]) (par c)"
      by (subst sift_up.simps) (simp add: Let_def)
    moreover have "par c < n" using "1.prems"(2) by auto
    ultimately show ?thesis
      using "1.IH" [OF _ refl refl refl] True up_inv_step [OF "1.prems"(1)] "1.prems" by simp
  next
    case False
    then have "sift_up b c = b" by (subst sift_up.simps) (auto simp: Let_def)
    then show ?thesis using up_inv_done [OF "1.prems"(1)] False by auto
  qed
qed

lemma least_child_least:
  fixes b :: "int list"
  assumes "2 * p + 1 < n"
  defines "c \<equiv> least_child b n (2 * p + 1)"
  shows "par c = p" and "p < c" and "c < n" and "\<And>j. 0 < j \<Longrightarrow> j < n \<Longrightarrow> par j = p \<Longrightarrow> b ! c \<le> b ! j"
proof -
  show "par c = p" "p < c" "c < n" using assms(1) by (auto simp: c_def least_child_def)
  fix j
  assume j: "0 < j" "j < n" "par j = p"
  then have "j = 2 * p + 1 \<or> j = 2 * p + 2" by presburger
  then show "b ! c \<le> b ! j" using j(2) by (auto simp: c_def least_child_def)
qed

lemma down_inv_step:
  assumes i: "down_inv b n p" and c: "par c = p" "p < c" "c < n" "n \<le> length b"
    and least: "\<And>j. 0 < j \<Longrightarrow> j < n \<Longrightarrow> par j = p \<Longrightarrow> b ! c \<le> b ! j" and less: "b ! c < b ! p"
  shows "down_inv (b[p := b ! c, c := b ! p]) n c"
proof -
  let ?b = "b[p := b ! c, c := b ! p]"
  have nth: "?b ! j = (if j = c then b ! p else if j = p then b ! c else b ! j)" if "j < n" for j
    using that c by (auto simp: nth_list_update)
  have 1: "\<And>j. 0 < j \<Longrightarrow> j < n \<Longrightarrow> par j \<noteq> p \<Longrightarrow> b ! par j \<le> b ! j"
    and 2: "\<And>j. 0 < j \<Longrightarrow> j < n \<Longrightarrow> par j = p \<Longrightarrow> p > 0 \<Longrightarrow> b ! par p \<le> b ! j"
    using i by (auto simp: down_inv_def)
  have A: "?b ! par j \<le> ?b ! j" if j: "0 < j" "j < n" "par j \<noteq> c" for j
  proof -
    have pj: "par j < j" "par j < n" using j by auto
    have e: "?b ! par j = (if par j = p then b ! c else b ! par j)" using nth [OF pj(2)] j(3) by presburger
    consider "j = c" | "j \<noteq> c" "j = p" | "j \<noteq> c" "j \<noteq> p" by blast
    then show ?thesis
    proof cases
      case 1
      then show ?thesis using nth [OF j(2)] e c(1) less by simp
    next
      case 2
      then have "par j \<noteq> p" using j(1) by auto
      moreover have "b ! par p \<le> b ! c" using \<open>\<And>j. 0 < j \<Longrightarrow> j < n \<Longrightarrow> par j = p \<Longrightarrow> p > 0 \<Longrightarrow> b ! par p \<le> b ! j\<close> [of c] c 2 j(1) by simp
      ultimately show ?thesis using nth [OF j(2)] e 2 by simp
    next
      case 3
      then have "?b ! j = b ! j" using nth [OF j(2)] by simp
      then show ?thesis using e least [OF j(1,2)] 1 [OF j(1,2)] by simp
    qed
  qed
  have B: "?b ! par c \<le> ?b ! j" if j: "0 < j" "j < n" "par j = c" for j
  proof -
    have "j \<noteq> c" "j \<noteq> p" using j c(2) by auto
    then have "?b ! j = b ! j" using nth [OF j(2)] by simp
    moreover have "?b ! par c = b ! c" using nth [of p] c by simp
    moreover have "b ! c \<le> b ! j" using 1 [OF j(1,2)] j(3) c(2) by simp
    ultimately show ?thesis by simp
  qed
  show ?thesis unfolding down_inv_def using A B by blast
qed

lemma sift_down_unfold:
  assumes "2 * p + 1 < n"
  shows "sift_down b n p =
    (let c = least_child b n (2 * p + 1) in if b ! c < b ! p then sift_down (b[p := b ! c, c := b ! p]) n c else b)"
  using assms by (subst sift_down.simps) (simp add: Let_def)

lemma sift_down_ordered:
  "down_inv b n p \<Longrightarrow> n \<le> length b \<Longrightarrow> ordered (sift_down b n p) n"
proof (induction b n p rule: sift_down.induct)
  case (1 b n p)
  show ?case
  proof (cases "2 * p + 1 < n")
    case False
    then have "sift_down b n p = b" by (subst sift_down.simps) simp
    moreover have "par j \<noteq> p" if "0 < j" "j < n" for j using that False by presburger
    ultimately show ?thesis using "1.prems"(1) by (auto simp: ordered_def down_inv_def)
  next
    case True
    note lc = least_child_least [where b = b, OF True]
    let ?c = "least_child b n (2 * p + 1)"
    show ?thesis
    proof (cases "b ! ?c < b ! p")
      case less: True
      then have "sift_down b n p = sift_down (b[p := b ! ?c, ?c := b ! p]) n ?c"
        using sift_down_unfold [OF True, of b] by (simp add: Let_def)
      moreover have "down_inv (b[p := b ! ?c, ?c := b ! p]) n ?c"
        using down_inv_step [OF "1.prems"(1) lc(1-3) "1.prems"(2) lc(4) less] by blast
      ultimately show ?thesis using "1.IH" [OF refl True refl refl refl less] "1.prems"(2) by simp
    next
      case False
      then have "sift_down b n p = b" using sift_down_unfold [OF True, of b] by (simp add: Let_def)
      moreover have "b ! par j \<le> b ! j" if "0 < j" "j < n" for j
      proof (cases "par j = p")
        case True
        then show ?thesis using lc(4) [OF that True] False by simp
      next
        case False
        then show ?thesis using "1.prems"(1) that unfolding down_inv_def by blast
      qed
      ultimately show ?thesis by (simp add: ordered_def)
    qed
  qed
qed

subsection \<open>Elements\<close>

lemma mset_take_swap:
  assumes "i < n" and "j < n" and "n \<le> length b" and "i \<noteq> j"
  shows "mset (take n (b[i := b ! j, j := b ! i])) = mset (take n b)"
proof -
  have "take n (b[i := b ! j, j := b ! i]) = (take n b)[i := take n b ! j, j := take n b ! i]"
    using assms by (simp add: take_update_swap)
  then show ?thesis using mset_swap [of j "take n b" i] assms by simp
qed

lemma sift_up_length [simp]: "length (sift_up b c) = length b"
proof (induction b c rule: sift_up.induct)
  case (1 b c)
  then show ?case by (subst sift_up.simps) (simp add: Let_def)
qed

lemma sift_down_length [simp]: "length (sift_down b n p) = length b"
proof (induction b n p rule: sift_down.induct)
  case (1 b n p)
  then show ?case by (subst sift_down.simps) (simp add: Let_def)
qed

lemma sift_up_mset:
  "c < n \<Longrightarrow> n \<le> length b \<Longrightarrow> mset (take n (sift_up b c)) = mset (take n b)"
proof (induction b c rule: sift_up.induct)
  case (1 b c)
  show ?case
  proof (cases "c > 0 \<and> b ! c < b ! par c")
    case True
    then have "sift_up b c = sift_up (b[par c := b ! c, c := b ! par c]) (par c)"
      by (subst sift_up.simps) (simp add: Let_def)
    moreover have "par c < n" "par c \<noteq> c" using True "1.prems" by auto
    ultimately show ?thesis
      using "1.IH" [OF _ refl refl refl] True "1.prems" mset_take_swap [of "par c" n c b] by simp
  next
    case False
    then have "sift_up b c = b" by (subst sift_up.simps) (auto simp: Let_def)
    then show ?thesis by simp
  qed
qed

lemma sift_down_mset:
  "n \<le> length b \<Longrightarrow> mset (take n (sift_down b n p)) = mset (take n b)"
proof (induction b n p rule: sift_down.induct)
  case (1 b n p)
  show ?case
  proof (cases "2 * p + 1 < n")
    case False
    then have "sift_down b n p = b" by (subst sift_down.simps) simp
    then show ?thesis by simp
  next
    case True
    note lc = least_child_least [where b = b, OF True]
    let ?c = "least_child b n (2 * p + 1)"
    show ?thesis
    proof (cases "b ! ?c < b ! p")
      case less: True
      then have "sift_down b n p = sift_down (b[p := b ! ?c, ?c := b ! p]) n ?c"
        using sift_down_unfold [OF True, of b] by (simp add: Let_def)
      moreover have "mset (take n (b[p := b ! ?c, ?c := b ! p])) = mset (take n b)"
        using mset_take_swap [of p n ?c b] lc(2,3) "1.prems" by simp
      ultimately show ?thesis using "1.IH" [OF refl True refl refl refl less] "1.prems" by simp
    next
      case False
      then show ?thesis using sift_down_unfold [OF True, of b] by (simp add: Let_def)
    qed
  qed
qed

lemma ordered_least: "ordered b n \<Longrightarrow> j < n \<Longrightarrow> b ! 0 \<le> b ! j"
proof (induction j rule: less_induct)
  case (less j)
  show ?case
  proof (cases "j = 0")
    case False
    then have "par j < j" "par j < n" "b ! par j \<le> b ! j" using less.prems by (auto simp: ordered_def)
    then show ?thesis using less.IH [of "par j"] less.prems(1) by linarith
  qed simp
qed

subsection \<open>The operations\<close>

definition heap_ok :: "heap \<Rightarrow> bool" where
  "heap_ok h \<longleftrightarrow> hp_cnt h \<le> hp_max h \<and> hp_max h \<le> length (hp_buf h) \<and> ordered (hp_buf h) (hp_cnt h)"

definition heap_contents :: "heap \<Rightarrow> int multiset" where
  "heap_contents h = mset (take (hp_cnt h) (hp_buf h))"

lemma heap_contents_size: "heap_ok h \<Longrightarrow> size (heap_contents h) = hp_cnt h"
  by (simp add: heap_contents_def heap_ok_def)

lemma heap_initialize_ok: "m \<le> length b \<Longrightarrow> heap_ok (heap_initialize m b) \<and> heap_contents (heap_initialize m b) = {#}"
  by (simp add: heap_ok_def heap_contents_def heap_initialize_def ordered_def)

lemma heap_enqueue_ok:
  assumes ok: "heap_ok h" and room: "hp_cnt h < hp_max h"
  shows "fst (heap_enqueue h v) = HEAP_OK" and "heap_ok (snd (heap_enqueue h v))"
    and "heap_contents (snd (heap_enqueue h v)) = add_mset v (heap_contents h)"
    and "hp_max (snd (heap_enqueue h v)) = hp_max h"
proof -
  let ?c = "hp_cnt h" and ?b = "(hp_buf h)[hp_cnt h := v]"
  have len: "?c < length (hp_buf h)" "?c + 1 \<le> length ?b" using ok room by (auto simp: heap_ok_def)
  have ord: "ordered (hp_buf h) ?c" using ok by (simp add: heap_ok_def)
  have "?b ! par j \<le> ?b ! j" if "0 < j" "j < ?c + 1" "j \<noteq> ?c" for j
  proof -
    have "j < ?c" "par j < ?c" using that by auto
    then show ?thesis using ord that(1) by (simp add: ordered_def)
  qed
  moreover have "par j \<noteq> ?c" if "0 < j" "j < ?c + 1" for j using that by auto
  ultimately have "up_inv ?b (?c + 1) ?c" unfolding up_inv_def by blast
  then have "ordered (sift_up ?b ?c) (?c + 1)" using sift_up_ordered len(2) by simp
  then show "heap_ok (snd (heap_enqueue h v))"
    using ok room by (simp add: heap_enqueue_def Let_def heap_ok_def)
  have "mset (take (?c + 1) (sift_up ?b ?c)) = mset (take (?c + 1) ?b)"
    using sift_up_mset [of ?c "?c + 1" ?b] len(2) by simp
  also have "\<dots> = add_mset v (mset (take ?c (hp_buf h)))"
    using len(1) by (simp add: take_Suc_conv_app_nth)
  finally show "heap_contents (snd (heap_enqueue h v)) = add_mset v (heap_contents h)"
    using room by (simp add: heap_enqueue_def Let_def heap_contents_def)
  show "fst (heap_enqueue h v) = HEAP_OK" "hp_max (snd (heap_enqueue h v)) = hp_max h"
    using room by (simp_all add: heap_enqueue_def Let_def)
qed

lemma heap_head_least:
  assumes "heap_ok h" and "heap_contents h \<noteq> {#}"
  shows "heap_head h \<in># heap_contents h" and "\<forall>x\<in>#heap_contents h. heap_head h \<le> x"
proof -
  have n: "hp_cnt h \<noteq> 0" using assms(2) by (auto simp: heap_contents_def)
  have len: "hp_cnt h \<le> length (hp_buf h)" using assms(1) by (simp add: heap_ok_def)
  have "hp_buf h ! 0 \<in> set (take (hp_cnt h) (hp_buf h))"
    using n len by (auto simp: in_set_conv_nth intro!: exI [of _ 0])
  then show "heap_head h \<in># heap_contents h" using n by (simp add: heap_head_def heap_contents_def)
  have "hp_buf h ! 0 \<le> x" if "x \<in> set (take (hp_cnt h) (hp_buf h))" for x
    using that assms(1) ordered_least [of "hp_buf h" "hp_cnt h"] by (auto simp: in_set_conv_nth heap_ok_def)
  then show "\<forall>x\<in>#heap_contents h. heap_head h \<le> x"
    using n by (simp add: heap_head_def heap_contents_def)
qed

lemma mset_take_last:
  assumes "0 < n" and "n \<le> length b"
  shows "mset (take n b) = add_mset (b ! 0) (mset (take (n - 1) (b[0 := b ! (n - 1)])))"
proof (cases "n = 1")
  case True
  then show ?thesis using assms by (cases b) auto
next
  case False
  then obtain x xs where b: "b = x # xs" using assms by (cases b) auto
  obtain m where n: "n = Suc (Suc m)" using False assms(1) by (metis One_nat_def not0_implies_Suc neq0_conv)
  then have "take (Suc m) xs = take m xs @ [xs ! m]" using assms b by (simp add: take_Suc_conv_app_nth)
  then show ?thesis using b n by simp
qed

lemma heap_dequeue_ok:
  assumes ok: "heap_ok h" and "heap_contents h \<noteq> {#}"
  shows "fst (heap_dequeue h) = heap_head h" and "heap_ok (snd (heap_dequeue h))"
    and "heap_contents h = add_mset (heap_head h) (heap_contents (snd (heap_dequeue h)))"
proof -
  have n: "0 < hp_cnt h" using assms(2) by (auto simp: heap_contents_def)
  let ?n = "hp_cnt h - 1" and ?b = "(hp_buf h)[0 := hp_buf h ! (hp_cnt h - 1)]"
  have len: "hp_cnt h \<le> length (hp_buf h)" using ok by (simp add: heap_ok_def)
  have ord: "ordered (hp_buf h) (hp_cnt h)" using ok by (simp add: heap_ok_def)
  show "fst (heap_dequeue h) = heap_head h" using n by (simp add: heap_dequeue_def heap_head_def Let_def)
  have "?b ! par j \<le> ?b ! j" if "0 < j" "j < ?n" "par j \<noteq> 0" for j
    using that ord by (auto simp: ordered_def)
  then have "down_inv ?b ?n 0" unfolding down_inv_def by blast
  then have "ordered (sift_down ?b ?n 0) ?n" using sift_down_ordered len by simp
  then show "heap_ok (snd (heap_dequeue h))" using ok n by (auto simp: heap_dequeue_def Let_def heap_ok_def)
  have "mset (take ?n (sift_down ?b ?n 0)) = mset (take ?n ?b)" using sift_down_mset [of ?n ?b 0] len by simp
  then show "heap_contents h = add_mset (heap_head h) (heap_contents (snd (heap_dequeue h)))"
    using mset_take_last [OF n len] n by (simp add: heap_dequeue_def Let_def heap_contents_def heap_head_def)
qed

subsection \<open>Priority queues\<close>

locale priority_queue =
  fixes ok :: "'q \<Rightarrow> bool" and contents :: "'q \<Rightarrow> int multiset" and capacity :: "'q \<Rightarrow> nat"
    and put :: "'q \<Rightarrow> int \<Rightarrow> int \<times> 'q" and get :: "'q \<Rightarrow> int \<times> 'q"
  assumes put_ok: "ok q \<Longrightarrow> size (contents q) < capacity q \<Longrightarrow>
      fst (put q v) = 0 \<and> ok (snd (put q v)) \<and> contents (snd (put q v)) = add_mset v (contents q) \<and>
      capacity (snd (put q v)) = capacity q"
    and get_least: "ok q \<Longrightarrow> contents q \<noteq> {#} \<Longrightarrow>
      (\<forall>x\<in>#contents q. fst (get q) \<le> x) \<and> ok (snd (get q)) \<and>
      contents q = add_mset (fst (get q)) (contents (snd (get q)))"
begin

primrec put_all :: "int list \<Rightarrow> 'q \<Rightarrow> 'q" where
  "put_all [] q = q"
| "put_all (x # xs) q = put_all xs (snd (put q x))"

primrec drain :: "nat \<Rightarrow> 'q \<Rightarrow> int list" where
  "drain 0 q = []"
| "drain (Suc n) q = fst (get q) # drain n (snd (get q))"

lemma put_all_contents:
  "ok q \<Longrightarrow> size (contents q) + length xs \<le> capacity q \<Longrightarrow>
    ok (put_all xs q) \<and> contents (put_all xs q) = contents q + mset xs"
proof (induction xs arbitrary: q)
  case (Cons x xs)
  have "ok (snd (put q x))" "contents (snd (put q x)) = add_mset x (contents q)"
    "capacity (snd (put q x)) = capacity q"
    using put_ok [of q x] Cons.prems by auto
  then show ?case using Cons.IH [of "snd (put q x)"] Cons.prems(2) by simp
qed simp

lemma drain_sorts:
  "ok q \<Longrightarrow> size (contents q) = n \<Longrightarrow> sorted (drain n q) \<and> mset (drain n q) = contents q"
proof (induction n arbitrary: q)
  case (Suc n)
  then have ne: "contents q \<noteq> {#}" by auto
  note g = get_least [OF Suc.prems(1) ne]
  have c: "contents q = add_mset (fst (get q)) (contents (snd (get q)))" using g by blast
  have "size (contents (snd (get q))) = n" using Suc.prems(2) c by simp
  then have IH: "sorted (drain n (snd (get q)))" "mset (drain n (snd (get q))) = contents (snd (get q))"
    using Suc.IH [of "snd (get q)"] g by auto
  have "\<forall>x\<in>set (drain n (snd (get q))). fst (get q) \<le> x"
    using g c IH(2) by (metis set_mset_mset union_iff add_mset_add_single)
  then show ?case using IH c by simp
qed simp

lemma queue_sorts:
  assumes "ok q" and "contents q = {#}" and "length xs \<le> capacity q"
  shows "drain (length xs) (put_all xs q) = sort xs"
proof -
  have p: "ok (put_all xs q)" "contents (put_all xs q) = mset xs" using put_all_contents [of q xs] assms by auto
  then have "sorted (drain (length xs) (put_all xs q)) \<and> mset (drain (length xs) (put_all xs q)) = mset xs"
    using drain_sorts [OF p(1), of "length xs"] by simp
  then show ?thesis using properties_for_sort by metis
qed

end

interpretation hq: priority_queue heap_ok heap_contents hp_max heap_enqueue heap_dequeue
proof
  fix q v
  assume "heap_ok q" "size (heap_contents q) < hp_max q"
  then show "fst (heap_enqueue q v) = 0 \<and> heap_ok (snd (heap_enqueue q v)) \<and>
      heap_contents (snd (heap_enqueue q v)) = add_mset v (heap_contents q) \<and>
      hp_max (snd (heap_enqueue q v)) = hp_max q"
    using heap_enqueue_ok [of q v] heap_contents_size [of q] by simp
next
  fix q
  assume a: "heap_ok q" "heap_contents q \<noteq> {#}"
  show "(\<forall>x\<in>#heap_contents q. fst (heap_dequeue q) \<le> x) \<and> heap_ok (snd (heap_dequeue q)) \<and>
      heap_contents q = add_mset (fst (heap_dequeue q)) (heap_contents (snd (heap_dequeue q)))"
    using heap_dequeue_ok [OF a] heap_head_least [OF a] by simp
qed

text \<open>Filling a heap and emptying it again.\<close>

primrec heap_fill :: "int list \<Rightarrow> heap \<Rightarrow> heap" where
  "heap_fill [] h = h"
| "heap_fill (x # xs) h = heap_fill xs (snd (heap_enqueue h x))"

primrec heap_drain :: "nat \<Rightarrow> heap \<Rightarrow> int list" where
  "heap_drain 0 h = []"
| "heap_drain (Suc n) h = fst (heap_dequeue h) # heap_drain n (snd (heap_dequeue h))"

lemma heap_fill_put_all: "heap_fill xs h = hq.put_all xs h"
  by (induction xs arbitrary: h) simp_all

lemma heap_drain_drain: "heap_drain n h = hq.drain n h"
  by (induction n arbitrary: h) simp_all

text \<open>
  C21. A heap hands its elements out in ascending order: putting any values that fit into a freshly
  initialised heap and taking as many out again yields the values sorted, whatever the buffer held
  before.
\<close>

theorem heap_sorts:
  assumes "length xs \<le> m" and "m \<le> length b"
  shows "heap_drain (length xs) (heap_fill xs (heap_initialize m b)) = sort xs"
proof -
  have "heap_ok (heap_initialize m b)" "heap_contents (heap_initialize m b) = {#}"
    "hp_max (heap_initialize m b) = m"
    using heap_initialize_ok [OF assms(2)] by (simp_all add: heap_initialize_def)
  from hq.queue_sorts [OF this(1,2), of xs] this(3) assms(1)
  show ?thesis by (simp add: heap_fill_put_all heap_drain_drain)
qed

theorem heap_sorts_witness:
  "heap_drain 3 (heap_fill [5, - 2, 3] (heap_initialize 4 [9, 9, 9, 9])) = [- 2, 3, 5]"
  using heap_sorts [of "[5, - 2, 3]" 4 "[9, 9, 9, 9]"] by (simp add: numeral_3_eq_3)

text \<open>
  Every heap operation on every branch: enqueueing into a full heap is refused with the heap
  unchanged and otherwise adds the value; dequeueing from an empty heap reports \<^verbatim>\<open>HEAP_EMPTY\<close> with the
  heap unchanged and otherwise removes one occurrence of the least value; the heap order is kept.
\<close>

theorem heap_operations:
  assumes "heap_ok h"
  shows "heap_ok (snd (heap_enqueue h v)) \<and> heap_ok (snd (heap_dequeue h)) \<and>
    (if hp_cnt h = hp_max h then heap_enqueue h v = (HEAP_FULL, h)
     else fst (heap_enqueue h v) = HEAP_OK \<and>
          heap_contents (snd (heap_enqueue h v)) = add_mset v (heap_contents h)) \<and>
    (if heap_contents h = {#} then heap_dequeue h = (HEAP_EMPTY, h)
     else fst (heap_dequeue h) = Min_mset (heap_contents h) \<and>
          heap_contents (snd (heap_dequeue h)) = heap_contents h - {#Min_mset (heap_contents h)#})"
proof -
  have full: "heap_enqueue h v = (HEAP_FULL, h)" if "hp_cnt h = hp_max h"
    using that by (simp add: heap_enqueue_def Let_def)
  have room: "hp_cnt h < hp_max h" if "hp_cnt h \<noteq> hp_max h" using that assms by (simp add: heap_ok_def)
  have empty: "heap_dequeue h = (HEAP_EMPTY, h)" if "heap_contents h = {#}"
    using that heap_contents_size [OF assms] by (simp add: heap_dequeue_def)
  have least: "heap_head h = Min_mset (heap_contents h)" if "heap_contents h \<noteq> {#}"
    using heap_head_least [OF assms that] by (intro Min_eqI [symmetric]) auto
  have rest: "heap_contents (snd (heap_dequeue h)) = heap_contents h - {#Min_mset (heap_contents h)#}"
    if "heap_contents h \<noteq> {#}"
    using heap_dequeue_ok(3) [OF assms that] least [OF that] by (metis add_mset_remove_trivial)
  show ?thesis
    using full empty assms least rest heap_enqueue_ok(1-3) [OF assms room] heap_dequeue_ok(1,2) [OF assms]
    by (cases "hp_cnt h = hp_max h"; cases "heap_contents h = {#}") simp_all
qed

theorem heap_operations_witness:
  "heap_ok \<lparr>hp_cnt = 2, hp_max = 3, hp_buf = [1, 4, 0]\<rparr> \<and>
    heap_ok (snd (heap_dequeue \<lparr>hp_cnt = 2, hp_max = 3, hp_buf = [1, 4, 0]\<rparr>))"
proof -
  let ?h = "\<lparr>hp_cnt = 2, hp_max = 3, hp_buf = [1, 4, 0]\<rparr>"
  have "heap_ok ?h" by (auto simp: heap_ok_def ordered_def less_Suc_eq numeral_2_eq_2)
  with heap_operations [OF this, of 0] show ?thesis by blast
qed

end
