(* ===== verification/Set_Slab.thy ===== *)
theory Set_Slab
  imports Eo_Prelude
begin

section \<open>The slab allocator (\<^verbatim>\<open>lib/libnc/set/slab.c\<close>, \<^verbatim>\<open>include/set/slab.h\<close>)\<close>

text \<open>
  Objects of one size cut from blocks of the page allocator. Addresses are integers; the lists of the
  slab and of each block are HOL lists of addresses (the linked lists of \<^verbatim>\<open>list.h\<close> implement them, as
  \<^verbatim>\<open>Set_List\<close> shows), and the block headers are maps from the address of a block. The function
  pointers \<^verbatim>\<open>palloc\<close> and \<^verbatim>\<open>pfree\<close> are arguments acting on the state of the page allocator. The
  lemmas show that an object is never handed out twice and that a freed one becomes available.
\<close>

abbreviation (input) SLAB_OK :: int where "SLAB_OK \<equiv> 0"
abbreviation (input) SLAB_ERROR :: int where "SLAB_ERROR \<equiv> - 1"
abbreviation (input) sizeof_slab_block :: int where "sizeof_slab_block \<equiv> 32"
abbreviation (input) sizeof_slab_entry :: int where "sizeof_slab_entry \<equiv> 8"

record slab =
  unit_size :: int
  block_size :: int
  min_block :: nat
  max_block :: nat
  entries_per_block :: nat
  sl_mask :: int
  sl_offset :: int
  empties :: "int list"
  empty_num :: nat
  blocks :: "int list"
  block_num :: nat
  entries :: "int \<Rightarrow> int list"
  entry_num :: "int \<Rightarrow> nat"

type_synonym 'p slab_palloc = "'p \<Rightarrow> int option \<times> 'p"
type_synonym 'p slab_pfree = "int \<Rightarrow> 'p \<Rightarrow> 'p"

definition block_slots :: "slab \<Rightarrow> int \<Rightarrow> int list" where
  "block_slots s b =
     map (\<lambda>i. b + sizeof_slab_block + sl_offset s + int i * unit_size s) [0..<entries_per_block s]"

definition slab_add_block :: "'p slab_palloc \<Rightarrow> slab \<Rightarrow> 'p \<Rightarrow> int option \<times> slab \<times> 'p" where
  "slab_add_block palloc s pg =
     (if block_num s \<ge> max_block s then (None, s, pg)
      else case palloc pg of
             (None, pg) \<Rightarrow> (None, s, pg)
           | (Some b, pg) \<Rightarrow>
               (Some b, s\<lparr>empties := empties s @ [b], empty_num := empty_num s + 1,
                          blocks := blocks s @ [b], block_num := block_num s + 1,
                          entries := (entries s)(b := block_slots s b),
                          entry_num := (entry_num s)(b := entries_per_block s)\<rparr>, pg))"

primrec add_blocks :: "'p slab_palloc \<Rightarrow> nat \<Rightarrow> slab \<Rightarrow> 'p \<Rightarrow> slab \<times> 'p" where
  "add_blocks palloc 0 s pg = (s, pg)"
| "add_blocks palloc (Suc n) s pg =
     (case slab_add_block palloc s pg of
        (None, s, pg) \<Rightarrow> (s, pg)
      | (Some b, s, pg) \<Rightarrow> add_blocks palloc n s pg)"

definition slab_create :: "'p slab_palloc \<Rightarrow> slab \<Rightarrow> 'p \<Rightarrow> int \<times> slab \<times> 'p" where
  "slab_create palloc s pg =
     (if block_size s = 0 \<or> unit_size s < sizeof_slab_entry \<or> unit_size s + sizeof_slab_block > block_size s \<or>
         max_block s = 0
      then (SLAB_ERROR, s, pg)
      else
        let s = s\<lparr>entries_per_block := nat ((block_size s - sizeof_slab_block) div unit_size s),
                  sl_mask := NOT (block_size s - 1), sl_offset := 0,
                  empties := [], empty_num := 0, blocks := [], block_num := 0\<rparr>
        in (SLAB_OK, add_blocks palloc (min_block s) s pg))"

definition slab_take :: "slab \<Rightarrow> int \<Rightarrow> int option \<times> slab" where
  "slab_take s b =
     (let n = entry_num s b - 1;
          s = s\<lparr>entry_num := (entry_num s)(b := n)\<rparr>;
          s = (if n = 0 then s\<lparr>empties := remove1 b (empties s), empty_num := empty_num s - 1\<rparr> else s)
      in case entries s b of
           [] \<Rightarrow> (None, s)
         | p # ps \<Rightarrow> (Some p, s\<lparr>entries := (entries s)(b := ps)\<rparr>))"

definition slab_alloc :: "'p slab_palloc \<Rightarrow> slab \<Rightarrow> 'p \<Rightarrow> int option \<times> slab \<times> 'p" where
  "slab_alloc palloc s pg =
     (case empties s of
        b # bs \<Rightarrow> (case slab_take s b of (p, s) \<Rightarrow> (p, s, pg))
      | [] \<Rightarrow>
          (case slab_add_block palloc s pg of
             (None, s, pg) \<Rightarrow> (None, s, pg)
           | (Some b, s, pg) \<Rightarrow> (case slab_take s (hd (empties s)) of (p, s) \<Rightarrow> (p, s, pg))))"

definition slab_free :: "'p slab_pfree \<Rightarrow> slab \<Rightarrow> int \<Rightarrow> 'p \<Rightarrow> slab \<times> 'p" where
  "slab_free pfree s p pg =
     (let b = p AND sl_mask s;
          s = (if entry_num s b = 0
               then s\<lparr>empties := empties s @ [b], empty_num := empty_num s + 1\<rparr> else s);
          s = s\<lparr>entry_num := (entry_num s)(b := entry_num s b + 1)\<rparr>
      in if entry_num s b = entries_per_block s \<and> empty_num s > 1 \<and> block_num s > min_block s
         then (s\<lparr>empties := remove1 b (empties s), empty_num := empty_num s - 1,
                 blocks := remove1 b (blocks s), block_num := block_num s - 1\<rparr>, pfree b pg)
         else (s\<lparr>entries := (entries s)(b := p # entries s b)\<rparr>, pg))"

definition slab_destroy :: "'p slab_pfree \<Rightarrow> slab \<Rightarrow> 'p \<Rightarrow> slab \<times> 'p" where
  "slab_destroy pfree s pg = (s\<lparr>blocks := []\<rparr>, fold pfree (blocks s) pg)"

definition slab_max_block :: "nat \<Rightarrow> nat \<Rightarrow> nat \<Rightarrow> nat" where
  "slab_max_block max_unit page_size usize =
     (let m = max_unit div ((page_size - 32) div usize) in if m \<noteq> 0 then m else 1)"

subsection \<open>Invariant\<close>

text \<open>The configuration \<^verbatim>\<open>slab_create\<close> accepts, with blocks a power of two in size.\<close>

definition configured :: "slab \<Rightarrow> bool" where
  "configured s \<longleftrightarrow> (\<exists>k. block_size s = 2 ^ k) \<and> sizeof_slab_entry \<le> unit_size s \<and>
     unit_size s + sizeof_slab_block \<le> block_size s \<and>
     entries_per_block s = nat ((block_size s - sizeof_slab_block) div unit_size s) \<and>
     sl_mask s = NOT (block_size s - 1) \<and> sl_offset s = 0"

definition lists_ok :: "int \<Rightarrow> (int \<Rightarrow> int list) \<Rightarrow> (int \<Rightarrow> int list) \<Rightarrow> (int \<Rightarrow> nat) \<Rightarrow> int list \<Rightarrow> int list \<Rightarrow> bool" where
  "lists_ok bsize slots ent num em bl \<longleftrightarrow>
     distinct bl \<and> distinct em \<and> set em \<subseteq> set bl \<and>
     (\<forall>b\<in>set bl. b mod bsize = 0 \<and> distinct (ent b) \<and> set (ent b) \<subseteq> set (slots b) \<and>
        num b = length (ent b) \<and> (b \<in> set em \<longleftrightarrow> ent b \<noteq> []))"

definition slab_ok :: "slab \<Rightarrow> bool" where
  "slab_ok s \<longleftrightarrow> configured s \<and> empty_num s = length (empties s) \<and> block_num s = length (blocks s) \<and>
     block_num s \<le> max_block s \<and>
     lists_ok (block_size s) (block_slots s) (entries s) (entry_num s) (empties s) (blocks s)"

text \<open>The objects handed out.\<close>

definition slab_used :: "slab \<Rightarrow> int set" where
  "slab_used s = {p. \<exists>b\<in>set (blocks s). p \<in> set (block_slots s b) \<and> p \<notin> set (entries s b)}"

lemma mask_block:
  assumes "bsize = 2 ^ k"
  shows "p AND NOT (bsize - 1) = p - p mod (bsize :: int)"
  using and_split [of p "mask k"] assms
  by (simp add: mask_eq_exp_minus_1 take_bit_eq_mod [symmetric] take_bit_eq_mask)

lemma in_block_slots:
  "p \<in> set (block_slots s b) \<longleftrightarrow>
    (\<exists>i < entries_per_block s. p = b + sizeof_slab_block + sl_offset s + int i * unit_size s)"
  by (auto simp: block_slots_def)

lemma slots_inside:
  assumes "configured s" and "i < entries_per_block s"
  shows "sizeof_slab_block + int i * unit_size s < block_size s"
proof -
  let ?q = "(block_size s - sizeof_slab_block) div unit_size s"
  have u: "0 < unit_size s" using assms(1) by (simp add: configured_def)
  have "int i + 1 \<le> ?q" using assms by (simp add: configured_def zless_nat_eq_int_zless)
  then have "(int i + 1) * unit_size s \<le> ?q * unit_size s" using u by (simp add: mult_right_mono)
  also have "\<dots> \<le> block_size s - sizeof_slab_block" 
    using u pos_mod_sign [of "unit_size s" "block_size s - sizeof_slab_block"]
    by (simp add: minus_mod_eq_div_mult [symmetric])
  finally show ?thesis using u by (simp add: algebra_simps)
qed

lemma slot_owner:
  assumes c: "configured s" and "b mod block_size s = 0" and p: "p \<in> set (block_slots s b)"
  shows "p AND sl_mask s = b"
proof -
  obtain k where k: "block_size s = 2 ^ k" and m: "sl_mask s = NOT (block_size s - 1)" and z: "sl_offset s = 0"
    and u: "0 < unit_size s" using c by (auto simp: configured_def)
  obtain i where i: "i < entries_per_block s" "p = b + (sizeof_slab_block + int i * unit_size s)"
    using p z by (auto simp: in_block_slots)
  let ?d = "sizeof_slab_block + int i * unit_size s"
  have d: "0 \<le> ?d" "?d < block_size s" using slots_inside [OF c i(1)] u by simp_all
  have "p mod block_size s = ?d mod block_size s"
    using assms(2) i(2) by (metis mod_add_left_eq add_0)
  also have "\<dots> = ?d" using d by (rule mod_pos_pos_trivial)
  finally show ?thesis using mask_block [OF k, of p] m i(2) by simp
qed

lemma slots_distinct: "configured s \<Longrightarrow> distinct (block_slots s b)"
  by (auto simp: block_slots_def distinct_map inj_on_def configured_def)

lemma slots_nonempty:
  assumes "configured s"
  shows "block_slots s b \<noteq> []" and "length (block_slots s b) = entries_per_block s"
proof -
  have u: "0 < unit_size s" "unit_size s \<le> block_size s - sizeof_slab_block"
    using assms by (auto simp: configured_def)
  then have "1 \<le> (block_size s - sizeof_slab_block) div unit_size s"
    using pos_imp_zdiv_pos_iff [of "unit_size s" "block_size s - sizeof_slab_block"] by linarith
  then have "0 < entries_per_block s" using assms by (simp add: configured_def)
  then show "block_slots s b \<noteq> []" by (simp add: block_slots_def)
  show "length (block_slots s b) = entries_per_block s" by (simp add: block_slots_def)
qed

lemma slab_okD:
  assumes "slab_ok s"
  shows "configured s" and "distinct (blocks s)" and "distinct (empties s)" and "set (empties s) \<subseteq> set (blocks s)"
    and "\<And>b. b \<in> set (blocks s) \<Longrightarrow> b mod block_size s = 0"
    and "\<And>b. b \<in> set (blocks s) \<Longrightarrow> distinct (entries s b)"
    and "\<And>b. b \<in> set (blocks s) \<Longrightarrow> set (entries s b) \<subseteq> set (block_slots s b)"
    and "\<And>b. b \<in> set (blocks s) \<Longrightarrow> entry_num s b = length (entries s b)"
    and "\<And>b. b \<in> set (blocks s) \<Longrightarrow> b \<in> set (empties s) \<longleftrightarrow> entries s b \<noteq> []"
    and "empty_num s = length (empties s)" and "block_num s = length (blocks s)" and "block_num s \<le> max_block s"
  using assms unfolding slab_ok_def lists_ok_def by blast+

lemma same_owner:
  assumes "slab_ok s" and "a \<in> set (blocks s)" and "b \<in> set (blocks s)"
    and "p \<in> set (block_slots s a)" and "p \<in> set (block_slots s b)"
  shows "a = b"
  using assms slot_owner [of s a p] slot_owner [of s b p] slab_okD(1,5) [OF assms(1)] by simp

lemma block_slots_cong:
  "unit_size t = unit_size s \<Longrightarrow> sl_offset t = sl_offset s \<Longrightarrow> entries_per_block t = entries_per_block s \<Longrightarrow>
    block_slots t = block_slots s"
  by (simp add: block_slots_def fun_eq_iff)

subsection \<open>Allocation\<close>

lemma slab_take_ok:
  assumes ok: "slab_ok s" and b: "b \<in> set (empties s)"
  shows "\<exists>p s'. slab_take s b = (Some p, s') \<and> slab_ok s' \<and> p \<notin> slab_used s \<and>
    slab_used s' = insert p (slab_used s)"
proof -
  note d = slab_okD [OF ok]
  have bb: "b \<in> set (blocks s)" using b d(4) by blast
  then obtain p ps where e: "entries s b = p # ps" using d(9) b by (cases "entries s b") auto
  have n: "entry_num s b - 1 = length ps" using d(8) [OF bb] e by simp
  define em where "em = (if ps = [] then remove1 b (empties s) else empties s)"
  define s' where "s' = s\<lparr>entry_num := (entry_num s)(b := length ps), empties := em, empty_num := length em,
    entries := (entries s)(b := ps)\<rparr>"
  have len: "length em = (if ps = [] then empty_num s - 1 else empty_num s)"
    using b d(10) by (simp add: em_def length_remove1)
  have take: "slab_take s b = (Some p, s')"
    using e n len by (simp add: slab_take_def Let_def s'_def em_def)
  have slots: "block_slots s' = block_slots s" by (rule block_slots_cong) (simp_all add: s'_def)
  have em: "set em = (if ps = [] then set (empties s) - {b} else set (empties s))" "distinct em"
    using d(3) by (simp_all add: em_def)
  have ps: "distinct ps" "p \<notin> set ps" "p \<in> set (block_slots s b)" "set ps \<subseteq> set (block_slots s b)"
    using d(6,7) [OF bb] e by auto
  have "lists_ok (block_size s) (block_slots s) ((entries s)(b := ps)) ((entry_num s)(b := length ps)) em (blocks s)"
    unfolding lists_ok_def
  proof (intro conjI ballI)
    show "set em \<subseteq> set (blocks s)" using em(1) d(4) by auto
    fix a
    assume a: "a \<in> set (blocks s)"
    show "a \<in> set em \<longleftrightarrow> ((entries s)(b := ps)) a \<noteq> []"
      using em(1) d(9) [OF a] b by (cases "a = b") auto
  qed (use d em(2) ps in \<open>auto split: if_splits\<close>)
  then have "slab_ok s'"
    using ok slots unfolding slab_ok_def by (simp add: s'_def configured_def)
  moreover have "p \<notin> slab_used s"
    using same_owner [OF ok bb _ ps(3)] e by (auto simp: slab_used_def)
  moreover have "slab_used s' = insert p (slab_used s)"
  proof (rule set_eqI)
    fix q
    have "q \<in> slab_used s' \<longleftrightarrow>
        (\<exists>a\<in>set (blocks s). q \<in> set (block_slots s a) \<and> q \<notin> set (if a = b then ps else entries s a))"
      by (simp add: slab_used_def slots) (simp add: s'_def)
    also have "\<dots> \<longleftrightarrow> q = p \<or> q \<in> slab_used s"
      using e bb ps(2,3) by (auto simp: slab_used_def split: if_splits)
    finally show "q \<in> slab_used s' \<longleftrightarrow> q \<in> insert p (slab_used s)" by simp
  qed
  ultimately show ?thesis using take by blast
qed

text \<open>What the slab relies on: the page allocator yields aligned blocks that are not in use.\<close>

definition fresh_block :: "'p slab_palloc \<Rightarrow> slab \<Rightarrow> 'p \<Rightarrow> bool" where
  "fresh_block palloc s pg \<longleftrightarrow>
     (case fst (palloc pg) of None \<Rightarrow> True | Some b \<Rightarrow> b mod block_size s = 0 \<and> b \<notin> set (blocks s))"

lemma slab_add_block_ok:
  assumes ok: "slab_ok s" and fresh: "fresh_block palloc s pg"
    and add: "slab_add_block palloc s pg = (Some b, s', pg')"
  shows "slab_ok s'" and "slab_used s' = slab_used s" and "empties s' = empties s @ [b]"
proof -
  note d = slab_okD [OF ok]
  have room: "block_num s < max_block s" and pa: "palloc pg = (Some b, pg')"
    and s': "s' = s\<lparr>empties := empties s @ [b], empty_num := empty_num s + 1,
       blocks := blocks s @ [b], block_num := block_num s + 1,
       entries := (entries s)(b := block_slots s b), entry_num := (entry_num s)(b := entries_per_block s)\<rparr>"
    using add by (auto simp: slab_add_block_def split: if_splits prod.splits option.splits)
  have b: "b mod block_size s = 0" "b \<notin> set (blocks s)" using fresh pa by (simp_all add: fresh_block_def)
  have slots: "block_slots s' = block_slots s" by (rule block_slots_cong) (simp_all add: s')
  have "lists_ok (block_size s) (block_slots s) ((entries s)(b := block_slots s b))
      ((entry_num s)(b := entries_per_block s)) (empties s @ [b]) (blocks s @ [b])"
    unfolding lists_ok_def
  proof (intro conjI ballI)
    fix a
    assume a: "a \<in> set (blocks s @ [b])"
    show "a \<in> set (empties s @ [b]) \<longleftrightarrow> ((entries s)(b := block_slots s b)) a \<noteq> []"
      using a d(9) [of a] slots_nonempty(1) [OF d(1)] by (cases "a = b") auto
    show "set (((entries s)(b := block_slots s b)) a) \<subseteq> set (block_slots s a)"
      using a d(7) [of a] by (cases "a = b") auto
  qed (use d b slots_distinct [OF d(1)] slots_nonempty [OF d(1)] in auto)
  then show "slab_ok s'"
    using ok slots room unfolding slab_ok_def by (simp add: s' configured_def)
  show "slab_used s' = slab_used s"
    using b(2) by (simp add: slab_used_def slots) (auto simp: s')
  show "empties s' = empties s @ [b]" by (simp add: s')
qed

lemma slab_add_block_none:
  "slab_add_block palloc s pg = (None, s', pg') \<Longrightarrow> s' = s \<and> (block_num s = max_block s \<or> fst (palloc pg) = None)"
  if "slab_ok s"
  using slab_okD(12) [OF that] by (auto simp: slab_add_block_def split: if_splits prod.splits option.splits)

text \<open>
  C22. The slab never hands out an object twice: an allocation yields an object that is not in use
  and from then on counts as used, with all others as they were, and it fails only when every
  object of every block is in use and no block can be added, since the limit is reached or the page
  allocator is exhausted.
\<close>

theorem slab_alloc_never_twice:
  assumes "slab_ok s" and "fresh_block palloc s pg"
  shows "case slab_alloc palloc s pg of
      (Some p, s', pg') \<Rightarrow> p \<notin> slab_used s \<and> slab_used s' = insert p (slab_used s) \<and> slab_ok s'
    | (None, s', pg') \<Rightarrow> s' = s \<and> (\<forall>b\<in>set (blocks s). set (block_slots s b) \<subseteq> slab_used s) \<and>
        (block_num s = max_block s \<or> fst (palloc pg) = None)"
proof (cases "empties s")
  case (Cons b bs)
  then show ?thesis using slab_take_ok [OF assms(1), of b] by (auto simp: slab_alloc_def)
next
  case Nil
  have all: "\<forall>b\<in>set (blocks s). set (block_slots s b) \<subseteq> slab_used s"
    using slab_okD(9) [OF assms(1)] Nil by (auto simp: slab_used_def)
  obtain r s1 pg1 where a: "slab_add_block palloc s pg = (r, s1, pg1)" by (cases "slab_add_block palloc s pg")
  show ?thesis
  proof (cases r)
    case None
    then show ?thesis
      using Nil all a slab_add_block_none [OF assms(1), of palloc pg s1 pg1] by (simp add: slab_alloc_def)
  next
    case (Some b)
    note ab = slab_add_block_ok [OF assms a [unfolded Some]]
    have "b \<in> set (empties s1)" "hd (empties s1) = b" using ab(3) Nil by simp_all
    then show ?thesis using Nil a Some ab(2) slab_take_ok [OF ab(1), of b] by (auto simp: slab_alloc_def)
  qed
qed

subsection \<open>Release\<close>

lemma used_owner:
  assumes ok: "slab_ok s" and p: "p \<in> slab_used s"
  defines "b \<equiv> p AND sl_mask s"
  shows "b \<in> set (blocks s)" and "p \<in> set (block_slots s b)" and "p \<notin> set (entries s b)"
proof -
  obtain a where a: "a \<in> set (blocks s)" "p \<in> set (block_slots s a)" "p \<notin> set (entries s a)"
    using p by (auto simp: slab_used_def)
  moreover have "b = a" using slot_owner [OF slab_okD(1) [OF ok] _ a(2)] slab_okD(5) [OF ok a(1)] by (simp add: b_def)
  ultimately show "b \<in> set (blocks s)" "p \<in> set (block_slots s b)" "p \<notin> set (entries s b)" by simp_all
qed

lemma keep_block_ok:
  assumes ok: "slab_ok s" and b: "b \<in> set (blocks s)" and p: "p \<in> set (block_slots s b)" "p \<notin> set (entries s b)"
  defines "em \<equiv> if entry_num s b = 0 then empties s @ [b] else empties s"
  defines "s' \<equiv> s\<lparr>empties := em, empty_num := length em, entry_num := (entry_num s)(b := entry_num s b + 1),
    entries := (entries s)(b := p # entries s b)\<rparr>"
  shows "slab_ok s'" and "slab_used s' = slab_used s - {p}"
proof -
  note d = slab_okD [OF ok]
  have slots: "block_slots s' = block_slots s" by (rule block_slots_cong) (simp_all add: s'_def)
  have nil: "entry_num s b = 0 \<longleftrightarrow> entries s b = []" using d(8) [OF b] by simp
  have em: "set em = insert b (set (empties s))" "distinct em"
    using d(3) d(9) [OF b] nil by (auto simp: em_def)
  have "lists_ok (block_size s) (block_slots s) ((entries s)(b := p # entries s b))
      ((entry_num s)(b := entry_num s b + 1)) em (blocks s)"
    unfolding lists_ok_def
  proof (intro conjI ballI)
    show "set em \<subseteq> set (blocks s)" using em(1) d(4) b by auto
    fix a
    assume a: "a \<in> set (blocks s)"
    show "a \<in> set em \<longleftrightarrow> ((entries s)(b := p # entries s b)) a \<noteq> []"
      using em(1) d(9) [OF a] by (cases "a = b") auto
    show "set (((entries s)(b := p # entries s b)) a) \<subseteq> set (block_slots s a)"
      using d(7) [OF a] p(1) by (cases "a = b") auto
  qed (use d em(2) p(2) in auto)
  then show "slab_ok s'" using ok slots unfolding slab_ok_def by (simp add: s'_def configured_def)
  show "slab_used s' = slab_used s - {p}"
  proof (rule set_eqI)
    fix q
    have "q \<in> slab_used s' \<longleftrightarrow> (\<exists>a\<in>set (blocks s). q \<in> set (block_slots s a) \<and>
        q \<notin> set (if a = b then p # entries s b else entries s a))"
      by (simp add: slab_used_def slots) (simp add: s'_def)
    also have "\<dots> \<longleftrightarrow> q \<in> slab_used s \<and> q \<noteq> p"
      using same_owner [OF ok b _ p(1)] by (auto simp: slab_used_def split: if_splits) metis
    finally show "q \<in> slab_used s' \<longleftrightarrow> q \<in> slab_used s - {p}" by simp
  qed
qed

lemma drop_block_ok:
  fixes en :: "int \<Rightarrow> nat"
  assumes ok: "slab_ok s" and b: "b \<in> set (blocks s)"
  defines "s' \<equiv> s\<lparr>empties := remove1 b (empties s), empty_num := length (remove1 b (empties s)),
    entry_num := en, blocks := remove1 b (blocks s), block_num := block_num s - 1\<rparr>"
  assumes en: "\<And>a. a \<noteq> b \<Longrightarrow> en a = entry_num s a"
  shows "slab_ok s'" and "slab_used s' = {p \<in> slab_used s. p \<notin> set (block_slots s b)}"
proof -
  note d = slab_okD [OF ok]
  have slots: "block_slots s' = block_slots s" by (rule block_slots_cong) (simp_all add: s'_def)
  have sets: "set (remove1 b (blocks s)) = set (blocks s) - {b}" "set (remove1 b (empties s)) = set (empties s) - {b}"
    using d(2,3) by simp_all
  have "lists_ok (block_size s) (block_slots s) (entries s) en (remove1 b (empties s)) (remove1 b (blocks s))"
    unfolding lists_ok_def sets using d en by auto
  moreover have "block_num s - 1 = length (remove1 b (blocks s))" using b d(11) by (simp add: length_remove1)
  moreover have "block_num s - 1 \<le> max_block s" using d(12) by simp
  ultimately show "slab_ok s'" using ok slots unfolding slab_ok_def by (simp add: s'_def configured_def)
  show "slab_used s' = {p \<in> slab_used s. p \<notin> set (block_slots s b)}"
  proof (rule set_eqI)
    fix q
    have "q \<in> slab_used s' \<longleftrightarrow> (\<exists>a\<in>set (blocks s) - {b}. q \<in> set (block_slots s a) \<and> q \<notin> set (entries s a))"
      by (simp add: slab_used_def slots) (simp add: s'_def sets)
    also have "\<dots> \<longleftrightarrow> q \<in> slab_used s \<and> q \<notin> set (block_slots s b)"
      using same_owner [OF ok b] by (auto simp: slab_used_def)
    finally show "q \<in> slab_used s' \<longleftrightarrow> q \<in> {p \<in> slab_used s. p \<notin> set (block_slots s b)}" by simp
  qed
qed

lemma all_others_free:
  assumes ok: "slab_ok s" and b: "b \<in> set (blocks s)" and p: "p \<in> set (block_slots s b)" "p \<notin> set (entries s b)"
    and full: "entry_num s b + 1 = entries_per_block s"
  shows "{q \<in> slab_used s. q \<notin> set (block_slots s b)} = slab_used s - {p}"
proof -
  note d = slab_okD [OF ok]
  have "set (p # entries s b) \<subseteq> set (block_slots s b)" using d(7) [OF b] p(1) by simp
  moreover have "card (set (p # entries s b)) = card (set (block_slots s b))"
    using d(6,8) [OF b] p(2) full slots_nonempty(2) [OF d(1), of b] slots_distinct [OF d(1), of b]
    by (simp add: distinct_card)
  ultimately have "set (block_slots s b) = insert p (set (entries s b))"
    by (metis List.finite_set card_subset_eq list.simps(15))
  then show ?thesis using same_owner [OF ok b] b p(2) by (auto simp: slab_used_def)
qed

lemma slab_free_unfold:
  fixes p :: int
  assumes "empty_num s = length (empties s)"
  defines "b \<equiv> p AND sl_mask s"
  defines "em \<equiv> if entry_num s b = 0 then empties s @ [b] else empties s"
  shows "fst (slab_free pfree s p pg) =
    (if entry_num s b + 1 = entries_per_block s \<and> length em > 1 \<and> block_num s > min_block s
     then s\<lparr>empties := remove1 b em, empty_num := length em - 1, entry_num := (entry_num s)(b := entry_num s b + 1),
            blocks := remove1 b (blocks s), block_num := block_num s - 1\<rparr>
     else s\<lparr>empties := em, empty_num := length em, entry_num := (entry_num s)(b := entry_num s b + 1),
            entries := (entries s)(b := p # entries s b)\<rparr>)"
proof (cases "entry_num s b = 0")
  case True
  then show ?thesis
    using assms(1) unfolding slab_free_def Let_def b_def [symmetric] em_def by simp
next
  case False
  then show ?thesis
    using assms(1) unfolding slab_free_def Let_def b_def [symmetric] em_def by simp
qed

text \<open>
  Freeing an object in use makes exactly that object available again and keeps the slab
  consistent, also when its block becomes wholly free and goes back to the page allocator.
\<close>

theorem slab_free_releases:
  assumes "slab_ok s" and "p \<in> slab_used s"
  shows "slab_ok (fst (slab_free pfree s p pg)) \<and>
    slab_used (fst (slab_free pfree s p pg)) = slab_used s - {p}"
proof -
  let ?b = "p AND sl_mask s"
  note o = used_owner [OF assms]
  note d = slab_okD [OF assms(1)]
  define em where "em = (if entry_num s ?b = 0 then empties s @ [?b] else empties s)"
  have em1: "?b \<in> set (empties s)" if "entry_num s ?b \<noteq> 0" using that d(8,9) [OF o(1)] by simp
  show ?thesis
  proof (cases "entry_num s ?b + 1 = entries_per_block s \<and> length em > 1 \<and> block_num s > min_block s")
    case True
    have rem: "remove1 ?b em = remove1 ?b (empties s)"
      using d(9) [OF o(1)] d(8) [OF o(1)] by (auto simp: em_def remove1_append remove1_idem)
    have len: "length em - 1 = length (remove1 ?b (empties s))"
      using em1 by (auto simp: em_def length_remove1 rem [symmetric])
    have "entry_num s ?b + 1 = entries_per_block s" using True by blast
    then show ?thesis
      using slab_free_unfold [where p = p and pfree = pfree and pg = pg, OF d(10)] True rem len
        drop_block_ok [OF assms(1) o(1), of "(entry_num s)(?b := entry_num s ?b + 1)"]
        all_others_free [OF assms(1) o]
      by (simp add: em_def [symmetric])
  next
    case False
    then have "fst (slab_free pfree s p pg) = s\<lparr>empties := em, empty_num := length em,
        entry_num := (entry_num s)(?b := entry_num s ?b + 1), entries := (entries s)(?b := p # entries s ?b)\<rparr>"
      using slab_free_unfold [where p = p and pfree = pfree and pg = pg, OF d(10), folded em_def] by presburger
    then show ?thesis using keep_block_ok [OF assms(1) o, folded em_def] by simp
  qed
qed

subsection \<open>A slab of two objects per block\<close>

definition sample_config :: slab where
  "sample_config = \<lparr>unit_size = 16, block_size = 64, min_block = 0, max_block = 2, entries_per_block = 2,
     sl_mask = NOT 63, sl_offset = 0, empties = [], empty_num = 0, blocks = [], block_num = 0,
     entries = (\<lambda>b. []), entry_num = (\<lambda>b. 0)\<rparr>"

definition sample_slab :: slab where
  "sample_slab = sample_config\<lparr>empties := [128], empty_num := 1, blocks := [128], block_num := 1,
     entries := (\<lambda>b. [])(128 := [176]), entry_num := (\<lambda>b. 0)(128 := 1)\<rparr>"

definition sample_pages :: "int slab_palloc" where
  "sample_pages n = (Some n, n + 64)"

lemma sample_slots: "block_slots sample_slab b = [b + 32, b + 48]"
  by (simp add: block_slots_def sample_slab_def sample_config_def upt_rec)

lemma sample_ok: "slab_ok sample_slab"
proof -
  have "configured sample_slab"
    by (auto simp: configured_def sample_slab_def sample_config_def intro: exI [of _ 6])
  moreover have "lists_ok 64 (\<lambda>b. [b + 32, b + 48]) ((\<lambda>b. [])(128 := [176])) ((\<lambda>b. 0)(128 := 1)) [128] [128]"
    by (simp add: lists_ok_def)
  moreover have "block_slots sample_slab = (\<lambda>b. [b + 32, b + 48])" by (rule ext) (rule sample_slots)
  ultimately show ?thesis
    unfolding slab_ok_def by (simp only:) (simp add: sample_slab_def sample_config_def)
qed

lemma sample_used: "slab_used sample_slab = {160}"
proof -
  have "set (blocks sample_slab) = {128}" "entries sample_slab 128 = [176]"
    by (simp_all add: sample_slab_def)
  then show ?thesis by (auto simp: slab_used_def sample_slots)
qed

theorem slab_alloc_never_twice_witness:
  "slab_ok sample_slab \<and> fresh_block sample_pages sample_slab 192 \<and>
    fst (slab_alloc sample_pages sample_slab 192) = Some 176 \<and>
    slab_used (fst (snd (slab_alloc sample_pages sample_slab 192))) = {160, 176}"
proof -
  have f: "fresh_block sample_pages sample_slab 192"
    by (simp add: fresh_block_def sample_pages_def sample_slab_def sample_config_def)
  obtain s' where a: "slab_alloc sample_pages sample_slab 192 = (Some 176, s', 192)"
    by (simp add: slab_alloc_def slab_take_def sample_slab_def Let_def)
  show ?thesis using slab_alloc_never_twice [OF sample_ok f] a f sample_ok by (auto simp: sample_used)
qed

theorem slab_free_releases_witness:
  "slab_ok sample_slab \<and> 160 \<in> slab_used sample_slab \<and>
    slab_used (fst (slab_free (\<lambda>b pg. pg) sample_slab 160 (0 :: nat))) = {}"
  using slab_free_releases [OF sample_ok, of 160 "\<lambda>b pg. pg" "0 :: nat"] sample_ok by (simp add: sample_used)

end
