(* ===== verification/Set_Hash.thy ===== *)
theory Set_Hash
  imports Eo_Prelude
begin

section \<open>The hash table (\<^verbatim>\<open>lib/libnc/set/hash.c\<close>, \<^verbatim>\<open>include/set/hash.h\<close>)\<close>

text \<open>
  A chained hash table with a fixed number of entries. An entry is its index in the array
  \<^verbatim>\<open>entries\<close>; the chains and the list of spare entries are HOL lists of indices, front first, which
  the linked lists of \<^verbatim>\<open>list.h\<close> implement (\<^verbatim>\<open>Set_List\<close>). The function pointers \<^verbatim>\<open>calc\<close> and \<^verbatim>\<open>cmp\<close> are
  arguments; the locale \<^verbatim>\<open>hashing\<close> states what the table relies on. The lemmas show that the table is
  a map of bounded capacity.
\<close>

abbreviation (input) HASH_OK :: int where "HASH_OK \<equiv> 0"
abbreviation (input) HASH_ERR :: int where "HASH_ERR \<equiv> 1"
abbreviation (input) HASH_MIN_BITS :: nat where "HASH_MIN_BITS \<equiv> 5"
abbreviation (input) HASH_MAX_BITS :: nat where "HASH_MAX_BITS \<equiv> 20"

record ('k, 'v) hash =
  h_size :: nat
  h_num :: nat
  h_max :: nat
  spares :: "nat list"
  tbl :: "nat list list"
  e_key :: "nat \<Rightarrow> 'k option"
  e_value :: "nat \<Rightarrow> 'v option"

definition primes :: "nat list" where
  "primes = [31, 61, 127, 251, 509, 1021, 2039, 4093,
     8191, 16381, 32749, 65521, 131071, 262139, 524287, 1048573]"

fun bits_loop :: "u32 \<Rightarrow> nat \<Rightarrow> nat" where
  "bits_loop m n = (if n \<noteq> 0 \<and> \<not> bit m n then bits_loop m (n - 1) else n)"

definition calc_bits :: "u32 \<Rightarrow> nat" where
  "calc_bits m = bits_loop m 31 + 1"

definition init_list :: "nat \<Rightarrow> nat list" where
  "init_list n = fold (\<lambda>p l. l @ [p]) [0..<n] []"

definition init_tbl :: "nat \<Rightarrow> nat list list" where
  "init_tbl n = replicate n []"

definition hash_create :: "bool \<Rightarrow> bool \<Rightarrow> u32 \<Rightarrow> ('k, 'v) hash option" where
  "hash_create table_memory entry_memory m =
     (let bits = calc_bits m;
          bits = (if bits < HASH_MIN_BITS then HASH_MIN_BITS
                  else if bits > HASH_MAX_BITS then HASH_MAX_BITS else bits);
          sz = primes ! (bits - HASH_MIN_BITS)
      in if \<not> table_memory then None
         else if \<not> entry_memory then None
         else Some \<lparr>h_size = sz, h_num = 0, h_max = unat m, spares = init_list (unat m), tbl = init_tbl sz,
                    e_key = Map.empty, e_value = Map.empty\<rparr>)"

definition hash_clear :: "('k, 'v) hash \<Rightarrow> ('k, 'v) hash" where
  "hash_clear h = h\<lparr>h_num := 0, spares := init_list (h_max h), tbl := init_tbl (h_size h)\<rparr>"

type_synonym 'k hasher = "'k \<Rightarrow> nat \<Rightarrow> nat"
type_synonym 'k comparer = "'k \<Rightarrow> 'k \<Rightarrow> int"

fun find_entry :: "'k comparer \<Rightarrow> (nat \<Rightarrow> 'k option) \<Rightarrow> 'k \<Rightarrow> nat list \<Rightarrow> nat option" where
  "find_entry cmp key k [] = None"
| "find_entry cmp key k (p # ps) =
     (case key p of
        None \<Rightarrow> find_entry cmp key k ps
      | Some k' \<Rightarrow> if cmp k k' = 0 then Some p else find_entry cmp key k ps)"

definition hash_get :: "'k hasher \<Rightarrow> 'k comparer \<Rightarrow> ('k, 'v) hash \<Rightarrow> 'k \<Rightarrow> 'v option \<times> ('k, 'v) hash" where
  "hash_get calc cmp h k =
     (let i = calc k (h_size h); b = tbl h ! i
      in case find_entry cmp (e_key h) k b of
           None \<Rightarrow> (None, h)
         | Some p \<Rightarrow> (e_value h p, if p \<noteq> hd b then h\<lparr>tbl := (tbl h)[i := p # remove1 p b]\<rparr> else h))"

definition hash_put :: "'k hasher \<Rightarrow> 'k comparer \<Rightarrow> ('k, 'v) hash \<Rightarrow> 'k \<Rightarrow> 'v \<Rightarrow> int \<times> ('k, 'v) hash" where
  "hash_put calc cmp h k v =
     (let i = calc k (h_size h); b = tbl h ! i
      in case find_entry cmp (e_key h) k b of
           None \<Rightarrow>
             (case spares h of
                [] \<Rightarrow> (HASH_ERR, h)
              | p # ps \<Rightarrow>
                  (HASH_OK, h\<lparr>spares := ps, h_num := h_num h + 1, tbl := (tbl h)[i := p # b],
                              e_key := (e_key h)(p \<mapsto> k), e_value := (e_value h)(p \<mapsto> v)\<rparr>))
         | Some p \<Rightarrow> (HASH_OK, h\<lparr>e_key := (e_key h)(p \<mapsto> k), e_value := (e_value h)(p \<mapsto> v)\<rparr>))"

definition hash_remove :: "'k hasher \<Rightarrow> 'k comparer \<Rightarrow> ('k, 'v) hash \<Rightarrow> 'k \<Rightarrow> int \<times> ('k, 'v) hash" where
  "hash_remove calc cmp h k =
     (let i = calc k (h_size h); b = tbl h ! i
      in case find_entry cmp (e_key h) k b of
           None \<Rightarrow> (HASH_ERR, h)
         | Some p \<Rightarrow>
             (HASH_OK, h\<lparr>h_num := h_num h - 1, tbl := (tbl h)[i := remove1 p b],
                         e_key := (e_key h)(p := None), e_value := (e_value h)(p := None),
                         spares := p # spares h\<rparr>))"

definition num_entries :: "('k, 'v) hash \<Rightarrow> nat" where
  "num_entries h = h_num h"

subsection \<open>Invariant\<close>

text \<open>The entries in the chains.\<close>

definition in_chains :: "nat list list \<Rightarrow> nat set" where
  "in_chains t = set (concat t)"

text \<open>Every chain holds entries whose keys belong there, and no key twice.\<close>

definition chains_ok :: "'k hasher \<Rightarrow> nat \<Rightarrow> nat list list \<Rightarrow> (nat \<Rightarrow> 'k option) \<Rightarrow> bool" where
  "chains_ok calc sz t key \<longleftrightarrow> 0 < sz \<and> length t = sz \<and>
     (\<forall>i < sz. distinct (t ! i) \<and> inj_on key (set (t ! i)) \<and> (\<forall>p\<in>set (t ! i). \<exists>k. key p = Some k \<and> calc k sz = i))"

definition hash_ok :: "'k hasher \<Rightarrow> ('k, 'v) hash \<Rightarrow> bool" where
  "hash_ok calc h \<longleftrightarrow> chains_ok calc (h_size h) (tbl h) (e_key h) \<and>
     distinct (spares h) \<and> set (spares h) \<inter> in_chains (tbl h) = {} \<and>
     set (spares h) \<union> in_chains (tbl h) = {0..<h_max h} \<and> h_num h = card (in_chains (tbl h)) \<and>
     (\<forall>p\<in>in_chains (tbl h). e_value h p \<noteq> None)"

text \<open>The map the table represents.\<close>

definition hash_map :: "('k, 'v) hash \<Rightarrow> 'k \<Rightarrow> 'v option" where
  "hash_map h k =
     (case filter (\<lambda>p. e_key h p = Some k) (concat (tbl h)) of [] \<Rightarrow> None | p # ps \<Rightarrow> e_value h p)"

lemma in_chains_nth: "p \<in> in_chains t \<longleftrightarrow> (\<exists>i < length t. p \<in> set (t ! i))"
  by (simp add: in_chains_def) (metis in_set_conv_nth)

lemma chains_okD:
  assumes "chains_ok calc sz t key"
  shows "0 < sz" and "length t = sz" and "\<And>i. i < sz \<Longrightarrow> distinct (t ! i)"
    and "\<And>i p q. i < sz \<Longrightarrow> p \<in> set (t ! i) \<Longrightarrow> q \<in> set (t ! i) \<Longrightarrow> key p = key q \<Longrightarrow> p = q"
    and "\<And>i p. i < sz \<Longrightarrow> p \<in> set (t ! i) \<Longrightarrow> \<exists>k. key p = Some k \<and> calc k sz = i"
  using assms by (auto simp: chains_ok_def inj_on_def)

lemma chain_of_key:
  assumes "chains_ok calc sz t key" and "i < sz" and "p \<in> set (t ! i)" and "key p = Some k"
  shows "i = calc k sz"
  using chains_okD(5) [OF assms(1-3)] assms(4) by simp

lemma key_unique:
  assumes c: "chains_ok calc sz t key" and "p \<in> in_chains t" "q \<in> in_chains t" "key p = Some k" "key q = Some k"
  shows "p = q"
proof -
  obtain i j where i: "i < sz" "p \<in> set (t ! i)" and j: "j < sz" "q \<in> set (t ! j)"
    using assms chains_okD(2) [OF c] by (auto simp: in_chains_nth)
  have "i = j" using chain_of_key [OF c i assms(4)] chain_of_key [OF c j assms(5)] by simp
  then show ?thesis using chains_okD(4) [OF c i(1,2)] j(2) assms(4,5) by simp
qed

lemma hash_map_iff:
  assumes "chains_ok calc (h_size h) (tbl h) (e_key h)"
  shows "hash_map h k = Some v \<longleftrightarrow> (\<exists>p\<in>in_chains (tbl h). e_key h p = Some k \<and> e_value h p = Some v)"
proof (cases "filter (\<lambda>p. e_key h p = Some k) (concat (tbl h))")
  case Nil
  then have "\<forall>p\<in>in_chains (tbl h). e_key h p \<noteq> Some k" by (auto simp: filter_empty_conv in_chains_def)
  then show ?thesis using Nil by (auto simp: hash_map_def)
next
  case (Cons p ps)
  then have "p \<in> set (filter (\<lambda>p. e_key h p = Some k) (concat (tbl h)))" by simp
  then have p: "p \<in> in_chains (tbl h)" "e_key h p = Some k" by (auto simp: in_chains_def)
  have e: "hash_map h k = e_value h p" using Cons by (simp add: hash_map_def)
  have "\<forall>q\<in>in_chains (tbl h). e_key h q = Some k \<longrightarrow> q = p" using key_unique [OF assms _ p(1) _ p(2)] by blast
  then show ?thesis unfolding e using p by blast
qed

lemma in_chains_update:
  assumes "i < length t"
  shows "p \<in> in_chains (t[i := b]) \<longleftrightarrow> p \<in> set b \<or> (\<exists>j < length t. j \<noteq> i \<and> p \<in> set (t ! j))"
proof
  assume "p \<in> in_chains (t[i := b])"
  then obtain j where j: "j < length t" "p \<in> set (t[i := b] ! j)" by (auto simp: in_chains_nth)
  then show "p \<in> set b \<or> (\<exists>j < length t. j \<noteq> i \<and> p \<in> set (t ! j))" by (cases "j = i") auto
next
  assume "p \<in> set b \<or> (\<exists>j < length t. j \<noteq> i \<and> p \<in> set (t ! j))"
  then obtain j where "j < length t" "p \<in> set (t[i := b] ! j)"
  proof
    assume "p \<in> set b"
    then show ?thesis using assms that [of i] by simp
  next
    assume "\<exists>j < length t. j \<noteq> i \<and> p \<in> set (t ! j)"
    then show ?thesis using that by auto
  qed
  then show "p \<in> in_chains (t[i := b])" by (auto simp: in_chains_nth)
qed

text \<open>What one changed, added or removed entry does to the pairs of keys and values.\<close>

lemma pairs_change:
  assumes "p \<in> C" "key p = Some k" and u: "\<forall>q\<in>C. key q = Some k \<longrightarrow> q = p"
  shows "(\<exists>q\<in>C. key q = Some k' \<and> (val(p \<mapsto> v)) q = Some v') \<longleftrightarrow>
    (if k' = k then v = v' else \<exists>q\<in>C. key q = Some k' \<and> val q = Some v')"
proof (cases "k' = k")
  case True
  have "(\<exists>q\<in>C. key q = Some k' \<and> (val(p \<mapsto> v)) q = Some v') \<longleftrightarrow> (val(p \<mapsto> v)) p = Some v'"
    using assms True by blast
  then show ?thesis using True by simp
next
  case False
  have "(key q = Some k' \<and> (val(p \<mapsto> v)) q = Some v') \<longleftrightarrow> (key q = Some k' \<and> val q = Some v')" for q
    using False assms(2) by simp
  then show ?thesis using False by simp
qed

lemma pairs_add:
  assumes "p \<notin> C" and "\<forall>q\<in>C. key q \<noteq> Some k"
  shows "(\<exists>q\<in>insert p C. (key(p \<mapsto> k)) q = Some k' \<and> (val(p \<mapsto> v)) q = Some v') \<longleftrightarrow>
    (if k' = k then v = v' else \<exists>q\<in>C. key q = Some k' \<and> val q = Some v')"
proof -
  have "(\<exists>q\<in>C. (key(p \<mapsto> k)) q = Some k' \<and> (val(p \<mapsto> v)) q = Some v') \<longleftrightarrow>
      (\<exists>q\<in>C. key q = Some k' \<and> val q = Some v')"
    by (rule bex_cong [OF refl]) (use assms(1) in auto)
  then show ?thesis using assms(2) by (cases "k' = k") auto
qed

lemma pairs_remove:
  assumes "key p = Some k" and "\<forall>q\<in>C. key q = Some k \<longrightarrow> q = p"
  shows "(\<exists>q\<in>C - {p}. (key(p := None)) q = Some k' \<and> (val(p := None)) q = Some v') \<longleftrightarrow>
    k' \<noteq> k \<and> (\<exists>q\<in>C. key q = Some k' \<and> val q = Some v')"
proof -
  have "(\<exists>q\<in>C - {p}. (key(p := None)) q = Some k' \<and> (val(p := None)) q = Some v') \<longleftrightarrow>
      (\<exists>q\<in>C - {p}. key q = Some k' \<and> val q = Some v')"
    by (rule bex_cong [OF refl]) auto
  also have "\<dots> \<longleftrightarrow> k' \<noteq> k \<and> (\<exists>q\<in>C. key q = Some k' \<and> val q = Some v')"
    using assms by (cases "k' = k") auto
  finally show ?thesis .
qed

lemma map_eqI: "(\<And>k v. m k = Some v \<longleftrightarrow> n k = Some v) \<Longrightarrow> m = n"
  by (rule ext) (metis not_None_eq)

lemma chains_ok_update:
  assumes c: "chains_ok calc sz t key" and i: "i < sz"
    and keys: "\<And>p. p \<in> in_chains t \<Longrightarrow> p \<notin> set b \<Longrightarrow> p \<notin> set (t ! i) \<Longrightarrow> key' p = key p"
    and b: "distinct b" "inj_on key' (set b)" "\<And>p. p \<in> set b \<Longrightarrow> \<exists>k. key' p = Some k \<and> calc k sz = i"
    and out: "\<And>p j. j < sz \<Longrightarrow> j \<noteq> i \<Longrightarrow> p \<in> set (t ! j) \<Longrightarrow> p \<notin> set b \<and> p \<notin> set (t ! i)"
  shows "chains_ok calc sz (t[i := b]) key'"
proof -
  note d = chains_okD [OF c]
  have "distinct (t[i := b] ! j) \<and> inj_on key' (set (t[i := b] ! j)) \<and>
      (\<forall>p\<in>set (t[i := b] ! j). \<exists>k. key' p = Some k \<and> calc k sz = j)" if j: "j < sz" for j
  proof (cases "j = i")
    case True
    then show ?thesis using i d(2) b by simp
  next
    case False
    have eq: "key' p = key p" if "p \<in> set (t ! j)" for p
      using keys out [OF j False that] that j d(2) by (auto simp: in_chains_nth)
    have "inj_on key' (set (t ! j))" using eq d(4) [OF j] by (auto intro!: inj_onI)
    then show ?thesis using False d(3,5) [OF j] eq by simp
  qed
  then show ?thesis using d(1,2) by (simp add: chains_ok_def)
qed

subsection \<open>The operations\<close>

locale hashing =
  fixes calc :: "'k hasher" and cmp :: "'k comparer"
  assumes calc_range: "0 < n \<Longrightarrow> calc k n < n"
    and cmp_equal: "cmp a b = 0 \<longleftrightarrow> a = b"
begin

lemma find_entry_some: "find_entry cmp key k ps = Some p \<Longrightarrow> p \<in> set ps \<and> key p = Some k"
  by (induction ps) (auto simp: cmp_equal split: option.splits if_splits)

lemma find_entry_none: "find_entry cmp key k ps = None \<Longrightarrow> p \<in> set ps \<Longrightarrow> key p \<noteq> Some k"
  by (induction ps) (auto simp: cmp_equal split: option.splits if_splits)

lemma chains_disjoint:
  assumes "chains_ok calc sz t key" and "i < sz" "j < sz" "p \<in> set (t ! i)" "p \<in> set (t ! j)"
  shows "i = j"
  using chains_okD(5) [OF assms(1,2,4)] chains_okD(5) [OF assms(1,3,5)] by auto

lemma hash_get_ok:
  assumes ok: "hash_ok calc h"
  shows "fst (hash_get calc cmp h k) = hash_map h k" and "hash_ok calc (snd (hash_get calc cmp h k))"
    and "hash_map (snd (hash_get calc cmp h k)) = hash_map h"
proof -
  have c: "chains_ok calc (h_size h) (tbl h) (e_key h)" using ok by (simp add: hash_ok_def)
  note d = chains_okD [OF c]
  let ?i = "calc k (h_size h)" and ?b = "tbl h ! calc k (h_size h)"
  have i: "?i < h_size h" using d(1) by (rule calc_range)
  show "fst (hash_get calc cmp h k) = hash_map h k"
  proof (cases "find_entry cmp (e_key h) k ?b")
    case None
    have "e_key h p \<noteq> Some k" if pc: "p \<in> in_chains (tbl h)" for p
    proof
      assume k: "e_key h p = Some k"
      obtain j where j: "j < h_size h" "p \<in> set (tbl h ! j)" using pc d(2) by (auto simp: in_chains_nth)
      then show False using find_entry_none [OF None] chain_of_key [OF c j k] k by blast
    qed
    then have "hash_map h k = None" using hash_map_iff [OF c, of k] by (cases "hash_map h k") auto
    then show ?thesis using None by (simp add: hash_get_def Let_def)
  next
    case (Some p)
    have p: "p \<in> in_chains (tbl h)" "e_key h p = Some k"
      using find_entry_some [OF Some] i d(2) by (auto simp: in_chains_nth)
    then obtain v where "e_value h p = Some v" using ok by (auto simp: hash_ok_def)
    then have "hash_map h k = e_value h p" using hash_map_iff [OF c, of k v] p by auto
    then show ?thesis using Some by (simp add: hash_get_def Let_def)
  qed
  have front: "hash_ok calc (h\<lparr>tbl := (tbl h)[?i := p # remove1 p ?b]\<rparr>) \<and>
      hash_map (h\<lparr>tbl := (tbl h)[?i := p # remove1 p ?b]\<rparr>) = hash_map h" if p: "p \<in> set ?b" for p
  proof -
    let ?t = "(tbl h)[?i := p # remove1 p ?b]"
    have set: "set (p # remove1 p ?b) = set ?b" using p d(3) [OF i] by auto
    have c': "chains_ok calc (h_size h) ?t (e_key h)"
    proof (rule chains_ok_update [OF c i])
      show "distinct (p # remove1 p ?b)" using d(3) [OF i] by simp
      show "inj_on (e_key h) (set (p # remove1 p ?b))" using d(4) [OF i] unfolding set by (auto intro: inj_onI)
      show "\<exists>k'. e_key h q = Some k' \<and> calc k' (h_size h) = ?i" if "q \<in> set (p # remove1 p ?b)" for q
        using d(5) [OF i] that unfolding set by blast
      show "q \<notin> set (p # remove1 p ?b) \<and> q \<notin> set ?b" if "j < h_size h" "j \<noteq> ?i" "q \<in> set (tbl h ! j)" for q j
        using chains_disjoint [OF c that(1) i that(3)] that(2) unfolding set by blast
    qed simp
    have l: "in_chains ?t = in_chains (tbl h)"
      using in_chains_update [of ?i "tbl h"] i d(2) set by (auto simp: in_chains_nth)
    let ?h = "h\<lparr>tbl := ?t\<rparr>"
    have ok': "hash_ok calc ?h" using ok c' l by (simp add: hash_ok_def)
    have "hash_map ?h k' = Some v \<longleftrightarrow> hash_map h k' = Some v" for k' v
      using hash_map_iff [of calc ?h k' v] hash_map_iff [OF c, of k' v] c' l by simp
    then have "hash_map ?h k' = hash_map h k'" for k' by (cases "hash_map h k'") (auto, metis not_None_eq)
    then show ?thesis using ok' by auto
  qed
  show "hash_ok calc (snd (hash_get calc cmp h k))" "hash_map (snd (hash_get calc cmp h k)) = hash_map h"
    using front find_entry_some [of "e_key h" k ?b] ok
    by (auto simp: hash_get_def Let_def split: option.splits)
qed

lemma hash_put_ok:
  assumes ok: "hash_ok calc h"
  shows "hash_ok calc (snd (hash_put calc cmp h k v))"
    and "if hash_map h k = None \<and> h_num h = h_max h then hash_put calc cmp h k v = (HASH_ERR, h)
      else fst (hash_put calc cmp h k v) = HASH_OK \<and> hash_map (snd (hash_put calc cmp h k v)) = (hash_map h)(k \<mapsto> v)"
proof -
  have c: "chains_ok calc (h_size h) (tbl h) (e_key h)" using ok by (simp add: hash_ok_def)
  note d = chains_okD [OF c]
  let ?i = "calc k (h_size h)" and ?b = "tbl h ! calc k (h_size h)"
  have i: "?i < h_size h" using d(1) by (rule calc_range)
  have look: "fst (hash_get calc cmp h k) = hash_map h k" by (rule hash_get_ok(1) [OF ok])
  have count: "h_num h = h_max h \<longleftrightarrow> spares h = []"
  proof -
    have "card (set (spares h) \<union> in_chains (tbl h)) = length (spares h) + h_num h"
      using ok by (subst card_Un_disjoint) (auto simp: hash_ok_def distinct_card in_chains_def)
    then show ?thesis using ok by (simp add: hash_ok_def)
  qed
  have "hash_ok calc (snd (hash_put calc cmp h k v)) \<and>
    (if hash_map h k = None \<and> h_num h = h_max h then hash_put calc cmp h k v = (HASH_ERR, h)
     else fst (hash_put calc cmp h k v) = HASH_OK \<and> hash_map (snd (hash_put calc cmp h k v)) = (hash_map h)(k \<mapsto> v))"
  proof (cases "find_entry cmp (e_key h) k ?b")
    case (Some p)
    let ?h = "h\<lparr>e_key := (e_key h)(p \<mapsto> k), e_value := (e_value h)(p \<mapsto> v)\<rparr>"
    have p: "p \<in> set ?b" "e_key h p = Some k" using find_entry_some [OF Some] by auto
    have pc: "p \<in> in_chains (tbl h)" using p i d(2) by (auto simp: in_chains_nth)
    have uniq: "\<forall>q\<in>in_chains (tbl h). e_key h q = Some k \<longrightarrow> q = p" using key_unique [OF c _ pc _ p(2)] by blast
    have key: "(e_key h)(p \<mapsto> k) = e_key h" using p(2) by auto
    have c': "chains_ok calc (h_size ?h) (tbl ?h) (e_key ?h)" using c key by simp
    have ok': "hash_ok calc ?h" using ok c' by (auto simp: hash_ok_def)
    have "hash_map ?h = (hash_map h)(k \<mapsto> v)"
    proof (rule map_eqI)
      fix k' v'
      have 1: "hash_map ?h k' = Some v' \<longleftrightarrow>
          (\<exists>q\<in>in_chains (tbl h). e_key h q = Some k' \<and> ((e_value h)(p \<mapsto> v)) q = Some v')"
        using hash_map_iff [OF c', of k' v'] key by simp
      show "hash_map ?h k' = Some v' \<longleftrightarrow> ((hash_map h)(k \<mapsto> v)) k' = Some v'"
        unfolding 1 pairs_change [where key = "e_key h", OF pc p(2) uniq]
        using hash_map_iff [OF c, of k' v'] by simp
    qed
    moreover have "hash_map h k \<noteq> None"
    proof -
      have "hash_map h k = e_value h p" using look Some by (simp add: hash_get_def Let_def)
      then show ?thesis using ok pc by (auto simp: hash_ok_def)
    qed
    ultimately show ?thesis using Some ok' by (simp add: hash_put_def Let_def)
  next
    case None
    have none: "hash_map h k = None" using look None by (simp add: hash_get_def Let_def)
    show ?thesis
    proof (cases "spares h")
      case Nil
      then show ?thesis using None none count ok by (simp add: hash_put_def Let_def)
    next
      case (Cons p ps)
      let ?t = "(tbl h)[?i := p # ?b]" and ?key = "(e_key h)(p \<mapsto> k)"
      let ?h = "h\<lparr>spares := ps, h_num := h_num h + 1, tbl := ?t, e_key := ?key, e_value := (e_value h)(p \<mapsto> v)\<rparr>"
      have fresh: "p \<notin> in_chains (tbl h)" "p \<notin> set ps" using ok Cons by (auto simp: hash_ok_def)
      have pb: "p \<notin> set (tbl h ! j)" if "j < h_size h" for j using fresh(1) that d(2) by (auto simp: in_chains_nth)
      have nk: "\<And>q. q \<in> set ?b \<Longrightarrow> e_key h q \<noteq> Some k" by (rule find_entry_none [OF None])
      have c': "chains_ok calc (h_size h) ?t ?key"
      proof (rule chains_ok_update [OF c i])
        show "distinct (p # ?b)" using d(3) [OF i] pb [OF i] by simp
        show "inj_on ?key (set (p # ?b))"
        proof -
          have "inj_on ?key (set ?b)" using d(4) [OF i] pb [OF i] by (intro inj_onI) (auto split: if_splits)
          moreover have "?key p \<notin> ?key ` set ?b" using nk pb [OF i] by auto (metis)
          ultimately show ?thesis using pb [OF i] by simp
        qed
        show "\<exists>k'. ?key q = Some k' \<and> calc k' (h_size h) = ?i" if "q \<in> set (p # ?b)" for q
          using d(5) [OF i] that by auto
        show "q \<notin> set (p # ?b) \<and> q \<notin> set ?b" if "j < h_size h" "j \<noteq> ?i" "q \<in> set (tbl h ! j)" for q j
          using chains_disjoint [OF c that(1) i that(3)] that pb [OF that(1)] by auto
      qed auto
      have l: "in_chains ?t = insert p (in_chains (tbl h))"
        using in_chains_update [of ?i "tbl h"] i d(2) by (auto simp: in_chains_nth)
      have part: "set ps \<inter> insert p (in_chains (tbl h)) = {}"
        "set ps \<union> insert p (in_chains (tbl h)) = {0..<h_max h}" "distinct ps"
        using ok Cons fresh by (auto simp: hash_ok_def)
      have "card (insert p (in_chains (tbl h))) = h_num h + 1"
        using ok fresh(1) by (simp add: hash_ok_def in_chains_def)
      then have ok': "hash_ok calc ?h" using ok c' l part by (auto simp: hash_ok_def)
      have keys: "\<forall>q\<in>in_chains (tbl h). e_key h q \<noteq> Some k"
        using hash_map_iff [OF c, of k] none ok by (auto simp: hash_ok_def)
      have c2: "chains_ok calc (h_size ?h) (tbl ?h) (e_key ?h)" using c' by simp
      have "hash_map ?h = (hash_map h)(k \<mapsto> v)"
      proof (rule map_eqI)
        fix k' v'
        have 1: "hash_map ?h k' = Some v' \<longleftrightarrow>
            (\<exists>q\<in>insert p (in_chains (tbl h)). ?key q = Some k' \<and> ((e_value h)(p \<mapsto> v)) q = Some v')"
          using hash_map_iff [OF c2, of k' v'] l by simp
        show "hash_map ?h k' = Some v' \<longleftrightarrow> ((hash_map h)(k \<mapsto> v)) k' = Some v'"
          unfolding 1 pairs_add [where key = "e_key h", OF fresh(1) keys] using hash_map_iff [OF c, of k' v'] by simp
      qed
      then show ?thesis using None Cons ok' count by (simp add: hash_put_def Let_def)
    qed
  qed
  then show "hash_ok calc (snd (hash_put calc cmp h k v))"
    and "if hash_map h k = None \<and> h_num h = h_max h then hash_put calc cmp h k v = (HASH_ERR, h)
      else fst (hash_put calc cmp h k v) = HASH_OK \<and> hash_map (snd (hash_put calc cmp h k v)) = (hash_map h)(k \<mapsto> v)"
    by blast+
qed

lemma hash_remove_ok:
  assumes ok: "hash_ok calc h"
  shows "hash_ok calc (snd (hash_remove calc cmp h k))"
    and "fst (hash_remove calc cmp h k) = (if hash_map h k = None then HASH_ERR else HASH_OK)"
    and "hash_map (snd (hash_remove calc cmp h k)) = (hash_map h)(k := None)"
proof -
  have c: "chains_ok calc (h_size h) (tbl h) (e_key h)" using ok by (simp add: hash_ok_def)
  note d = chains_okD [OF c]
  let ?i = "calc k (h_size h)" and ?b = "tbl h ! calc k (h_size h)"
  have i: "?i < h_size h" using d(1) by (rule calc_range)
  have look: "fst (hash_get calc cmp h k) = hash_map h k" by (rule hash_get_ok(1) [OF ok])
  have "hash_ok calc (snd (hash_remove calc cmp h k)) \<and>
    fst (hash_remove calc cmp h k) = (if hash_map h k = None then HASH_ERR else HASH_OK) \<and>
    hash_map (snd (hash_remove calc cmp h k)) = (hash_map h)(k := None)"
  proof (cases "find_entry cmp (e_key h) k ?b")
    case None
    then have "hash_map h k = None" using look by (simp add: hash_get_def Let_def)
    then show ?thesis using None ok by (simp add: hash_remove_def Let_def fun_upd_idem)
  next
    case (Some p)
    let ?t = "(tbl h)[?i := remove1 p ?b]" and ?key = "(e_key h)(p := None)"
    let ?h = "h\<lparr>h_num := h_num h - 1, tbl := ?t, e_key := ?key, e_value := (e_value h)(p := None), spares := p # spares h\<rparr>"
    have p: "p \<in> set ?b" "e_key h p = Some k" using find_entry_some [OF Some] by auto
    have pc: "p \<in> in_chains (tbl h)" using p i d(2) by (auto simp: in_chains_nth)
    have uniq: "\<forall>q\<in>in_chains (tbl h). e_key h q = Some k \<longrightarrow> q = p" using key_unique [OF c _ pc _ p(2)] by blast
    have only: "p \<notin> set (tbl h ! j)" if "j < h_size h" "j \<noteq> ?i" for j
      using chains_disjoint [OF c that(1) i] p(1) that(2) by blast
    have set: "set (remove1 p ?b) = set ?b - {p}" using d(3) [OF i] by simp
    have c': "chains_ok calc (h_size h) ?t ?key"
    proof (rule chains_ok_update [OF c i])
      show "distinct (remove1 p ?b)" using d(3) [OF i] by simp
      show "inj_on ?key (set (remove1 p ?b))" unfolding set
        using d(4) [OF i] by (intro inj_onI) (auto split: if_splits)
      show "\<exists>k'. ?key q = Some k' \<and> calc k' (h_size h) = ?i" if "q \<in> set (remove1 p ?b)" for q
        using d(5) [OF i] that unfolding set by auto
      show "q \<notin> set (remove1 p ?b) \<and> q \<notin> set ?b" if "j < h_size h" "j \<noteq> ?i" "q \<in> set (tbl h ! j)" for q j
        using chains_disjoint [OF c that(1) i that(3)] that(2) unfolding set by blast
    qed (use p in auto)
    have l: "in_chains ?t = in_chains (tbl h) - {p}"
      using in_chains_update [of ?i "tbl h"] i d(2) set only by (auto simp: in_chains_nth)
    have fin: "finite (in_chains (tbl h))" by (simp add: in_chains_def)
    have "card (in_chains (tbl h) - {p}) = h_num h - 1" using ok pc fin by (simp add: hash_ok_def)
    moreover have "p \<notin> set (spares h)" "set (p # spares h) \<inter> (in_chains (tbl h) - {p}) = {}"
      "set (p # spares h) \<union> (in_chains (tbl h) - {p}) = {0..<h_max h}"
      using ok pc by (auto simp: hash_ok_def)
    ultimately have ok': "hash_ok calc ?h" using ok c' l by (auto simp: hash_ok_def)
    have c2: "chains_ok calc (h_size ?h) (tbl ?h) (e_key ?h)" using c' by simp
    have "hash_map ?h = (hash_map h)(k := None)"
    proof (rule map_eqI)
      fix k' v'
      have 1: "hash_map ?h k' = Some v' \<longleftrightarrow>
          (\<exists>q\<in>in_chains (tbl h) - {p}. ?key q = Some k' \<and> ((e_value h)(p := None)) q = Some v')"
        using hash_map_iff [OF c2, of k' v'] l by simp
      show "hash_map ?h k' = Some v' \<longleftrightarrow> ((hash_map h)(k := None)) k' = Some v'"
        unfolding 1 pairs_remove [where key = "e_key h", OF p(2) uniq]
        using hash_map_iff [OF c, of k' v'] by simp
    qed
    moreover have "hash_map h k \<noteq> None"
    proof -
      have "hash_map h k = e_value h p" using look Some by (simp add: hash_get_def Let_def)
      then show ?thesis using ok pc by (auto simp: hash_ok_def)
    qed
    ultimately show ?thesis using Some ok' by (simp add: hash_remove_def Let_def)
  qed
  then show "hash_ok calc (snd (hash_remove calc cmp h k))"
    and "fst (hash_remove calc cmp h k) = (if hash_map h k = None then HASH_ERR else HASH_OK)"
    and "hash_map (snd (hash_remove calc cmp h k)) = (hash_map h)(k := None)"
    by blast+
qed

end

subsection \<open>Creation\<close>

lemma init_list_upt: "init_list n = [0..<n]"
proof -
  have "fold (\<lambda>p l. l @ [p]) xs ys = ys @ xs" for xs ys :: "nat list"
    by (induction xs arbitrary: ys) auto
  then show ?thesis by (simp add: init_list_def)
qed

lemma primes_pos: "i < 16 \<Longrightarrow> 0 < primes ! i"
proof -
  assume "i < 16"
  then have "primes ! i \<in> set primes" by (intro nth_mem) (simp add: primes_def)
  then show ?thesis by (auto simp: primes_def)
qed

lemma in_chains_init [simp]: "in_chains (init_tbl n) = {}"
  by (auto simp: in_chains_def init_tbl_def)

lemma hash_create_ok:
  assumes "hash_create table_memory entry_memory m = Some h"
  shows "hash_ok calc h" and "hash_map h = Map.empty" and "h_max h = unat m"
proof -
  define bits where "bits = calc_bits m"
  define bb where "bb = (if bits < HASH_MIN_BITS then HASH_MIN_BITS else if bits > HASH_MAX_BITS then HASH_MAX_BITS else bits)"
  have "bb - HASH_MIN_BITS < 16" unfolding bb_def by (simp split: if_split) linarith
  then have pos: "0 < primes ! (bb - HASH_MIN_BITS)" by (rule primes_pos)
  have h: "h = \<lparr>h_size = primes ! (bb - HASH_MIN_BITS), h_num = 0, h_max = unat m, spares = [0..<unat m],
      tbl = init_tbl (primes ! (bb - HASH_MIN_BITS)), e_key = Map.empty, e_value = Map.empty\<rparr>"
    using assms unfolding hash_create_def Let_def bits_def [symmetric] bb_def [symmetric] init_list_upt
    by (auto split: if_splits)
  have c: "chains_ok calc (primes ! (bb - HASH_MIN_BITS)) (init_tbl (primes ! (bb - HASH_MIN_BITS))) Map.empty"
    using pos by (simp add: chains_ok_def init_tbl_def)
  then show "hash_ok calc h" unfolding h by (simp add: hash_ok_def atLeast_upt [symmetric])
  have "concat (tbl h) = []" by (simp add: h init_tbl_def)
  then show "hash_map h = Map.empty" unfolding hash_map_def fun_eq_iff by (simp del: concat_eq_Nil_conv)
  show "h_max h = unat m" by (simp add: h)
qed

lemma dom_hash_map:
  assumes ok: "hash_ok calc h"
  shows "card (dom (hash_map h)) = h_num h"
proof -
  have c: "chains_ok calc (h_size h) (tbl h) (e_key h)" using ok by (simp add: hash_ok_def)
  have some: "\<exists>k. e_key h p = Some k" if "p \<in> in_chains (tbl h)" for p
    using that chains_okD(2,5) [OF c] by (auto simp: in_chains_nth)
  have inj: "inj_on (\<lambda>p. the (e_key h p)) (in_chains (tbl h))"
  proof (rule inj_onI)
    fix p q
    assume a: "p \<in> in_chains (tbl h)" "q \<in> in_chains (tbl h)" "the (e_key h p) = the (e_key h q)"
    then show "p = q" using some [OF a(1)] some [OF a(2)] key_unique [OF c a(1,2)] by auto
  qed
  have "dom (hash_map h) = (\<lambda>p. the (e_key h p)) ` in_chains (tbl h)"
  proof (intro set_eqI iffI)
    fix k
    assume "k \<in> dom (hash_map h)"
    then obtain v where "hash_map h k = Some v" by blast
    then obtain p where "p \<in> in_chains (tbl h)" "e_key h p = Some k" using hash_map_iff [OF c, of k v] by blast
    then show "k \<in> (\<lambda>p. the (e_key h p)) ` in_chains (tbl h)" by force
  next
    fix k
    assume "k \<in> (\<lambda>p. the (e_key h p)) ` in_chains (tbl h)"
    then obtain p where p: "p \<in> in_chains (tbl h)" "k = the (e_key h p)" by blast
    then have "e_key h p = Some k" using some [OF p(1)] by auto
    moreover obtain v where "e_value h p = Some v" using ok p(1) by (auto simp: hash_ok_def)
    ultimately have "hash_map h k = Some v" using hash_map_iff [OF c, of k v] p(1) by blast
    then show "k \<in> dom (hash_map h)" by blast
  qed
  then show ?thesis using card_image [OF inj] ok by (simp add: hash_ok_def)
qed

subsection \<open>The table as a map of bounded capacity\<close>

datatype ('k, 'v) hash_op = Get 'k | Put 'k 'v | Remove 'k
datatype 'v hash_result = Found "'v option" | Code int

fun hash_step ::
  "'k hasher \<Rightarrow> 'k comparer \<Rightarrow> ('k, 'v) hash_op \<Rightarrow> ('k, 'v) hash \<Rightarrow> 'v hash_result \<times> ('k, 'v) hash" where
  "hash_step calc cmp (Get k) h = (case hash_get calc cmp h k of (r, h) \<Rightarrow> (Found r, h))"
| "hash_step calc cmp (Put k v) h = (case hash_put calc cmp h k v of (r, h) \<Rightarrow> (Code r, h))"
| "hash_step calc cmp (Remove k) h = (case hash_remove calc cmp h k of (r, h) \<Rightarrow> (Code r, h))"

fun hash_run ::
  "'k hasher \<Rightarrow> 'k comparer \<Rightarrow> ('k, 'v) hash_op list \<Rightarrow> ('k, 'v) hash \<Rightarrow> 'v hash_result list" where
  "hash_run calc cmp [] h = []"
| "hash_run calc cmp (x # xs) h = (case hash_step calc cmp x h of (r, h) \<Rightarrow> r # hash_run calc cmp xs h)"

text \<open>The specification: a finite map that accepts a new key only below its capacity.\<close>

fun map_step :: "nat \<Rightarrow> ('k, 'v) hash_op \<Rightarrow> ('k \<rightharpoonup> 'v) \<Rightarrow> 'v hash_result \<times> ('k \<rightharpoonup> 'v)" where
  "map_step cap (Get k) m = (Found (m k), m)"
| "map_step cap (Put k v) m =
     (if m k = None \<and> card (dom m) = cap then (Code HASH_ERR, m) else (Code HASH_OK, m(k \<mapsto> v)))"
| "map_step cap (Remove k) m = (Code (if m k = None then HASH_ERR else HASH_OK), m(k := None))"

fun map_run :: "nat \<Rightarrow> ('k, 'v) hash_op list \<Rightarrow> ('k \<rightharpoonup> 'v) \<Rightarrow> 'v hash_result list" where
  "map_run cap [] m = []"
| "map_run cap (x # xs) m = (case map_step cap x m of (r, m) \<Rightarrow> r # map_run cap xs m)"

lemma hash_max_kept:
  "h_max (snd (hash_get calc cmp h k)) = h_max h" "h_max (snd (hash_put calc cmp h k v)) = h_max h"
  "h_max (snd (hash_remove calc cmp h k)) = h_max h"
  by (auto simp: hash_get_def hash_put_def hash_remove_def Let_def split: option.splits list.splits)

context hashing
begin

lemma step_refines:
  assumes ok: "hash_ok calc h"
  shows "hash_ok calc (snd (hash_step calc cmp x h)) \<and> h_max (snd (hash_step calc cmp x h)) = h_max h \<and>
    map_step (h_max h) x (hash_map h) = (fst (hash_step calc cmp x h), hash_map (snd (hash_step calc cmp x h)))"
proof (cases x)
  case (Get k)
  then show ?thesis using hash_get_ok [OF ok, of k] hash_max_kept(1) [of calc cmp h k] by (simp add: case_prod_beta)
next
  case (Put k v)
  then show ?thesis
    using hash_put_ok [OF ok, of k v] hash_max_kept(2) [of calc cmp h k v] dom_hash_map [OF ok]
    by (simp add: case_prod_beta split: if_splits)
next
  case (Remove k)
  then show ?thesis using hash_remove_ok [OF ok, of k] hash_max_kept(3) [of calc cmp h k] by (simp add: case_prod_beta)
qed

lemma run_refines: "hash_ok calc h \<Longrightarrow> hash_run calc cmp xs h = map_run (h_max h) xs (hash_map h)"
proof (induction xs arbitrary: h)
  case (Cons x xs)
  note st = step_refines [OF Cons.prems, of x]
  show ?case
    using Cons.IH [of "snd (hash_step calc cmp x h)"] st by (simp add: case_prod_beta)
qed simp

end

text \<open>
  C14. A hash table is a finite map: for a hash function into the table and a comparison that is zero
  on equal keys, the results of any sequence of lookups, insertions and removals on a freshly created
  table are those of a map that refuses a new key only when it already holds as many keys as the
  table has entries.
\<close>

theorem hash_is_a_map:
  assumes "hashing calc cmp" and "hash_create table_memory entry_memory m = Some h"
  shows "hash_run calc cmp xs h = map_run (unat m) xs Map.empty"
  using hashing.run_refines [OF assms(1) hash_create_ok(1) [OF assms(2)]] hash_create_ok(2,3) [OF assms(2)]
  by simp

definition sample_hash :: "(int, int) hash" where
  "sample_hash = \<lparr>h_size = 31, h_num = 0, h_max = 1, spares = [0], tbl = replicate 31 [],
     e_key = Map.empty, e_value = Map.empty\<rparr>"

lemma sample_created: "hash_create True True 1 = Some sample_hash"
proof -
  have "bits_loop 1 n = 0" for n by (induction n) (auto simp: bit_1_iff)
  then have "calc_bits 1 = 1" by (simp add: calc_bits_def)
  then show ?thesis
    by (simp add: hash_create_def Let_def primes_def init_list_upt init_tbl_def sample_hash_def)
qed

theorem hash_is_a_map_witness:
  "hashing (\<lambda>k n. nat (k mod int n)) (\<lambda>a b. a - b) \<and> hash_create True True 1 = Some sample_hash \<and>
    hash_run (\<lambda>k n. nat (k mod int n)) (\<lambda>a b. a - b) [Put 3 7, Put 34 8, Get 3, Remove 3] sample_hash =
      [Code 0, Code 1, Found (Some 7), Code 0]"
proof -
  have h: "hashing (\<lambda>k n. nat (k mod int n)) (\<lambda>a b. a - b)"
    by unfold_locales (simp_all add: nat_less_iff)
  show ?thesis using hash_is_a_map [OF h sample_created, of "[Put 3 7, Put 34 8, Get 3, Remove 3]"] h sample_created
    by simp
qed

end
