(* ===== verification/Vfs_Cache.thy ===== *)
theory Vfs_Cache
  imports Set_Hash
begin

section \<open>The block cache (\<^verbatim>\<open>lib/libvfs/cache.c\<close>)\<close>

text \<open>
  The cache of disk blocks of the file systems: a fixed array of slots, a hash table from block and
  device channel to the slot, and the lists of free, unlocked and locked slots. A buffer pointer is
  the index of its slot. The functions \<^verbatim>\<open>read\<close> and \<^verbatim>\<open>write\<close> of the block device are arguments on the
  state of the devices; the locale \<^verbatim>\<open>block_device\<close> states what the cache relies on. The lemmas show that
  the cache is transparent: a block read through it has the contents last stored in it.
\<close>

type_synonym bkey = "u32 \<times> int"

abbreviation (input) MAX_CACHE :: nat where "MAX_CACHE \<equiv> 128"

definition calc_hash :: "bkey hasher" where
  "calc_hash k n = unat (fst k) mod n"

definition compare :: "bkey comparer" where
  "compare x y =
     (if fst x = fst y then
        if snd x = snd y then 0 else if snd x < snd y then - 1 else 1
      else if sint (fst x) < sint (fst y) then - 1 else 1)"

record 'b slot =
  block_no :: u32
  channel :: int
  dirty :: bool
  lock_count :: nat
  buf :: 'b

record 'b cache =
  ch_hash :: "(bkey, nat) hash"
  ch_slot :: "nat \<Rightarrow> 'b slot"
  free_list :: "nat list"
  lru_list :: "nat list"
  locked_list :: "nat list"

type_synonym ('b, 'd) dev_read = "bkey \<Rightarrow> 'd \<Rightarrow> bool \<times> 'b"
type_synonym ('b, 'd) dev_write = "bkey \<Rightarrow> 'b \<Rightarrow> 'd \<Rightarrow> int \<times> 'd"

abbreviation slot_key :: "'b cache \<Rightarrow> nat \<Rightarrow> bkey" where
  "slot_key c p \<equiv> (block_no (ch_slot c p), channel (ch_slot c p))"

definition set_slot :: "'b cache \<Rightarrow> nat \<Rightarrow> 'b slot \<Rightarrow> 'b cache" where
  "set_slot c p s = c\<lparr>ch_slot := (ch_slot c)(p := s)\<rparr>"

definition unlink :: "nat \<Rightarrow> 'b cache \<Rightarrow> 'b cache" where
  "unlink p c = c\<lparr>free_list := remove1 p (free_list c), lru_list := remove1 p (lru_list c),
     locked_list := remove1 p (locked_list c)\<rparr>"

definition cache_initialize :: "bool \<Rightarrow> bool \<Rightarrow> 'b cache \<Rightarrow> int \<times> 'b cache" where
  "cache_initialize table_memory entry_memory c =
     (case hash_create table_memory entry_memory (of_nat MAX_CACHE) of
        None \<Rightarrow> (- 1, c)
      | Some h \<Rightarrow>
          (0, c\<lparr>ch_hash := h, free_list := fold (\<lambda>i l. l @ [i]) [0..<MAX_CACHE] [],
                lru_list := [], locked_list := []\<rparr>))"

definition sweep :: "('b, 'd) dev_write \<Rightarrow> 'b cache \<Rightarrow> nat \<Rightarrow> 'd \<Rightarrow> int \<times> 'd" where
  "sweep dwr c p d = dwr (slot_key c p) (buf (ch_slot c p)) d"

definition dispose :: "'b cache \<Rightarrow> nat \<Rightarrow> 'b cache" where
  "dispose c p =
     (let c = unlink p c; c = c\<lparr>free_list := p # free_list c\<rparr>
      in c\<lparr>ch_hash := snd (hash_remove calc_hash compare (ch_hash c) (slot_key c p))\<rparr>)"

text \<open>The choice of a slot, which \<^verbatim>\<open>cache_create\<close> and \<^verbatim>\<open>cache_get\<close> share.\<close>

definition take_slot :: "('b, 'd) dev_write \<Rightarrow> 'b cache \<Rightarrow> 'd \<Rightarrow> nat option \<times> 'b cache \<times> 'd" where
  "take_slot dwr c d =
     (case free_list c of
        p # ps \<Rightarrow> (Some p, c, d)
      | [] \<Rightarrow>
          (case lru_list c of
             p # ps \<Rightarrow>
               (case (if dirty (ch_slot c p) then sweep dwr c p d else (0, d)) of
                  (e, d) \<Rightarrow>
                    if e \<noteq> 0 then (None, c, d)
                    else (Some p, c\<lparr>ch_hash := snd (hash_remove calc_hash compare (ch_hash c) (slot_key c p))\<rparr>, d))
           | [] \<Rightarrow> (None, c, d)))"

definition lock_slot :: "nat \<Rightarrow> 'b cache \<Rightarrow> 'b cache" where
  "lock_slot p c =
     (let c = set_slot c p ((ch_slot c p)\<lparr>lock_count := lock_count (ch_slot c p) + 1\<rparr>); c = unlink p c
      in c\<lparr>locked_list := p # locked_list c\<rparr>)"

definition cache_create ::
  "'b \<Rightarrow> ('b, 'd) dev_write \<Rightarrow> int \<Rightarrow> u32 \<Rightarrow> 'b cache \<Rightarrow> 'd \<Rightarrow> nat option \<times> 'b cache \<times> 'd" where
  "cache_create zeros dwr dev n c d =
     (case hash_get calc_hash compare (ch_hash c) (n, dev) of
        (cp, h) \<Rightarrow>
          let c = c\<lparr>ch_hash := h\<rparr>
          in case (case cp of
                     Some p \<Rightarrow> (Some p, c, d)
                   | None \<Rightarrow>
                       (case take_slot dwr c d of
                          (None, c, d) \<Rightarrow> (None, c, d)
                        | (Some p, c, d) \<Rightarrow>
                            (Some p,
                             (set_slot c p ((ch_slot c p)\<lparr>channel := dev, block_no := n, dirty := False, lock_count := 0\<rparr>))
                               \<lparr>ch_hash := snd (hash_put calc_hash compare (ch_hash c) (n, dev) p)\<rparr>, d)))
             of (None, c, d) \<Rightarrow> (None, c, d)
              | (Some p, c, d) \<Rightarrow>
                  let c = lock_slot p c
                  in (Some p, set_slot c p ((ch_slot c p)\<lparr>buf := zeros\<rparr>), d))"

definition cache_get ::
  "('b, 'd) dev_read \<Rightarrow> ('b, 'd) dev_write \<Rightarrow> int \<Rightarrow> u32 \<Rightarrow> 'b cache \<Rightarrow> 'd \<Rightarrow> nat option \<times> 'b cache \<times> 'd" where
  "cache_get drd dwr dev n c d =
     (case hash_get calc_hash compare (ch_hash c) (n, dev) of
        (cp, h) \<Rightarrow>
          let c = c\<lparr>ch_hash := h\<rparr>
          in case (case cp of
                     Some p \<Rightarrow> (Some p, c, d)
                   | None \<Rightarrow>
                       (case take_slot dwr c d of
                          (None, c, d) \<Rightarrow> (None, c, d)
                        | (Some p, c, d) \<Rightarrow>
                            (case drd (n, dev) d of
                               (full, b) \<Rightarrow>
                                 let c = set_slot c p ((ch_slot c p)\<lparr>channel := dev, block_no := n, dirty := False,
                                           lock_count := 0, buf := b\<rparr>)
                                 in if \<not> full
                                    then (let c = unlink p c in (None, c\<lparr>free_list := p # free_list c\<rparr>, d))
                                    else (Some p, c\<lparr>ch_hash := snd (hash_put calc_hash compare (ch_hash c) (n, dev) p)\<rparr>, d))))
             of (None, c, d) \<Rightarrow> (None, c, d)
              | (Some p, c, d) \<Rightarrow> (Some p, lock_slot p c, d))"

definition cache_modify :: "nat option \<Rightarrow> 'b cache \<Rightarrow> bool \<times> 'b cache" where
  "cache_modify q c =
     (case q of None \<Rightarrow> (False, c) | Some p \<Rightarrow> (True, set_slot c p ((ch_slot c p)\<lparr>dirty := True\<rparr>)))"

definition cache_release :: "nat option \<Rightarrow> bool \<Rightarrow> 'b cache \<Rightarrow> bool \<times> 'b cache" where
  "cache_release q dirt c =
     (case q of
        None \<Rightarrow> (False, c)
      | Some p \<Rightarrow>
          let c = set_slot c p ((ch_slot c p)\<lparr>dirty := dirty (ch_slot c p) \<or> dirt\<rparr>)
          in (True,
              if lock_count (ch_slot c p) > 0 then
                let c = set_slot c p ((ch_slot c p)\<lparr>lock_count := lock_count (ch_slot c p) - 1\<rparr>)
                in if lock_count (ch_slot c p) = 0
                   then (let c = unlink p c in c\<lparr>lru_list := p # lru_list c\<rparr>) else c
              else c))"

definition cache_invalidate :: "int \<Rightarrow> u32 \<Rightarrow> 'b cache \<Rightarrow> bool \<times> 'b cache" where
  "cache_invalidate dev n c =
     (case hash_get calc_hash compare (ch_hash c) (n, dev) of
        (cp, h) \<Rightarrow>
          let c = c\<lparr>ch_hash := h\<rparr> in case cp of None \<Rightarrow> (False, c) | Some p \<Rightarrow> (True, dispose c p))"

text \<open>Writing back one slot; the flag is cleared when the device accepted the block.\<close>

definition clean_slot :: "('b, 'd) dev_write \<Rightarrow> nat \<Rightarrow> 'b cache \<Rightarrow> 'd \<Rightarrow> int \<times> 'b cache \<times> 'd" where
  "clean_slot dwr p c d =
     (if dirty (ch_slot c p) then
        (case sweep dwr c p d of
           (e, d) \<Rightarrow> if e \<noteq> 0 then (e, c, d) else (0, set_slot c p ((ch_slot c p)\<lparr>dirty := False\<rparr>), d))
      else (0, c, d))"

fun flush_lru :: "('b, 'd) dev_write \<Rightarrow> int \<Rightarrow> bool \<Rightarrow> nat list \<Rightarrow> 'b cache \<Rightarrow> 'd \<Rightarrow> int \<times> 'b cache \<times> 'd" where
  "flush_lru dwr dev unmount [] c d = (0, c, d)"
| "flush_lru dwr dev unmount (p # ps) c d =
     (if channel (ch_slot c p) \<noteq> dev then flush_lru dwr dev unmount ps c d
      else case clean_slot dwr p c d of
             (e, c, d) \<Rightarrow>
               if e \<noteq> 0 then (e, c, d)
               else flush_lru dwr dev unmount ps (if unmount then dispose c p else c) d)"

fun flush_locked :: "('b, 'd) dev_write \<Rightarrow> nat list \<Rightarrow> 'b cache \<Rightarrow> 'd \<Rightarrow> int \<times> 'b cache \<times> 'd" where
  "flush_locked dwr [] c d = (0, c, d)"
| "flush_locked dwr (p # ps) c d =
     (case clean_slot dwr p c d of
        (e, c, d) \<Rightarrow> if e \<noteq> 0 then (e, c, d) else flush_locked dwr ps c d)"

definition cache_flush :: "('b, 'd) dev_write \<Rightarrow> int \<Rightarrow> bool \<Rightarrow> 'b cache \<Rightarrow> 'd \<Rightarrow> int \<times> 'b cache \<times> 'd" where
  "cache_flush dwr dev unmount c d =
     (case flush_lru dwr dev unmount (lru_list c) c d of
        (e, c, d) \<Rightarrow> if e \<noteq> 0 then (e, c, d) else flush_locked dwr (locked_list c) c d)"

interpretation blocks: hashing calc_hash compare
  by unfold_locales (auto simp: calc_hash_def compare_def prod_eq_iff)

subsection \<open>Invariant\<close>

text \<open>Every slot is in exactly one of the three lists.\<close>

definition parts :: "nat \<Rightarrow> nat list \<Rightarrow> nat list \<Rightarrow> nat list \<Rightarrow> bool" where
  "parts N fr lr lk \<longleftrightarrow> distinct fr \<and> distinct lr \<and> distinct lk \<and>
     set fr \<inter> set lr = {} \<and> set fr \<inter> set lk = {} \<and> set lr \<inter> set lk = {} \<and>
     set fr \<union> set lr \<union> set lk = {0..<N}"

lemma parts_move:
  assumes "parts N fr lr lk" and "p < N"
  shows "parts N (remove1 p fr) (remove1 p lr) (p # remove1 p lk)"
    and "parts N (remove1 p fr) (p # remove1 p lr) (remove1 p lk)"
    and "parts N (p # remove1 p fr) (remove1 p lr) (remove1 p lk)"
  using assms by (auto simp: parts_def)

text \<open>
  The hash table and the slots agree on all slots but those of a set \<open>X\<close> in transit: slots in use are
  found under their own key, free slots are not found, and an unlocked slot that is not dirty has the
  contents of its block on the device.
\<close>

definition agree ::
  "nat set \<Rightarrow> (bkey \<Rightarrow> nat option) \<Rightarrow> (nat \<Rightarrow> 'b slot) \<Rightarrow> nat set \<Rightarrow> nat set \<Rightarrow> (bkey \<Rightarrow> 'b) \<Rightarrow> bool" where
  "agree X m slot lr lk cont \<longleftrightarrow>
     (\<forall>p\<in>(lr \<union> lk) - X. m (block_no (slot p), channel (slot p)) = Some p) \<and>
     (\<forall>k p. m k = Some p \<longrightarrow> p \<in> (lr \<union> lk) - X \<and> (block_no (slot p), channel (slot p)) = k) \<and>
     (\<forall>p\<in>lr - X. \<not> dirty (slot p) \<longrightarrow> buf (slot p) = cont (block_no (slot p), channel (slot p)))"

definition cache_rel :: "nat set \<Rightarrow> (bkey \<Rightarrow> 'b) \<Rightarrow> 'b cache \<Rightarrow> bool" where
  "cache_rel X cont c \<longleftrightarrow> hash_ok calc_hash (ch_hash c) \<and>
     parts (h_max (ch_hash c)) (free_list c) (lru_list c) (locked_list c) \<and>
     agree X (hash_map (ch_hash c)) (ch_slot c) (set (lru_list c)) (set (locked_list c)) cont"

abbreviation cache_ok :: "(bkey \<Rightarrow> 'b) \<Rightarrow> 'b cache \<Rightarrow> bool" where
  "cache_ok \<equiv> cache_rel {}"

text \<open>The contents of a block as a client of the cache sees it.\<close>

definition logical :: "'b cache \<Rightarrow> (bkey \<Rightarrow> 'b) \<Rightarrow> bkey \<Rightarrow> 'b" where
  "logical c cont k = (case hash_map (ch_hash c) k of Some p \<Rightarrow> buf (ch_slot c p) | None \<Rightarrow> cont k)"

lemma agreeD:
  assumes "agree X m slot lr lk cont"
  shows "\<And>p. p \<in> lr \<union> lk \<Longrightarrow> p \<notin> X \<Longrightarrow> m (block_no (slot p), channel (slot p)) = Some p"
    and "\<And>k p. m k = Some p \<Longrightarrow> p \<in> lr \<union> lk \<and> p \<notin> X \<and> (block_no (slot p), channel (slot p)) = k"
    and "\<And>p. p \<in> lr \<Longrightarrow> p \<notin> X \<Longrightarrow> \<not> dirty (slot p) \<Longrightarrow>
      buf (slot p) = cont (block_no (slot p), channel (slot p))"
  using assms by (auto simp: agree_def)

lemma slot_room:
  assumes rel: "cache_rel {p} cont c" and p: "p < h_max (ch_hash c)"
  shows "h_num (ch_hash c) \<noteq> h_max (ch_hash c)"
proof -
  let ?m = "hash_map (ch_hash c)" and ?N = "h_max (ch_hash c)"
  have a: "agree {p} ?m (ch_slot c) (set (lru_list c)) (set (locked_list c)) cont"
    and ok: "hash_ok calc_hash (ch_hash c)"
    and ps: "parts ?N (free_list c) (lru_list c) (locked_list c)"
    using rel by (simp_all add: cache_rel_def)
  have "inj_on (\<lambda>k. the (?m k)) (dom ?m)"
    using agreeD(2) [OF a] by (intro inj_onI) (auto, (metis prod.inject)+)
  then have "card (dom ?m) = card ((\<lambda>k. the (?m k)) ` dom ?m)" by (simp add: card_image)
  also have "\<dots> \<le> card ({0..<?N} - {p})"
  proof (rule card_mono)
    have "the (?m k) \<in> {0..<?N} - {p}" if k: "k \<in> dom ?m" for k
    proof -
      obtain q where q: "?m k = Some q" using k by blast
      have "q \<in> set (lru_list c) \<union> set (locked_list c)" "q \<noteq> p" using agreeD(2) [OF a q] by blast+
      then show ?thesis using q ps unfolding parts_def by auto
    qed
    then show "(\<lambda>k. the (?m k)) ` dom ?m \<subseteq> {0..<?N} - {p}" by blast
  qed simp
  also have "\<dots> < ?N" using p by simp
  finally show ?thesis using dom_hash_map [OF ok] by simp
qed

subsection \<open>Moves of a slot\<close>

lemma cache_rel_lookup:
  assumes "cache_rel X cont c" and "hash_get calc_hash compare (ch_hash c) k = (r, h)"
  shows "cache_rel X cont (c\<lparr>ch_hash := h\<rparr>)" and "r = hash_map (ch_hash c) k"
    and "hash_map h = hash_map (ch_hash c)" and "h_max h = h_max (ch_hash c)"
proof -
  have ok: "hash_ok calc_hash (ch_hash c)" using assms(1) by (simp add: cache_rel_def)
  note g = blocks.hash_get_ok [OF ok, of k] hash_max_kept(1) [of calc_hash compare "ch_hash c" k]
  show "cache_rel X cont (c\<lparr>ch_hash := h\<rparr>)" "r = hash_map (ch_hash c) k"
    "hash_map h = hash_map (ch_hash c)" "h_max h = h_max (ch_hash c)"
    using assms g by (simp_all add: cache_rel_def)
qed

lemma cache_rel_weaken:
  assumes "cache_ok cont c" and "p \<notin> set (lru_list c) \<union> set (locked_list c)"
  shows "cache_rel {p} cont c"
  using assms unfolding cache_rel_def agree_def by blast

lemma cache_rel_evict:
  assumes rel: "cache_ok cont c" and p: "p \<in> set (lru_list c)"
    and cont': "cont' (slot_key c p) = buf (ch_slot c p)" "\<And>k. k \<noteq> slot_key c p \<Longrightarrow> cont' k = cont k"
  defines "c' \<equiv> c\<lparr>ch_hash := snd (hash_remove calc_hash compare (ch_hash c) (slot_key c p))\<rparr>"
  shows "cache_rel {p} cont' c'" and "logical c' cont' = logical c cont"
    and "hash_map (ch_hash c') = (hash_map (ch_hash c))(slot_key c p := None)"
    and "h_max (ch_hash c') = h_max (ch_hash c)"
proof -
  have ok: "hash_ok calc_hash (ch_hash c)" using rel by (simp add: cache_rel_def)
  note r = blocks.hash_remove_ok [OF ok, of "slot_key c p"]
  show max: "h_max (ch_hash c') = h_max (ch_hash c)" by (simp add: c'_def hash_max_kept)
  show m: "hash_map (ch_hash c') = (hash_map (ch_hash c))(slot_key c p := None)" using r(3) by (simp add: c'_def)
  have a: "agree {} (hash_map (ch_hash c)) (ch_slot c) (set (lru_list c)) (set (locked_list c)) cont"
    using rel by (simp add: cache_rel_def)
  have own: "hash_map (ch_hash c) (slot_key c p) = Some p" using agreeD(1) [OF a] p by simp
  have other: "slot_key c q \<noteq> slot_key c p" if "q \<in> set (lru_list c) \<union> set (locked_list c)" "q \<noteq> p" for q
    using agreeD(1) [OF a that(1)] own that(2) by force
  have "agree {p} ((hash_map (ch_hash c))(slot_key c p := None)) (ch_slot c) (set (lru_list c))
      (set (locked_list c)) cont'"
    unfolding agree_def
  proof (intro conjI ballI allI impI)
    fix q
    assume q: "q \<in> set (lru_list c) \<union> set (locked_list c) - {p}"
    show "((hash_map (ch_hash c))(slot_key c p := None)) (slot_key c q) = Some q"
      using other [of q] agreeD(1) [OF a, of q] q by auto
  next
    fix k q
    assume k: "((hash_map (ch_hash c))(slot_key c p := None)) k = Some q"
    then have "k \<noteq> slot_key c p" "hash_map (ch_hash c) k = Some q" by (auto split: if_splits)
    then show "q \<in> set (lru_list c) \<union> set (locked_list c) - {p}" "slot_key c q = k"
      using agreeD(2) [OF a, of k q] by auto
  next
    fix q
    assume q: "q \<in> set (lru_list c) - {p}" "\<not> dirty (ch_slot c q)"
    show "buf (ch_slot c q) = cont' (slot_key c q)"
      using other [of q] agreeD(3) [OF a, of q] cont'(2) [of "slot_key c q"] q by auto
  qed
  then show "cache_rel {p} cont' c'"
    using rel r(1) max m by (simp add: cache_rel_def) (simp add: c'_def)
  have "ch_slot c' = ch_slot c" by (simp add: c'_def)
  then show "logical c' cont' = logical c cont"
    using m own cont' by (auto simp: logical_def fun_eq_iff split: option.splits)
qed

lemma cache_rel_drop:
  fixes s :: "'b slot"
  assumes "cache_rel {p} cont c" and "p < h_max (ch_hash c)"
  defines "c1 \<equiv> set_slot c p s"
  defines "c' \<equiv> (unlink p c1)\<lparr>free_list := p # free_list (unlink p c1)\<rparr>"
  shows "cache_ok cont c'" and "logical c' cont = logical c cont"
proof -
  have a: "agree {p} (hash_map (ch_hash c)) (ch_slot c) (set (lru_list c)) (set (locked_list c)) cont"
    and ps: "parts (h_max (ch_hash c)) (free_list c) (lru_list c) (locked_list c)"
    using assms(1) by (simp_all add: cache_rel_def)
  have f: "ch_hash c' = ch_hash c" "ch_slot c' = (ch_slot c)(p := s)" "free_list c' = p # remove1 p (free_list c)"
    "lru_list c' = remove1 p (lru_list c)" "locked_list c' = remove1 p (locked_list c)"
    by (simp_all add: c'_def c1_def unlink_def set_slot_def)
  have sets: "set (remove1 p (lru_list c)) = set (lru_list c) - {p}"
    "set (remove1 p (locked_list c)) = set (locked_list c) - {p}"
    using ps by (simp_all add: parts_def)
  have "agree {} (hash_map (ch_hash c)) ((ch_slot c)(p := s)) (set (lru_list c) - {p}) (set (locked_list c) - {p}) cont"
    using a unfolding agree_def by auto
  then show "cache_ok cont c'"
    using assms(1) parts_move(3) [OF ps assms(2)] unfolding cache_rel_def f sets by simp
  show "logical c' cont = logical c cont"
    using agreeD(2) [OF a] unfolding logical_def f by (auto simp: fun_eq_iff split: option.splits)
qed

text \<open>A slot in transit is entered under a new key and locked.\<close>

lemma cache_rel_enter:
  assumes rel: "cache_rel {p} cont c" and p: "p < h_max (ch_hash c)"
    and new: "hash_map (ch_hash c) k = None" and key: "(block_no s, channel s) = k"
  defines "c1 \<equiv> (set_slot c p s)\<lparr>ch_hash := snd (hash_put calc_hash compare (ch_hash c) k p)\<rparr>"
  shows "cache_ok cont (lock_slot p c1)" and "p \<in> set (locked_list (lock_slot p c1))"
    and "ch_slot (lock_slot p c1) p = s\<lparr>lock_count := lock_count s + 1\<rparr>"
    and "logical (lock_slot p c1) cont = (logical c cont)(k := buf s)"
proof -
  have a: "agree {p} (hash_map (ch_hash c)) (ch_slot c) (set (lru_list c)) (set (locked_list c)) cont"
    and ps: "parts (h_max (ch_hash c)) (free_list c) (lru_list c) (locked_list c)"
    and ok: "hash_ok calc_hash (ch_hash c)"
    using rel by (simp_all add: cache_rel_def)
  let ?h = "snd (hash_put calc_hash compare (ch_hash c) k p)" and ?s = "s\<lparr>lock_count := lock_count s + 1\<rparr>"
  have h: "hash_ok calc_hash ?h" "hash_map ?h = (hash_map (ch_hash c))(k \<mapsto> p)" "h_max ?h = h_max (ch_hash c)"
    using blocks.hash_put_ok [OF ok, of k p] slot_room [OF rel p] hash_max_kept(2) [of calc_hash compare "ch_hash c" k p]
    by (auto split: if_splits)
  let ?c = "lock_slot p c1"
  have f: "ch_hash ?c = ?h" "ch_slot ?c = (ch_slot c)(p := ?s)" "free_list ?c = remove1 p (free_list c)"
    "lru_list ?c = remove1 p (lru_list c)" "locked_list ?c = p # remove1 p (locked_list c)"
    by (simp_all add: c1_def lock_slot_def unlink_def set_slot_def Let_def)
  have sets: "set (remove1 p (lru_list c)) = set (lru_list c) - {p}"
    "set (p # remove1 p (locked_list c)) = insert p (set (locked_list c) - {p})"
    using ps by (simp_all add: parts_def)
  have other: "slot_key c q \<noteq> k" if "q \<in> set (lru_list c) \<union> set (locked_list c)" "q \<noteq> p" for q
    using agreeD(1) [OF a that(1)] that(2) new by force
  have "agree {} ((hash_map (ch_hash c))(k \<mapsto> p)) ((ch_slot c)(p := ?s)) (set (lru_list c) - {p})
      (insert p (set (locked_list c) - {p})) cont"
    unfolding agree_def
  proof (intro conjI ballI allI impI)
    fix q
    assume "q \<in> set (lru_list c) - {p} \<union> insert p (set (locked_list c) - {p}) - {}"
    then show "((hash_map (ch_hash c))(k \<mapsto> p)) (block_no (((ch_slot c)(p := ?s)) q), channel (((ch_slot c)(p := ?s)) q)) = Some q"
      using key other [of q] agreeD(1) [OF a, of q] by (cases "q = p") auto
  next
    fix k' q
    assume k': "((hash_map (ch_hash c))(k \<mapsto> p)) k' = Some q"
    have "q = p \<and> k' = k \<or> q \<noteq> p \<and> q \<in> set (lru_list c) \<union> set (locked_list c) \<and> slot_key c q = k'"
      using k' agreeD(2) [OF a, of k' q] by (auto split: if_splits)
    then show "q \<in> set (lru_list c) - {p} \<union> insert p (set (locked_list c) - {p}) - {}"
      "(block_no (((ch_slot c)(p := ?s)) q), channel (((ch_slot c)(p := ?s)) q)) = k'"
      using key by auto
  next
    fix q
    assume "q \<in> set (lru_list c) - {p} - {}" "\<not> dirty (((ch_slot c)(p := ?s)) q)"
    then show "buf (((ch_slot c)(p := ?s)) q) = cont (block_no (((ch_slot c)(p := ?s)) q), channel (((ch_slot c)(p := ?s)) q))"
      using agreeD(3) [OF a, of q] by simp
  qed
  then show "cache_ok cont ?c"
    using h parts_move(1) [OF ps p] unfolding cache_rel_def f sets by simp
  show "p \<in> set (locked_list ?c)" "ch_slot ?c p = ?s" by (simp_all add: f)
  show "logical ?c cont = (logical c cont)(k := buf s)"
    using h(2) agreeD(2) [OF a] unfolding logical_def f by (auto simp: fun_eq_iff split: option.splits)
qed

text \<open>A slot that is found is locked once more.\<close>

lemma cache_rel_hit:
  assumes rel: "cache_ok cont c" and hit: "hash_map (ch_hash c) k = Some p"
  shows "cache_ok cont (lock_slot p c)" and "p \<in> set (locked_list (lock_slot p c))"
    and "ch_slot (lock_slot p c) p = (ch_slot c p)\<lparr>lock_count := lock_count (ch_slot c p) + 1\<rparr>"
    and "slot_key c p = k" and "logical (lock_slot p c) cont = logical c cont" and "logical c cont k = buf (ch_slot c p)"
proof -
  have a: "agree {} (hash_map (ch_hash c)) (ch_slot c) (set (lru_list c)) (set (locked_list c)) cont"
    and ps: "parts (h_max (ch_hash c)) (free_list c) (lru_list c) (locked_list c)"
    using rel by (simp_all add: cache_rel_def)
  show key: "slot_key c p = k" using agreeD(2) [OF a hit] by blast
  let ?s = "(ch_slot c p)\<lparr>lock_count := lock_count (ch_slot c p) + 1\<rparr>" and ?c = "lock_slot p c"
  have f: "ch_hash ?c = ch_hash c" "ch_slot ?c = (ch_slot c)(p := ?s)" "free_list ?c = remove1 p (free_list c)"
    "lru_list ?c = remove1 p (lru_list c)" "locked_list ?c = p # remove1 p (locked_list c)"
    by (simp_all add: lock_slot_def unlink_def set_slot_def Let_def)
  have sets: "set (remove1 p (lru_list c)) = set (lru_list c) - {p}"
    "set (p # remove1 p (locked_list c)) = insert p (set (locked_list c) - {p})"
    using ps by (simp_all add: parts_def)
  have pin: "p \<in> set (lru_list c) \<union> set (locked_list c)" using agreeD(2) [OF a hit] by blast
  then have pN: "p < h_max (ch_hash c)" using ps by (auto simp: parts_def)
  have same: "(block_no (((ch_slot c)(p := ?s)) q), channel (((ch_slot c)(p := ?s)) q)) = slot_key c q"
    "buf (((ch_slot c)(p := ?s)) q) = buf (ch_slot c q)" "dirty (((ch_slot c)(p := ?s)) q) = dirty (ch_slot c q)" for q
    by auto
  have "agree {} (hash_map (ch_hash c)) ((ch_slot c)(p := ?s)) (set (lru_list c) - {p})
      (insert p (set (locked_list c) - {p})) cont"
    using a pin unfolding agree_def same by blast
  then show "cache_ok cont ?c"
    using rel parts_move(1) [OF ps pN] unfolding cache_rel_def f sets by simp
  show "p \<in> set (locked_list ?c)" "ch_slot ?c p = ?s" by (simp_all add: f)
  show "logical ?c cont = logical c cont"
    unfolding logical_def f by (auto simp: fun_eq_iff split: option.splits)
  show "logical c cont k = buf (ch_slot c p)" using hit by (simp add: logical_def)
qed

subsection \<open>The cache is transparent\<close>

locale block_device =
  fixes contents :: "'d \<Rightarrow> bkey \<Rightarrow> 'b" and drd :: "('b, 'd) dev_read" and dwr :: "('b, 'd) dev_write"
  assumes read_contents: "drd k d = (True, b) \<Longrightarrow> b = contents d k"
    and write_contents: "dwr k b d = (0, d') \<Longrightarrow> contents d' k = b"
    and write_others: "dwr k b d = (e, d') \<Longrightarrow> k' \<noteq> k \<Longrightarrow> contents d' k' = contents d k'"
begin

lemma take_slot_ok:
  assumes rel: "cache_ok (contents d) c" and take: "take_slot dwr c d = (r, c', d')"
  shows "case r of
      None \<Rightarrow> cache_ok (contents d') c' \<and> logical c' (contents d') = logical c (contents d) \<and> c' = c
    | Some p \<Rightarrow> cache_rel {p} (contents d') c' \<and> logical c' (contents d') = logical c (contents d) \<and>
        p < h_max (ch_hash c') \<and> (\<forall>k. hash_map (ch_hash c) k = None \<longrightarrow> hash_map (ch_hash c') k = None)"
proof -
  have a: "agree {} (hash_map (ch_hash c)) (ch_slot c) (set (lru_list c)) (set (locked_list c)) (contents d)"
    and ps: "parts (h_max (ch_hash c)) (free_list c) (lru_list c) (locked_list c)"
    using rel by (simp_all add: cache_rel_def)
  show ?thesis
  proof (cases "free_list c")
    case (Cons p fs)
    have "p \<notin> set (lru_list c) \<union> set (locked_list c)" "p < h_max (ch_hash c)"
      using ps Cons unfolding parts_def by auto
    then show ?thesis using take Cons cache_rel_weaken [OF rel] by (auto simp: take_slot_def)
  next
    case Nil
    show ?thesis
    proof (cases "lru_list c")
      case empty: Nil
      then show ?thesis using take Nil rel by (auto simp: take_slot_def)
    next
      case (Cons p ls)
      have pin: "p \<in> set (lru_list c)" and pN: "p < h_max (ch_hash c)" using ps Cons unfolding parts_def by auto
      have own: "hash_map (ch_hash c) (slot_key c p) = Some p" using agreeD(1) [OF a] pin by simp
      obtain e d1 where w: "(if dirty (ch_slot c p) then sweep dwr c p d else (0, d)) = (e, d1)" by fastforce
      have others: "contents d1 k = contents d k" if "k \<noteq> slot_key c p" for k
        using w that write_others [of "slot_key c p" _ d e d1 k] by (auto simp: sweep_def split: if_splits)
      show ?thesis
      proof (cases "e = 0")
        case True
        have "contents d1 (slot_key c p) = buf (ch_slot c p)"
          using w True write_contents [of "slot_key c p" _ d d1] agreeD(3) [OF a pin]
          by (auto simp: sweep_def split: if_splits)
        note ev = cache_rel_evict [OF rel pin this others]
        have "r = Some p" "d' = d1"
          "c' = c\<lparr>ch_hash := snd (hash_remove calc_hash compare (ch_hash c) (slot_key c p))\<rparr>"
          using take Nil Cons w True by (auto simp: take_slot_def)
        then show ?thesis using ev pN by simp
      next
        case False
        then have d: "dirty (ch_slot c p)" using w by (auto split: if_splits)
        have r: "r = None" "c' = c" "d' = d1" using take Nil Cons w False by (auto simp: take_slot_def)
        have eq: "buf (ch_slot c q) = contents d1 (slot_key c q)"
          if q: "q \<in> set (lru_list c)" "\<not> dirty (ch_slot c q)" for q
        proof -
          have "q \<noteq> p" using q d by blast
          then have "slot_key c q \<noteq> slot_key c p" using agreeD(1) [OF a, of q] q own by force
          then show ?thesis using others agreeD(3) [OF a, of q] q by simp
        qed
        have "cache_ok (contents d1) c" using rel eq unfolding cache_rel_def agree_def by blast
        moreover have "logical c (contents d1) = logical c (contents d)"
          using others own by (auto simp: logical_def fun_eq_iff split: option.splits) (metis option.distinct(1))
        ultimately show ?thesis using r by simp
      qed
    qed
  qed
qed

lemma cache_get_ok:
  assumes rel: "cache_ok (contents d) c" and get: "cache_get drd dwr dev n c d = (r, c', d')"
  shows "cache_ok (contents d') c'" and "logical c' (contents d') = logical c (contents d)"
    and "\<And>p. r = Some p \<Longrightarrow> slot_key c' p = (n, dev) \<and> p \<in> set (locked_list c') \<and>
      buf (ch_slot c' p) = logical c (contents d) (n, dev)"
proof -
  obtain cp h where g: "hash_get calc_hash compare (ch_hash c) (n, dev) = (cp, h)" by fastforce
  define c0 where "c0 = c\<lparr>ch_hash := h\<rparr>"
  note lk = cache_rel_lookup [OF rel g]
  have rel0: "cache_ok (contents d) c0" using lk(1) by (simp add: c0_def)
  have m0: "hash_map (ch_hash c0) = hash_map (ch_hash c)" using lk(3) by (simp add: c0_def)
  have log0: "logical c0 cont = logical c cont" for cont
  proof -
    have sl: "ch_slot c0 = ch_slot c" by (simp add: c0_def)
    show ?thesis unfolding logical_def m0 sl ..
  qed
  have "cache_ok (contents d') c' \<and> logical c' (contents d') = logical c (contents d) \<and>
    (\<forall>p. r = Some p \<longrightarrow> slot_key c' p = (n, dev) \<and> p \<in> set (locked_list c') \<and>
      buf (ch_slot c' p) = logical c (contents d) (n, dev))"
  proof (cases cp)
    case (Some p)
    then have "hash_map (ch_hash c0) (n, dev) = Some p" using lk(2) m0 by simp
    note hit = cache_rel_hit [OF rel0 this]
    have "r = Some p" "c' = lock_slot p c0" "d' = d"
      using get g Some unfolding cache_get_def c0_def [symmetric] by (simp_all add: c0_def)
    then show ?thesis using hit log0 by simp
  next
    case None
    then have none: "hash_map (ch_hash c0) (n, dev) = None" using lk(2) m0 by simp
    obtain q c1 d1 where t: "take_slot dwr c0 d = (q, c1, d1)" by (cases "take_slot dwr c0 d")
    note ts = take_slot_ok [OF rel0 t]
    show ?thesis
    proof (cases q)
      case q: None
      have "r = None" "c' = c1" "d' = d1"
        using get g None t q by (simp_all add: cache_get_def c0_def [symmetric])
      moreover have "cache_ok (contents d1) c1" "logical c1 (contents d1) = logical c0 (contents d)"
        using ts q by auto
      ultimately show ?thesis using log0 by simp
    next
      case (Some p)
      obtain full b where rb: "drd (n, dev) d1 = (full, b)" by fastforce
      define s where "s = (ch_slot c1 p)\<lparr>channel := dev, block_no := n, dirty := False, lock_count := 0, buf := b\<rparr>"
      have rel1: "cache_rel {p} (contents d1) c1" and log1: "logical c1 (contents d1) = logical c (contents d)"
        and pN: "p < h_max (ch_hash c1)" and none1: "hash_map (ch_hash c1) (n, dev) = None"
        using ts Some log0 none by auto
      show ?thesis
      proof (cases full)
        case False
        have "r = None" "d' = d1"
          "c' = (unlink p (set_slot c1 p s))\<lparr>free_list := p # free_list (unlink p (set_slot c1 p s))\<rparr>"
          using get g None t Some rb False by (simp_all add: cache_get_def c0_def [symmetric] s_def Let_def)
        then show ?thesis using cache_rel_drop [OF rel1 pN, of s] log1 by simp
      next
        case True
        have key: "(block_no s, channel s) = (n, dev)" by (simp add: s_def)
        note en = cache_rel_enter [OF rel1 pN none1 key]
        have res: "r = Some p" "d' = d1"
          "c' = lock_slot p ((set_slot c1 p s)\<lparr>ch_hash := snd (hash_put calc_hash compare (ch_hash c1) (n, dev) p)\<rparr>)"
          using get g None t Some rb True
          by (simp_all add: cache_get_def c0_def [symmetric] s_def Let_def) (simp_all add: set_slot_def)
        have b: "b = logical c1 (contents d1) (n, dev)"
          using read_contents [of "(n, dev)" d1 b] rb True none1 by (simp add: logical_def)
        then have "(logical c1 (contents d1))((n, dev) := buf s) = logical c (contents d)"
          using log1 by (simp add: s_def fun_eq_iff)
        then show ?thesis using en res b log1 by (simp add: s_def)
      qed
    qed
  qed
  then show "cache_ok (contents d') c'" and "logical c' (contents d') = logical c (contents d)"
    and "\<And>p. r = Some p \<Longrightarrow> slot_key c' p = (n, dev) \<and> p \<in> set (locked_list c') \<and>
      buf (ch_slot c' p) = logical c (contents d) (n, dev)"
    by blast+
qed

end

subsection \<open>The device of the host tools (\<^verbatim>\<open>app/tfs/block.c\<close>)\<close>

text \<open>
  A channel is an open file, of which the model has the bytes with zeros beyond its end, as
  \<^verbatim>\<open>block_read\<close> pads a short read. A block has \<^verbatim>\<open>DEFAULT_BLOCK_SIZE\<close> bytes. A negative offset is
  refused by \<^verbatim>\<open>lseek\<close>; the offset is computed with the 64 bits that \<^verbatim>\<open>size_t\<close> has on the host and does not wrap. The file
  system of the host is an argument: \<open>readable\<close> says whether \<^verbatim>\<open>read\<close> succeeds, and \<open>room\<close> how many bytes \<^verbatim>\<open>write\<close> takes.
\<close>

typedef block = "{xs :: u8 list. length xs = 512}"
  by (rule exI [of _ "replicate 512 0"]) simp

type_synonym files = "int \<Rightarrow> nat \<Rightarrow> u8"

definition zero_block :: block where
  "zero_block = Abs_block (replicate 512 0)"

definition file_block :: "files \<Rightarrow> bkey \<Rightarrow> block" where
  "file_block d k =
     (if sint (fst k) < 0 then zero_block
      else Abs_block (map (\<lambda>i. d (snd k) (nat (sint (fst k)) * 512 + i)) [0..<512]))"

definition block_read :: "(bkey \<Rightarrow> bool) \<Rightarrow> (block, files) dev_read" where
  "block_read readable k d =
     (if sint (fst k) < 0 \<or> \<not> readable k then (False, zero_block) else (True, file_block d k))"

definition block_write :: "(bkey \<Rightarrow> nat) \<Rightarrow> (block, files) dev_write" where
  "block_write room k b d =
     (let off = nat (sint (fst k)) * 512; n = min 512 (room k)
      in if sint (fst k) < 0 then (- 1, d)
         else (if n = 512 then 0 else - 1,
           d(snd k := (\<lambda>a. if off \<le> a \<and> a < off + n then Rep_block b ! (a - off) else d (snd k) a))))"

lemma file_write_same:
  assumes "\<not> sint (fst k) < 0" and "512 \<le> room k"
  shows "file_block (snd (block_write room k b d)) k = b"
proof -
  have "map (\<lambda>i. snd (block_write room k b d) (snd k) (nat (sint (fst k)) * 512 + i)) [0..<512] = Rep_block b"
    using Rep_block [of b] assms by (intro nth_equalityI) (auto simp: block_write_def Let_def)
  then show ?thesis using assms unfolding file_block_def by (simp only: Rep_block_inverse if_False)
qed

lemma block_offsets_apart:
  assumes "nat a \<noteq> nat b" and "i < 512"
  shows "\<not> (nat b * 512 \<le> nat a * 512 + i \<and> nat a * 512 + i < nat b * 512 + min 512 n)"
  using assms by linarith

lemma file_write_other:
  assumes "k' \<noteq> k"
  shows "file_block (snd (block_write room k b d)) k' = file_block d k'"
proof (cases "sint (fst k') < 0 \<or> sint (fst k) < 0 \<or> snd k' \<noteq> snd k")
  case True
  then show ?thesis by (auto simp: file_block_def block_write_def Let_def)
next
  case False
  have "sint (fst k') \<noteq> sint (fst k)"
    using assms False by (metis prod.expand signed_word_eqI)
  then have ne: "nat (sint (fst k')) \<noteq> nat (sint (fst k))" using False by linarith
  have "map (\<lambda>i. snd (block_write room k b d) (snd k') (nat (sint (fst k')) * 512 + i)) [0..<512] =
      map (\<lambda>i. d (snd k') (nat (sint (fst k')) * 512 + i)) [0..<512]"
    using False block_offsets_apart [OF ne]
    by (intro map_cong refl) (auto simp: block_write_def Let_def)
  then show ?thesis unfolding file_block_def by (simp only:)
qed

interpretation host: block_device file_block "block_read readable" "block_write room" for readable room
proof
  fix k and d :: files and b
  show "block_read readable k d = (True, b) \<Longrightarrow> b = file_block d k" by (auto simp: block_read_def split: if_splits)
next
  fix k b and d d' :: files
  assume a: "block_write room k b d = (0, d')"
  then have "\<not> sint (fst k) < 0" "512 \<le> room k" by (auto simp: block_write_def Let_def split: if_splits)
  then show "file_block d' k = b" using file_write_same [of k room b d] a by simp
next
  fix k b and d :: files and e d' k'
  assume "block_write room k b d = (e, d')" "k' \<noteq> k"
  then show "file_block d' k' = file_block d k'" using file_write_other [of k' k room b d] by simp
qed

subsection \<open>Properties\<close>

text \<open>
  C3. The block cache is transparent: whatever is cached, evicted or written back on the way, and
  also when a transfer fails, getting a block changes the contents of no block as seen through the
  cache, and a buffer it returns belongs to the block asked for, is locked, and holds its contents.
\<close>

theorem cache_get_transparent:
  assumes "block_device contents drd dwr" and "cache_ok (contents d) c"
    and "cache_get drd dwr dev n c d = (r, c', d')"
  shows "cache_ok (contents d') c' \<and> logical c' (contents d') = logical c (contents d) \<and>
    (\<forall>p. r = Some p \<longrightarrow> slot_key c' p = (n, dev) \<and> p \<in> set (locked_list c') \<and>
      buf (ch_slot c' p) = logical c (contents d) (n, dev))"
  using block_device.cache_get_ok [OF assms] by blast

text \<open>A cache of one slot over the files of the host tools.\<close>

definition empty_cache :: "block cache" where
  "empty_cache = \<lparr>ch_hash = \<lparr>h_size = 31, h_num = 0, h_max = 1, spares = [0], tbl = replicate 31 [],
       e_key = Map.empty, e_value = Map.empty\<rparr>,
     ch_slot = (\<lambda>p. \<lparr>block_no = 0, channel = 0, dirty = False, lock_count = 0, buf = zero_block\<rparr>),
     free_list = [0], lru_list = [], locked_list = []\<rparr>"

lemma empty_cache_ok: "cache_ok cont empty_cache"
proof -
  have h: "hash_ok calc (\<lparr>h_size = 31, h_num = 0, h_max = Suc 0, spares = [0], tbl = replicate 31 [],
      e_key = Map.empty, e_value = Map.empty\<rparr> :: (bkey, nat) hash)" for calc
    by (auto simp: hash_ok_def chains_ok_def in_chains_def)
  have m: "hash_map (\<lparr>h_size = 31, h_num = 0, h_max = Suc 0, spares = [0], tbl = replicate 31 [],
      e_key = Map.empty, e_value = Map.empty\<rparr> :: (bkey, nat) hash) = Map.empty"
    by (simp add: hash_map_def fun_eq_iff)
  show ?thesis by (simp add: cache_rel_def empty_cache_def h m parts_def agree_def)
qed

theorem cache_get_transparent_witness:
  "block_device file_block (block_read (\<lambda>_. True)) (block_write (\<lambda>_. 512)) \<and> cache_ok (file_block (\<lambda>ch a. 7)) empty_cache \<and>
    (\<exists>c' d'. cache_get (block_read (\<lambda>_. True)) (block_write (\<lambda>_. 512)) 3 1 empty_cache (\<lambda>ch a. 7) = (Some 0, c', d') \<and>
      buf (ch_slot c' 0) = logical empty_cache (file_block (\<lambda>ch a. 7)) (1, 3))"
proof -
  have h: "block_device file_block (block_read (\<lambda>_. True)) (block_write (\<lambda>_. 512))" by unfold_locales
  obtain c' d' where g: "cache_get (block_read (\<lambda>_. True)) (block_write (\<lambda>_. 512)) 3 1 empty_cache (\<lambda>ch a. 7) = (Some 0, c', d')"
    by (simp add: cache_get_def hash_get_def calc_hash_def empty_cache_def take_slot_def block_read_def Let_def)
  from cache_get_transparent [OF h empty_cache_ok g] g h empty_cache_ok show ?thesis by blast
qed

lemma cache_release_ok:
  assumes rel: "cache_ok cont c" and p: "p \<in> set (locked_list c)"
    and honest: "dirt \<or> dirty (ch_slot c p) \<or> buf (ch_slot c p) = cont (slot_key c p)"
  shows "cache_ok cont (snd (cache_release (Some p) dirt c))"
    and "logical (snd (cache_release (Some p) dirt c)) cont = logical c cont"
proof -
  let ?s0 = "(ch_slot c p)\<lparr>dirty := dirty (ch_slot c p) \<or> dirt\<rparr>" and ?n = "lock_count (ch_slot c p)"
  let ?s = "if ?n > 0 then ?s0\<lparr>lock_count := ?n - 1\<rparr> else ?s0" and ?c = "snd (cache_release (Some p) dirt c)"
  have a: "agree {} (hash_map (ch_hash c)) (ch_slot c) (set (lru_list c)) (set (locked_list c)) cont"
    and ps: "parts (h_max (ch_hash c)) (free_list c) (lru_list c) (locked_list c)"
    using rel by (simp_all add: cache_rel_def)
  have pN: "p < h_max (ch_hash c)" and pl: "p \<notin> set (lru_list c)" using ps p unfolding parts_def by auto
  have f: "ch_hash ?c = ch_hash c" "ch_slot ?c = (ch_slot c)(p := ?s)"
    by (auto simp: cache_release_def Let_def set_slot_def unlink_def)
  have same: "(block_no (((ch_slot c)(p := ?s)) q), channel (((ch_slot c)(p := ?s)) q)) = slot_key c q"
    "buf (((ch_slot c)(p := ?s)) q) = buf (ch_slot c q)" for q
    by auto
  have dirt: "dirty (((ch_slot c)(p := ?s)) q) = (if q = p then dirty (ch_slot c p) \<or> dirt else dirty (ch_slot c q))" for q
    by auto
  show "logical ?c cont = logical c cont" unfolding logical_def f same ..
  show "cache_ok cont ?c"
  proof (cases "?n = 1")
    case True
    have l: "free_list ?c = remove1 p (free_list c)" "lru_list ?c = p # remove1 p (lru_list c)"
      "locked_list ?c = remove1 p (locked_list c)"
      using True by (simp_all add: cache_release_def Let_def set_slot_def unlink_def)
    have sets: "set (p # remove1 p (lru_list c)) = insert p (set (lru_list c))"
      "set (remove1 p (locked_list c)) = set (locked_list c) - {p}"
      using ps by (auto simp: parts_def)
    have "agree {} (hash_map (ch_hash c)) ((ch_slot c)(p := ?s)) (insert p (set (lru_list c)))
        (set (locked_list c) - {p}) cont"
      using a p honest unfolding agree_def same dirt by auto
    then show ?thesis
      using rel parts_move(2) [OF ps pN] unfolding cache_rel_def f l sets by simp
  next
    case False
    have l: "free_list ?c = free_list c" "lru_list ?c = lru_list c" "locked_list ?c = locked_list c"
      using False by (auto simp: cache_release_def Let_def set_slot_def)
    have "agree {} (hash_map (ch_hash c)) ((ch_slot c)(p := ?s)) (set (lru_list c)) (set (locked_list c)) cont"
      using a pl unfolding agree_def same dirt by auto
    then show ?thesis using rel unfolding cache_rel_def f l by simp
  qed
qed

text \<open>
  C32. The next slot the cache evicts is the one released last: after the last lock of a buffer is
  released with no free slot left, a block that is not cached takes over the slot of that buffer,
  although other slots have been unused for longer.
\<close>

theorem cache_evicts_newest:
  assumes "free_list c = []" and "lock_count (ch_slot c p) = 1" and "lru_list c \<noteq> []" and "p \<notin> set (lru_list c)"
    and "take_slot dwr (snd (cache_release (Some p) False c)) d = (Some q, c', d')"
  shows "q = p \<and> (\<forall>x\<in>set (lru_list c). q \<noteq> x)"
proof -
  have "free_list (snd (cache_release (Some p) False c)) = []"
    "lru_list (snd (cache_release (Some p) False c)) = p # remove1 p (lru_list c)"
    using assms(1,2) by (simp_all add: cache_release_def Let_def set_slot_def unlink_def)
  then show ?thesis using assms(4,5) by (auto simp: take_slot_def split: prod.splits if_splits)
qed

definition busy_cache :: "nat cache" where
  "busy_cache = \<lparr>ch_hash = \<lparr>h_size = 31, h_num = 0, h_max = 2, spares = [0, 1], tbl = replicate 31 [],
       e_key = Map.empty, e_value = Map.empty\<rparr>,
     ch_slot = (\<lambda>p. \<lparr>block_no = of_nat p, channel = 0, dirty = False, lock_count = p, buf = 0\<rparr>),
     free_list = [], lru_list = [0], locked_list = [1]\<rparr>"

theorem cache_evicts_newest_witness:
  "lru_list busy_cache = [0] \<and>
    fst (take_slot (\<lambda>k b d. (0, d)) (snd (cache_release (Some 1) False busy_cache)) (0 :: nat)) = Some 1"
proof -
  have "free_list busy_cache = []" "lock_count (ch_slot busy_cache 1) = 1" "lru_list busy_cache \<noteq> []"
    "1 \<notin> set (lru_list busy_cache)"
    by (simp_all add: busy_cache_def)
  moreover obtain q c' d' where
    "take_slot (\<lambda>k b d. (0, d)) (snd (cache_release (Some 1) False busy_cache)) (0 :: nat) = (Some q, c', d')"
    by (simp add: busy_cache_def cache_release_def take_slot_def set_slot_def unlink_def Let_def)
  ultimately show ?thesis using cache_evicts_newest [of busy_cache 1 "\<lambda>k b d. (0, d)" "0 :: nat" q c' d']
    by (simp add: busy_cache_def)
qed

text \<open>
  Releasing a locked buffer keeps the cache consistent and the contents of every block as seen
  through it, provided the caller declares a change: the buffer is dirty, or is declared dirty now,
  or holds what the device holds.
\<close>

theorem cache_release_keeps:
  assumes "cache_ok cont c" and "p \<in> set (locked_list c)"
    and "dirt \<or> dirty (ch_slot c p) \<or> buf (ch_slot c p) = cont (slot_key c p)"
  shows "fst (cache_release (Some p) dirt c) \<and> cache_ok cont (snd (cache_release (Some p) dirt c)) \<and>
    logical (snd (cache_release (Some p) dirt c)) cont = logical c cont"
proof -
  have "fst (cache_release (Some p) dirt c)" by (simp add: cache_release_def Let_def)
  then show ?thesis using cache_release_ok [OF assms] by blast
qed

theorem cache_release_keeps_witness:
  "\<exists>c'. cache_get (block_read (\<lambda>_. True)) (block_write (\<lambda>_. 512)) 3 1 empty_cache (\<lambda>ch a. 7) = (Some 0, c', \<lambda>ch a. 7) \<and>
    cache_ok (file_block (\<lambda>ch a. 7)) (snd (cache_release (Some 0) True c'))"
proof -
  obtain c' where g: "cache_get (block_read (\<lambda>_. True)) (block_write (\<lambda>_. 512)) 3 1 empty_cache (\<lambda>ch a. 7) = (Some 0, c', \<lambda>ch a. 7)"
    by (simp add: cache_get_def hash_get_def calc_hash_def empty_cache_def take_slot_def block_read_def Let_def)
  note t = host.cache_get_ok [OF empty_cache_ok g]
  then have "0 \<in> set (locked_list c')" by blast
  then show ?thesis using cache_release_keeps [OF t(1), of 0 True] g by blast
qed

end
