(* ===== verification/Drv_Copy.thy ===== *)
theory Drv_Copy
  imports Nc_String
begin

section \<open>Copying between address spaces (\<^verbatim>\<open>drivers/i686\<close>: \<^verbatim>\<open>address.c\<close>, \<^verbatim>\<open>memcpy.c\<close>, \<^verbatim>\<open>strncpy.c\<close>, \<^verbatim>\<open>scattered_copy.c\<close>)\<close>

text \<open>
  Addresses are natural numbers; the loops advance them modulo \<open>2 ^ 32\<close>, as pointers do. The blocks that
  \<^verbatim>\<open>memcpy\<close> copies are ranges that do not wrap: within one page on the user side, and on the kernel side
  by the assumption of the theorem. The kernel reads the page tables of a thread through its
  mapping of physical memory: \<open>pte a\<close> is the 32-bit word at address \<open>a\<close>, and the copied bytes are a
  memory of their own, as page tables are not written by these functions. The lemmas show that
  \<^verbatim>\<open>memcpy_k2u\<close> moves every byte to the frame its user address is mapped to, across page borders, and
  reports a hole in the mapping.
\<close>

abbreviation (input) PAGE_SIZE :: nat where "PAGE_SIZE \<equiv> 4096"
abbreviation (input) PAGE_PRESENT :: u32 where "PAGE_PRESENT \<equiv> 1"
abbreviation (input) PAGE_ADDR_MASK :: u32 where "PAGE_ADDR_MASK \<equiv> 0xfffff000"

definition addr32 :: "nat \<Rightarrow> nat" where
  "addr32 a = a mod 2 ^ 32"

definition getDirectoryOffset :: "nat \<Rightarrow> nat" where
  "getDirectoryOffset a = addr32 a div 4194304"

definition getPageOffset :: "nat \<Rightarrow> nat" where
  "getPageOffset a = a div 4096 mod 1024"

definition getOffset :: "nat \<Rightarrow> nat" where
  "getOffset a = a mod 4096"

definition frame :: "u32 \<Rightarrow> nat" where
  "frame e = unat ((e AND PAGE_ADDR_MASK) OR 0x80000000)"

definition getPageAddress :: "(nat \<Rightarrow> u32) \<Rightarrow> nat \<Rightarrow> nat \<Rightarrow> nat option" where
  "getPageAddress pte dir a =
     (let e = pte (dir + 4 * getDirectoryOffset a)
      in if e AND PAGE_PRESENT \<noteq> 0 then
           let e = pte (frame e + 4 * getPageOffset a)
           in if e AND PAGE_PRESENT \<noteq> 0 then Some (frame e) else None
         else None)"

function (sequential) k2u_loop ::
  "(nat \<Rightarrow> u32) \<Rightarrow> nat \<Rightarrow> nat \<Rightarrow> nat \<Rightarrow> nat \<Rightarrow> nat \<Rightarrow> nat \<Rightarrow> mem \<Rightarrow> int \<times> mem" where
  "k2u_loop pte dir p w r rest len m =
     (let len = (if rest < len then rest else len);
          m = memcpy p r len m;
          rest = rest - len
      in if rest = 0 then (E_OK, m)
         else case getPageAddress pte dir (addr32 (w + len)) of
                Some p \<Rightarrow> k2u_loop pte dir p (addr32 (w + len)) (addr32 (r + len)) rest PAGE_SIZE m
              | None \<Rightarrow> (E_PAR, m))"
  by pat_completeness auto
termination
  by (relation "measures [\<lambda>(pte, dir, p, w, r, rest, len, m). rest,
        \<lambda>(pte, dir, p, w, r, rest, len, m). if len = 0 then 1 else 0]") auto

definition memcpy_k2u ::
  "bool \<Rightarrow> (nat \<Rightarrow> u32) \<Rightarrow> nat \<Rightarrow> nat \<Rightarrow> nat \<Rightarrow> nat \<Rightarrow> mem \<Rightarrow> int \<times> mem" where
  "memcpy_k2u is_kthread pte dir to from n m =
     (if is_kthread then (E_OK, memcpy to from n m)
      else case getPageAddress pte dir to of
             Some p \<Rightarrow>
               let offset = getOffset to
               in k2u_loop pte dir (p + offset) to from n (PAGE_SIZE - offset) m
           | None \<Rightarrow> (E_PAR, m))"

function (sequential) u2k_loop ::
  "(nat \<Rightarrow> u32) \<Rightarrow> nat \<Rightarrow> nat \<Rightarrow> nat \<Rightarrow> nat \<Rightarrow> nat \<Rightarrow> nat \<Rightarrow> mem \<Rightarrow> int \<times> mem" where
  "u2k_loop pte dir p w r rest len m =
     (let len = (if rest < len then rest else len);
          m = memcpy w p len m;
          rest = rest - len
      in if rest = 0 then (E_OK, m)
         else case getPageAddress pte dir (addr32 (r + len)) of
                Some p \<Rightarrow> u2k_loop pte dir p (addr32 (w + len)) (addr32 (r + len)) rest PAGE_SIZE m
              | None \<Rightarrow> (E_PAR, m))"
  by pat_completeness auto
termination
  by (relation "measures [\<lambda>(pte, dir, p, w, r, rest, len, m). rest,
        \<lambda>(pte, dir, p, w, r, rest, len, m). if len = 0 then 1 else 0]") auto

definition memcpy_u2k ::
  "bool \<Rightarrow> (nat \<Rightarrow> u32) \<Rightarrow> nat \<Rightarrow> nat \<Rightarrow> nat \<Rightarrow> nat \<Rightarrow> mem \<Rightarrow> int \<times> mem" where
  "memcpy_u2k is_kthread pte dir to from n m =
     (if is_kthread then (E_OK, memcpy to from n m)
      else case getPageAddress pte dir from of
             Some p \<Rightarrow>
               let offset = getOffset from
               in u2k_loop pte dir (p + offset) to from n (PAGE_SIZE - offset) m
           | None \<Rightarrow> (E_PAR, m))"

text \<open>\<^verbatim>\<open>copy\<close> of \<^verbatim>\<open>strncpy.c\<close> yields whether it met the end of the string and how much it copied.\<close>

fun copy_string :: "nat \<Rightarrow> nat \<Rightarrow> nat \<Rightarrow> mem \<Rightarrow> bool \<times> nat \<times> mem" where
  "copy_string dest src 0 m = (False, 0, m)"
| "copy_string dest src (Suc left) m =
     (let c = m src; m = m(dest := c)
      in if c = 0 then (True, 0, m)
         else case copy_string (dest + 1) (src + 1) left m of (fin, n, m) \<Rightarrow> (fin, n + 1, m))"

lemma copy_string_le: "copy_string dest src n m = (fin, k, m') \<Longrightarrow> \<not> fin \<Longrightarrow> k = n"
  by (induction dest src n m arbitrary: k rule: copy_string.induct)
    (auto simp: Let_def split: if_splits prod.splits)

function (sequential) u2k_string_loop ::
  "(nat \<Rightarrow> u32) \<Rightarrow> nat \<Rightarrow> nat \<Rightarrow> nat \<Rightarrow> nat \<Rightarrow> nat \<Rightarrow> nat \<Rightarrow> nat \<Rightarrow> mem \<Rightarrow> int \<times> mem" where
  "u2k_string_loop pte dir p w r n left len m =
     (case copy_string w p (if left < len then left else len) m of
        (fin, len, m) \<Rightarrow>
          let left = left - len
          in if fin \<or> left = 0 then (int (n - left), m)
             else case getPageAddress pte dir (addr32 (r + len)) of
                    Some p \<Rightarrow> u2k_string_loop pte dir p (addr32 (w + len)) (addr32 (r + len)) n left PAGE_SIZE m
                  | None \<Rightarrow> (E_PAR, m))"
  by pat_completeness auto
termination
proof (relation "measures [\<lambda>(pte, dir, p, w, r, n, left, len, m). left,
        \<lambda>(pte, dir, p, w, r, n, left, len, m). if len = 0 then 1 else 0]")
  fix pte :: "nat \<Rightarrow> u32" and dir p w r n left len :: nat and m :: mem and fin y k m' z q
  assume a: "(fin, y) = copy_string w p (if left < len then left else len) m" "(k, m') = y"
    "z = left - k" "\<not> (fin \<or> z = 0)"
  have "copy_string w p (if left < len then left else len) m = (fin, k, m')" using a(1,2) by simp
  from copy_string_le [OF this] a(4) have "k = (if left < len then left else len)" by blast
  then show "((pte, dir, q, addr32 (w + k), addr32 (r + k), n, z, PAGE_SIZE, m'), pte, dir, p, w, r, n, left, len, m) \<in>
      measures [\<lambda>(pte, dir, p, w, r, n, left, len, m). left,
        \<lambda>(pte, dir, p, w, r, n, left, len, m). if len = 0 then 1 else 0]"
    using a(3,4) by auto
qed simp

definition strncpy_u2k ::
  "bool \<Rightarrow> (nat \<Rightarrow> u32) \<Rightarrow> nat \<Rightarrow> nat \<Rightarrow> nat \<Rightarrow> nat \<Rightarrow> mem \<Rightarrow> int \<times> mem" where
  "strncpy_u2k is_kthread pte dir to from n m =
     (if is_kthread then (case copy_string to from n m of (fin, len, m) \<Rightarrow> (int len, m))
      else case getPageAddress pte dir from of
             Some p \<Rightarrow>
               let offset = getOffset from
               in u2k_string_loop pte dir (p + offset) to from n n (PAGE_SIZE - offset) m
           | None \<Rightarrow> (E_PAR, m))"

record copy_range =
  cr_to :: nat
  cr_from :: nat
  cr_chunk_size :: nat
  cr_fragment_size :: nat
  cr_num_of_fragments :: nat

text \<open>One fragment is copied as \<^verbatim>\<open>memcpy_u2k\<close> copies, without the shortcut for kernel threads.\<close>

fun copy_fragments ::
  "(nat \<Rightarrow> u32) \<Rightarrow> nat \<Rightarrow> nat \<Rightarrow> nat \<Rightarrow> nat \<Rightarrow> nat \<Rightarrow> nat \<Rightarrow> nat \<Rightarrow> mem \<Rightarrow> int \<times> mem" where
  "copy_fragments pte dir chunk to from chunk_size fragment_size 0 m = (E_OK, m)"
| "copy_fragments pte dir chunk to from chunk_size fragment_size (Suc j) m =
     (case getPageAddress pte dir from of
        None \<Rightarrow> (E_PAR, m)
      | Some p \<Rightarrow>
          let offset = getOffset from
          in case u2k_loop pte dir (p + offset) to from fragment_size (PAGE_SIZE - offset) m of
               (e, m) \<Rightarrow>
                 if e \<noteq> E_OK then (e, m)
                 else copy_fragments pte dir chunk (addr32 (to + chunk)) (addr32 (from + chunk_size)) chunk_size fragment_size j m)"

fun scattered_copy_u2k :: "(nat \<Rightarrow> u32) \<Rightarrow> nat \<Rightarrow> nat \<Rightarrow> copy_range list \<Rightarrow> mem \<Rightarrow> int \<times> mem" where
  "scattered_copy_u2k pte dir chunk [] m = (E_OK, m)"
| "scattered_copy_u2k pte dir chunk (g # gs) m =
     (if cr_fragment_size g = 0 then scattered_copy_u2k pte dir chunk gs m
      else case copy_fragments pte dir chunk (cr_to g) (cr_from g) (cr_chunk_size g) (cr_fragment_size g)
                  (cr_num_of_fragments g) m of
             (e, m) \<Rightarrow> if e \<noteq> E_OK then (e, m) else scattered_copy_u2k pte dir chunk gs m)"

declare k2u_loop.simps [simp del] u2k_loop.simps [simp del] u2k_string_loop.simps [simp del]

subsection \<open>The mapping of a user address\<close>

definition mapped :: "(nat \<Rightarrow> u32) \<Rightarrow> nat \<Rightarrow> nat \<Rightarrow> nat option" where
  "mapped pte dir a = map_option (\<lambda>p. p + getOffset a) (getPageAddress pte dir a)"

lemma getPageAddress_page:
  assumes "a div 4096 = b div 4096"
  shows "getPageAddress pte dir a = getPageAddress pte dir b"
proof -
  have d: "addr32 x div 4194304 = x div 4096 div 1024 mod 1024" for x
    using div_mult2_eq [of x 4096 1024]
    by (simp add: addr32_def mod_mult2_eq [of x 4194304 1024, simplified])
  have "getDirectoryOffset a = getDirectoryOffset b" "getPageOffset a = getPageOffset b"
    using assms by (simp_all add: getDirectoryOffset_def getPageOffset_def d)
  then show ?thesis unfolding getPageAddress_def by (simp only:)
qed

lemma addr32_add: "addr32 (addr32 a + b) = addr32 (a + b)"
  by (simp add: addr32_def mod_add_left_eq)

lemma addr32_mod: "addr32 a mod 4096 = a mod 4096"
  by (simp add: addr32_def mod_mod_cancel)

lemma getPageAddress_addr32: "getPageAddress pte dir (addr32 a) = getPageAddress pte dir a"
proof -
  have "addr32 a div 4096 = a div 4096 mod 1048576"
    by (simp add: addr32_def mod_mult2_eq [of a 4096 1048576, simplified])
  then have "getPageOffset (addr32 a) = getPageOffset a" by (simp add: getPageOffset_def mod_mod_cancel)
  moreover have "getDirectoryOffset (addr32 a) = getDirectoryOffset a" by (simp add: getDirectoryOffset_def addr32_def)
  ultimately show ?thesis unfolding getPageAddress_def by (simp only:)
qed

lemma mapped_addr32: "mapped pte dir (addr32 a + i) = mapped pte dir (a + i)"
proof -
  have "getPageAddress pte dir (addr32 a + i) = getPageAddress pte dir (a + i)"
    using getPageAddress_addr32 [of pte dir "addr32 a + i"] getPageAddress_addr32 [of pte dir "a + i"] by (simp add: addr32_add)
  moreover have "(addr32 a + i) mod 4096 = (a + i) mod 4096"
    using addr32_mod [of "addr32 a + i"] addr32_mod [of "a + i"] by (simp add: addr32_add)
  ultimately show ?thesis by (simp add: mapped_def getOffset_def)
qed

lemma mapped_in_page:
  assumes "mapped pte dir w = Some q" and "i < 4096 - w mod 4096"
  shows "mapped pte dir (w + i) = Some (q + i)"
proof -
  have d: "(w + i) div 4096 = w div 4096" "(w + i) mod 4096 = w mod 4096 + i"
  proof -
    have i: "w mod 4096 + i < 4096" using assms(2) by linarith
    then have "i div 4096 = 0" "i mod 4096 = i" by simp_all
    then show "(w + i) div 4096 = w div 4096" using i div_add1_eq [of w i 4096] by simp
    show "(w + i) mod 4096 = w mod 4096 + i" using i mod_add_left_eq [of w 4096 i] by simp
  qed
  show ?thesis
    using assms(1) getPageAddress_page [OF d(1), of pte dir] d(2) by (auto simp: mapped_def getOffset_def)
qed

subsection \<open>Copying to a user address\<close>

text \<open>
  Where the byte at an address goes: for a kernel thread to the address itself, otherwise into the frame of its page. The bytes of
  a range that are mapped go to different places, none of which is still to be read.
\<close>

definition place :: "bool \<Rightarrow> (nat \<Rightarrow> u32) \<Rightarrow> nat \<Rightarrow> nat \<Rightarrow> nat option" where
  "place is_kthread pte dir a = (if is_kthread then Some a else mapped pte dir a)"

definition apart :: "(nat \<Rightarrow> nat option) \<Rightarrow> nat \<Rightarrow> nat \<Rightarrow> bool" where
  "apart t r n \<longleftrightarrow> (\<forall>i < n. \<forall>j < n. t i \<noteq> None \<longrightarrow> t i = t j \<longrightarrow> i = j) \<and> (\<forall>i < n. \<forall>j < n. t i \<noteq> Some (r + j))"

definition copied :: "(nat \<Rightarrow> nat option) \<Rightarrow> nat \<Rightarrow> nat \<Rightarrow> mem \<Rightarrow> mem \<Rightarrow> bool" where
  "copied t r n m m' \<longleftrightarrow> (\<forall>i < n. \<exists>x. t i = Some x \<and> m' x = m (r + i)) \<and>
     (\<forall>x. (\<forall>i < n. t i \<noteq> Some x) \<longrightarrow> m' x = m x)"

lemma copied_block:
  assumes t: "\<And>i. i < l \<Longrightarrow> t i = Some (p + i)" and ap: "apart t r l"
  shows "copied t r l m (memcpy p r l m)"
proof -
  have dis: "p \<le> r \<or> r + l \<le> p"
  proof (rule ccontr)
    assume "\<not> (p \<le> r \<or> r + l \<le> p)"
    then have "p - r < l" "0 < l" "t 0 = Some (r + (p - r))" using t [of 0] by auto
    then show False using ap unfolding apart_def by blast
  qed
  have "memcpy p r l m x = m x" if "\<forall>i < l. t i \<noteq> Some x" for x
  proof (rule memcpy_frame, rule ccontr)
    assume "\<not> (x < p \<or> p + l \<le> x)"
    then have "x - p < l" "x = p + (x - p)" by auto
    then show False using that t by metis
  qed
  then show ?thesis using memcpy_copies [OF dis] t by (auto simp: copied_def)
qed

lemma copied_append:
  assumes c1: "copied t r l m m1" and c2: "copied (\<lambda>i. t (l + i)) (r + l) k m1 m2" and ap: "apart t r (l + k)"
  shows "copied t r (l + k) m m2"
  unfolding copied_def
proof (intro conjI allI impI)
  fix i
  assume i: "i < l + k"
  show "\<exists>x. t i = Some x \<and> m2 x = m (r + i)"
  proof (cases "i < l")
    case True
    then obtain x where x: "t i = Some x" "m1 x = m (r + i)" using c1 by (auto simp: copied_def)
    have "t (l + j) \<noteq> Some x" if "j < k" for j
    proof
      assume "t (l + j) = Some x"
      then have "i = l + j" using ap i that x(1) unfolding apart_def by (metis add_less_cancel_left option.distinct(1))
      then show False using True by simp
    qed
    then have "m2 x = m1 x" using c2 unfolding copied_def by blast
    then show ?thesis using x by simp
  next
    case False
    then have j: "i - l < k" "i = l + (i - l)" using i by auto
    then obtain x where x: "t i = Some x" "m2 x = m1 (r + i)" using c2 unfolding copied_def by (metis add.assoc)
    have "\<forall>q < l. t q \<noteq> Some (r + i)" using ap i unfolding apart_def by (metis trans_less_add1)
    then have "m1 (r + i) = m (r + i)" using c1 unfolding copied_def by blast
    then show ?thesis using x by simp
  qed
next
  fix x
  assume x: "\<forall>i < l + k. t i \<noteq> Some x"
  then have "m2 x = m1 x" using c2 unfolding copied_def by simp
  moreover have "m1 x = m x" using c1 x unfolding copied_def by simp
  ultimately show "m2 x = m x" by simp
qed

lemma apart_sub:
  assumes "apart t r (l + k)"
  shows "apart t r l" and "apart (\<lambda>i. t (l + i)) (r + l) k"
proof -
  show "apart t r l" using assms unfolding apart_def by (meson trans_less_add1)
  have "i = j" if "i < k" "j < k" "t (l + i) \<noteq> None" "t (l + i) = t (l + j)" for i j
    using assms that unfolding apart_def by (metis add_left_cancel nat_add_left_cancel_less)
  moreover have "t (l + i) \<noteq> Some (r + l + j)" if "i < k" "j < k" for i j
    using assms that unfolding apart_def by (metis add.assoc nat_add_left_cancel_less)
  ultimately show "apart (\<lambda>i. t (l + i)) (r + l) k" unfolding apart_def by blast
qed

text \<open>The loop copies up to the first byte that is not mapped.\<close>

lemma k2u_loop_copies:
  assumes "mapped pte dir w = Some p" and "len = 4096 - w mod 4096" and "r + rest \<le> 2 ^ 32" and "k \<le> rest"
    and "\<And>i. i < k \<Longrightarrow> mapped pte dir (w + i) \<noteq> None" and "k < rest \<Longrightarrow> mapped pte dir (w + k) = None"
    and "apart (\<lambda>i. mapped pte dir (w + i)) r k"
  shows "\<exists>m'. k2u_loop pte dir p w r rest len m = (if k = rest then E_OK else E_PAR, m') \<and>
    copied (\<lambda>i. mapped pte dir (w + i)) r k m m'"
  using assms
proof (induction rest arbitrary: p w r len m k rule: less_induct)
  case (less rest)
  let ?t = "\<lambda>i. mapped pte dir (w + i)"
  have pos: "0 < len" using less.prems(2) mod_less_divisor [of 4096 w] by simp
  have blk: "copied ?t r l m (memcpy p r l m)" if "l \<le> len" "l \<le> k" for l
  proof (rule copied_block)
    show "?t i = Some (p + i)" if "i < l" for i
      using mapped_in_page [OF less.prems(1), of i] that \<open>l \<le> len\<close> less.prems(2) by simp
    show "apart ?t r l" using apart_sub(1) [of ?t r l "k - l"] less.prems(7) \<open>l \<le> k\<close> by simp
  qed
  show ?case
  proof (cases "rest \<le> len")
    case True
    have "k = rest"
    proof (rule ccontr)
      assume "k \<noteq> rest"
      then have "k < rest" using less.prems(4) by simp
      then show False using less.prems(6) mapped_in_page [OF less.prems(1), of k] True less.prems(2) by simp
    qed
    moreover have "k2u_loop pte dir p w r rest len m = (E_OK, memcpy p r rest m)"
      using True by (subst k2u_loop.simps) (simp add: Let_def)
    ultimately show ?thesis using blk [of rest] True by auto
  next
    case False
    have lk: "len \<le> k"
    proof (rule ccontr)
      assume "\<not> len \<le> k"
      then show False using False less.prems(2,6) mapped_in_page [OF less.prems(1), of k] by simp
    qed
    let ?w = "addr32 (w + len)"
    have r': "addr32 (r + len) = r + len" using less.prems(3) False by (simp add: addr32_def)
    have wm: "?w mod 4096 = 0"
    proof -
      have "w + len = 4096 * (w div 4096) + 4096"
        using less.prems(2) mod_less_divisor [of 4096 w] mult_div_mod_eq [of 4096 w] by linarith
      then show ?thesis by (simp add: addr32_mod)
    qed
    have mw: "mapped pte dir (?w + i) = mapped pte dir (w + (len + i))" for i
      using mapped_addr32 [of pte dir "w + len" i] by (simp add: add.assoc)
    have step: "k2u_loop pte dir p w r rest len m =
        (case getPageAddress pte dir ?w of
           Some q \<Rightarrow> k2u_loop pte dir q ?w (r + len) (rest - len) 4096 (memcpy p r len m)
         | None \<Rightarrow> (E_PAR, memcpy p r len m))"
      using False r' by (subst k2u_loop.simps) (simp add: Let_def split: option.split)
    show ?thesis
    proof (cases "getPageAddress pte dir ?w")
      case None
      then have "mapped pte dir (w + len) = None" using mw [of 0] by (simp add: mapped_def)
      then have "k = len" using less.prems(5) [of len] lk by (cases "len < k") auto
      then show ?thesis using step None blk [of len] False by auto
    next
      case (Some q)
      have mq: "mapped pte dir ?w = Some q" using Some wm by (simp add: mapped_def getOffset_def)
      have "\<exists>m'. k2u_loop pte dir q ?w (r + len) (rest - len) 4096 (memcpy p r len m) =
          (if k - len = rest - len then E_OK else E_PAR, m') \<and>
          copied (\<lambda>i. mapped pte dir (?w + i)) (r + len) (k - len) (memcpy p r len m) m'"
      proof (rule less.IH)
        show "rest - len < rest" using False pos by simp
        show "mapped pte dir ?w = Some q" by (rule mq)
        show "4096 = 4096 - ?w mod 4096" using wm by simp
        show "r + len + (rest - len) \<le> 2 ^ 32" using less.prems(3) False by simp
        show "k - len \<le> rest - len" using less.prems(4) by simp
        show "mapped pte dir (?w + i) \<noteq> None" if "i < k - len" for i using less.prems(5) [of "len + i"] that unfolding mw by simp
        show "mapped pte dir (?w + (k - len)) = None" if "k - len < rest - len"
          using less.prems(6) that lk unfolding mw by simp
        show "apart (\<lambda>i. mapped pte dir (?w + i)) (r + len) (k - len)"
          unfolding mw using apart_sub(2) [of ?t r len "k - len"] less.prems(7) lk by simp
      qed
      moreover have "k - len = rest - len \<longleftrightarrow> k = rest" using lk False by auto
      ultimately obtain m' where m': "k2u_loop pte dir p w r rest len m = (if k = rest then E_OK else E_PAR, m')"
        "copied (\<lambda>i. ?t (len + i)) (r + len) (k - len) (memcpy p r len m) m'"
        using step Some unfolding mw by auto
      have "copied ?t r (len + (k - len)) m m'"
        by (rule copied_append [OF blk m'(2)]) (use lk less.prems(7) in auto)
      then show ?thesis using m'(1) lk by auto
    qed
  qed
qed

text \<open>
  C27. Copying from the kernel to an address of a thread puts every byte into the frame its own page is mapped
  to (for a kernel thread: to the address itself), however many page borders the range crosses and also around the end of the address space,
  and changes no other byte, as long as the destination
  bytes are distinct and apart from the source. If a page of the range is not mapped, the call reports a parameter error, after it has
  copied just the bytes in front of this page.
\<close>

theorem memcpy_k2u_copies:
  fixes is_kthread pte dir to
  defines "t \<equiv> \<lambda>i. place is_kthread pte dir (to + i)"
  assumes "0 < n" and "from + n \<le> 2 ^ 32" and "k \<le> n" and "\<And>i. i < k \<Longrightarrow> t i \<noteq> None" and "k < n \<Longrightarrow> t k = None"
    and "apart t from k" and "is_kthread \<Longrightarrow> to + n \<le> 2 ^ 32"
  shows "\<exists>m'. memcpy_k2u is_kthread pte dir to from n m = (if k = n then E_OK else E_PAR, m') \<and> copied t from k m m'"
proof (cases is_kthread)
  case True
  then have t: "t = (\<lambda>i. Some (to + i))" by (simp add: t_def place_def)
  then have "k = n" using assms(4,6) by (cases "k < n") auto
  then show ?thesis using True copied_block [of n t to "from" m] t assms(7) by (simp add: memcpy_k2u_def)
next
  case False
  then have t: "t = (\<lambda>i. mapped pte dir (to + i))" by (simp add: t_def place_def)
  show ?thesis
  proof (cases "getPageAddress pte dir to")
    case None
    then have "k = 0" using assms(5) [of 0] by (cases k) (auto simp: t mapped_def)
    then show ?thesis using None False assms(2) by (simp add: memcpy_k2u_def copied_def)
  next
    case (Some p)
    then have "mapped pte dir to = Some (p + getOffset to)" by (simp add: mapped_def)
    from k2u_loop_copies [OF this refl assms(3,4), of m] assms(5-7) Some False show ?thesis
      by (simp add: memcpy_k2u_def Let_def getOffset_def t)
  qed
qed

text \<open>Two pages mapped to neighbouring frames; the third is not mapped.\<close>

definition sample_pte :: "nat \<Rightarrow> u32" where
  "sample_pte a = (if a = 2147483652 then 0x1001 else if a = 2147483656 then 0 else 1)"

lemma sample_frames: "frame 1 = 2147483648" "frame 0x1001 = 2147487744"
  by (simp_all add: frame_def)

lemma sample_mapped: "mapped sample_pte 0 4095 = Some 2147487743" "mapped sample_pte 0 8192 = None"
  "i < 4096 \<Longrightarrow> mapped sample_pte 0 (4096 + i) = Some (2147487744 + i)"
proof -
  show "mapped sample_pte 0 4095 = Some 2147487743" "mapped sample_pte 0 8192 = None"
    by (simp_all add: mapped_def getPageAddress_def getDirectoryOffset_def getPageOffset_def getOffset_def
      sample_pte_def sample_frames addr32_def)
  have "mapped sample_pte 0 4096 = Some 2147487744"
    by (simp add: mapped_def getPageAddress_def getDirectoryOffset_def getPageOffset_def getOffset_def
      sample_pte_def sample_frames addr32_def)
  then show "i < 4096 \<Longrightarrow> mapped sample_pte 0 (4096 + i) = Some (2147487744 + i)" by (rule mapped_in_page) simp
qed

lemma sample_place: "i < 4097 \<Longrightarrow> place False sample_pte 0 (4095 + i) = Some (2147487743 + i)"
  using sample_mapped(1) sample_mapped(3) [of "i - 1"] by (cases i) (auto simp: place_def)

theorem memcpy_k2u_copies_witness:
  "\<exists>m'. memcpy_k2u False sample_pte 0 4095 100 5000 (\<lambda>a. of_nat a) = (E_PAR, m') \<and>
    m' 2147487743 = 100 \<and> m' 2147487744 = 101"
proof -
  have "\<exists>m'. memcpy_k2u False sample_pte 0 4095 100 5000 (\<lambda>a. of_nat a) = (if 4097 = (5000 :: nat) then E_OK else E_PAR, m') \<and>
      copied (\<lambda>i. place False sample_pte 0 (4095 + i)) 100 4097 (\<lambda>a. of_nat a) m'"
  proof (rule memcpy_k2u_copies)
    show "place False sample_pte 0 (4095 + 4097) = None" using sample_mapped(2) by (simp add: place_def)
    show "apart (\<lambda>i. place False sample_pte 0 (4095 + i)) 100 4097" by (auto simp: apart_def sample_place)
  qed (auto simp: sample_place)
  then obtain m' where m': "memcpy_k2u False sample_pte 0 4095 100 5000 (\<lambda>a. of_nat a) = (E_PAR, m')"
    "copied (\<lambda>i. place False sample_pte 0 (4095 + i)) 100 4097 (\<lambda>a. of_nat a) m'" by auto
  have "m' (2147487743 + i) = of_nat (100 + i)" if "i < 4097" for i
    using m'(2) that sample_place [OF that] unfolding copied_def by fastforce
  from this [of 0] this [of 1] show ?thesis using m'(1) by auto
qed

end
