(* ===== verification/Set_Lockfree.thy ===== *)
theory Set_Lockfree
  imports Eo_Prelude
begin

section \<open>The lock-free stack (\<^verbatim>\<open>lib/libnc/set/lf_stack.c\<close>, \<^verbatim>\<open>include/set/lf_stack.h\<close>)\<close>

text \<open>
  A stack of entries that any number of threads push to and pop from without a lock. Each access to
  the shared memory is one step of a transition system, and the steps of the threads interleave in any
  order: the two loads of the copy of the head, the two comparisons, the access to the link of an
  entry, and the compare-and-swap \<^verbatim>\<open>cas2\<close> of both words of the head. The counter of the head has 32
  bits and wraps. A run therefore carries the number of operations that have completed and, for each thread, what
  this number was when the thread read the counter. The lemmas show that every
  run in which no thread is overtaken by \<open>2 ^ 32\<close> operations while it holds a copy of the counter is one of atomic pushes
  and pops, that this bound is exact, and that an operation is only ever delayed by another
  one that completes.
\<close>

type_synonym tid = nat
type_synonym entry = nat

text \<open>Where a thread is in \<^verbatim>\<open>lfs_push\<close> or \<^verbatim>\<open>lfs_pop\<close>, with its local variables.\<close>

datatype pc =
    Idle
  | PushRead entry
  | PushCount entry "entry option"
  | PushTest entry "entry option" u32
  | PushTest2 entry "entry option" u32
  | PushLink entry "entry option" u32
  | PushCas entry "entry option" u32
  | PopRead
  | PopCount "entry option"
  | PopTest "entry option" u32
  | PopTest2 "entry option" u32
  | PopNext entry u32
  | PopCas entry u32 "entry option"

datatype label = Tau | Pushed entry | Popped entry | Empty | Retry

record lfs =
  hd_next :: "entry option"
  hd_count :: u32
  next_of :: "entry \<Rightarrow> entry option"
  pc_of :: "tid \<Rightarrow> pc"
  own :: "tid \<Rightarrow> entry set"

definition lfs_initialize :: "u32 \<Rightarrow> nat \<Rightarrow> lfs" where
  "lfs_initialize count0 entry_num =
     \<lparr>hd_next = Some 0, hd_count = count0, next_of = (\<lambda>i. if i < entry_num - 1 then Some (i + 1) else None),
      pc_of = (\<lambda>t. Idle), own = (\<lambda>t. {})\<rparr>"

definition goto :: "lfs \<Rightarrow> tid \<Rightarrow> pc \<Rightarrow> lfs" where
  "goto s t p = s\<lparr>pc_of := (pc_of s)(t := p)\<rparr>"

inductive lfs_push :: "tid \<Rightarrow> label \<Rightarrow> lfs \<Rightarrow> lfs \<Rightarrow> bool" where
  push_call: "pc_of s t = Idle \<Longrightarrow> e \<in> own s t \<Longrightarrow>
    lfs_push t Tau s ((goto s t (PushRead e))\<lparr>own := (own s)(t := own s t - {e})\<rparr>)"
| push_read: "pc_of s t = PushRead e \<Longrightarrow> lfs_push t Tau s (goto s t (PushCount e (hd_next s)))"
| push_count: "pc_of s t = PushCount e h \<Longrightarrow> lfs_push t Tau s (goto s t (PushTest e h (hd_count s)))"
| push_test: "pc_of s t = PushTest e h c \<Longrightarrow>
    lfs_push t Tau s (goto s t (if h = hd_next s then PushTest2 e h c else PushRead e))"
| push_test2: "pc_of s t = PushTest2 e h c \<Longrightarrow>
    lfs_push t Tau s (goto s t (if c = hd_count s then PushLink e h c else PushRead e))"
| push_link: "pc_of s t = PushLink e h c \<Longrightarrow>
    lfs_push t Tau s ((goto s t (PushCas e h c))\<lparr>next_of := (next_of s)(e := h)\<rparr>)"
| push_done: "pc_of s t = PushCas e h c \<Longrightarrow> hd_count s = c \<Longrightarrow> hd_next s = h \<Longrightarrow>
    lfs_push t (Pushed e) s ((goto s t Idle)\<lparr>hd_next := Some e, hd_count := c + 1\<rparr>)"
| push_again: "pc_of s t = PushCas e h c \<Longrightarrow> \<not> (hd_count s = c \<and> hd_next s = h) \<Longrightarrow>
    lfs_push t Retry s (goto s t (PushRead e))"

inductive lfs_pop :: "tid \<Rightarrow> label \<Rightarrow> lfs \<Rightarrow> lfs \<Rightarrow> bool" where
  pop_call: "pc_of s t = Idle \<Longrightarrow> lfs_pop t Tau s (goto s t PopRead)"
| pop_read: "pc_of s t = PopRead \<Longrightarrow> lfs_pop t Tau s (goto s t (PopCount (hd_next s)))"
| pop_count: "pc_of s t = PopCount h \<Longrightarrow> lfs_pop t Tau s (goto s t (PopTest h (hd_count s)))"
| pop_test: "pc_of s t = PopTest h c \<Longrightarrow>
    lfs_pop t Tau s (goto s t (if h = hd_next s then PopTest2 h c else PopRead))"
| pop_test2: "pc_of s t = PopTest2 h c \<Longrightarrow> c \<noteq> hd_count s \<Longrightarrow> lfs_pop t Tau s (goto s t PopRead)"
| pop_empty: "pc_of s t = PopTest2 None c \<Longrightarrow> c = hd_count s \<Longrightarrow> lfs_pop t Empty s (goto s t Idle)"
| pop_some: "pc_of s t = PopTest2 (Some h) c \<Longrightarrow> c = hd_count s \<Longrightarrow> lfs_pop t Tau s (goto s t (PopNext h c))"
| pop_next: "pc_of s t = PopNext h c \<Longrightarrow> lfs_pop t Tau s (goto s t (PopCas h c (next_of s h)))"
| pop_done: "pc_of s t = PopCas h c n \<Longrightarrow> hd_count s = c \<Longrightarrow> hd_next s = Some h \<Longrightarrow>
    lfs_pop t (Popped h) s
      ((goto s t Idle)\<lparr>hd_next := n, hd_count := c + 1, own := (own s)(t := insert h (own s t))\<rparr>)"
| pop_again: "pc_of s t = PopCas h c n \<Longrightarrow> \<not> (hd_count s = c \<and> hd_next s = Some h) \<Longrightarrow>
    lfs_pop t Retry s (goto s t PopRead)"

text \<open>
  Runs from \<open>s\<close>: the operations completed so far are counted, and for every thread how many had completed when
  it last read the counter of the head. While a thread holds a copy of the counter, fewer than \<open>d\<close> operations
  complete. Every finite run is a run for some \<open>d\<close>.
\<close>

fun held :: "pc \<Rightarrow> u32 option" where
  "held (PushTest e h c) = Some c"
| "held (PushTest2 e h c) = Some c"
| "held (PushLink e h c) = Some c"
| "held (PushCas e h c) = Some c"
| "held (PopTest h c) = Some c"
| "held (PopTest2 h c) = Some c"
| "held (PopNext h c) = Some c"
| "held (PopCas h c n) = Some c"
| "held p = None"

fun completes :: "label \<Rightarrow> nat" where
  "completes (Pushed e) = 1"
| "completes (Popped e) = 1"
| "completes l = 0"

definition sees :: "tid \<Rightarrow> nat \<Rightarrow> lfs \<Rightarrow> lfs \<Rightarrow> (tid \<Rightarrow> nat) \<Rightarrow> tid \<Rightarrow> nat" where
  "sees t n s s' seen = (if held (pc_of s t) = None \<and> held (pc_of s' t) \<noteq> None then seen(t := n) else seen)"

inductive lfs_run :: "nat \<Rightarrow> lfs \<Rightarrow> nat \<Rightarrow> (tid \<Rightarrow> nat) \<Rightarrow> lfs \<Rightarrow> bool" for d s where
  run_start: "lfs_run d s 0 (\<lambda>t. 0) s"
| run_step: "lfs_run d s n seen s' \<Longrightarrow> lfs_push t l s' s'' \<or> lfs_pop t l s' s'' \<Longrightarrow>
    \<forall>u. held (pc_of s'' u) \<noteq> None \<longrightarrow> n + completes l < sees t n s' s'' seen u + d \<Longrightarrow>
    lfs_run d s (n + completes l) (sees t n s' s'' seen) s''"

inductive_cases lfs_pushE: "lfs_push t l s s'"
inductive_cases lfs_popE: "lfs_pop t l s s'"

subsection \<open>The counter\<close>

text \<open>The head a thread has found unchanged after it read the counter.\<close>

fun found :: "pc \<Rightarrow> entry option option" where
  "found (PushTest2 e h c) = Some h"
| "found (PushLink e h c) = Some h"
| "found (PushCas e h c) = Some h"
| "found (PopTest2 h c) = Some h"
| "found (PopNext h c) = Some (Some h)"
| "found (PopCas h c n) = Some (Some h)"
| "found p = None"

definition counts :: "u32 \<Rightarrow> nat \<Rightarrow> (tid \<Rightarrow> nat) \<Rightarrow> lfs \<Rightarrow> bool" where
  "counts c0 n seen s \<longleftrightarrow> hd_count s = c0 + word_of_nat n \<and>
     (\<forall>t c. held (pc_of s t) = Some c \<longrightarrow> c = c0 + word_of_nat (seen t) \<and> seen t \<le> n) \<and>
     (\<forall>t h. found (pc_of s t) = Some h \<longrightarrow> seen t = n \<longrightarrow> h = hd_next s)"

lemma found_held: "found p = Some h \<Longrightarrow> held p \<noteq> None"
  by (cases p) auto

lemma held_found: "held p = None \<Longrightarrow> found p = None"
  by (cases p) auto

lemma counts_goto:
  assumes "counts c0 n seen s" and "held p = held (pc_of s t) \<or> held p = None \<or> held (pc_of s t) = None \<and> held p = Some (hd_count s)"
    and "found p = found (pc_of s t) \<or> found p = None \<or> found p = Some (hd_next s)"
  shows "counts c0 n (sees t n s (goto s t p) seen) (goto s t p)"
  using assms found_held [of p] held_found [of "pc_of s t"] unfolding counts_def sees_def goto_def by auto

lemma counts_advance:
  assumes "counts c0 n seen s" and "held (pc_of s t) \<noteq> None"
    and "pc_of s' = (pc_of s)(t := Idle)" and "hd_count s' = hd_count s + 1"
  shows "counts c0 (n + 1) (sees t n s s' seen) s'"
proof -
  have le: "seen u \<le> n" if "held (pc_of s u) = Some c" for u c
    using assms(1) that unfolding counts_def by blast
  have "sees t n s s' seen = seen" using assms(2) by (auto simp: sees_def)
  moreover have "hd_count s' = c0 + word_of_nat (n + 1)" using assms(1,4) by (simp add: counts_def add.commute add.left_commute)
  moreover have "c = c0 + word_of_nat (seen u) \<and> seen u \<le> n + 1" if "held (pc_of s' u) = Some c" for u c
  proof -
    have "held (pc_of s u) = Some c" using that assms(3) by (auto split: if_splits)
    then show ?thesis using assms(1) le [of u c] unfolding counts_def by (meson le_SucI trans_le_add1)
  qed
  moreover have "seen u \<noteq> n + 1" if "found (pc_of s' u) = Some g" for u g
  proof -
    have "found (pc_of s u) = Some g" using that assms(3) by (auto split: if_splits)
    then show ?thesis using found_held [of "pc_of s u"] le [of u] by fastforce
  qed
  ultimately show ?thesis unfolding counts_def by auto
qed

lemma counts_cong:
  assumes "counts c0 n seen s" and "hd_count s' = hd_count s" and "hd_next s' = hd_next s" and "pc_of s' = pc_of s"
  shows "counts c0 n seen s'"
  using assms by (simp add: counts_def)

lemma counts_step:
  assumes c: "counts c0 n seen s" and step: "lfs_push t l s s' \<or> lfs_pop t l s s'"
  shows "counts c0 (n + completes l) (sees t n s s' seen) s'"
proof -
  have "completes l = 1 \<and> held (pc_of s t) \<noteq> None \<and> pc_of s' = (pc_of s)(t := Idle) \<and> hd_count s' = hd_count s + 1 \<or>
    completes l = 0 \<and> (\<exists>p. pc_of s' = (pc_of s)(t := p) \<and> hd_count s' = hd_count s \<and> hd_next s' = hd_next s \<and>
      (held p = held (pc_of s t) \<or> held p = None \<or> held (pc_of s t) = None \<and> held p = Some (hd_count s)) \<and>
      (found p = found (pc_of s t) \<or> found p = None \<or> found p = Some (hd_next s)))"
    using step
  proof
    assume "lfs_push t l s s'"
    then show ?thesis by cases (auto simp: goto_def)
  next
    assume "lfs_pop t l s s'"
    then show ?thesis by cases (auto simp: goto_def)
  qed
  then show ?thesis
  proof
    assume "completes l = 1 \<and> held (pc_of s t) \<noteq> None \<and> pc_of s' = (pc_of s)(t := Idle) \<and> hd_count s' = hd_count s + 1"
    then show ?thesis using counts_advance [OF c, of t s'] by simp
  next
    assume "completes l = 0 \<and> (\<exists>p. pc_of s' = (pc_of s)(t := p) \<and> hd_count s' = hd_count s \<and> hd_next s' = hd_next s \<and>
      (held p = held (pc_of s t) \<or> held p = None \<or> held (pc_of s t) = None \<and> held p = Some (hd_count s)) \<and>
      (found p = found (pc_of s t) \<or> found p = None \<or> found p = Some (hd_next s)))"
    then obtain p where p: "completes l = 0" "pc_of s' = (pc_of s)(t := p)" "hd_count s' = hd_count s" "hd_next s' = hd_next s"
      "held p = held (pc_of s t) \<or> held p = None \<or> held (pc_of s t) = None \<and> held p = Some (hd_count s)"
      "found p = found (pc_of s t) \<or> found p = None \<or> found p = Some (hd_next s)" by blast
    have "sees t n s s' seen = sees t n s (goto s t p) seen" using p(2) by (simp add: sees_def goto_def)
    then show ?thesis using counts_cong [OF counts_goto [OF c p(5,6)], of s'] p(1-4) by (simp add: goto_def)
  qed
qed

lemma counts_current:
  assumes "counts c0 n seen s" and "held (pc_of s t) = Some c" and "n < seen t + d" and "d \<le> 2 ^ 32"
  shows "c = hd_count s \<longleftrightarrow> seen t = n"
proof -
  have c: "c = c0 + word_of_nat (seen t)" "hd_count s = c0 + word_of_nat n" "seen t \<le> n" using assms(1,2) by (auto simp: counts_def)
  have "(word_of_nat (seen t) :: u32) = word_of_nat n \<longleftrightarrow> seen t = n"
  proof
    assume "(word_of_nat (seen t) :: u32) = word_of_nat n"
    then have "seen t mod 2 ^ 32 = n mod 2 ^ 32" by (simp add: word_of_nat_eq_iff take_bit_eq_mod)
    moreover have "n - seen t < 2 ^ 32" using assms(3,4) c(3) by simp
    ultimately show "seen t = n" using c(3) by (metis le_antisym diff_is_0_eq mod_eq_dvd_iff_nat nat_dvd_not_less not_gr_zero)
  qed simp
  then show ?thesis using c by simp
qed

subsection \<open>Invariant\<close>

fun pushing :: "pc \<Rightarrow> entry option" where
  "pushing (PushRead e) = Some e"
| "pushing (PushCount e h) = Some e"
| "pushing (PushTest e h c) = Some e"
| "pushing (PushTest2 e h c) = Some e"
| "pushing (PushLink e h c) = Some e"
| "pushing (PushCas e h c) = Some e"
| "pushing p = None"

text \<open>
  What a thread knows of the links: an entry it pushes is linked to the head it has read, and the link of the top entry
  that it has read is still there if no operation has completed since.
\<close>

fun knows :: "bool \<Rightarrow> (entry \<Rightarrow> entry option) \<Rightarrow> pc \<Rightarrow> bool" where
  "knows current nx (PushCas e h c) \<longleftrightarrow> nx e = h"
| "knows current nx (PopCas h c n) \<longleftrightarrow> (current \<longrightarrow> n = nx h)"
| "knows current nx p \<longleftrightarrow> True"

text \<open>The entries: in the stack, owned by a thread, or being pushed, each in one place only.\<close>

definition placed :: "entry list \<Rightarrow> (tid \<Rightarrow> entry option) \<Rightarrow> (tid \<Rightarrow> entry set) \<Rightarrow> bool" where
  "placed xs pu ow \<longleftrightarrow> distinct xs \<and> (\<forall>t. ow t \<inter> set xs = {}) \<and> (\<forall>t u. t \<noteq> u \<longrightarrow> ow t \<inter> ow u = {}) \<and>
     (\<forall>t e. pu t = Some e \<longrightarrow> e \<notin> set xs \<and> (\<forall>u. e \<notin> ow u)) \<and>
     (\<forall>t u e. pu t = Some e \<and> pu u = Some e \<longrightarrow> t = u)"

definition lfs_inv :: "entry list \<Rightarrow> nat \<Rightarrow> (tid \<Rightarrow> nat) \<Rightarrow> lfs \<Rightarrow> bool" where
  "lfs_inv xs n seen s \<longleftrightarrow> path (next_of s) (hd_next s) xs \<and> placed xs (\<lambda>t. pushing (pc_of s t)) (own s) \<and>
     (\<forall>t. knows (seen t = n) (next_of s) (pc_of s t))"

lemma knows_old: "knows current nx p \<Longrightarrow> knows False nx p"
  by (cases p) auto

lemma knows_link:
  assumes "knows current nx p" and "\<And>h. found p = Some h \<Longrightarrow> current \<Longrightarrow> h \<noteq> Some e" and "pushing p \<noteq> Some e"
  shows "knows current (nx(e := g)) p"
  using assms by (cases p) auto

text \<open>A step that only moves a thread on.\<close>

lemma lfs_inv_goto:
  assumes "lfs_inv xs n seen s" and "pushing p = pushing (pc_of s t)"
    and "knows (sees t n s (goto s t p) seen t = n) (next_of s) p"
  shows "lfs_inv xs n (sees t n s (goto s t p) seen) (goto s t p)"
proof -
  have "(\<lambda>u. pushing (((pc_of s)(t := p)) u)) = (\<lambda>u. pushing (pc_of s u))" using assms(2) by auto
  moreover have "sees t n s (goto s t p) seen u = seen u" if "u \<noteq> t" for u using that by (simp add: sees_def)
  ultimately show ?thesis using assms(1,3) by (simp add: lfs_inv_def goto_def)
qed

lemma lfs_invD:
  assumes "lfs_inv xs n seen s"
  shows "path (next_of s) (hd_next s) xs" and "placed xs (\<lambda>t. pushing (pc_of s t)) (own s)"
    and "knows (seen t = n) (next_of s) (pc_of s t)"
  using assms by (auto simp: lfs_inv_def)

text \<open>What holds of a thread in a run in which none is overtaken too often.\<close>

definition timely :: "nat \<Rightarrow> (tid \<Rightarrow> nat) \<Rightarrow> lfs \<Rightarrow> bool" where
  "timely n seen s \<longleftrightarrow> (\<forall>u. held (pc_of s u) \<noteq> None \<longrightarrow> n < seen u + 2 ^ 32)"

lemma timelyD:
  assumes "timely n seen s" and "counts c0 n seen s" and "held (pc_of s t) = Some c"
  shows "c = hd_count s \<longleftrightarrow> seen t = n"
  using counts_current [OF assms(2,3)] assms(1,3) by (auto simp: timely_def)

lemma foundD:
  assumes "timely n seen s" and "counts c0 n seen s" and "held (pc_of s t) = Some (hd_count s)" and "found (pc_of s t) = Some h"
  shows "seen t = n \<and> h = hd_next s"
  using timelyD [OF assms(1-3)] assms(2,4) by (auto simp: counts_def)

lemma placed_call:
  assumes "placed xs pu ow" and "pu t = None" and "e \<in> ow t"
  shows "placed xs (pu(t := Some e)) (ow(t := ow t - {e}))"
  using assms unfolding placed_def by (auto split: if_splits) blast+

lemma placed_push:
  assumes "placed xs pu ow" and "pu t = Some e"
  shows "placed (e # xs) (pu(t := None)) ow"
  using assms unfolding placed_def by (auto split: if_splits)

lemma placed_pop:
  assumes "placed (h # xs) pu ow" and "pu t = None"
  shows "placed xs pu (ow(t := insert h (ow t)))"
  using assms unfolding placed_def by (auto split: if_splits)

subsection \<open>Every step is atomic\<close>

definition effect :: "tid \<Rightarrow> label \<Rightarrow> entry list \<Rightarrow> entry list \<Rightarrow> lfs \<Rightarrow> bool" where
  "effect t l xs ys s' \<longleftrightarrow>
     (case l of
        Tau \<Rightarrow> ys = xs
      | Retry \<Rightarrow> ys = xs
      | Empty \<Rightarrow> xs = [] \<and> ys = []
      | Pushed e \<Rightarrow> ys = e # xs
      | Popped h \<Rightarrow> xs = h # ys \<and> h \<in> own s' t)"

lemma inv_advance:
  assumes "lfs_inv xs n seen s" and "counts c0 n seen s" and "held (pc_of s t) \<noteq> None"
    and "s' = (goto s t Idle)\<lparr>hd_next := h, hd_count := k, own := ow\<rparr>"
    and "path (next_of s) h ys" and "placed ys ((\<lambda>u. pushing (pc_of s u))(t := None)) ow"
  shows "lfs_inv ys (n + 1) (sees t n s s' seen) s'"
proof -
  have "sees t n s s' seen = seen" using assms(3) by (auto simp: sees_def)
  moreover have "(\<lambda>u. pushing (((pc_of s)(t := Idle)) u)) = (\<lambda>u. pushing (pc_of s u))(t := None)" by auto
  moreover have "knows (seen u = n + 1) (next_of s) (((pc_of s)(t := Idle)) u)" for u
  proof (cases "held (pc_of s u) = None \<or> u = t")
    case True
    then show ?thesis by (cases "pc_of s u") auto
  next
    case False
    then have "seen u \<noteq> n + 1" using assms(2) unfolding counts_def by (metis Suc_eq_plus1 not_None_eq not_less_eq_eq order_refl)
    then show ?thesis using knows_old [OF lfs_invD(3) [OF assms(1), of u]] False by simp
  qed
  ultimately show ?thesis using assms(4-6) by (simp add: lfs_inv_def goto_def)
qed

lemma lfs_push_step:
  assumes inv: "lfs_inv xs n seen s" and c: "counts c0 n seen s" and t: "timely n seen s" and step: "lfs_push t l s s'"
  shows "\<exists>ys. lfs_inv ys (n + completes l) (sees t n s s' seen) s' \<and> effect t l xs ys s'"
  using step
proof (cases rule: lfs_push.cases)
  case (push_call e)
  have "(\<lambda>u. pushing (((pc_of s)(t := PushRead e)) u)) = (\<lambda>u. pushing (pc_of s u))(t := Some e)" by auto
  then have "placed xs (\<lambda>u. pushing (((pc_of s)(t := PushRead e)) u)) ((own s)(t := own s t - {e}))"
    using placed_call [OF lfs_invD(2) [OF inv], of t e] push_call by simp
  then have "lfs_inv xs n (sees t n s s' seen) s'" using lfs_invD(1,3) [OF inv] push_call by (simp add: lfs_inv_def goto_def sees_def)
  then show ?thesis using push_call by (auto simp: effect_def)
next
  case (push_link e h k)
  have pu: "pushing (pc_of s t) = Some e" using push_link by simp
  have out: "e \<notin> set xs" "\<And>u. u \<noteq> t \<Longrightarrow> pushing (pc_of s u) \<noteq> Some e"
    using lfs_invD(2) [OF inv] pu unfolding placed_def by auto
  have nohd: "hd_next s \<noteq> Some e" using path_hd [of "next_of s" e xs] lfs_invD(1) [OF inv] out(1) by auto
  have "path ((next_of s)(e := h)) (hd_next s) xs = path (next_of s) (hd_next s) xs"
    by (rule path_cong) (use out(1) in auto)
  moreover have "(\<lambda>u. pushing (((pc_of s)(t := PushCas e h k)) u)) = (\<lambda>u. pushing (pc_of s u))" using push_link by auto
  moreover have "knows (seen u = n) ((next_of s)(e := h)) (((pc_of s)(t := PushCas e h k)) u)" for u
  proof (cases "u = t")
    case False
    have "g \<noteq> Some e" if "found (pc_of s u) = Some g" "seen u = n" for g using c that nohd by (auto simp: counts_def)
    then show ?thesis using knows_link [OF lfs_invD(3) [OF inv, of u] _ out(2)] False by auto
  qed simp
  moreover have "sees t n s s' seen = seen" using push_link by (simp add: sees_def)
  ultimately have "lfs_inv xs n (sees t n s s' seen) s'"
    using lfs_invD(1,2) [OF inv] push_link by (simp add: lfs_inv_def goto_def)
  then show ?thesis using push_link by (auto simp: effect_def)
next
  case (push_done e h k)
  have "next_of s e = hd_next s" using lfs_invD(3) [OF inv, of t] push_done by simp
  then have "path (next_of s) (Some e) (e # xs)" using lfs_invD(1) [OF inv] by simp
  moreover have "placed (e # xs) ((\<lambda>u. pushing (pc_of s u))(t := None)) (own s)"
    using placed_push [OF lfs_invD(2) [OF inv], of t e] push_done by simp
  ultimately have "lfs_inv (e # xs) (n + 1) (sees t n s s' seen) s'"
    using inv_advance [OF inv c, where t = t and s' = s' and h = "Some e" and k = "k + 1" and ow = "own s"] push_done by (simp add: goto_def)
  then show ?thesis using push_done by (auto simp: effect_def)
qed (use inv lfs_invD(3) [OF inv, of t] in \<open>auto intro!: exI [of _ xs] lfs_inv_goto simp: effect_def\<close>)

lemma lfs_pop_step:
  assumes inv: "lfs_inv xs n seen s" and c: "counts c0 n seen s" and t: "timely n seen s" and step: "lfs_pop t l s s'"
  shows "\<exists>ys. lfs_inv ys (n + completes l) (sees t n s s' seen) s' \<and> effect t l xs ys s'"
  using step
proof (cases rule: lfs_pop.cases)
  case (pop_empty k)
  then have "hd_next s = None" using foundD [OF t c, of t None] by simp
  then have "xs = []" using lfs_invD(1) [OF inv] by (cases xs) auto
  moreover have "lfs_inv xs n (sees t n s s' seen) s'" using pop_empty inv by (auto intro!: lfs_inv_goto)
  ultimately show ?thesis using pop_empty by (auto simp: effect_def)
next
  case (pop_done h k m)
  then have "seen t = n" using foundD [OF t c, of t "Some h"] by simp
  then have m: "m = next_of s h" using lfs_invD(3) [OF inv, of t] pop_done by simp
  obtain ys where ys: "xs = h # ys" "path (next_of s) m ys"
    using lfs_invD(1) [OF inv] pop_done m by (cases xs) auto
  have pu: "(\<lambda>u. pushing (pc_of s u))(t := None) = (\<lambda>u. pushing (pc_of s u))" using pop_done by auto
  have "placed ys (\<lambda>u. pushing (pc_of s u)) ((own s)(t := insert h (own s t)))"
    using placed_pop [of h ys "\<lambda>u. pushing (pc_of s u)" "own s" t] lfs_invD(2) [OF inv] ys(1) pop_done by simp
  then have "lfs_inv ys (n + 1) (sees t n s s' seen) s'"
    using inv_advance [OF inv c, where t = t and s' = s' and h = m and k = "k + 1" and ow = "(own s)(t := insert h (own s t))"] pop_done ys(2) pu by (simp add: goto_def)
  then show ?thesis using pop_done ys(1) by (auto simp: effect_def)
qed (use inv lfs_invD(3) [OF inv, of t] in \<open>auto intro!: exI [of _ xs] lfs_inv_goto simp: effect_def\<close>)

lemma path_initial: "m \<le> n \<Longrightarrow> path (\<lambda>i. if i < n then Some (i + 1) else None) (Some m) [m..<Suc n]"
proof (induction "n - m" arbitrary: m)
  case 0
  then show ?case by simp
next
  case (Suc k)
  then have "path (\<lambda>i. if i < n then Some (i + 1) else None) (Some (m + 1)) [m + 1..<Suc n]"
    using Suc.hyps(1) [of "m + 1"] by simp
  then show ?case using Suc.hyps(2) Suc.prems by (simp add: upt_conv_Cons del: upt_Suc)
qed

lemma lfs_initial: "0 < n \<Longrightarrow> lfs_inv [0..<n] 0 (\<lambda>t. 0) (lfs_initialize c n)"
  using path_initial [of 0 "n - 1"] by (simp add: lfs_inv_def lfs_initialize_def placed_def del: upt_Suc)

lemma counts_initial: "counts c 0 (\<lambda>t. 0) (lfs_initialize c n)"
  by (simp add: counts_def lfs_initialize_def)

lemma counts_run:
  assumes "lfs_run d (lfs_initialize c m) n seen s"
  shows "counts c n seen s"
  using assms by (induction rule: lfs_run.induct) (auto intro: counts_initial counts_step)

lemma timely_run:
  assumes "lfs_run d (lfs_initialize c m) n seen s" and "d \<le> 2 ^ 32"
  shows "timely n seen s"
  using assms(1)
proof cases
  case run_start
  then show ?thesis by (simp add: timely_def lfs_initialize_def)
next
  case (run_step n0 seen0 s0 t l)
  then show ?thesis using assms(2) by (force simp: timely_def)
qed

lemma lfs_step:
  assumes "lfs_inv xs n seen s" and "counts c0 n seen s" and "timely n seen s" and "lfs_push t l s s' \<or> lfs_pop t l s s'"
  shows "\<exists>ys. lfs_inv ys (n + completes l) (sees t n s s' seen) s' \<and> effect t l xs ys s'"
  using lfs_push_step [OF assms(1-3)] lfs_pop_step [OF assms(1-3)] assms(4) by blast

lemma lfs_run_inv:
  assumes "lfs_run d (lfs_initialize c m) n seen s" and "0 < m" and "d \<le> 2 ^ 32"
  shows "\<exists>xs. lfs_inv xs n seen s"
  using assms(1)
proof (induction rule: lfs_run.induct)
  case run_start
  show ?case using lfs_initial [OF assms(2)] by blast
next
  case (run_step n seen s' t l s'')
  then show ?case using lfs_step [OF _ counts_run timely_run] assms(3) by blast
qed

text \<open>
  C4. In every interleaving of pushes and pops in which no thread is overtaken by \<open>2 ^ 32\<close> completed operations
  between its reading the counter of the head and its compare-and-swap, the stack behaves as if each operation took effect at
  once: the entries linked from the head form a stack without repetitions, a step that completes a
  push puts its entry on top, one that completes a pop takes the top entry off and gives it to its
  thread alone, one that reports an empty stack does so when it is empty, and no other step changes it.
\<close>

theorem lfs_atomic:
  assumes "0 < m" and "lfs_run d (lfs_initialize c m) n seen s" and "d \<le> 2 ^ 32"
    and "lfs_push t l s s' \<or> lfs_pop t l s s'"
  shows "\<exists>xs ys. path (next_of s) (hd_next s) xs \<and> path (next_of s') (hd_next s') ys \<and> distinct ys \<and>
    effect t l xs ys s' \<and> (\<forall>u v. u \<noteq> v \<longrightarrow> own s' u \<inter> own s' v = {}) \<and> (\<forall>u. own s' u \<inter> set ys = {})"
proof -
  obtain xs where xs: "lfs_inv xs n seen s" using lfs_run_inv [OF assms(2,1,3)] by blast
  then obtain ys where ys: "lfs_inv ys (n + completes l) (sees t n s s' seen) s'" "effect t l xs ys s'"
    using lfs_step [OF xs counts_run [OF assms(2)] timely_run [OF assms(2,3)] assms(4)] by blast
  have "placed ys (\<lambda>t. pushing (pc_of s' t)) (own s')" by (rule lfs_invD(2) [OF ys(1)])
  then have "distinct ys" "\<forall>u v. u \<noteq> v \<longrightarrow> own s' u \<inter> own s' v = {}" "\<forall>u. own s' u \<inter> set ys = {}"
    unfolding placed_def by blast+
  then show ?thesis using lfs_invD(1) [OF xs] lfs_invD(1) [OF ys(1)] ys(2) by blast
qed

text \<open>
  C33. The stack is lock-free: a thread repeats its attempt after a failed compare-and-swap only if
  another operation has completed since it read the counter of the head, also if the counter has wrapped.
\<close>

theorem lfs_lock_free:
  assumes "lfs_run d (lfs_initialize c m) n seen s" and "lfs_push t Retry s s' \<or> lfs_pop t Retry s s'"
  shows "seen t < n"
proof -
  have c: "counts c n seen s" by (rule counts_run [OF assms(1)])
  have "\<exists>h k. held (pc_of s t) = Some k \<and> found (pc_of s t) = Some h \<and> \<not> (hd_count s = k \<and> hd_next s = h)"
    using assms(2)
  proof
    assume "lfs_push t Retry s s'"
    then show ?thesis by cases auto
  next
    assume "lfs_pop t Retry s s'"
    then show ?thesis by cases auto
  qed
  then show ?thesis using c by (auto simp: counts_def order.order_iff_strict)
qed

subsection \<open>The bound is exact\<close>

text \<open>Operations of thread 0 alone, while the other threads stand still.\<close>

definition reaches :: "nat \<Rightarrow> lfs \<Rightarrow> nat \<Rightarrow> lfs \<Rightarrow> bool" where
  "reaches d s n s' \<longleftrightarrow> (\<exists>seen. lfs_run d s n seen s')"

lemma reaches_step:
  assumes "reaches d s n s'" and "lfs_push t l s' s'' \<or> lfs_pop t l s' s''" and "n + completes l < d" and "n' = n + completes l"
  shows "reaches d s n' s''"
proof -
  obtain seen where r: "lfs_run d s n seen s'" using assms(1) by (auto simp: reaches_def)
  show ?thesis unfolding reaches_def assms(4)
    by (rule exI, rule run_step [OF r assms(2)]) (use assms(3) in auto)
qed

lemmas pop_step = reaches_step [OF _ disjI2]
lemmas push_step = reaches_step [OF _ disjI1]

lemma goto_goto [simp]: "goto (goto s t p) t q = goto s t q"
  by (simp add: goto_def)

lemma goto_same [simp]: "pc_of s t = p \<Longrightarrow> goto s t p = s"
  by (auto simp: goto_def)

lemma goto_simps [simp]:
  "pc_of (goto s t p) = (pc_of s)(t := p)" "hd_next (goto s t p) = hd_next s" "hd_count (goto s t p) = hd_count s"
  "next_of (goto s t p) = next_of s" "own (goto s t p) = own s"
  by (simp_all add: goto_def)

lemma goto_own: "(goto s t p)\<lparr>own := ow\<rparr> = goto (s\<lparr>own := ow\<rparr>) t p"
  by (cases s) (simp add: goto_def)

lemma reaches_cas:
  assumes "reaches d i n s" and "pc_of s t = Idle" and "hd_next s = Some h" and "n < d"
  shows "reaches d i n (goto s t (PopCas h (hd_count s) (next_of s h)))"
proof -
  let ?h = "Some h" and ?k = "hd_count s"
  have "reaches d i n (goto s t PopRead)" using pop_step [OF assms(1) pop_call] assms(2,4) by simp
  from pop_step [OF this pop_read [of _ t]] have "reaches d i n (goto s t (PopCount ?h))" using assms(3,4) by simp
  from pop_step [OF this pop_count [of _ t]] have "reaches d i n (goto s t (PopTest ?h ?k))" using assms(4) by simp
  from pop_step [OF this pop_test [of _ t]] have "reaches d i n (goto s t (PopTest2 ?h ?k))" using assms(3,4) by simp
  from pop_step [OF this pop_some [of _ t]] have "reaches d i n (goto s t (PopNext h ?k))" using assms(4) by simp
  from pop_step [OF this pop_next [of _ t]] show ?thesis using assms(4) by simp
qed

definition popped :: "entry \<Rightarrow> lfs \<Rightarrow> lfs" where
  "popped h s = s\<lparr>hd_next := next_of s h, hd_count := hd_count s + 1, own := (own s)(0 := insert h (own s 0))\<rparr>"

definition pushed :: "entry \<Rightarrow> lfs \<Rightarrow> lfs" where
  "pushed e s = s\<lparr>hd_next := Some e, hd_count := hd_count s + 1, next_of := (next_of s)(e := hd_next s), own := (own s)(0 := own s 0 - {e})\<rparr>"

lemma reaches_pop:
  assumes "reaches d i n s" and "pc_of s 0 = Idle" and "hd_next s = Some h" and "n + 1 < d"
  shows "reaches d i (n + 1) (popped h s)"
proof -
  have "reaches d i n (goto s 0 (PopCas h (hd_count s) (next_of s h)))" using reaches_cas assms by simp
  from pop_step [OF this pop_done [of _ 0 h "hd_count s" "next_of s h"]] have
    "reaches d i (n + 1) ((goto s 0 Idle)\<lparr>hd_next := next_of s h, hd_count := hd_count s + 1, own := (own s)(0 := insert h (own s 0))\<rparr>)"
    using assms(3,4) by simp
  then show ?thesis using assms(2) by (simp add: popped_def)
qed

lemma reaches_push:
  assumes "reaches d i n s" and "pc_of s 0 = Idle" and "e \<in> own s 0" and "n + 1 < d"
  shows "reaches d i (n + 1) (pushed e s)"
proof -
  let ?s = "s\<lparr>own := (own s)(0 := own s 0 - {e})\<rparr>" and ?h = "hd_next s" and ?k = "hd_count s"
  have n: "n < d" using assms(4) by simp
  have "reaches d i n (goto ?s 0 (PushRead e))"
    using push_step [OF assms(1) push_call [of s 0 e]] assms(2,3) n by (simp add: goto_own)
  from push_step [OF this push_read [of _ 0]] have "reaches d i n (goto ?s 0 (PushCount e ?h))" using n by simp
  from push_step [OF this push_count [of _ 0]] have "reaches d i n (goto ?s 0 (PushTest e ?h ?k))" using n by simp
  from push_step [OF this push_test [of _ 0]] have "reaches d i n (goto ?s 0 (PushTest2 e ?h ?k))" using n by simp
  from push_step [OF this push_test2 [of _ 0]] have "reaches d i n (goto ?s 0 (PushLink e ?h ?k))" using n by simp
  from push_step [OF this push_link [of _ 0 e ?h ?k]] have
    "reaches d i n ((goto ?s 0 (PushCas e ?h ?k))\<lparr>next_of := (next_of s)(e := ?h)\<rparr>)" using n by simp
  from push_step [OF this push_done [of _ 0 e ?h ?k]] have
    "reaches d i (n + 1) ((goto ((goto ?s 0 (PushCas e ?h ?k))\<lparr>next_of := (next_of s)(e := ?h)\<rparr>) 0 Idle)
      \<lparr>hd_next := Some e, hd_count := ?k + 1\<rparr>)" using assms(4) by simp
  moreover have "(goto ((goto ?s 0 (PushCas e ?h ?k))\<lparr>next_of := (next_of s)(e := ?h)\<rparr>) 0 Idle)
      \<lparr>hd_next := Some e, hd_count := ?k + 1\<rparr> = pushed e s" using assms(2) by (cases s) (auto simp: pushed_def goto_def)
  ultimately show ?thesis by simp
qed

text \<open>The stack of one entry, with thread 1 about to pop the entry 0 in the belief that the entry 1 comes next.\<close>

definition stale :: "u32 \<Rightarrow> u32 \<Rightarrow> lfs" where
  "stale c k = \<lparr>hd_next = Some 0, hd_count = k, next_of = (\<lambda>i. if i = 1 then Some 2 else None),
     pc_of = (\<lambda>t. if t = 1 then PopCas 0 c (Some 1) else Idle), own = (\<lambda>t. if t = 0 then {1, 2} else {})\<rparr>"

lemma stale_round:
  assumes "reaches d i n (stale c k)" and "n + 2 < d"
  shows "reaches d i (n + 2) (stale c (k + 2))"
proof -
  have "reaches d i (n + 1) (popped 0 (stale c k))" using reaches_pop [OF assms(1)] assms(2) by (simp add: stale_def)
  then have "reaches d i (n + 1 + 1) (pushed 0 (popped 0 (stale c k)))"
    by (rule reaches_push) (use assms(2) in \<open>simp_all add: stale_def popped_def\<close>)
  moreover have "pushed 0 (popped 0 (stale c k)) = stale c (k + 2)"
    by (auto simp: stale_def popped_def pushed_def fun_eq_iff)
  ultimately show ?thesis by simp
qed

lemma stale_rounds:
  assumes "reaches d i n (stale c k)" and "n + 2 * r < d"
  shows "reaches d i (n + 2 * r) (stale c (k + 2 * word_of_nat r))"
  using assms
proof (induction r)
  case (Suc r)
  then have "reaches d i (n + 2 * r) (stale c (k + 2 * word_of_nat r))" by simp
  from stale_round [OF this] show ?case using Suc.prems(2) by (simp add: algebra_simps)
qed simp

lemma stale_reached:
  assumes "4 < d"
  shows "reaches d (lfs_initialize c 3) 4 (stale c (c + 4))"
proof -
  let ?i = "lfs_initialize c 3" and ?s = "goto (lfs_initialize c 3) 1 (PopCas 0 c (Some 1))"
  have "reaches d ?i 0 ?i" by (auto simp: reaches_def intro: run_start)
  from reaches_cas [OF this, of 1 0] have "reaches d ?i 0 ?s" using assms by (simp add: lfs_initialize_def)
  from reaches_pop [OF this, of 0] have "reaches d ?i 1 (popped 0 ?s)" using assms by (simp add: lfs_initialize_def)
  from reaches_pop [OF this, of 1] have "reaches d ?i 2 (popped 1 (popped 0 ?s))" using assms
    by (simp add: lfs_initialize_def popped_def numeral_2_eq_2)
  from reaches_pop [OF this, of 2] have "reaches d ?i 3 (popped 2 (popped 1 (popped 0 ?s)))" using assms
    by (simp add: lfs_initialize_def popped_def)
  from reaches_push [OF this, of 0] have "reaches d ?i 4 (pushed 0 (popped 2 (popped 1 (popped 0 ?s))))" using assms
    by (simp add: lfs_initialize_def popped_def)
  moreover have "pushed 0 (popped 2 (popped 1 (popped 0 ?s))) = stale c (c + 4)"
    by (auto simp: stale_def popped_def pushed_def goto_def lfs_initialize_def fun_eq_iff)
  ultimately show ?thesis by simp
qed

text \<open>
  The bound of the theorem on atomicity cannot be raised: after just \<open>2 ^ 32\<close> operations the counter is back at the value
  that a thread has read, and its pop of a stack of one entry makes an entry that belongs to another thread the head.
\<close>

theorem lfs_wraps:
  "\<exists>s s' seen. lfs_run (2 ^ 32 + 1) (lfs_initialize c 3) (2 ^ 32) seen s \<and> lfs_pop 1 (Popped 0) s s' \<and>
    path (next_of s) (hd_next s) [0] \<and> hd_next s' = Some 1 \<and> 1 \<in> own s' 0"
proof -
  have "reaches (2 ^ 32 + 1) (lfs_initialize c 3) (4 + 2 * (2 ^ 31 - 2)) (stale c (c + 4 + 2 * word_of_nat (2 ^ 31 - 2)))"
    by (rule stale_rounds [OF stale_reached]) simp_all
  moreover have "c + 4 + 2 * word_of_nat (2 ^ 31 - 2) = c" by simp
  moreover have "(4 + 2 * (2 ^ 31 - 2) :: nat) = 2 ^ 32" by simp
  ultimately have "reaches (2 ^ 32 + 1) (lfs_initialize c 3) (2 ^ 32) (stale c c)" by (simp only:)
  moreover have "lfs_pop 1 (Popped 0) (stale c c) ((goto (stale c c) 1 Idle)\<lparr>hd_next := Some 1, hd_count := c + 1,
      own := (own (stale c c))(1 := insert 0 (own (stale c c) 1))\<rparr>)"
    by (rule pop_done) (simp_all add: stale_def)
  ultimately show ?thesis unfolding reaches_def by (fastforce simp: stale_def)
qed

subsection \<open>Two threads that pop the same entry\<close>

text \<open>Both threads have read the head of a stack of two entries; thread 0 is the first to swap it.\<close>

definition duel :: lfs where
  "duel = goto (goto (lfs_initialize 0 2) 1 (PopCas 0 0 (Some 1))) 0 (PopCas 0 0 (Some 1))"

lemma duel_run: "\<exists>seen. lfs_run 2 (lfs_initialize 0 2) 0 seen duel"
proof -
  have "reaches 2 (lfs_initialize 0 2) 0 (lfs_initialize 0 2)" by (auto simp: reaches_def intro: run_start)
  from reaches_cas [OF this, of 1 0] have
    "reaches 2 (lfs_initialize 0 2) 0 (goto (lfs_initialize 0 2) 1 (PopCas 0 0 (Some 1)))" by (simp add: lfs_initialize_def)
  from reaches_cas [OF this, of 0 0] show ?thesis by (simp add: lfs_initialize_def duel_def reaches_def)
qed

lemma duel_won: "lfs_pop 0 (Popped 0) duel (popped 0 (goto duel 0 Idle))"
  using pop_done [of duel 0 0 0 "Some 1"] by (simp add: duel_def lfs_initialize_def popped_def)

theorem lfs_atomic_witness:
  "lfs_pop 0 (Popped 0) duel (popped 0 (goto duel 0 Idle)) \<and>
    (\<exists>xs ys. path (next_of duel) (hd_next duel) xs \<and> effect 0 (Popped 0) xs ys (popped 0 (goto duel 0 Idle)))"
proof -
  obtain seen where "lfs_run 2 (lfs_initialize 0 2) 0 seen duel" using duel_run by blast
  from lfs_atomic [OF _ this _ disjI2 [OF duel_won]] show ?thesis using duel_won by fastforce
qed

theorem lfs_lock_free_witness:
  "\<exists>n seen s s'. lfs_run 2 (lfs_initialize 0 2) n seen s \<and> lfs_pop 1 Retry s s' \<and> seen 1 < n"
proof -
  let ?s = "popped 0 (goto duel 0 Idle)"
  obtain seen where "lfs_run 2 (lfs_initialize 0 2) 0 seen duel" using duel_run by blast
  then have "reaches 2 (lfs_initialize 0 2) 1 ?s"
    using pop_step [OF _ duel_won] by (force simp: reaches_def)
  then obtain seen' where r: "lfs_run 2 (lfs_initialize 0 2) 1 seen' ?s" by (auto simp: reaches_def)
  have p: "lfs_pop 1 Retry ?s (goto ?s 1 PopRead)"
    by (rule pop_again [of _ _ 0 0 "Some 1"]) (simp_all add: duel_def lfs_initialize_def popped_def)
  show ?thesis using lfs_lock_free [OF r disjI2 [OF p]] r p by blast
qed

end
