(* ===== verification/Drv_Interrupt.thy ===== *)
theory Drv_Interrupt
  imports Eo_Prelude "HOL-Library.Monad_Syntax"
begin

section \<open>Interrupt services (\<^verbatim>\<open>drivers/i686/interrupt.c\<close>)\<close>

text \<open>
  The table of interrupt service routines: for each interrupt a chain of services, and a list of
  entries not in use. A pointer to an entry is its index, which is also its service number; a routine
  that is \<^verbatim>\<open>dummy\<close> is \<^const>\<open>None\<close>. The lemmas show that binding appends a routine to those an interrupt
  calls, and that unbinding keeps the table consistent.
\<close>

abbreviation (input) IDT_MAX_ENTRY :: nat where "IDT_MAX_ENTRY \<equiv> 48"
abbreviation (input) MAX_INTERRUPT_SERVICE :: nat where "MAX_INTERRUPT_SERVICE \<equiv> 64"
abbreviation (input) TA_HLNG :: int where "TA_HLNG \<equiv> 0"

record 'f services =
  isr :: "nat \<Rightarrow> 'f option"
  exinf :: "nat \<Rightarrow> int"
  next_service :: "nat \<Rightarrow> nat option"
  interrupt_no :: "nat \<Rightarrow> nat"
  service_map :: "nat \<Rightarrow> nat"
  unmapped :: "nat option"

definition get_unmapped_entry :: "'f services \<Rightarrow> nat option \<times> 'f services" where
  "get_unmapped_entry s =
     (case unmapped s of None \<Rightarrow> (None, s) | Some e \<Rightarrow> (Some e, s\<lparr>unmapped := next_service s e\<rparr>))"

definition interrupt_initialize :: "'f services \<Rightarrow> 'f services" where
  "interrupt_initialize s =
     s\<lparr>isr := (\<lambda>i. if i < MAX_INTERRUPT_SERVICE then None else isr s i),
       next_service := (\<lambda>i. if i < IDT_MAX_ENTRY then None
                            else if i < MAX_INTERRUPT_SERVICE - 1 then Some (i + 1)
                            else if i = MAX_INTERRUPT_SERVICE - 1 then None else next_service s i),
       interrupt_no := (\<lambda>i. if i < IDT_MAX_ENTRY then i else interrupt_no s i),
       service_map := (\<lambda>i. if i < IDT_MAX_ENTRY then i else service_map s i),
       unmapped := Some IDT_MAX_ENTRY\<rparr>"

partial_function (option) bind_loop ::
  "nat \<Rightarrow> nat \<Rightarrow> 'f \<Rightarrow> int \<Rightarrow> 'f services \<Rightarrow> (int \<times> 'f services) option" where
  "bind_loop p no f x s =
     (if isr s p = None
      then Some (int p, s\<lparr>isr := (isr s)(p \<mapsto> f), exinf := (exinf s)(p := x)\<rparr>)
      else case next_service s p of
             None \<Rightarrow>
               (case get_unmapped_entry s of
                  (None, s) \<Rightarrow> Some (E_NOID, s)
                | (Some e, s) \<Rightarrow>
                    Some (int e, s\<lparr>isr := (isr s)(e \<mapsto> f), exinf := (exinf s)(e := x),
                                   interrupt_no := (interrupt_no s)(e := no),
                                   next_service := (next_service s)(e := None, p := Some e)\<rparr>))
           | Some q \<Rightarrow> bind_loop q no f x s)"

definition interrupt_bind ::
  "int \<Rightarrow> nat \<Rightarrow> 'f option \<Rightarrow> int \<Rightarrow> 'f services \<Rightarrow> (int \<times> 'f services) option" where
  "interrupt_bind isratr intno routine x s =
     (if isratr \<noteq> TA_HLNG then Some (E_RSATR, s)
      else if IDT_MAX_ENTRY \<le> intno then Some (E_ID, s)
      else case routine of
             None \<Rightarrow> Some (E_PAR, s)
           | Some f \<Rightarrow> bind_loop (service_map s intno) intno f x s)"

partial_function (option) unbind_loop ::
  "nat option \<Rightarrow> nat option \<Rightarrow> nat \<Rightarrow> 'f services \<Rightarrow> (int \<times> 'f services) option" where
  "unbind_loop prev pp e s =
     (case pp of
        None \<Rightarrow> Some (E_ID, s)
      | Some p \<Rightarrow>
          if p = e then
            (let drop = (\<lambda>s. Some (E_OK, s\<lparr>isr := (isr s)(e := None),
                                           next_service := (next_service s)(e := unmapped s), unmapped := Some e\<rparr>))
             in case prev of
                  Some q \<Rightarrow> drop (s\<lparr>next_service := (next_service s)(q := next_service s e)\<rparr>)
                | None \<Rightarrow>
                    (case next_service s e of
                       Some n \<Rightarrow> drop (s\<lparr>service_map := (service_map s)(interrupt_no s e := n)\<rparr>)
                     | None \<Rightarrow> Some (E_OK, s\<lparr>isr := (isr s)(e := None)\<rparr>)))
          else unbind_loop (Some p) (next_service s p) e s)"

definition interrupt_unbind :: "int \<Rightarrow> 'f services \<Rightarrow> (int \<times> 'f services) option" where
  "interrupt_unbind service_id s =
     (if service_id < 0 \<or> int MAX_INTERRUPT_SERVICE \<le> service_id then Some (E_ID, s)
      else
        let e = nat service_id
        in if isr s e = None then Some (E_OBJ, s)
           else unbind_loop None (Some (service_map s (interrupt_no s e))) e s)"

text \<open>The routines an interrupt calls, and whether it ends in a fault.\<close>

partial_function (option) service_calls :: "nat \<Rightarrow> 'f services \<Rightarrow> (('f \<times> int) list \<times> bool) option" where
  "service_calls p s =
     (case isr s p of
        None \<Rightarrow> Some ([], True)
      | Some f \<Rightarrow>
          (case next_service s p of
             None \<Rightarrow> Some ([(f, exinf s p)], False)
           | Some q \<Rightarrow> do { (l, flt) \<leftarrow> service_calls q s; Some ((f, exinf s p) # l, flt) }))"

definition interrupt :: "nat \<Rightarrow> 'f services \<Rightarrow> (('f \<times> int) list \<times> bool) option" where
  "interrupt no s = service_calls (service_map s no) s"

subsection \<open>Invariant\<close>

text \<open>
  The chains of the interrupts and the chain of unused entries hold every entry once; a chain of more
  than one service has no dummy.
\<close>

definition chain_ok ::
  "nat list \<Rightarrow> nat \<Rightarrow> (nat \<Rightarrow> nat option) \<Rightarrow> nat \<Rightarrow> (nat \<Rightarrow> nat) \<Rightarrow> (nat \<Rightarrow> 'f option) \<Rightarrow> bool" where
  "chain_ok ch no nx start num is \<longleftrightarrow> ch \<noteq> [] \<and> path nx (Some start) ch \<and> distinct ch \<and>
     (\<forall>p\<in>set ch. num p = no) \<and> (length ch > 1 \<longrightarrow> (\<forall>p\<in>set ch. is p \<noteq> None))"

definition services_ok :: "(nat \<Rightarrow> nat list) \<Rightarrow> nat list \<Rightarrow> 'f services \<Rightarrow> bool" where
  "services_ok ch fr s \<longleftrightarrow>
     (\<forall>no < IDT_MAX_ENTRY. chain_ok (ch no) no (next_service s) (service_map s no) (interrupt_no s) (isr s)) \<and>
     path (next_service s) (unmapped s) fr \<and> distinct fr \<and> (\<forall>p\<in>set fr. isr s p = None) \<and>
     (\<forall>no < IDT_MAX_ENTRY. set fr \<inter> set (ch no) = {}) \<and>
     set fr \<union> (\<Union>no < IDT_MAX_ENTRY. set (ch no)) = {0..<MAX_INTERRUPT_SERVICE}"

inductive services_reach :: "'f services \<Rightarrow> 'f services \<Rightarrow> bool" where
  reach_initialized: "services_reach s (interrupt_initialize s)"
| reach_bound: "services_reach s s' \<Longrightarrow> interrupt_bind a no r x s' = Some (e, s'') \<Longrightarrow> services_reach s s''"
| reach_unbound: "services_reach s s' \<Longrightarrow> interrupt_unbind i s' = Some (e, s'') \<Longrightarrow> services_reach s s''"

lemma bind_loop_walks:
  assumes "path (next_service s) (Some p) xs" and "\<forall>q\<in>set xs. isr s q \<noteq> None"
  shows "bind_loop p no f x s = bind_loop (last xs) no f x s"
  using assms
proof (induction xs arbitrary: p)
  case (Cons y ys)
  then have p: "y = p" and n: "path (next_service s) (next_service s p) ys" by auto
  show ?case
  proof (cases ys)
    case Nil
    then show ?thesis using p by simp
  next
    case (Cons z zs)
    then have "next_service s p = Some z" using n by simp
    moreover obtain g where "isr s p = Some g" using Cons.prems(2) p by auto
    ultimately have "bind_loop p no f x s = bind_loop z no f x s" by (subst bind_loop.simps) simp
    then show ?thesis using Cons.IH [of z] n Cons.prems(2) Cons \<open>next_service s p = Some z\<close> by simp
  qed
qed simp

lemma service_calls_path:
  assumes "path (next_service s) (Some p) xs" and "\<forall>q\<in>set xs. isr s q \<noteq> None"
  shows "service_calls p s = Some (map (\<lambda>q. (the (isr s q), exinf s q)) xs, False)"
  using assms
proof (induction xs arbitrary: p)
  case (Cons y ys)
  then have p: "y = p" and n: "path (next_service s) (next_service s p) ys" by auto
  obtain f where f: "isr s p = Some f" using Cons.prems(2) p by auto
  show ?case
  proof (cases "next_service s p")
    case None
    then have "ys = []" using n by (cases ys) auto
    then show ?thesis using None f p by (subst service_calls.simps) simp
  next
    case (Some q)
    then have "service_calls q s = Some (map (\<lambda>q. (the (isr s q), exinf s q)) ys, False)"
      using Cons.IH [of q] n Cons.prems(2) by simp
    then show ?thesis using Some f p by (subst service_calls.simps) simp
  qed
qed simp

lemma path_last: "path nx (Some p) xs \<Longrightarrow> xs \<noteq> [] \<Longrightarrow> nx (last xs) = None"
  by (induction xs arbitrary: p) (auto split: if_splits, metis list.exhaust path.simps(2))

lemma path_snoc:
  assumes "path nx (Some p) xs" and "distinct xs" and "e \<notin> set xs" and "xs \<noteq> []"
  shows "path (nx(e := None, last xs := Some e)) (Some p) (xs @ [e])"
  using assms
proof (induction xs arbitrary: p)
  case (Cons y ys)
  show ?case
  proof (cases ys)
    case Nil
    then show ?thesis using Cons.prems by auto
  next
    case (Cons z zs)
    then have "nx y = Some z" "path nx (Some z) ys" using Cons.prems(1) by auto
    moreover have "last ys \<noteq> y" using Cons.prems(2) Cons by (metis distinct.simps(2) last_in_set list.distinct(1))
    ultimately show ?thesis using Cons.IH [of z] Cons.prems Cons by auto
  qed
qed simp

lemma path_remove:
  assumes "path nx (Some p) (as @ e # bs)" and "distinct (as @ e # bs)" and "as \<noteq> []"
  shows "path (nx(last as := nx e)) (Some p) (as @ bs)"
  using assms
proof (induction as arbitrary: p)
  case (Cons y ys)
  show ?case
  proof (cases ys)
    case Nil
    have "path nx (nx e) bs" "y = p" "p \<notin> set bs" using Cons.prems Nil by auto
    moreover have "path (nx(p := nx e)) (nx e) bs = path nx (nx e) bs"
      by (rule path_cong) (use \<open>p \<notin> set bs\<close> in auto)
    ultimately show ?thesis using Nil by (simp add: fun_upd_def)
  next
    case (Cons z zs)
    then have n: "nx y = Some z" "path nx (Some z) (ys @ e # bs)" using Cons.prems(1) by auto
    have "last ys \<noteq> y" using Cons.prems(2) Cons by (metis Un_iff append_Cons distinct.simps(2) last_in_set list.distinct(1) set_append)
    then show ?thesis using Cons.IH [OF n(2)] Cons.prems(1,2) Cons n(1) by auto
  qed
qed simp

lemma chain_ok_other:
  assumes "chain_ok ch no nx start num is" and "\<And>p. p \<in> set ch \<Longrightarrow> nx' p = nx p \<and> num' p = num p \<and> is' p = is p"
  shows "chain_ok ch no nx' start num' is'"
  using assms path_cong [of ch nx nx' "Some start"] by (auto simp: chain_ok_def)

lemma services_okD:
  assumes "services_ok ch fr s"
  shows "\<And>no. no < 48 \<Longrightarrow> chain_ok (ch no) no (next_service s) (service_map s no) (interrupt_no s) (isr s)"
    and "path (next_service s) (unmapped s) fr" and "distinct fr" and "\<And>p. p \<in> set fr \<Longrightarrow> isr s p = None"
    and "\<And>no p. no < 48 \<Longrightarrow> p \<in> set fr \<Longrightarrow> p \<notin> set (ch no)"
    and "\<And>p. p < 64 \<longleftrightarrow> p \<in> set fr \<or> (\<exists>no < 48. p \<in> set (ch no))"
proof -
  show "\<And>no. no < 48 \<Longrightarrow> chain_ok (ch no) no (next_service s) (service_map s no) (interrupt_no s) (isr s)"
    "path (next_service s) (unmapped s) fr" "distinct fr" "\<And>p. p \<in> set fr \<Longrightarrow> isr s p = None"
    "\<And>no p. no < 48 \<Longrightarrow> p \<in> set fr \<Longrightarrow> p \<notin> set (ch no)"
    using assms by (auto simp: services_ok_def)
  have "set fr \<union> (\<Union>no < IDT_MAX_ENTRY. set (ch no)) = {0..<MAX_INTERRUPT_SERVICE}"
    using assms by (simp add: services_ok_def)
  note all = this
  show "p < 64 \<longleftrightarrow> p \<in> set fr \<or> (\<exists>no < 48. p \<in> set (ch no))" for p
  proof -
    have "p < 64 \<longleftrightarrow> p \<in> {0..<MAX_INTERRUPT_SERVICE}" by simp
    also have "\<dots> \<longleftrightarrow> p \<in> set fr \<or> (\<exists>no < 48. p \<in> set (ch no))"
      unfolding all [symmetric] Un_iff UN_iff lessThan_iff by blast
    finally show ?thesis .
  qed
qed

lemma services_okI:
  assumes "\<And>no. no < 48 \<Longrightarrow> chain_ok (ch no) no (next_service s) (service_map s no) (interrupt_no s) (isr s)"
    and "path (next_service s) (unmapped s) fr" and "distinct fr" and "\<And>p. p \<in> set fr \<Longrightarrow> isr s p = None"
    and "\<And>no p. no < 48 \<Longrightarrow> p \<in> set fr \<Longrightarrow> p \<notin> set (ch no)"
    and "\<And>p. p < 64 \<longleftrightarrow> p \<in> set fr \<or> (\<exists>no < 48. p \<in> set (ch no))"
  shows "services_ok ch fr s"
proof -
  have "set fr \<union> (\<Union>no < IDT_MAX_ENTRY. set (ch no)) = {0..<MAX_INTERRUPT_SERVICE}"
  proof (rule set_eqI)
    fix p
    show "p \<in> set fr \<union> (\<Union>no < IDT_MAX_ENTRY. set (ch no)) \<longleftrightarrow> p \<in> {0..<MAX_INTERRUPT_SERVICE}"
      unfolding Un_iff UN_iff lessThan_iff atLeastLessThan_iff using assms(6) [of p] by blast
  qed
  moreover have "\<forall>no < IDT_MAX_ENTRY. set fr \<inter> set (ch no) = {}" using assms(5) by blast
  ultimately show ?thesis using assms(1-4) unfolding services_ok_def by blast
qed

lemma chain_okD:
  assumes "chain_ok ch no nx start num is"
  shows "ch \<noteq> []" and "path nx (Some start) ch" and "distinct ch" and "\<And>p. p \<in> set ch \<Longrightarrow> num p = no"
    and "length ch > 1 \<Longrightarrow> \<forall>p\<in>set ch. is p \<noteq> None"
  using assms by (auto simp: chain_ok_def)

subsection \<open>Binding\<close>

lemma bind_first:
  fixes f :: 'f and x :: int
  assumes ok: "services_ok ch fr s" and no: "no < 48" and dummy: "isr s (service_map s no) = None"
  defines "p \<equiv> service_map s no"
  defines "s' \<equiv> s\<lparr>isr := (isr s)(p \<mapsto> f), exinf := (exinf s)(p := x)\<rparr>"
  shows "bind_loop p no f x s = Some (int p, s')" and "services_ok ch fr s'" and "ch no = [p]"
proof -
  show "bind_loop p no f x s = Some (int p, s')"
    using dummy by (subst bind_loop.simps) (simp add: p_def s'_def)
  note d = services_okD [OF ok]
  note c = chain_okD [OF d(1) [OF no]]
  have hd: "p \<in> set (ch no)" "hd (ch no) = p" using path_hd [OF c(2)] by (simp_all add: p_def)
  have "\<not> length (ch no) > 1" using c(5) hd(1) dummy unfolding p_def by blast
  then show single: "ch no = [p]" using c(1) hd(2) by (cases "ch no") auto
  show "services_ok ch fr s'"
  proof (rule services_okI)
    fix n
    assume n: "n < (48 :: nat)"
    show "chain_ok (ch n) n (next_service s') (service_map s' n) (interrupt_no s') (isr s')"
    proof (cases "n = no")
      case True
      then show ?thesis using d(1) [OF no] single by (simp add: chain_ok_def s'_def)
    next
      case False
      then have "p \<notin> set (ch n)" using chain_okD(4) [OF d(1) [OF n]] c(4) hd(1) by auto
      then have "chain_ok (ch n) n (next_service s') (service_map s n) (interrupt_no s') (isr s')"
        by (intro chain_ok_other [OF d(1) [OF n]]) (auto simp: s'_def)
      then show ?thesis by (simp add: s'_def)
    qed
  next
    show "isr s' q = None" if "q \<in> set fr" for q
      using d(4) [OF that] d(5) [OF no that] hd(1) by (auto simp: s'_def)
    show "n < 48 \<Longrightarrow> q \<in> set fr \<Longrightarrow> q \<notin> set (ch n)" for n q by (rule d(5))
    show "q < 64 \<longleftrightarrow> q \<in> set fr \<or> (\<exists>no < 48. q \<in> set (ch no))" for q by (rule d(6))
  qed (use d(2,3) in \<open>simp_all add: s'_def\<close>)
qed

lemma bind_last:
  assumes ok: "services_ok ch fr s" and no: "no < 48" and some: "isr s (service_map s no) \<noteq> None"
  shows "\<forall>p\<in>set (ch no). isr s p \<noteq> None"
    and "bind_loop (service_map s no) no f x s =
      (case fr of
         [] \<Rightarrow> Some (E_NOID, s)
       | e # fr' \<Rightarrow>
           Some (int e, s\<lparr>unmapped := next_service s e, isr := (isr s)(e \<mapsto> f), exinf := (exinf s)(e := x),
                          interrupt_no := (interrupt_no s)(e := no),
                          next_service := (next_service s)(e := None, last (ch no) := Some e)\<rparr>))"
proof -
  note d = services_okD [OF ok]
  note c = chain_okD [OF d(1) [OF no]]
  show all: "\<forall>p\<in>set (ch no). isr s p \<noteq> None"
    using c(1,2,5) some by (cases "ch no" rule: list.exhaust; cases "tl (ch no)") auto
  obtain g where g: "isr s (last (ch no)) = Some g" using all c(1) by (meson last_in_set not_None_eq)
  have "bind_loop (service_map s no) no f x s = bind_loop (last (ch no)) no f x s"
    by (rule bind_loop_walks [OF c(2) all])
  also have "\<dots> = (case get_unmapped_entry s of
                  (None, s) \<Rightarrow> Some (E_NOID, s)
                | (Some e, s) \<Rightarrow>
                    Some (int e, s\<lparr>isr := (isr s)(e \<mapsto> f), exinf := (exinf s)(e := x),
                                   interrupt_no := (interrupt_no s)(e := no),
                                   next_service := (next_service s)(e := None, last (ch no) := Some e)\<rparr>))"
    using g path_last [OF c(2,1)] by (subst bind_loop.simps) simp
  finally show "bind_loop (service_map s no) no f x s =
      (case fr of
         [] \<Rightarrow> Some (E_NOID, s)
       | e # fr' \<Rightarrow>
           Some (int e, s\<lparr>unmapped := next_service s e, isr := (isr s)(e \<mapsto> f), exinf := (exinf s)(e := x),
                          interrupt_no := (interrupt_no s)(e := no),
                          next_service := (next_service s)(e := None, last (ch no) := Some e)\<rparr>))"
    using d(2) by (cases fr) (auto simp: get_unmapped_entry_def)
qed

lemma bind_last_ok:
  fixes f :: 'f and x :: int
  assumes ok: "services_ok ch (e # fr) s" and no: "no < 48" and all: "\<forall>p\<in>set (ch no). isr s p \<noteq> None"
  defines "s' \<equiv> s\<lparr>unmapped := next_service s e, isr := (isr s)(e \<mapsto> f), exinf := (exinf s)(e := x),
    interrupt_no := (interrupt_no s)(e := no), next_service := (next_service s)(e := None, last (ch no) := Some e)\<rparr>"
  shows "services_ok (ch(no := ch no @ [e])) fr s'"
proof -
  note d = services_okD [OF ok]
  note c = chain_okD [OF d(1) [OF no]]
  have e: "\<And>n. n < 48 \<Longrightarrow> e \<notin> set (ch n)" "e \<notin> set fr" using d(3,5) by auto
  have l: "last (ch no) \<in> set (ch no)" using c(1) by simp
  show ?thesis
  proof (rule services_okI)
    fix n
    assume n: "n < (48 :: nat)"
    show "chain_ok ((ch(no := ch no @ [e])) n) n (next_service s') (service_map s' n) (interrupt_no s') (isr s')"
    proof (cases "n = no")
      case True
      have "path ((next_service s)(e := None, last (ch no) := Some e)) (Some (service_map s no)) (ch no @ [e])"
        by (rule path_snoc [OF c(2,3) e(1) [OF no] c(1)])
      then show ?thesis using True c(3,4) e(1) [OF no] all by (simp add: chain_ok_def s'_def)
    next
      case False
      have "last (ch no) \<notin> set (ch n)" using chain_okD(4) [OF d(1) [OF n]] c(4) l False by auto
      then have "chain_ok (ch n) n (next_service s') (service_map s n) (interrupt_no s') (isr s')"
        using e(1) [OF n] by (intro chain_ok_other [OF d(1) [OF n]]) (auto simp: s'_def)
      then show ?thesis using False by (simp add: s'_def)
    qed
  next
    have "last (ch no) \<notin> set fr" using d(5) [OF no] l by auto
    then have "path ((next_service s)(e := None, last (ch no) := Some e)) (next_service s e) fr =
        path (next_service s) (next_service s e) fr"
      using e(2) by (intro path_cong) auto
    then show "path (next_service s') (unmapped s') fr" using d(2) by (simp add: s'_def fun_upd_def)
    show "distinct fr" using d(3) by simp
    show "isr s' q = None" if "q \<in> set fr" for q using d(4) [of q] that e(2) by (auto simp: s'_def)
    show "q \<notin> set ((ch(no := ch no @ [e])) n)" if "n < 48" "q \<in> set fr" for n q
      using d(5) [OF that(1), of q] that e(2) by auto
    show "q < 64 \<longleftrightarrow> q \<in> set fr \<or> (\<exists>n < 48. q \<in> set ((ch(no := ch no @ [e])) n))" for q
    proof -
      have "(\<exists>n < 48. q \<in> set ((ch(no := ch no @ [e])) n)) \<longleftrightarrow> q = e \<or> (\<exists>n < 48. q \<in> set (ch n))"
        using no by (auto split: if_splits)
      then show ?thesis using d(6) [of q] by auto
    qed
  qed
qed

lemma interrupt_bind_ok:
  assumes ok: "services_ok ch fr s" and "interrupt_bind a no r x s = Some (e, s')"
  shows "\<exists>ch fr. services_ok ch fr s'"
proof (cases "a \<noteq> TA_HLNG \<or> IDT_MAX_ENTRY \<le> no \<or> r = None")
  case True
  then have "s' = s" using assms(2) by (auto simp: interrupt_bind_def split: if_splits)
  then show ?thesis using ok by blast
next
  case False
  then obtain f where r: "r = Some f" and no: "no < 48" by auto
  have b: "bind_loop (service_map s no) no f x s = Some (e, s')"
    using assms(2) False r by (simp add: interrupt_bind_def)
  show ?thesis
  proof (cases "isr s (service_map s no) = None")
    case True
    show ?thesis using bind_first(1,2) [where f = f and x = x, OF ok no True] b by auto
  next
    case some: False
    note bl = bind_last(1) [OF ok no some] bind_last(2) [where f = f and x = x, OF ok no some]
    show ?thesis
    proof (cases fr)
      case Nil
      then show ?thesis using bl(2) b ok by auto
    next
      case (Cons e' fr')
      then show ?thesis using bind_last_ok [where f = f and x = x, OF ok [unfolded Cons] no bl(1)] bl(2) b by auto
    qed
  qed
qed

subsection \<open>Unbinding\<close>

lemma unbind_loop_walks:
  assumes "path (next_service s) (Some p) (as @ e # bs)" and "e \<notin> set as"
  shows "unbind_loop prev (Some p) e s = unbind_loop (if as = [] then prev else Some (last as)) (Some e) e s"
  using assms
proof (induction as arbitrary: p prev)
  case (Cons y ys)
  have y: "y = p" "p \<noteq> e" using Cons.prems by auto
  obtain z where z: "next_service s p = Some z" "path (next_service s) (Some z) (ys @ e # bs)"
    using Cons.prems(1) by (cases ys) auto
  have "unbind_loop prev (Some p) e s = unbind_loop (Some p) (Some z) e s"
    using y z(1) by (subst unbind_loop.simps) simp
  then show ?case using Cons.IH [OF z(2), of "Some p"] Cons.prems(2) y(1) by auto
qed auto

lemma services_ok_drop:
  assumes ok: "services_ok ch fr s" and no: "no < 48" and split: "ch no = as @ e # bs" and rest: "as @ bs \<noteq> []"
  defines "nx \<equiv> (if as = [] then next_service s else (next_service s)(last as := next_service s e))"
  defines "s' \<equiv> s\<lparr>service_map := (if as = [] then (service_map s)(no := hd bs) else service_map s),
    isr := (isr s)(e := None), next_service := nx(e := unmapped s), unmapped := Some e\<rparr>"
  shows "services_ok (ch(no := as @ bs)) (e # fr) s'"
proof -
  note d = services_okD [OF ok]
  note c = chain_okD [OF d(1) [OF no]]
  have dist: "distinct (as @ e # bs)" using c(3) split by simp
  have long: "\<forall>p\<in>set (ch no). isr s p \<noteq> None" using c(5) split rest by (cases as; cases bs) auto
  have e: "e \<in> set (ch no)" "e \<notin> set fr" using d(5) [OF no, of e] split by auto
  have other: "e \<notin> set (ch n)" "as \<noteq> [] \<Longrightarrow> last as \<notin> set (ch n)" if "n < 48" "n \<noteq> no" for n
  proof -
    have "p \<notin> set (ch n)" if "p \<in> set (ch no)" for p
      using chain_okD(4) [OF d(1) [OF \<open>n < 48\<close>]] c(4) [OF that] \<open>n \<noteq> no\<close> by auto
    then show "e \<notin> set (ch n)" "as \<noteq> [] \<Longrightarrow> last as \<notin> set (ch n)" using split by auto
  qed
  have new: "path (nx(e := unmapped s)) (Some (service_map s' no)) (as @ bs)"
  proof (cases "as = []")
    case True
    have "path (next_service s) (next_service s e) bs" using c(2) split True by simp
    then have p: "path (next_service s) (Some (hd bs)) bs" using True rest by (cases bs) auto
    have "path (nx(e := unmapped s)) (Some (hd bs)) bs = path (next_service s) (Some (hd bs)) bs"
      using dist True by (intro path_cong) (auto simp: nx_def)
    then show ?thesis using p True by (simp add: s'_def)
  next
    case False
    have p: "path nx (Some (service_map s no)) (as @ bs)"
      using path_remove [of "next_service s" "service_map s no" as e bs] c(2) split dist False by (simp add: nx_def)
    have "path (nx(e := unmapped s)) (Some (service_map s no)) (as @ bs) = path nx (Some (service_map s no)) (as @ bs)"
      using dist by (intro path_cong) auto
    then show ?thesis using p False by (simp add: s'_def)
  qed
  show ?thesis
  proof (rule services_okI)
    fix n
    assume n: "n < (48 :: nat)"
    show "chain_ok ((ch(no := as @ bs)) n) n (next_service s') (service_map s' n) (interrupt_no s') (isr s')"
    proof (cases "n = no")
      case True
      have ns: "next_service s' = nx(e := unmapped s)" by (simp add: s'_def)
      have "p \<in> set (as @ bs) \<Longrightarrow> p \<in> set (ch no) \<and> p \<noteq> e" for p using split dist by auto
      then have "\<forall>p\<in>set (as @ bs). interrupt_no s' p = no \<and> isr s' p \<noteq> None"
        using c(4) long by (simp add: s'_def)
      then show ?thesis using True new dist rest ns by (simp add: chain_ok_def)
    next
      case False
      have "chain_ok (ch n) n (next_service s') (service_map s n) (interrupt_no s') (isr s')"
        using other [OF n False] by (intro chain_ok_other [OF d(1) [OF n]]) (auto simp: s'_def nx_def)
      then show ?thesis using False by (simp add: s'_def)
    qed
  next
    have "as \<noteq> [] \<Longrightarrow> last as \<notin> set fr" using d(5) [OF no, of "last as"] split by auto
    then have "path (nx(e := unmapped s)) (unmapped s) fr = path (next_service s) (unmapped s) fr"
      using e(2) by (intro path_cong) (auto simp: nx_def)
    then show "path (next_service s') (unmapped s') (e # fr)" using d(2) by (simp add: s'_def)
    show "distinct (e # fr)" using d(3) e(2) by simp
    show "isr s' q = None" if "q \<in> set (e # fr)" for q using d(4) [of q] that by (auto simp: s'_def)
    show "q \<notin> set ((ch(no := as @ bs)) n)" if "n < 48" "q \<in> set (e # fr)" for n q
      using d(5) [OF that(1), of q] other(1) [OF that(1)] that dist split by (cases "n = no") auto
    show "q < 64 \<longleftrightarrow> q \<in> set (e # fr) \<or> (\<exists>n < 48. q \<in> set ((ch(no := as @ bs)) n))" for q
    proof -
      have "q \<noteq> e \<Longrightarrow> q \<in> set ((ch(no := as @ bs)) n) \<longleftrightarrow> q \<in> set (ch n)" for n
        using split by (cases "n = no") auto
      then have "(\<exists>n < 48. q \<in> set (ch n)) \<or> q = e \<longleftrightarrow> (\<exists>n < 48. q \<in> set ((ch(no := as @ bs)) n)) \<or> q = e"
        by blast
      moreover have "q = e \<Longrightarrow> \<exists>n < 48. q \<in> set (ch n)" using e(1) no by blast
      ultimately show ?thesis using d(6) [of q] by auto
    qed
  qed
qed

lemma services_ok_clear:
  assumes ok: "services_ok ch fr s" and no: "no < 48" and single: "ch no = [e]"
  shows "services_ok ch fr (s\<lparr>isr := (isr s)(e := None)\<rparr>)"
proof -
  note d = services_okD [OF ok]
  have e: "e \<notin> set (ch n)" if "n < 48" "n \<noteq> no" for n
    using chain_okD(4) [OF d(1) [OF that(1)]] chain_okD(4) [OF d(1) [OF no]] single that(2) by auto
  show ?thesis
  proof (rule services_okI)
    fix n
    assume n: "n < (48 :: nat)"
    have "chain_ok (ch n) n (next_service s) (service_map s n) (interrupt_no s) ((isr s)(e := None))"
    proof (cases "n = no")
      case True
      then show ?thesis using d(1) [OF no] single by (simp add: chain_ok_def)
    next
      case False
      then show ?thesis using e [OF n] by (intro chain_ok_other [OF d(1) [OF n]]) auto
    qed
    then show "chain_ok (ch n) n (next_service (s\<lparr>isr := (isr s)(e := None)\<rparr>)) (service_map (s\<lparr>isr := (isr s)(e := None)\<rparr>) n)
        (interrupt_no (s\<lparr>isr := (isr s)(e := None)\<rparr>)) (isr (s\<lparr>isr := (isr s)(e := None)\<rparr>))" by simp
  next
    show "isr (s\<lparr>isr := (isr s)(e := None)\<rparr>) q = None" if "q \<in> set fr" for q using d(4) [OF that] by simp
    show "n < 48 \<Longrightarrow> q \<in> set fr \<Longrightarrow> q \<notin> set (ch n)" for n q by (rule d(5))
    show "q < 64 \<longleftrightarrow> q \<in> set fr \<or> (\<exists>no < 48. q \<in> set (ch no))" for q by (rule d(6))
  qed (use d(2,3) in simp_all)
qed

lemma interrupt_unbind_ok:
  assumes ok: "services_ok ch fr s" and u: "interrupt_unbind i s = Some (r, s')"
  shows "\<exists>ch fr. services_ok ch fr s'"
proof (cases "i < 0 \<or> 64 \<le> i \<or> isr s (nat i) = None")
  case True
  then have "s' = s" using u by (auto simp: interrupt_unbind_def Let_def split: if_splits)
  then show ?thesis using ok by blast
next
  case False
  note d = services_okD [OF ok]
  let ?e = "nat i"
  have "?e < 64" "?e \<notin> set fr" using False d(4) [of ?e] by auto
  then obtain no where no: "no < 48" "?e \<in> set (ch no)" using d(6) [of ?e] by blast
  note c = chain_okD [OF d(1) [OF no(1)]]
  have num: "interrupt_no s ?e = no" by (rule c(4) [OF no(2)])
  obtain as bs where split: "ch no = as @ ?e # bs" "?e \<notin> set as" using split_list_first [OF no(2)] by blast
  have walk: "unbind_loop None (Some (service_map s no)) ?e s =
      unbind_loop (if as = [] then None else Some (last as)) (Some ?e) ?e s"
    using unbind_loop_walks [of s "service_map s no" as ?e bs None] c(2) split by simp
  have step: "unbind_loop (if as = [] then None else Some (last as)) (Some ?e) ?e s = Some (r, s')"
  proof -
    obtain y where "isr s ?e = Some y" using False by auto
    then show ?thesis using u False num unfolding walk [symmetric] by (simp add: interrupt_unbind_def Let_def)
  qed
  show ?thesis
  proof (cases "as @ bs = []")
    case True
    have "next_service s ?e = None" using c(2) split True by auto
    then have "s' = s\<lparr>isr := (isr s)(?e := None)\<rparr>" using step True by (simp add: unbind_loop.simps Let_def)
    then show ?thesis using services_ok_clear [OF ok no(1), of ?e] split True by auto
  next
    case rest: False
    have "s' = s\<lparr>service_map := (if as = [] then (service_map s)(no := hd bs) else service_map s),
        isr := (isr s)(?e := None),
        next_service := (if as = [] then next_service s
          else (next_service s)(last as := next_service s ?e))(?e := unmapped s), unmapped := Some ?e\<rparr>"
    proof (cases "as = []")
      case True
      then obtain b bs' where b: "bs = b # bs'" using rest by (cases bs) auto
      then have "next_service s ?e = Some b" using c(2) split True by auto
      then show ?thesis using step True b num by (simp add: unbind_loop.simps Let_def)
    next
      case False
      then show ?thesis using step by (simp add: unbind_loop.simps Let_def)
    qed
    then show ?thesis using services_ok_drop [OF ok no(1) split(1) rest] by blast
  qed
qed

subsection \<open>What an interrupt calls\<close>

lemma path_upto:
  assumes "\<And>i. m \<le> i \<Longrightarrow> i < n \<Longrightarrow> nx i = Some (i + 1)" and "nx n = None" and "m \<le> n"
  shows "path nx (Some m) [m..<Suc n]"
  using assms
proof (induction "n - m" arbitrary: m)
  case 0
  then show ?case by simp
next
  case (Suc k)
  then have "path nx (Some (m + 1)) [m + 1..<Suc n]" by simp
  then show ?case using Suc.hyps(2) Suc.prems by (simp add: upt_conv_Cons del: upt_Suc)
qed

lemma interrupt_initialize_ok: "services_ok (\<lambda>no. [no]) [48..<64] (interrupt_initialize s)"
proof (rule services_okI)
  have "path (next_service (interrupt_initialize s)) (Some 48) [48..<Suc 63]"
    by (rule path_upto) (auto simp: interrupt_initialize_def)
  then show "path (next_service (interrupt_initialize s)) (unmapped (interrupt_initialize s)) [48..<64]"
    by (simp add: interrupt_initialize_def)
  show "p < 64 \<longleftrightarrow> p \<in> set [48..<64] \<or> (\<exists>no < 48. p \<in> set [no])" for p
  proof -
    have "(\<exists>no < 48. p \<in> set [no]) \<longleftrightarrow> p < 48" by auto
    then show ?thesis unfolding set_upt atLeastLessThan_iff by (simp only:) linarith
  qed
qed (auto simp: interrupt_initialize_def chain_ok_def)

lemma services_reach_ok: "services_reach s s' \<Longrightarrow> \<exists>ch fr. services_ok ch fr s'"
proof (induction rule: services_reach.induct)
  case (reach_initialized s)
  show ?case using interrupt_initialize_ok by blast
next
  case (reach_bound s s' a no r x e s'')
  then show ?case using interrupt_bind_ok by blast
next
  case (reach_unbound s s' i e s'')
  then show ?case using interrupt_unbind_ok by blast
qed

lemma interrupt_calls:
  assumes ok: "services_ok ch fr s" and no: "no < 48"
  shows "interrupt no s = Some (if isr s (service_map s no) = None then ([], True)
    else (map (\<lambda>q. (the (isr s q), exinf s q)) (ch no), False))"
proof (cases "isr s (service_map s no) = None")
  case True
  then show ?thesis unfolding interrupt_def by (subst service_calls.simps) simp
next
  case False
  show ?thesis
    using service_calls_path [OF chain_okD(2) [OF services_okD(1) [OF ok no]] bind_last(1) [OF ok no False]] False
    by (simp add: interrupt_def)
qed

lemma interrupt_calls_other:
  assumes ok: "services_ok ch fr s" and ok': "services_ok ch' fr' s'" and n: "n < 48" "ch' n = ch n"
    and same: "\<And>q. q \<in> set (ch n) \<Longrightarrow> isr s' q = isr s q \<and> exinf s' q = exinf s q" and "service_map s' n = service_map s n"
  shows "interrupt n s' = interrupt n s"
proof -
  have "service_map s n \<in> set (ch n)"
    using path_hd [OF chain_okD(2) [OF services_okD(1) [OF ok n(1)]]] by blast
  then have "isr s' (service_map s n) = isr s (service_map s n)" using same by blast
  moreover have "map (\<lambda>q. (the (isr s' q), exinf s' q)) (ch n) = map (\<lambda>q. (the (isr s q), exinf s q)) (ch n)"
    using same by (intro map_cong) auto
  ultimately show ?thesis
    using interrupt_calls [OF ok n(1)] interrupt_calls [OF ok' n(1)] n(2) assms(6) by simp
qed

lemma interrupt_bind_calls:
  assumes ok: "services_ok ch fr s" and no: "no < 48" and b: "bind_loop (service_map s no) no f x s = Some (e, s')"
  shows "if e < 0 then e = E_NOID \<and> s' = s
    else \<exists>l b. interrupt no s = Some (l, b) \<and> interrupt no s' = Some (l @ [(f, x)], False) \<and>
      (\<forall>n < 48. n \<noteq> no \<longrightarrow> interrupt n s' = interrupt n s)"
proof -
  note d = services_okD [OF ok]
  have apart: "q \<notin> set (ch n)" if "q \<in> set (ch no)" "n < 48" "n \<noteq> no" for q n
    using chain_okD(4) [OF d(1) [OF no] that(1)] chain_okD(4) [OF d(1) [OF that(2)], of q] that(3) by auto
  show ?thesis
  proof (cases "isr s (service_map s no) = None")
    case True
    let ?p = "service_map s no"
    note f = bind_first(1,2) [where f = f and x = x, OF ok no True] bind_first(3) [OF ok no True]
    have s': "e = int ?p" "s' = s\<lparr>isr := (isr s)(?p \<mapsto> f), exinf := (exinf s)(?p := x)\<rparr>" using f(1) b by auto
    have "interrupt n s' = interrupt n s" if "n < 48" "n \<noteq> no" for n
      using apart [of ?p n] that f(3) by (intro interrupt_calls_other [OF ok f(2) [folded s'(2)]]) (auto simp: s'(2))
    moreover have "interrupt no s' = Some ([(f, x)], False)"
      using interrupt_calls [OF f(2) [folded s'(2)] no] f(3) by (simp add: s'(2))
    ultimately show ?thesis using s'(1) interrupt_calls [OF ok no] True by auto
  next
    case some: False
    note bl = bind_last(1) [OF ok no some] bind_last(2) [where f = f and x = x, OF ok no some]
    show ?thesis
    proof (cases fr)
      case Nil
      then show ?thesis using bl(2) b by simp
    next
      case (Cons g gs)
      define t where "t = s\<lparr>unmapped := next_service s g, isr := (isr s)(g \<mapsto> f), exinf := (exinf s)(g := x),
        interrupt_no := (interrupt_no s)(g := no), next_service := (next_service s)(g := None, last (ch no) := Some g)\<rparr>"
      have s': "e = int g" "s' = t" using bl(2) b Cons by (auto simp: t_def)
      have ok': "services_ok (ch(no := ch no @ [g])) gs t"
        unfolding t_def by (rule bind_last_ok [OF ok [unfolded Cons] no bl(1)])
      have g: "\<And>n. n < 48 \<Longrightarrow> g \<notin> set (ch n)" using d(5) Cons by simp
      have "interrupt n t = interrupt n s" if "n < 48" "n \<noteq> no" for n
        using g [OF that(1)] that by (intro interrupt_calls_other [OF ok ok']) (auto simp: t_def)
      moreover have "interrupt no t = Some (map (\<lambda>q. (the (isr s q), exinf s q)) (ch no) @ [(f, x)], False)"
      proof -
        have "service_map s no \<noteq> g"
          using path_hd [OF chain_okD(2) [OF d(1) [OF no]]] g [OF no] by auto
        moreover have "map (\<lambda>q. (the (isr t q), exinf t q)) (ch no) = map (\<lambda>q. (the (isr s q), exinf s q)) (ch no)"
          using g [OF no] by (intro map_cong) (auto simp: t_def)
        ultimately show ?thesis using interrupt_calls [OF ok' no] some by (simp add: t_def)
      qed
      ultimately show ?thesis using s' interrupt_calls [OF ok no] some by auto
    qed
  qed
qed

text \<open>
  After any sequence of bindings and unbindings, binding a routine to an interrupt makes that
  interrupt call, without a fault, the routines it called before followed by the new one, and leaves
  the calls of every other interrupt as they were; when no entry is left the binding is refused and
  nothing changes.
\<close>

theorem interrupt_bind_appends:
  assumes "services_reach s0 s" and "no < IDT_MAX_ENTRY" and "interrupt_bind TA_HLNG no (Some f) x s = Some (e, s')"
  shows "if e < 0 then e = E_NOID \<and> s' = s
    else \<exists>l b. interrupt no s = Some (l, b) \<and> interrupt no s' = Some (l @ [(f, x)], False) \<and>
      (\<forall>n < IDT_MAX_ENTRY. n \<noteq> no \<longrightarrow> interrupt n s' = interrupt n s)"
proof -
  obtain ch fr where "services_ok ch fr s" using services_reach_ok [OF assms(1)] by blast
  from interrupt_bind_calls [OF this, of no f x e s'] assms(2,3) show ?thesis by (simp add: interrupt_bind_def)
qed

definition blank :: "nat services" where
  "blank = \<lparr>isr = (\<lambda>i. None), exinf = (\<lambda>i. 0), next_service = (\<lambda>i. None), interrupt_no = (\<lambda>i. 0),
     service_map = (\<lambda>i. 0), unmapped = None\<rparr>"

theorem interrupt_bind_appends_witness:
  "\<exists>s'. interrupt_bind 0 33 (Some 5) 9 (interrupt_initialize blank) = Some (33, s') \<and>
    interrupt 33 s' = Some ([(5, 9)], False)"
proof -
  have r: "services_reach blank (interrupt_initialize blank)" by (rule reach_initialized)
  have i: "interrupt 33 (interrupt_initialize blank) = Some ([], True)"
    unfolding interrupt_def by (subst service_calls.simps) (simp add: interrupt_initialize_def)
  obtain s' where b: "interrupt_bind 0 33 (Some 5) 9 (interrupt_initialize blank) = Some (33, s')"
    by (simp add: interrupt_bind_def bind_loop.simps interrupt_initialize_def)
  from interrupt_bind_appends [OF r _ b] i b show ?thesis by simp
qed

end
