(* ===== verification/Std_Sort.thy ===== *)
theory Std_Sort
  imports Set_Map "HOL-Library.Monad_Syntax"
begin

section \<open>Sorting and searching of the C library\<close>

text \<open>
  \<^verbatim>\<open>src/lib/libc/stdlib/qsort.c\<close> and \<^verbatim>\<open>bsearch.c\<close>. An array is the list of its elements;
  \<^verbatim>\<open>getAddr (base, size, n)\<close> is element \<open>n\<close>, and a copy of \<^verbatim>\<open>size\<close> bytes moves one
  element. An access outside the array is \<^const>\<open>None\<close>. The buffer \<open>work\<close> is what
  \<^verbatim>\<open>malloc\<close> returned, with any contents; the empty list stands for a null pointer.
  Every routine fills the part of the buffer it reads before it reads it, so the buffer
  is not part of the results. The indices are \<^typ>\<open>nat\<close>, which is exact while
  \<^verbatim>\<open>range << 1\<close> stays inside \<^verbatim>\<open>int\<close>, that is up to \<open>2 ^ 30\<close> elements.
\<close>

subsection \<open>Model\<close>

text \<open>The inner loop of \<^verbatim>\<open>insert\<close>; \<open>k\<close> is \<^verbatim>\<open>j + 1\<close>.\<close>

fun insert_shift :: "('a \<Rightarrow> 'a \<Rightarrow> int) \<Rightarrow> nat \<Rightarrow> 'a \<Rightarrow> nat \<Rightarrow> 'a list \<Rightarrow> (nat \<times> 'a list) option" where
  "insert_shift compar low x k base =
    (if low < k then do {
       p \<leftarrow> rd base (k - 1);
       if compar p x \<le> 0 then Some (k, base)
       else do { base' \<leftarrow> wr base k p; insert_shift compar low x (k - 1) base' }
     } else Some (k, base))"

declare insert_shift.simps [simp del]

function insert_from :: "('a \<Rightarrow> 'a \<Rightarrow> int) \<Rightarrow> nat \<Rightarrow> nat \<Rightarrow> nat \<Rightarrow> 'a list \<Rightarrow> 'a list \<Rightarrow> 'a list option" where
  "insert_from compar low high i work base =
    (if i \<le> high then do {
       x \<leftarrow> rd base i;
       _ \<leftarrow> wr work 0 x;
       (k, base') \<leftarrow> insert_shift compar low x i base;
       base'' \<leftarrow> wr base' k x;
       insert_from compar low high (i + 1) work base''
     } else Some base)"
  by pat_completeness auto
termination by (relation "measure (\<lambda>(c, low, high, i, w, b). Suc high - i)") auto

declare insert_from.simps [simp del]

definition insert_c :: "('a \<Rightarrow> 'a \<Rightarrow> int) \<Rightarrow> nat \<Rightarrow> nat \<Rightarrow> 'a list \<Rightarrow> 'a list \<Rightarrow> 'a list option" where
  "insert_c compar low high work base = insert_from compar low high (low + 1) work base"

text \<open>
  The loop of \<^verbatim>\<open>merge\<close>: \<open>run\<close> is what was copied to the buffer, \<open>to\<close> and \<open>i\<close> are the
  indices \<^verbatim>\<open>to\<close> and \<^verbatim>\<open>b\<close> point at, \<open>j\<close> the one \<^verbatim>\<open>w\<close> points at.
\<close>

function merge_loop :: "('a \<Rightarrow> 'a \<Rightarrow> int) \<Rightarrow> nat \<Rightarrow> nat \<Rightarrow> 'a list \<Rightarrow> nat \<Rightarrow> nat \<Rightarrow> nat \<Rightarrow> 'a list
    \<Rightarrow> ('a list \<times> nat \<times> nat) option" where
  "merge_loop compar high rng run to i j base =
    (if j \<le> rng then do {
       w \<leftarrow> rd run j;
       b \<leftarrow> rd base i;
       if compar w b \<le> 0 then do {
         base' \<leftarrow> wr base to w;
         merge_loop compar high rng run (to + 1) i (j + 1) base'
       } else do {
         base' \<leftarrow> wr base to b;
         if i + 1 > high then Some (base', to + 1, j)
         else merge_loop compar high rng run (to + 1) (i + 1) j base'
       }
     } else Some (base, to, j))"
  by pat_completeness auto
termination
  by (relation "measure (\<lambda>(c, high, rng, run, to, i, j, b). (Suc rng - j) + (Suc high - i))") auto

declare merge_loop.simps [simp del]

definition merge_c :: "('a \<Rightarrow> 'a \<Rightarrow> int) \<Rightarrow> nat \<Rightarrow> nat \<Rightarrow> nat \<Rightarrow> 'a list \<Rightarrow> 'a list \<Rightarrow> 'a list option" where
  "merge_c compar low high rng work base =
    (if low < high then
       (let i = rng + 1 in
        if length base < low + i \<or> length work < i then None
        else do {
          (base', to, j) \<leftarrow> merge_loop compar high rng (take i (drop low base)) low i 0 base;
          (let rest = drop j (take i (drop low base)) in
           if length base' < to + length rest then None
           else Some (take to base' @ rest @ drop (to + length rest) base'))
        })
     else Some base)"

definition THRESHOLD :: nat where "THRESHOLD = 50"

partial_function (option) qsort_blocks ::
    "('a \<Rightarrow> 'a \<Rightarrow> int) \<Rightarrow> nat \<Rightarrow> nat \<Rightarrow> 'a list \<Rightarrow> nat \<Rightarrow> 'a list \<Rightarrow> 'a list option" where
  "qsort_blocks compar nmemb rng work i base =
    (if i < nmemb then
       Option.bind
         (if min (i + 2 * rng - 1) (nmemb - 1) - i < THRESHOLD
          then insert_c compar i (min (i + 2 * rng - 1) (nmemb - 1)) work base
          else merge_c compar i (min (i + 2 * rng - 1) (nmemb - 1)) (rng - 1) work base)
         (qsort_blocks compar nmemb rng work (i + 2 * rng))
     else Some base)"

partial_function (option) qsort_passes ::
    "('a \<Rightarrow> 'a \<Rightarrow> int) \<Rightarrow> nat \<Rightarrow> 'a list \<Rightarrow> nat \<Rightarrow> 'a list \<Rightarrow> 'a list option" where
  "qsort_passes compar nmemb work rng base =
    (if rng < nmemb then
       Option.bind (qsort_blocks compar nmemb rng work 0 base)
         (qsort_passes compar nmemb work (2 * rng))
     else Some base)"

definition qsort :: "('a \<Rightarrow> 'a \<Rightarrow> int) \<Rightarrow> nat \<Rightarrow> 'a list \<Rightarrow> 'a list \<Rightarrow> 'a list option" where
  "qsort compar nmemb work base = qsort_passes compar nmemb work 1 base"

text \<open>\<^verbatim>\<open>bsearch\<close> returns the index of the element its pointer addresses.\<close>

function bsearch_loop :: "('k \<Rightarrow> 'a \<Rightarrow> int) \<Rightarrow> 'k \<Rightarrow> 'a list \<Rightarrow> int \<Rightarrow> int \<Rightarrow> nat option option" where
  "bsearch_loop compar key base low high =
    (if low \<le> high then
       (let middle = low + (high - low) div 2 in
        case rd base (nat middle) of
          None \<Rightarrow> None
        | Some p \<Rightarrow>
            (let diff = compar key p in
             if diff = 0 then Some (Some (nat middle))
             else if diff < 0 then bsearch_loop compar key base low (middle - 1)
             else bsearch_loop compar key base (middle + 1) high))
     else Some None)"
  by pat_completeness auto
termination
  by (relation "measure (\<lambda>(c, k, b, low, high). nat (high - low + 1))") (auto simp: Let_def)

declare bsearch_loop.simps [simp del]

definition bsearch :: "('k \<Rightarrow> 'a \<Rightarrow> int) \<Rightarrow> 'k \<Rightarrow> 'a list \<Rightarrow> nat \<Rightarrow> nat option option" where
  "bsearch compar key base nmemb = bsearch_loop compar key base 0 (int nmemb - 1)"

subsection \<open>Insertion\<close>

text \<open>The order a comparison function gives, and arrays sorted in it.\<close>

definition sorted_by :: "('a \<Rightarrow> 'a \<Rightarrow> int) \<Rightarrow> 'a list \<Rightarrow> bool" where
  "sorted_by compar xs \<longleftrightarrow> sorted_wrt (\<lambda>a b. compar a b \<le> 0) xs"

lemma insert_shift_splits:
  "\<exists>s1 s2 g'. s = s1 @ s2 \<and> (\<forall>y \<in> set s2. \<not> compar y x \<le> 0) \<and> (s1 = [] \<or> compar (last s1) x \<le> 0) \<and>
     insert_shift compar (length p) x (length p + length s) (p @ s @ g # r) =
       Some (length p + length s1, p @ s1 @ g' # s2 @ r)"
proof (induction s arbitrary: g r rule: rev_induct)
  case Nil
  show ?case by (simp add: insert_shift.simps)
next
  case (snoc y s)
  have rdy: "rd (p @ (s @ [y]) @ g # r) (length p + length s) = Some y"
    using rd_append [of "p @ s" y "g # r"] by simp
  have wry: "wr (p @ (s @ [y]) @ g # r) (length p + length (s @ [y])) y = Some (p @ s @ y # y # r)"
    using wr_append [of "p @ s @ [y]" g r y] by simp
  show ?case
  proof (cases "compar y x \<le> 0")
    case True
    then have "insert_shift compar (length p) x (length p + length (s @ [y])) (p @ (s @ [y]) @ g # r) =
        Some (length p + length (s @ [y]), p @ (s @ [y]) @ g # [] @ r)"
      using rdy by (subst insert_shift.simps) simp
    then show ?thesis using True by - (rule exI [of _ "s @ [y]"], rule exI [of _ "[]"], rule exI [of _ g], simp)
  next
    case False
    obtain s1 s2 g' where s: "s = s1 @ s2" "\<forall>z \<in> set s2. \<not> compar z x \<le> 0"
        "s1 = [] \<or> compar (last s1) x \<le> 0"
      and eq: "insert_shift compar (length p) x (length p + length s) (p @ s @ y # y # r) =
        Some (length p + length s1, p @ s1 @ g' # s2 @ y # r)"
      using snoc.IH [of y "y # r"] by blast
    have "insert_shift compar (length p) x (length p + length (s @ [y])) (p @ (s @ [y]) @ g # r) =
        insert_shift compar (length p) x (length p + length s) (p @ s @ y # y # r)"
      using rdy wry False by (subst insert_shift.simps) simp
    then show ?thesis using s eq False
      by - (rule exI [of _ s1], rule exI [of _ "s2 @ [y]"], rule exI [of _ g'], auto)
  qed
qed

subsection \<open>Merging\<close>

fun merge_lists :: "('a \<Rightarrow> 'a \<Rightarrow> int) \<Rightarrow> 'a list \<Rightarrow> 'a list \<Rightarrow> 'a list" where
  "merge_lists compar [] ys = ys"
| "merge_lists compar (x # xs) [] = x # xs"
| "merge_lists compar (x # xs) (y # ys) =
    (if compar x y \<le> 0 then x # merge_lists compar xs (y # ys) else y # merge_lists compar (x # xs) ys)"

lemma mset_merge_lists [simp]: "mset (merge_lists compar xs ys) = mset xs + mset ys"
  by (induction compar xs ys rule: merge_lists.induct) auto

lemma set_merge_lists: "set (merge_lists compar xs ys) = set xs \<union> set ys"
  using mset_merge_lists [of compar xs ys] by (metis set_mset_mset set_mset_union)

lemma merge_lists_append:
  "\<forall>x \<in> set xs. \<forall>y \<in> set ys. compar x y \<le> 0 \<Longrightarrow> merge_lists compar xs ys = xs @ ys"
  by (induction compar xs ys rule: merge_lists.induct) auto

lemma merge_loop_merges:
  assumes "drop j run = xs" "length run = Suc rng" "length g = length xs" "ys \<noteq> []"
    "Suc high = length m + length g + length ys"
  shows "\<exists>base' to' j'. merge_loop compar high rng run (length m) (length m + length g) j (m @ g @ ys @ zs) =
      Some (base', to', j') \<and> to' + length (drop j' run) \<le> length base' \<and>
      take to' base' @ drop j' run @ drop (to' + length (drop j' run)) base' = m @ merge_lists compar xs ys @ zs"
  using assms
proof (induction compar xs ys arbitrary: m g j rule: merge_lists.induct)
  case (1 compar ys)
  then show ?case by (subst merge_loop.simps) auto
next
  case (2 compar x xs)
  then show ?case by simp
next
  case (3 compar x xs y ys)
  from 3(3) have "j < length run" by (metis drop_eq_Nil2 list.distinct(1) not_le)
  moreover have "drop (Suc j) run = tl (drop j run)" by (simp add: drop_Suc tl_drop)
  ultimately have j: "j \<le> rng" "rd run j = Some x" "drop (Suc j) run = xs"
    using 3(3,4) by (auto simp: rd_def nth_via_drop)
  have left: "length run - j = Suc (length xs)" using arg_cong [OF 3(3), of length] by simp
  from 3(5) obtain g0 g' where g: "g = g0 # g'" "length g' = length xs" by (cases g) auto
  have rdb: "rd (m @ g @ (y # ys) @ zs) (length m + length g) = Some y"
    using rd_append [of "m @ g" y "ys @ zs"] by simp
  have wrb: "wr (m @ g @ (y # ys) @ zs) (length m) z = Some ((m @ [z]) @ g' @ (y # ys) @ zs)" for z
    using wr_append [of m g0 "g' @ (y # ys) @ zs" z] g by simp
  show ?case
  proof (cases "compar x y \<le> 0")
    case True
    have "merge_loop compar high rng run (length m) (length m + length g) j (m @ g @ (y # ys) @ zs) =
        merge_loop compar high rng run (length (m @ [x])) (length (m @ [x]) + length g') (Suc j)
          ((m @ [x]) @ g' @ (y # ys) @ zs)"
      using j rdb wrb True g by (subst merge_loop.simps) simp
    with 3(1) [OF True j(3) 3(4) g(2), of "m @ [x]"] 3(7) g True show ?thesis by simp
  next
    case False
    show ?thesis
    proof (cases ys)
      case Nil
      have "merge_loop compar high rng run (length m) (length m + length g) j (m @ g @ (y # ys) @ zs) =
          Some ((m @ [y]) @ g' @ (y # ys) @ zs, length m + 1, j)"
        using j rdb wrb False g 3(7) Nil by (subst merge_loop.simps) simp
      then show ?thesis using 3(3) Nil g False left by simp
    next
      case (Cons y' ys')
      have "merge_loop compar high rng run (length m) (length m + length g) j (m @ g @ (y # ys) @ zs) =
          merge_loop compar high rng run (length (m @ [y])) (length (m @ [y]) + length (g' @ [y])) j
            ((m @ [y]) @ (g' @ [y]) @ ys @ zs)"
        using j rdb wrb False g 3(7) Cons by (subst merge_loop.simps) simp
      with 3(2) [OF False 3(3) 3(4), of "g' @ [y]" "m @ [y]"] 3(7) g False Cons show ?thesis by simp
    qed
  qed
qed

text \<open>A block that starts at the beginning of the array is merged.\<close>

lemma merge_c_first_block:
  assumes "0 < high" "high < length base" "rng < high" "Suc rng \<le> length work"
  shows "merge_c compar 0 high rng work base =
    Some (merge_lists compar (take (Suc rng) base) (take (high - rng) (drop (Suc rng) base)) @ drop (Suc high) base)"
proof -
  let ?xs = "take (Suc rng) base" and ?ys = "take (high - rng) (drop (Suc rng) base)"
  have split: "base = [] @ ?xs @ ?ys @ drop (Suc high) base"
  proof -
    have "base = ?xs @ ?ys @ drop (high - rng) (drop (Suc rng) base)" by (metis append_take_drop_id)
    then show ?thesis using assms by simp
  qed
  have "length ?ys = high - rng" "?ys \<noteq> []" using assms by auto
  moreover have "length ?xs = Suc rng" using assms by simp
  ultimately obtain base' to' j' where "merge_loop compar high rng ?xs 0 (Suc rng) 0 base = Some (base', to', j')"
      "\<not> length base' < to' + length (drop j' ?xs)"
      "take to' base' @ drop j' ?xs @ drop (to' + length (drop j' ?xs)) base' =
        merge_lists compar ?xs ?ys @ drop (Suc high) base"
    using merge_loop_merges [of 0 ?xs ?xs rng ?xs ?ys high "[]" compar "drop (Suc high) base"] assms
    unfolding split [symmetric] by auto
  then show ?thesis using assms by (simp add: merge_c_def Let_def)
qed

lemma take_drop_prefix:
  "a + b \<le> i \<Longrightarrow> i \<le> length xs \<Longrightarrow> take b (drop a (take i xs @ ys)) = take b (drop a xs)"
  by (simp add: drop_take)

lemma short_blocks:
  assumes "n \<le> 114"
  shows "\<forall>i < n. 2 * 2 ^ p dvd i \<longrightarrow> min (i + 2 * 2 ^ p - 1) (n - 1) - i < THRESHOLD \<or> i = 0"
proof (intro allI impI)
  fix i :: nat
  assume i: "i < n" "2 * 2 ^ p dvd i"
  show "min (i + 2 * 2 ^ p - 1) (n - 1) - i < THRESHOLD \<or> i = 0"
  proof (cases "p < 5")
    case True
    then have "(2 :: nat) ^ p \<le> 2 ^ 4" by (intro power_increasing) auto
    then show ?thesis by (auto simp: THRESHOLD_def min_def)
  next
    case False
    then have "(2 :: nat) ^ 5 \<le> 2 ^ p" by (intro power_increasing) auto
    moreover have "i = 0 \<or> 2 * 2 ^ p \<le> i" using i(2) by (auto dest: dvd_imp_le)
    ultimately show ?thesis using assms by (auto simp: THRESHOLD_def)
  qed
qed

text \<open>The contract of a comparison function: a total preorder.\<close>

locale compar_order =
  fixes compar :: "'a \<Rightarrow> 'a \<Rightarrow> int"
  assumes compar_total: "compar a b \<le> 0 \<or> compar b a \<le> 0"
    and compar_trans: "compar a b \<le> 0 \<Longrightarrow> compar b c \<le> 0 \<Longrightarrow> compar a c \<le> 0"
begin

lemma sorted_insert_between:
  assumes "sorted_by compar (s1 @ s2)" "\<forall>y \<in> set s2. \<not> compar y x \<le> 0" "s1 = [] \<or> compar (last s1) x \<le> 0"
  shows "sorted_by compar (s1 @ x # s2)"
proof -
  have "compar y x \<le> 0" if y: "y \<in> set s1" for y
  proof -
    from y obtain s' where s': "s1 = s' @ [last s1]" by (metis append_butlast_last_id empty_iff empty_set)
    have "compar y (last s1) \<le> 0 \<or> y = last s1"
      using assms(1) y unfolding sorted_by_def by (subst (asm) s', subst (asm) (2) s') (auto simp: sorted_wrt_append)
    with assms(3) y show ?thesis using compar_trans by (metis empty_iff empty_set)
  qed
  moreover have "compar x y \<le> 0" if "y \<in> set s2" for y using assms(2) that compar_total by blast
  ultimately show ?thesis using assms(1) unfolding sorted_by_def by (auto simp: sorted_wrt_append)
qed

lemma insert_step:
  assumes "sorted_by compar s"
  shows "\<exists>s' base'. insert_shift compar (length p) x (length p + length s) (p @ s @ x # r) =
       Some (length p + length (fst s'), base') \<and>
     wr base' (length p + length (fst s')) x = Some (p @ (fst s' @ x # snd s') @ r) \<and>
     s = fst s' @ snd s' \<and> sorted_by compar (fst s' @ x # snd s') \<and>
     (sorted_by compar (s @ [x]) \<longrightarrow> snd s' = [])"
proof -
  obtain s1 s2 g where s: "s = s1 @ s2" "\<forall>y \<in> set s2. \<not> compar y x \<le> 0" "s1 = [] \<or> compar (last s1) x \<le> 0"
    and eq: "insert_shift compar (length p) x (length p + length s) (p @ s @ x # r) =
       Some (length p + length s1, p @ s1 @ g # s2 @ r)"
    using insert_shift_splits [of s compar x p x r] by blast
  have "wr (p @ s1 @ g # s2 @ r) (length p + length s1) x = Some (p @ (s1 @ x # s2) @ r)"
    using wr_append [of "p @ s1" g "s2 @ r" x] by simp
  moreover have "sorted_by compar (s1 @ x # s2)"
    using sorted_insert_between assms s by simp
  moreover have "sorted_by compar (s @ [x]) \<longrightarrow> s2 = []"
    using s unfolding sorted_by_def by (cases s2) (auto simp: sorted_wrt_append)
  ultimately show ?thesis using s eq by (intro exI [of _ "(s1, s2)"]) auto
qed

lemma insert_from_sorts:
  assumes "sorted_by compar s" "work \<noteq> []" "Suc high = length p + length s + length t"
  shows "\<exists>s'. insert_from compar (length p) high (length p + length s) work (p @ s @ t @ q) = Some (p @ s' @ q) \<and>
     mset s' = mset s + mset t \<and> sorted_by compar s' \<and> (sorted_by compar (s @ t) \<longrightarrow> s' = s @ t)"
  using assms
proof (induction t arbitrary: s)
  case Nil
  then show ?case by (subst insert_from.simps) simp
next
  case (Cons x t)
  obtain s' base' where st: "insert_shift compar (length p) x (length p + length s) (p @ s @ x # t @ q) =
       Some (length p + length (fst s'), base')"
     "wr base' (length p + length (fst s')) x = Some (p @ (fst s' @ x # snd s') @ t @ q)"
     "s = fst s' @ snd s'" "sorted_by compar (fst s' @ x # snd s')"
     "sorted_by compar (s @ [x]) \<longrightarrow> snd s' = []"
    using insert_step [OF Cons.prems(1), of p x "t @ q"] by blast
  have rdx: "rd (p @ s @ x # t @ q) (length p + length s) = Some x"
    using rd_append [of "p @ s" x "t @ q"] by simp
  obtain s'' where ih: "insert_from compar (length p) high (length p + length (fst s' @ x # snd s')) work
       (p @ (fst s' @ x # snd s') @ t @ q) = Some (p @ s'' @ q)"
     "mset s'' = mset (fst s' @ x # snd s') + mset t" "sorted_by compar s''"
     "sorted_by compar ((fst s' @ x # snd s') @ t) \<longrightarrow> s'' = (fst s' @ x # snd s') @ t"
    using Cons.IH [OF st(4) Cons.prems(2)] Cons.prems(3) st(3) by force
  have len: "length (fst s' @ x # snd s') = length s + 1"
    using arg_cong [OF st(3), of length] by simp
  have "insert_from compar (length p) high (length p + length s) work (p @ s @ (x # t) @ q) = Some (p @ s'' @ q)"
    using Cons.prems(2,3) rdx st(1,2) ih(1) len by (subst insert_from.simps) (simp add: wr_def [of work])
  moreover have "mset s'' = mset s + mset (x # t)" using ih(2) arg_cong [OF st(3), of mset] by simp
  moreover have "sorted_by compar (s @ x # t) \<longrightarrow> s'' = s @ x # t"
  proof
    assume srt: "sorted_by compar (s @ x # t)"
    then have "sorted_by compar (s @ [x])" by (auto simp: sorted_by_def sorted_wrt_append)
    with st(5) have "snd s' = []" by blast
    then show "s'' = s @ x # t" using ih(4) st(3) srt by simp
  qed
  ultimately show ?case using ih(3) by blast
qed

lemma insert_c_sorts:
  assumes "low \<le> high" "high < length base" "work \<noteq> []"
  shows "\<exists>s. insert_c compar low high work base = Some (take low base @ s @ drop (Suc high) base) \<and>
     mset s = mset (take (Suc high - low) (drop low base)) \<and> sorted_by compar s \<and>
     (sorted_by compar (take (Suc high - low) (drop low base)) \<longrightarrow>
        s = take (Suc high - low) (drop low base))"
proof -
  obtain x t where seg: "take (Suc high - low) (drop low base) = x # t"
    using assms by (metis diff_is_0_eq drop_eq_Nil2 less_Suc_eq_le list.exhaust not_le
        take_eq_Nil less_le_trans order.strict_implies_order)
  have split: "base = take low base @ [x] @ t @ drop (Suc high) base"
  proof -
    have "base = take low base @ take (Suc high - low) (drop low base) @ drop (Suc high - low) (drop low base)"
      by (metis append_take_drop_id)
    then show ?thesis using seg assms by simp
  qed
  have lt: "length (take low base) = low" using assms by simp
  have "length (x # t) = Suc high - low" using assms by (simp flip: seg)
  then have "Suc high = length (take low base) + length [x] + length t" using assms by simp
  then obtain s where "insert_from compar (length (take low base)) high (length (take low base) + length [x]) work
      (take low base @ [x] @ t @ drop (Suc high) base) = Some (take low base @ s @ drop (Suc high) base)"
    "mset s = mset [x] + mset t" "sorted_by compar s" "sorted_by compar ([x] @ t) \<longrightarrow> s = [x] @ t"
    using insert_from_sorts [of "[x]" work high "take low base" t "drop (Suc high) base"] assms(3)
    by (auto simp: sorted_by_def)
  then show ?thesis unfolding insert_c_def seg lt split [symmetric] by auto
qed

lemma sorted_merge_lists:
  "sorted_by compar xs \<Longrightarrow> sorted_by compar ys \<Longrightarrow> sorted_by compar (merge_lists compar xs ys)"
proof (induction c \<equiv> compar xs ys rule: merge_lists.induct)
  case (3 x xs y ys)
  have "compar x z \<le> 0" if "compar x y \<le> 0" "z \<in> set ys" for z
    using that 3(4) compar_trans [of x y z] by (simp add: sorted_by_def)
  moreover have "compar y x \<le> 0" if "\<not> compar x y \<le> 0" using that compar_total by blast
  moreover from this have "compar y z \<le> 0" if "\<not> compar x y \<le> 0" "z \<in> set xs" for z
    using that 3(3) compar_trans [of y x z] by (simp add: sorted_by_def)
  ultimately show ?case using 3 by (auto simp: set_merge_lists sorted_by_def)
qed auto

text \<open>One block of a pass: it is sorted in place, and left alone when the array is sorted.\<close>

lemma block_sorts:
  assumes "0 < r" "i < length base" "length work = length base" "r < length base"
    and high: "high = min (i + 2 * r - 1) (length base - 1)"
    and short: "high - i < THRESHOLD \<or> i = 0"
    and runs: "\<forall>k. i \<le> k * r \<longrightarrow> sorted_by compar (take r (drop (k * r) base))"
  shows "\<exists>s. (if high - i < THRESHOLD then insert_c compar i high work base
       else merge_c compar i high (r - 1) work base) = Some (take i base @ s @ drop (Suc high) base) \<and>
     mset s = mset (take (Suc high - i) (drop i base)) \<and> sorted_by compar s \<and>
     (sorted_by compar base \<longrightarrow> s = take (Suc high - i) (drop i base))"
proof (cases "high - i < THRESHOLD")
  case True
  have "sorted_by compar base \<longrightarrow> sorted_by compar (take (Suc high - i) (drop i base))"
    by (simp add: sorted_by_def sorted_wrt_take sorted_wrt_drop)
  moreover have "i \<le> high" "high < length base" "work \<noteq> []" using assms by auto
  ultimately show ?thesis using True insert_c_sorts [of i high base work] by auto
next
  case False
  then have i: "i = 0" and big: "THRESHOLD \<le> high" using short by auto
  let ?xs = "take r base" and ?ys = "take (Suc high - r) (drop r base)"
  have b: "r \<le> high" "high < length base" "0 < high" using big high assms(1,2,4) i by (auto simp: THRESHOLD_def)
  have m: "merge_c compar 0 high (r - 1) work base = Some (merge_lists compar ?xs ?ys @ drop (Suc high) base)"
    using merge_c_first_block [of high base "r - 1" work compar] b assms(1,3) by (simp add: Suc_diff_le)
  have seg: "take (Suc high) base = ?xs @ ?ys" using b by (metis le_Suc_eq le_add_diff_inverse take_add)
  have "Suc high - r \<le> r" using high i assms(1) by linarith
  then have "?ys = take (Suc high - r) (take r (drop (1 * r) base))" by simp
  then have "sorted_by compar ?ys" using runs i unfolding sorted_by_def by (metis le0 sorted_wrt_take)
  moreover have "sorted_by compar ?xs" using runs [rule_format, of 0] i by simp
  ultimately have "sorted_by compar (merge_lists compar ?xs ?ys)" by (rule sorted_merge_lists [rotated])
  moreover have "merge_lists compar ?xs ?ys = ?xs @ ?ys" if "sorted_by compar base"
  proof (rule merge_lists_append)
    have "sorted_by compar (?xs @ ?ys)" using that sorted_wrt_take seg unfolding sorted_by_def by metis
    then show "\<forall>x \<in> set ?xs. \<forall>y \<in> set ?ys. compar x y \<le> 0" by (auto simp: sorted_by_def sorted_wrt_append)
  qed
  moreover have "mset (merge_lists compar ?xs ?ys) = mset (take (Suc high) base)" unfolding seg by simp
  ultimately show ?thesis using False m i seg by auto
qed

text \<open>A pass doubles the length of the sorted runs.\<close>

lemma pass_doubles:
  assumes "0 < r" "r < n" "length base = n" "length work = n" "2 * r dvd i"
    and short: "\<forall>i < n. 2 * r dvd i \<longrightarrow> min (i + 2 * r - 1) (n - 1) - i < THRESHOLD \<or> i = 0"
    and new: "\<forall>k. k * (2 * r) < i \<longrightarrow> sorted_by compar (take (2 * r) (drop (k * (2 * r)) base))"
    and old: "\<forall>k. i \<le> k * r \<longrightarrow> sorted_by compar (take r (drop (k * r) base))"
  shows "\<exists>base'. qsort_blocks compar n r work i base = Some base' \<and> mset base' = mset base \<and>
    (\<forall>k. sorted_by compar (take (2 * r) (drop (k * (2 * r)) base'))) \<and> (sorted_by compar base \<longrightarrow> base' = base)"
  using assms(3,5) new old
proof (induction "n - i" arbitrary: i base rule: less_induct)
  case less
  show ?case
  proof (cases "i < n")
    case False
    have "sorted_by compar (take (2 * r) (drop (k * (2 * r)) base))" for k
      using less.prems False by (cases "k * (2 * r) < i") (auto simp: sorted_by_def)
    then show ?thesis using False by (subst qsort_blocks.simps) simp
  next
    case True
    define high where "high = min (i + 2 * r - 1) (n - 1)"
    have high': "high = min (i + 2 * r - 1) (length base - 1)" using high_def less.prems(1) by simp
    have short': "high - i < THRESHOLD \<or> i = 0" using short True less.prems(2) unfolding high_def by blast
    have in_range: "i < length base" "length work = length base" "r < length base"
      using True less.prems(1) assms(2,4) by auto
    obtain q where q: "i = q * (2 * r)" using less.prems(2) by (metis dvdE mult.commute)
    obtain s where st: "(if high - i < THRESHOLD then insert_c compar i high work base
         else merge_c compar i high (r - 1) work base) = Some (take i base @ s @ drop (Suc high) base)"
      and s: "mset s = mset (take (Suc high - i) (drop i base))" "sorted_by compar s"
        "sorted_by compar base \<longrightarrow> s = take (Suc high - i) (drop i base)"
      using block_sorts [OF assms(1) in_range high' short' less.prems(4)] by blast
    let ?b = "take i base @ s @ drop (Suc high) base"
    have hi: "Suc high = min (i + 2 * r) n" using high_def assms(1) True by auto
    have ls: "length s = Suc high - i" using arg_cong [OF s(1), of size] hi less.prems(1) True by simp
    have parts: "base = take i base @ take (Suc high - i) (drop i base) @ drop (Suc high) base"
    proof -
      have "base = take i base @ take (Suc high - i) (drop i base) @ drop (Suc high - i) (drop i base)"
        by (metis append_take_drop_id)
      then show ?thesis using hi True by simp
    qed
    have mb: "mset ?b = mset base" using s(1) arg_cong [OF parts, of mset] by simp
    have lb: "length ?b = n" using arg_cong [OF mb, of size] less.prems(1) by simp
    have later: "drop m ?b = drop m base" if "i + 2 * r \<le> m" for m
      using that hi ls less.prems(1) True by (auto simp: min_def split: if_splits)
    have new': "sorted_by compar (take (2 * r) (drop (k * (2 * r)) ?b))" if k: "k * (2 * r) < i + 2 * r" for k
    proof (cases "k * (2 * r) < i")
      case True
      then have "Suc k * (2 * r) \<le> i" unfolding q using mult_le_mono1 [of "Suc k" q "2 * r"] by simp
      then have "take (2 * r) (drop (k * (2 * r)) ?b) = take (2 * r) (drop (k * (2 * r)) base)"
        using less.prems(1) \<open>i < n\<close> by (intro take_drop_prefix) auto
      then show ?thesis using less.prems(3) True by simp
    next
      case False
      then have "k * (2 * r) = i" using k assms(1) mult_less_cancel2 [of k "2 * r" "Suc q"]
        unfolding q by simp
      moreover have "take (2 * r) (drop i ?b) = s"
        using ls hi less.prems(1) True \<open>i < n\<close> by (auto simp: min_def split: if_splits)
      ultimately show ?thesis using s(2) by simp
    qed
    have "\<exists>base'. qsort_blocks compar n r work (i + 2 * r) ?b = Some base' \<and> mset base' = mset ?b \<and>
      (\<forall>k. sorted_by compar (take (2 * r) (drop (k * (2 * r)) base'))) \<and> (sorted_by compar ?b \<longrightarrow> base' = ?b)"
    proof (rule less.hyps)
      show "\<forall>k. i + 2 * r \<le> k * r \<longrightarrow> sorted_by compar (take r (drop (k * r) ?b))"
        using later less.prems(4) by (metis add_leD1)
    qed (use lb new' less.prems(2) assms(1) True in auto)
    moreover have "sorted_by compar base \<longrightarrow> ?b = base" using s(3) parts by metis
    ultimately show ?thesis using st True mb unfolding high_def
      by (subst qsort_blocks.simps) auto
  qed
qed

lemma sorted_pass_id:
  assumes "sorted_by compar base" "0 < r" "r \<le> 25" "r < length base" "length work = length base"
  shows "qsort_blocks compar (length base) r work 0 base = Some base"
proof -
  have "min (i + 2 * r - 1) (length base - 1) - i < THRESHOLD" for i
    using assms(2,3) by (simp add: THRESHOLD_def)
  moreover have "sorted_by compar (take m (drop k base))" for m k
    using assms(1) by (simp add: sorted_by_def sorted_wrt_take sorted_wrt_drop)
  ultimately show ?thesis using pass_doubles [of r "length base" base work 0] assms by auto
qed

lemma passes_sort:
  assumes "n \<le> 114" "length work = n" "length base = n"
    "\<forall>k. sorted_by compar (take (2 ^ p) (drop (k * 2 ^ p) base))"
  shows "\<exists>base'. qsort_passes compar n work (2 ^ p) base = Some base' \<and> mset base' = mset base \<and> sorted_by compar base'"
  using assms(3,4)
proof (induction "n - 2 ^ p" arbitrary: p base rule: less_induct)
  case less
  show ?case
  proof (cases "2 ^ p < n")
    case False
    then have "take (2 ^ p) (drop (0 * 2 ^ p) base) = base" using less.prems(1) by simp
    then show ?thesis using less.prems(2) False by (subst qsort_passes.simps) (metis option.inject)
  next
    case True
    obtain base' where b: "qsort_blocks compar n (2 ^ p) work 0 base = Some base'" "mset base' = mset base"
        "\<forall>k. sorted_by compar (take (2 * 2 ^ p) (drop (k * (2 * 2 ^ p)) base'))"
      using pass_doubles [of "2 ^ p" n base work 0] short_blocks [OF assms(1)] True less.prems assms(2) by auto
    have "length base' = n" using arg_cong [OF b(2), of size] less.prems(1) by simp
    moreover have "n - 2 ^ Suc p < n - 2 ^ p" using True by (intro diff_less_mono2) auto
    ultimately have "\<exists>base''. qsort_passes compar n work (2 ^ Suc p) base' = Some base'' \<and>
        mset base'' = mset base' \<and> sorted_by compar base''"
      using less.hyps [of "Suc p" base'] b(3) by simp
    then show ?thesis using True b by (subst qsort_passes.simps) auto
  qed
qed

end

text \<open>The comparison of the map keys is such an order.\<close>

interpretation ints_order: compar_order compare_int
  by unfold_locales (auto simp: compare_int_def split: if_splits)

text \<open>
  C9. \<^verbatim>\<open>qsort\<close> sorts an array of up to 114 elements: it returns, having accessed nothing
  outside the array and the buffer, and leaves a permutation of the elements that is
  sorted in the order of the comparison function.
\<close>

theorem qsort_sorts:
  assumes "\<And>a b. compar a b \<le> 0 \<or> compar b a \<le> 0"
    and "\<And>a b c. compar a b \<le> 0 \<Longrightarrow> compar b c \<le> 0 \<Longrightarrow> compar a c \<le> 0"
    and "nmemb \<le> 114" "length base = nmemb" "length work = nmemb"
  shows "\<exists>base'. qsort compar nmemb work base = Some base' \<and> mset base' = mset base \<and>
    sorted_wrt (\<lambda>a b. compar a b \<le> 0) base'"
proof -
  have ord: "compar_order compar" using assms(1,2) by unfold_locales
  have "sorted_by compar (take (2 ^ 0) (drop k base))" for k
    by (cases "drop k base") (auto simp: sorted_by_def)
  then show ?thesis
    using compar_order.passes_sort [OF ord assms(3,5,4), of 0] by (simp add: qsort_def sorted_by_def)
qed

theorem qsort_sorts_witness:
  "\<exists>base'. qsort (\<lambda>a b. a - b) 3 [0, 0, 0] [3, 1, 2 :: int] = Some base' \<and> mset base' = mset [3, 1, 2] \<and>
    sorted_wrt (\<lambda>a b. a - b \<le> 0) base'"
  using qsort_sorts [of "\<lambda>a b. a - b" 3 "[3, 1, 2]" "[0, 0, 0]"] by fastforce

lemma merge_second_block_overruns:
  "merge_c (\<lambda>a b. a - b) 64 114 31 (replicate 115 0) (map int [0..<115]) = None"
  by code_simp

lemma merge_c_work: "length work = length work' \<Longrightarrow> merge_c compar low high rng work base = merge_c compar low high rng work' base"
  by (simp add: merge_c_def)

lemma merge_sorted_first:
  assumes "length work = 115"
  shows "merge_c (\<lambda>a b. a - b) 0 63 31 work (map int [0..<115]) = Some (map int [0..<115])"
proof -
  have "merge_c (\<lambda>a b. a - b) 0 63 31 (replicate 115 0) (map int [0..<115]) = Some (map int [0..<115])"
    by code_simp
  then show ?thesis using merge_c_work assms by (metis length_replicate)
qed

interpretation diff_order: compar_order "\<lambda>a b. a - b :: int"
  by unfold_locales auto

text \<open>
  The bound is sharp. \<^verbatim>\<open>merge\<close> takes the second run of a block from index
  \<^verbatim>\<open>range + 1\<close> of the array instead of \<^verbatim>\<open>low + range + 1\<close>, so it is wrong for every block
  but the first; the smallest array it is called on at a later block has 115 elements, and
  there \<^verbatim>\<open>qsort\<close> of an array that is already sorted writes past the end of the array.
\<close>

theorem qsort_overruns:
  assumes "length work = 115"
  shows "qsort (\<lambda>a b. a - b) 115 work (map int [0..<115]) = None"
proof -
  let ?c = "\<lambda>a b. a - b :: int" and ?b = "map int [0..<115]"
  have srt: "sorted_by ?c ?b" by (simp add: sorted_by_def sorted_wrt_map)
  have p: "qsort_passes ?c 115 work r ?b = qsort_passes ?c 115 work (2 * r) ?b" if "0 < r" "r \<le> 25" for r
    using diff_order.sorted_pass_id [OF srt that] that assms by (subst qsort_passes.simps) simp
  have "qsort ?c 115 work ?b = qsort_passes ?c 115 work 32 ?b"
    using p [of 1] p [of 2] p [of 4] p [of 8] p [of 16] by (simp add: qsort_def)
  moreover have "qsort_blocks ?c 115 32 work 64 ?b = None"
    using merge_second_block_overruns merge_c_work [of work "replicate 115 0"] assms
    by (subst qsort_blocks.simps) (simp add: THRESHOLD_def)
  then have "qsort_blocks ?c 115 32 work 0 ?b = None"
    using merge_sorted_first [OF assms] by (subst qsort_blocks.simps) (simp add: THRESHOLD_def)
  ultimately show ?thesis by (subst (asm) qsort_passes.simps) simp
qed

theorem qsort_overruns_witness:
  "qsort (\<lambda>a b. a - b) 115 (replicate 115 0) (map int [0..<115]) = None"
  using qsort_overruns [of "replicate 115 0"] by simp

lemma bsearch_loop_finds:
  assumes "\<forall>i j. i \<le> j \<longrightarrow> j < length base \<longrightarrow>
      (compar key (base ! i) < 0 \<longrightarrow> compar key (base ! j) < 0) \<and>
      (compar key (base ! j) > 0 \<longrightarrow> compar key (base ! i) > 0)"
    "0 \<le> low" "high < int (length base)"
    "\<forall>i < length base. compar key (base ! i) = 0 \<longrightarrow> low \<le> int i \<and> int i \<le> high"
  shows "\<exists>r. bsearch_loop compar key base low high = Some r \<and>
    (case r of Some i \<Rightarrow> i < length base \<and> compar key (base ! i) = 0
     | None \<Rightarrow> \<forall>i < length base. compar key (base ! i) \<noteq> 0)"
  using assms
proof (induction compar key base low high rule: bsearch_loop.induct)
  case (1 compar key base low high)
  show ?case
  proof (cases "low \<le> high")
    case False
    then show ?thesis using 1(6) by (subst bsearch_loop.simps) force
  next
    case True
    define m where "m = low + (high - low) div 2"
    have m: "low \<le> m" "m \<le> high" "nat m < length base" using True 1(4,5) by (auto simp: m_def)
    have rdm: "rd base (nat m) = Some (base ! nat m)" using m by (simp add: rd_def)
    consider "compar key (base ! nat m) = 0" | "compar key (base ! nat m) < 0" | "compar key (base ! nat m) > 0"
      by linarith
    then show ?thesis
    proof cases
      case 1
      then show ?thesis using True rdm m by (subst bsearch_loop.simps) (auto simp: Let_def simp flip: m_def)
    next
      case neg: 2
      have "\<forall>i < length base. compar key (base ! i) = 0 \<longrightarrow> low \<le> int i \<and> int i \<le> m - 1"
      proof (intro allI impI)
        fix i assume i: "i < length base" "compar key (base ! i) = 0"
        have "\<not> nat m \<le> i" using 1(3) i neg by fastforce
        then show "low \<le> int i \<and> int i \<le> m - 1" using 1(6) i by auto
      qed
      with 1(1) [OF True m_def rdm refl] neg 1(3,4,5) m
      show ?thesis using True rdm by (subst bsearch_loop.simps) (simp add: Let_def flip: m_def)
    next
      case pos: 3
      have "\<forall>i < length base. compar key (base ! i) = 0 \<longrightarrow> m + 1 \<le> int i \<and> int i \<le> high"
      proof (intro allI impI)
        fix i assume i: "i < length base" "compar key (base ! i) = 0"
        have "\<not> i \<le> nat m" using 1(3) i pos m by fastforce
        then show "m + 1 \<le> int i \<and> int i \<le> high" using 1(6) i by auto
      qed
      with 1(2) [OF True m_def rdm refl] pos 1(3,4,5) m
      show ?thesis using True rdm by (subst bsearch_loop.simps) (simp add: Let_def flip: m_def)
    qed
  qed
qed

text \<open>
  \<^verbatim>\<open>bsearch\<close> on an array ordered for the key (elements that compare greater come
  last, elements that compare smaller first) stays inside the array and returns an element
  that compares equal if there is one, and a null pointer otherwise.
\<close>

theorem bsearch_finds:
  assumes "\<forall>i j. i \<le> j \<longrightarrow> j < length base \<longrightarrow>
      (compar key (base ! i) < 0 \<longrightarrow> compar key (base ! j) < 0) \<and>
      (compar key (base ! j) > 0 \<longrightarrow> compar key (base ! i) > 0)"
  shows "\<exists>r. bsearch compar key base (length base) = Some r \<and>
    (case r of Some i \<Rightarrow> i < length base \<and> compar key (base ! i) = 0
     | None \<Rightarrow> \<forall>i < length base. compar key (base ! i) \<noteq> 0)"
  using bsearch_loop_finds [of base compar key 0 "int (length base) - 1"] assms by (auto simp: bsearch_def)

theorem bsearch_finds_witness:
  "\<exists>r. bsearch (\<lambda>k x. k - x) 5 [3, 5 :: int] (length [3, 5 :: int]) = Some r \<and>
    (case r of Some i \<Rightarrow> i < length [3, 5 :: int] \<and> 5 - [3, 5 :: int] ! i = 0
     | None \<Rightarrow> \<forall>i < length [3, 5 :: int]. 5 - [3, 5 :: int] ! i \<noteq> 0)"
proof (rule bsearch_finds [of "[3, 5]" "\<lambda>k x. k - x" 5], intro allI impI)
  fix i j :: nat
  assume "i \<le> j" "j < length [3, 5 :: int]"
  then have "i \<in> {0, 1}" "j \<in> {0, 1}" by auto
  then show "(5 - [3, 5 :: int] ! i < 0 \<longrightarrow> 5 - [3, 5 :: int] ! j < 0) \<and> (0 < 5 - [3, 5 :: int] ! j \<longrightarrow> 0 < 5 - [3, 5 :: int] ! i)"
    using \<open>i \<le> j\<close> by auto
qed

end
