(* ===== verification/Std_Multibyte.thy ===== *)
theory Std_Multibyte
  imports Eo_Prelude
begin

section \<open>Multibyte characters of the C library\<close>

text \<open>
  \<^verbatim>\<open>mbtowc.c\<close>, \<^verbatim>\<open>wctomb.c\<close>, \<^verbatim>\<open>mblen.c\<close>, \<^verbatim>\<open>mbstowcs.c\<close> and \<^verbatim>\<open>wcstombs.c\<close> of
  \<^verbatim>\<open>src/lib/libc/stdlib\<close>: conversion between UTF-8 and UTF-32. A \<^verbatim>\<open>wchar_t\<close> is the
  \<^typ>\<open>int\<close> it holds (it is a signed 32-bit type, and no shift leaves 22 bits), the bytes
  are promoted to \<^verbatim>\<open>int\<close> as in C. A pointer to bytes is the list of the bytes from there
  on; reading or writing past its end is \<^const>\<open>None\<close>. What is stored through the pointer
  \<^verbatim>\<open>w\<close> is part of the result.
\<close>

abbreviation (input) MB_CUR_MAX :: nat where "MB_CUR_MAX \<equiv> 4"

subsection \<open>Characters\<close>

fun append_body :: "int \<Rightarrow> u8 list \<Rightarrow> nat \<Rightarrow> int option" where
  "append_body ch p 0 = Some ch"
| "append_body ch p (Suc n) =
    (case tl p of
       [] \<Rightarrow> None
     | b # _ \<Rightarrow>
         if drop_bit 6 (uint b) \<noteq> 0x2 then Some 0
         else append_body (push_bit 6 ch OR (uint b AND 0x3f)) (tl p) n)"

definition mbtowc_raw :: "u8 list \<Rightarrow> nat \<Rightarrow> (int \<times> int option) option" where
  "mbtowc_raw r n =
    (case r of
       [] \<Rightarrow> None
     | r0 # _ \<Rightarrow>
         (let c = uint r0 in
          if drop_bit 7 c = 0 then Some (if c \<noteq> 0 then 1 else 0, Some c)
          else if drop_bit 5 c = 0x6 then
            (if n < 2 then Some (- 1, None)
             else (case append_body (c AND 0x1f) r 1 of
                     None \<Rightarrow> None
                   | Some ch \<Rightarrow> if ch \<le> 0x7f then Some (- 1, None) else Some (2, Some ch)))
          else if drop_bit 4 c = 0xe then
            (if n < 3 then Some (- 1, None)
             else (case append_body (c AND 0xf) r 2 of
                     None \<Rightarrow> None
                   | Some ch \<Rightarrow> if ch \<le> 0x7ff then Some (- 1, None) else Some (3, Some ch)))
          else if drop_bit 3 c = 0x1e then
            (if n < 4 then Some (- 1, None)
             else (case append_body (c AND 0x7) r 3 of
                     None \<Rightarrow> None
                   | Some ch \<Rightarrow>
                       if ch \<le> 0xffff \<or> ch > 0x10ffff then Some (- 1, None) else Some (4, Some ch)))
          else Some (- 1, None)))"

definition mblen_raw :: "u8 list \<Rightarrow> nat \<Rightarrow> int option" where
  "mblen_raw r n =
    (case r of
       [] \<Rightarrow> None
     | r0 # _ \<Rightarrow>
         (let c = uint r0 in
          if drop_bit 7 c = 0 then Some (if c \<noteq> 0 then 1 else 0)
          else if drop_bit 5 c = 0x6 then
            (if n < 2 then Some (- 1)
             else (case append_body (c AND 0x1f) r 1 of
                     None \<Rightarrow> None
                   | Some ch \<Rightarrow> if ch \<le> 0x7f then Some (- 1) else Some 2))
          else if drop_bit 4 c = 0xe then
            (if n < 3 then Some (- 1)
             else (case append_body (c AND 0xf) r 2 of
                     None \<Rightarrow> None
                   | Some ch \<Rightarrow> if ch \<le> 0x7ff then Some (- 1) else Some 3))
          else if drop_bit 3 c = 0x1e then
            (if n < 4 then Some (- 1)
             else (case append_body (c AND 0x7) r 3 of
                     None \<Rightarrow> None
                   | Some ch \<Rightarrow> if ch \<le> 0xffff \<or> ch > 0x10ffff then Some (- 1) else Some 4))
          else Some (- 1)))"

text \<open>A null pointer is \<^const>\<open>None\<close> in the arguments of the public functions.\<close>

definition mblen :: "u8 list option \<Rightarrow> nat \<Rightarrow> int option" where
  "mblen s n =
    (case s of
       None \<Rightarrow> Some 0
     | Some r \<Rightarrow> if n = 0 then Some 0 else mblen_raw r n)"

definition mbtowc :: "bool \<Rightarrow> u8 list option \<Rightarrow> nat \<Rightarrow> (int \<times> int option) option" where
  "mbtowc pwc s n =
    (if \<not> pwc then map_option (\<lambda>m. (m, None)) (mblen s n)
     else (case s of
             None \<Rightarrow> Some (0, None)
           | Some r \<Rightarrow> if n = 0 then Some (0, None) else mbtowc_raw r n))"

definition uchar :: "int \<Rightarrow> u8" where "uchar x = word_of_int x"

text \<open>The bytes \<^verbatim>\<open>_wctomb\<close> stores; \<^const>\<open>None\<close> when it stores nothing and returns \<open>-1\<close>.\<close>

definition wctomb_raw :: "int \<Rightarrow> u8 list option" where
  "wctomb_raw ch =
    (if ch \<le> 0x7f then Some [uchar (ch AND 0x7f)]
     else if ch \<le> 0x7ff then
       Some [uchar (0xc0 OR drop_bit 6 ch), uchar (0x80 OR (ch AND 0x3f))]
     else if ch \<le> 0xffff then
       Some [uchar (0xe0 OR drop_bit 12 ch), uchar (0x80 OR (drop_bit 6 ch AND 0x3f)),
         uchar (0x80 OR (ch AND 0x3f))]
     else if ch \<le> 0x10ffff then
       Some [uchar (0xf0 OR drop_bit 18 ch), uchar (0x80 OR (drop_bit 12 ch AND 0x3f)),
         uchar (0x80 OR (drop_bit 6 ch AND 0x3f)), uchar (0x80 OR (ch AND 0x3f))]
     else None)"

subsection \<open>Strings\<close>

text \<open>\<^verbatim>\<open>mbstowcs\<close> into an array; \<open>acc\<close> is what was stored so far.\<close>

fun mbstowcs_store :: "nat \<Rightarrow> u8 list \<Rightarrow> u32 \<Rightarrow> int list \<Rightarrow> (u32 \<times> int list) option" where
  "mbstowcs_store 0 s len acc = Some (len, acc)"
| "mbstowcs_store (Suc left) s len acc =
    (case mbtowc_raw s MB_CUR_MAX of
       None \<Rightarrow> None
     | Some (m, w) \<Rightarrow>
         (let acc = acc @ (case w of None \<Rightarrow> [] | Some c \<Rightarrow> [c]) in
          if m \<le> 0 then (if m < 0 then Some (- 1, acc) else Some (len, acc))
          else mbstowcs_store left (drop (nat m) s) (len + 1) acc))"

text \<open>\<^verbatim>\<open>mbstowcs\<close> with a null pointer only counts.\<close>

fun mbstowcs_count :: "nat \<Rightarrow> u8 list \<Rightarrow> u32 \<Rightarrow> u32 option" where
  "mbstowcs_count 0 s len = Some len"
| "mbstowcs_count (Suc left) s len =
    (case mblen_raw s MB_CUR_MAX of
       None \<Rightarrow> None
     | Some m \<Rightarrow>
         if m \<le> 0 then (if m < 0 then Some (- 1) else Some len)
         else mbstowcs_count left (drop (nat m) s) (len + 1))"

definition mbstowcs :: "bool \<Rightarrow> u8 list \<Rightarrow> nat \<Rightarrow> (u32 \<times> int list) option" where
  "mbstowcs pwcs s n =
    (if pwcs then mbstowcs_store n s 0 []
     else map_option (\<lambda>len. (len, [])) (mbstowcs_count n s 0))"

text \<open>Storing bytes in a destination of limited size.\<close>

definition put_bytes :: "u8 list \<Rightarrow> nat \<Rightarrow> u8 list \<Rightarrow> u8 list option" where
  "put_bytes dest pos bs =
    (if pos + length bs \<le> length dest
     then Some (take pos dest @ bs @ drop (pos + length bs) dest) else None)"

definition count_wc :: "int \<Rightarrow> int" where
  "count_wc ch =
    (if ch \<le> 0x7f then 1 else if ch \<le> 0x7ff then 2 else if ch \<le> 0xffff then 3
     else if ch \<le> 0x10ffff then 4 else - 1)"

fun wcstombs_store :: "nat \<Rightarrow> u8 list \<Rightarrow> nat \<Rightarrow> nat \<Rightarrow> int list \<Rightarrow> (u32 \<times> u8 list) option" where
  "wcstombs_store n dest s left [] = None"
| "wcstombs_store n dest s left (wc # pwcs) =
    (if wc = 0 then
       (case put_bytes dest s [0] of
          None \<Rightarrow> None
        | Some dest' \<Rightarrow> Some (of_nat (n - left), dest'))
     else (case wctomb_raw wc of
             None \<Rightarrow> Some (- 1, dest)
           | Some buf \<Rightarrow>
               if left < MB_CUR_MAX \<and> left < length buf then
                 (case put_bytes dest s (take left buf) of
                    None \<Rightarrow> None
                  | Some dest' \<Rightarrow> Some (of_nat n, dest'))
               else (case put_bytes dest s buf of
                       None \<Rightarrow> None
                     | Some dest' \<Rightarrow>
                         wcstombs_store n dest' (s + length buf) (left - length buf) pwcs)))"

fun wcstombs_count :: "int list \<Rightarrow> u32 \<Rightarrow> u32 option" where
  "wcstombs_count [] len = None"
| "wcstombs_count (wc # pwcs) len =
    (if wc = 0 then Some len
     else if count_wc wc < 0 then Some (word_of_int (count_wc wc))
     else wcstombs_count pwcs (len + word_of_int (count_wc wc)))"

definition wcstombs :: "u8 list option \<Rightarrow> int list \<Rightarrow> nat \<Rightarrow> (u32 \<times> u8 list) option" where
  "wcstombs s pwcs n =
    (case s of
       Some dest \<Rightarrow> wcstombs_store n dest 0 n pwcs
     | None \<Rightarrow> map_option (\<lambda>len. (len, [])) (wcstombs_count pwcs 0))"

subsection \<open>Bits as digits\<close>

lemma or_low_bits:
  fixes a b :: int
  assumes "0 \<le> b" "b < 2 ^ k"
  shows "push_bit k a OR b = a * 2 ^ k + b"
proof -
  have "\<not> bit (push_bit k a) i \<or> \<not> bit b i" for i
  proof (cases "i < k")
    case False
    have "take_bit k b = b" using assms by (simp add: take_bit_int_eq_self)
    then have "\<not> bit b i" using False by (metis bit_take_bit_iff)
    then show ?thesis ..
  qed (simp add: bit_push_bit_iff)
  then show ?thesis by (simp add: disjunctive_add [symmetric] push_bit_eq_mult)
qed

lemma and_3f: "x AND 0x3f = x mod 64" for x :: int
  using take_bit_eq_mask [of 6 x] by (simp add: mask_eq_exp_minus_1 take_bit_eq_mod)

lemma and_7f: "x AND 0x7f = x mod 128" for x :: int
  using take_bit_eq_mask [of 7 x] by (simp add: mask_eq_exp_minus_1 take_bit_eq_mod)

lemma and_1f: "x AND 0x1f = x mod 32" for x :: int
  using take_bit_eq_mask [of 5 x] by (simp add: mask_eq_exp_minus_1 take_bit_eq_mod)

lemma and_f: "x AND 0xf = x mod 16" for x :: int
  using take_bit_eq_mask [of 4 x] by (simp add: mask_eq_exp_minus_1 take_bit_eq_mod)

lemma and_7: "x AND 0x7 = x mod 8" for x :: int
  using take_bit_eq_mask [of 3 x] by (simp add: mask_eq_exp_minus_1 take_bit_eq_mod)

lemmas and_digits = and_3f and_7f and_1f and_f and_7

lemma or_80: "0 \<le> x \<Longrightarrow> x < 64 \<Longrightarrow> 0x80 OR x = 128 + x" for x :: int
  using or_low_bits [of x 6 2] by (simp add: push_bit_eq_mult)

lemma or_c0: "0 \<le> x \<Longrightarrow> x < 32 \<Longrightarrow> 0xc0 OR x = 192 + x" for x :: int
  using or_low_bits [of x 5 6] by (simp add: push_bit_eq_mult)

lemma or_e0: "0 \<le> x \<Longrightarrow> x < 16 \<Longrightarrow> 0xe0 OR x = 224 + x" for x :: int
  using or_low_bits [of x 4 14] by (simp add: push_bit_eq_mult)

lemma or_f0: "0 \<le> x \<Longrightarrow> x < 8 \<Longrightarrow> 0xf0 OR x = 240 + x" for x :: int
  using or_low_bits [of x 3 30] by (simp add: push_bit_eq_mult)

lemma push_6: "0 \<le> b \<Longrightarrow> b < 64 \<Longrightarrow> push_bit 6 a OR b = a * 64 + b" for a b :: int
  using or_low_bits [of b 6 a] by simp

lemma uint_uchar [simp]: "0 \<le> x \<Longrightarrow> x < 256 \<Longrightarrow> uint (uchar x) = x"
  by (simp add: uchar_def uint_word_of_int)

lemma uchar_uint [simp]: "uchar (uint b) = b"
  by (simp add: uchar_def)

lemma uint_u8: "0 \<le> uint b" "uint b < 256" for b :: u8
  using uint_bounded [of b] by auto

text \<open>The tests on the leading byte and on the following ones, as intervals.\<close>

lemma lead_tests:
  "drop_bit 7 (uint b) = 0 \<longleftrightarrow> uint b < 128"
  "drop_bit 5 (uint b) = 0x6 \<longleftrightarrow> 192 \<le> uint b \<and> uint b < 224"
  "drop_bit 4 (uint b) = 0xe \<longleftrightarrow> 224 \<le> uint b \<and> uint b < 240"
  "drop_bit 3 (uint b) = 0x1e \<longleftrightarrow> 240 \<le> uint b \<and> uint b < 248"
  "drop_bit 6 (uint b) = 0x2 \<longleftrightarrow> 128 \<le> uint b \<and> uint b < 192" for b :: u8
proof -
  have u: "0 \<le> uint b" "uint b < 256" by (rule uint_u8)+
  show "drop_bit 7 (uint b) = 0 \<longleftrightarrow> uint b < 128" using u by (auto simp: drop_bit_eq_div)
  show "drop_bit 5 (uint b) = 0x6 \<longleftrightarrow> 192 \<le> uint b \<and> uint b < 224"
    unfolding drop_bit_eq_div by simp presburger
  show "drop_bit 4 (uint b) = 0xe \<longleftrightarrow> 224 \<le> uint b \<and> uint b < 240"
    unfolding drop_bit_eq_div by simp presburger
  show "drop_bit 3 (uint b) = 0x1e \<longleftrightarrow> 240 \<le> uint b \<and> uint b < 248"
    unfolding drop_bit_eq_div by simp presburger
  show "drop_bit 6 (uint b) = 0x2 \<longleftrightarrow> 128 \<le> uint b \<and> uint b < 192"
    unfolding drop_bit_eq_div by simp presburger
qed

text \<open>The character that a byte sequence of each length encodes.\<close>

definition tail :: "u8 \<Rightarrow> bool" where
  "tail b \<longleftrightarrow> 128 \<le> uint b \<and> uint b < 192"

lemma append_body_tail:
  "append_body ch (r # b # p) (Suc n) =
    (if tail b then append_body (ch * 64 + (uint b - 128)) (b # p) n else Some 0)"
proof (cases "tail b")
  case True
  then have "uint b mod 64 = uint b - 128" unfolding tail_def by presburger
  then show ?thesis using True by (simp add: lead_tests tail_def and_digits push_6)
qed (auto simp: lead_tests tail_def)

declare append_body.simps(2) [simp del]

definition digits_value :: "int \<Rightarrow> u8 list \<Rightarrow> int" where
  "digits_value ch bs = foldl (\<lambda>c b. c * 64 + (uint b - 128)) ch bs"

lemma append_body_value:
  "list_all tail bs \<Longrightarrow> append_body ch (r # bs @ rest) (length bs) = Some (digits_value ch bs)"
  by (induction bs arbitrary: ch r) (auto simp: append_body_tail digits_value_def)

lemma append_body_inv:
  "append_body ch p n = Some x \<Longrightarrow> x \<noteq> 0 \<Longrightarrow>
    n \<le> length (tl p) \<and> list_all tail (take n (tl p)) \<and> x = digits_value ch (take n (tl p))"
proof (induction n arbitrary: ch p)
  case (Suc n)
  from Suc.prems obtain b q where q: "tl p = b # q" by (cases "tl p") (auto simp: append_body.simps)
  then obtain r where p: "p = r # b # q" by (cases p) auto
  have t: "tail b" "append_body (ch * 64 + (uint b - 128)) (b # q) n = Some x"
    using Suc.prems unfolding p append_body_tail by (auto split: if_splits)
  then show ?case using Suc.IH [OF t(2) Suc.prems(2)] unfolding p by (simp add: digits_value_def)
qed (simp add: digits_value_def)

lemma mbtowc_lead:
  "mbtowc_raw (a # p) n =
    (if uint a < 128 then Some (if uint a \<noteq> 0 then 1 else 0, Some (uint a))
     else if uint a < 192 then Some (- 1, None)
     else if uint a < 224 then
       (if n < 2 then Some (- 1, None)
        else (case append_body (uint a - 192) (a # p) 1 of
                None \<Rightarrow> None
              | Some ch \<Rightarrow> if ch \<le> 0x7f then Some (- 1, None) else Some (2, Some ch)))
     else if uint a < 240 then
       (if n < 3 then Some (- 1, None)
        else (case append_body (uint a - 224) (a # p) 2 of
                None \<Rightarrow> None
              | Some ch \<Rightarrow> if ch \<le> 0x7ff then Some (- 1, None) else Some (3, Some ch)))
     else if uint a < 248 then
       (if n < 4 then Some (- 1, None)
        else (case append_body (uint a - 240) (a # p) 3 of
                None \<Rightarrow> None
              | Some ch \<Rightarrow> if ch \<le> 0xffff \<or> ch > 0x10ffff then Some (- 1, None) else Some (4, Some ch)))
     else Some (- 1, None))"
proof -
  have "uint a mod 32 = uint a - 192" if "192 \<le> uint a" "uint a < 224" using that by presburger
  moreover have "uint a mod 16 = uint a - 224" if "224 \<le> uint a" "uint a < 240" using that by presburger
  moreover have "uint a mod 8 = uint a - 240" if "240 \<le> uint a" "uint a < 248" using that by presburger
  ultimately show ?thesis unfolding mbtowc_raw_def list.case Let_def lead_tests and_digits by simp
qed

lemma mbtowc_lead_4:
  assumes "240 \<le> uint a" "uint a < 248" "append_body (uint a - 240) (a # p) 3 = Some ch"
    "0xffff < ch" "ch \<le> 0x10ffff" "Suc (Suc (Suc (Suc 0))) \<le> n"
  shows "mbtowc_raw (a # p) n = Some (4, Some ch)"
  using assms by (simp add: mbtowc_lead)

lemma encode_bytes:
  "0x7f < ch \<Longrightarrow> ch \<le> 0x7ff \<Longrightarrow>
    wctomb_raw ch = Some [uchar (192 + ch div 64), uchar (128 + ch mod 64)]"
  "0x7ff < ch \<Longrightarrow> ch \<le> 0xffff \<Longrightarrow>
    wctomb_raw ch = Some [uchar (224 + ch div 4096), uchar (128 + ch div 64 mod 64), uchar (128 + ch mod 64)]"
  "0xffff < ch \<Longrightarrow> ch \<le> 0x10ffff \<Longrightarrow>
    wctomb_raw ch = Some [uchar (240 + ch div 262144), uchar (128 + ch div 4096 mod 64),
      uchar (128 + ch div 64 mod 64), uchar (128 + ch mod 64)]"
  by (simp_all add: wctomb_raw_def and_digits drop_bit_eq_div or_80 or_c0 or_e0 or_f0)

lemma encode_ascii: "0 \<le> ch \<Longrightarrow> ch \<le> 0x7f \<Longrightarrow> wctomb_raw ch = Some [uchar ch]"
  by (simp add: wctomb_raw_def and_digits)

lemma digit_byte [simp]: "uint (uchar (128 + x mod 64)) = 128 + x mod 64" "tail (uchar (128 + x mod 64))"
  by (simp_all add: tail_def)

lemma div_4096: "ch div 4096 = ch div 64 div 64" for ch :: int
  using zdiv_zmult2_eq [of 64 ch 64] by simp

lemma div_262144: "ch div 262144 = ch div 4096 div 64" for ch :: int
  using zdiv_zmult2_eq [of 64 ch 4096] by simp

lemma char_cases:
  fixes ch :: int
  assumes "0 \<le> ch" "ch \<le> 0x10ffff"
  obtains "ch \<le> 0x7f"
    | "0x7f < ch" "ch \<le> 0x7ff" "0 \<le> ch div 64" "ch div 64 < 32"
    | "0x7ff < ch" "ch \<le> 0xffff" "0 \<le> ch div 4096" "ch div 4096 < 16"
    | "0xffff < ch" "ch \<le> 0x10ffff" "0 \<le> ch div 262144" "ch div 262144 < 8"
proof -
  have "0 \<le> ch div 64" "0 \<le> ch div 4096" "0 \<le> ch div 262144" using assms by auto
  moreover have "ch \<le> 0x7ff \<longrightarrow> ch div 64 < 32" "ch \<le> 0xffff \<longrightarrow> ch div 4096 < 16" "ch div 262144 < 8"
    using assms by auto
  ultimately show thesis using that assms(2) by linarith
qed

lemma mbtowc_encoded:
  assumes "wctomb_raw ch = Some bs" "0 < ch" "length bs \<le> n"
  shows "mbtowc_raw (bs @ r) n = Some (int (length bs), Some ch)"
proof -
  from assms have "0 \<le> ch" "ch \<le> 0x10ffff" by (auto simp: wctomb_raw_def split: if_splits)
  then show ?thesis
  proof (cases rule: char_cases)
    case 1
    then have "bs = [uchar ch]" using assms encode_ascii by simp
    then show ?thesis using assms 1 by (simp add: mbtowc_lead)
  next
    case 2
    let ?a = "uchar (192 + ch div 64)" and ?t = "[uchar (128 + ch mod 64)]"
    have bs: "bs = ?a # ?t" using assms encode_bytes(1) 2 by simp
    have a: "uint ?a = 192 + ch div 64" using 2 by simp
    have "append_body (ch div 64) (?a # ?t @ r) (length ?t) = Some ch"
      by (subst append_body_value) (simp_all add: digits_value_def)
    then show ?thesis using 2 assms(3) unfolding bs append_Cons mbtowc_lead a by simp
  next
    case 3
    let ?a = "uchar (224 + ch div 4096)" and ?t = "[uchar (128 + ch div 64 mod 64), uchar (128 + ch mod 64)]"
    have bs: "bs = ?a # ?t" using assms encode_bytes(2) 3 by simp
    have a: "uint ?a = 224 + ch div 4096" using 3 by simp
    have "append_body (ch div 4096) (?a # ?t @ r) (length ?t) = Some ch"
      by (subst append_body_value) (simp_all add: digits_value_def div_4096)
    then show ?thesis using 3 assms(3) unfolding bs append_Cons mbtowc_lead a by (simp add: numeral_2_eq_2)
  next
    case 4
    let ?a = "uchar (240 + ch div 262144)"
      and ?t = "[uchar (128 + ch div 4096 mod 64), uchar (128 + ch div 64 mod 64), uchar (128 + ch mod 64)]"
    have bs: "bs = ?a # ?t" using assms encode_bytes(3) 4 by simp
    have a: "uint ?a = 240 + ch div 262144" using 4 by simp
    have "append_body (ch div 262144) (?a # ?t @ r) (length ?t) = Some ch"
      by (subst append_body_value) (simp_all add: digits_value_def div_4096 div_262144)
    moreover have "length ?t = 3" by simp
    ultimately have "append_body (240 + ch div 262144 - 240) (?a # ?t @ r) 3 = Some ch" by (metis add_diff_cancel_left')
    moreover have "240 \<le> uint ?a" "uint ?a < 248" using 4 unfolding a by auto
    ultimately have "mbtowc_raw (?a # ?t @ r) n = Some (4, Some ch)"
      using 4(1,2) assms(3) a by (intro mbtowc_lead_4) (simp_all only: bs length_Cons list.size)
    then show ?thesis unfolding bs by simp
  qed
qed

text \<open>Conversely, what is accepted is the encoding of what is stored.\<close>

lemma digit_parts:
  assumes "tail b"
  shows "(x * 64 + (uint b - 128)) div 64 = x" "(x * 64 + (uint b - 128)) mod 64 = uint b - 128"
proof -
  have d: "0 \<le> uint b - 128" "uint b - 128 < 64" using assms by (auto simp: tail_def)
  show "(x * 64 + (uint b - 128)) div 64 = x" by (rule int_div_pos_eq [where r = "uint b - 128"]) (use d in auto)
  show "(x * 64 + (uint b - 128)) mod 64 = uint b - 128" by (rule int_mod_pos_eq [where q = x]) (use d in auto)
qed

lemma mbtowc_accepts:
  assumes "mbtowc_raw r n = Some (m, Some ch)" "0 < m" "0 < n"
  shows "wctomb_raw ch = Some (take (nat m) r) \<and> 0 < ch \<and> nat m \<le> n"
proof -
  from assms obtain a p where r: "r = a # p" by (cases r) (auto simp: mbtowc_raw_def)
  have u: "0 \<le> uint a" "uint a < 256" by (rule uint_u8)+
  consider "uint a < 128" | "192 \<le> uint a" "uint a < 224" | "224 \<le> uint a" "uint a < 240"
    | "240 \<le> uint a" "uint a < 248" using assms unfolding r mbtowc_lead by (auto split: if_splits)
  then show ?thesis
  proof cases
    case 1
    then have "m = 1" "ch = uint a" "ch \<noteq> 0" using assms unfolding r mbtowc_lead by (auto split: if_splits)
    moreover from this u have "0 < ch" by linarith
    ultimately show ?thesis using 1 u encode_ascii [of ch] assms(3) by (simp add: r)
  next
    case 2
    then have m: "m = 2" "append_body (uint a - 192) (a # p) 1 = Some ch" "0x7f < ch" "2 \<le> n"
      using assms unfolding r mbtowc_lead by (auto split: if_splits option.splits)
    from append_body_inv [OF m(2)] m(3) obtain b q where p: "p = b # q" "tail b"
        "ch = (uint a - 192) * 64 + (uint b - 128)"
      by (cases p) (auto simp: digits_value_def)
    have d: "ch div 64 = uint a - 192" "ch mod 64 = uint b - 128" unfolding p(3) by (rule digit_parts [OF p(2)])+
    have "ch \<le> 0x7ff" using d(1) 2 by auto
    then show ?thesis using encode_bytes(1) [OF m(3)] m 2 d unfolding r p(1) by simp
  next
    case 3
    then have m: "m = 3" "append_body (uint a - 224) (a # p) 2 = Some ch" "0x7ff < ch" "3 \<le> n"
      using assms unfolding r mbtowc_lead by (auto split: if_splits option.splits)
    from append_body_inv [OF m(2)] m(3) obtain b c q where p: "p = b # c # q" "tail b" "tail c"
        "ch = ((uint a - 224) * 64 + (uint b - 128)) * 64 + (uint c - 128)"
      by (cases p; cases "tl p") (auto simp: digits_value_def numeral_2_eq_2)
    have d: "ch div 64 = (uint a - 224) * 64 + (uint b - 128)" "ch mod 64 = uint c - 128"
      unfolding p(4) by (rule digit_parts [OF p(3)])+
    have e: "ch div 4096 = uint a - 224" "ch div 64 mod 64 = uint b - 128"
      unfolding div_4096 d(1) by (rule digit_parts [OF p(2)])+
    have "ch \<le> 0xffff" using e(1) 3 by auto
    then show ?thesis using encode_bytes(2) [OF m(3)] m d(2) e unfolding r p(1) by (simp add: numeral_3_eq_3)
  next
    case 4
    then have m: "m = 4" "append_body (uint a - 240) (a # p) 3 = Some ch" "0xffff < ch" "ch \<le> 0x10ffff" "4 \<le> n"
      using assms unfolding r mbtowc_lead by (auto split: if_splits option.splits)
    from append_body_inv [OF m(2)] m(3) obtain b c d q where p: "p = b # c # d # q" "tail b" "tail c" "tail d"
        "ch = (((uint a - 240) * 64 + (uint b - 128)) * 64 + (uint c - 128)) * 64 + (uint d - 128)"
      by (cases p; cases "tl p"; cases "tl (tl p)") (auto simp: digits_value_def numeral_3_eq_3)
    have d: "ch div 64 = ((uint a - 240) * 64 + (uint b - 128)) * 64 + (uint c - 128)" "ch mod 64 = uint d - 128"
      unfolding p(5) by (rule digit_parts [OF p(4)])+
    have e: "ch div 4096 = (uint a - 240) * 64 + (uint b - 128)" "ch div 64 mod 64 = uint c - 128"
      unfolding div_4096 d(1) by (rule digit_parts [OF p(3)])+
    have f: "ch div 262144 = uint a - 240" "ch div 4096 mod 64 = uint b - 128"
      unfolding div_262144 e(1) by (rule digit_parts [OF p(2)])+
    show ?thesis using encode_bytes(3) [OF m(3,4)] m(3,5) unfolding d(2) e(2) f m(1) r p(1) by simp
  qed
qed

subsection \<open>The properties of the conversions\<close>

lemma encoded_nonempty: "wctomb_raw ch = Some bs \<Longrightarrow> bs \<noteq> []"
  by (auto simp: wctomb_raw_def split: if_splits)

text \<open>
  C34. \<^verbatim>\<open>mbtowc\<close> accepts exactly the UTF-8 encodings that \<^verbatim>\<open>wctomb\<close> produces: it returns a
  positive length and stores a character if and only if the bytes start with the encoding
  of that character and the encoding fits in the limit. Overlong, truncated and
  ill-formed sequences are never accepted.
\<close>

theorem mbtowc_inverts_wctomb:
  "(mbtowc True (Some r) n = Some (m, Some ch) \<and> 0 < m) \<longleftrightarrow>
    (\<exists>bs rest. wctomb_raw ch = Some bs \<and> 0 < ch \<and> r = bs @ rest \<and> m = int (length bs) \<and> length bs \<le> n)"
proof
  assume l: "mbtowc True (Some r) n = Some (m, Some ch) \<and> 0 < m"
  then have "0 < n" "mbtowc_raw r n = Some (m, Some ch)" by (auto simp: mbtowc_def split: if_splits)
  with mbtowc_accepts [OF this(2)] l have a: "wctomb_raw ch = Some (take (nat m) r)" "0 < ch" "nat m \<le> n" by auto
  with mbtowc_encoded [OF a(1,2), of n "drop (nat m) r"] \<open>mbtowc_raw r n = _\<close>
  have "m = int (length (take (nat m) r))" by auto
  then show "\<exists>bs rest. wctomb_raw ch = Some bs \<and> 0 < ch \<and> r = bs @ rest \<and> m = int (length bs) \<and> length bs \<le> n"
    using a by (metis append_take_drop_id nat_int)
next
  assume "\<exists>bs rest. wctomb_raw ch = Some bs \<and> 0 < ch \<and> r = bs @ rest \<and> m = int (length bs) \<and> length bs \<le> n"
  then obtain bs rest where b: "wctomb_raw ch = Some bs" "0 < ch" "r = bs @ rest" "m = int (length bs)" "length bs \<le> n"
    by blast
  with encoded_nonempty [OF b(1)] mbtowc_encoded [OF b(1,2,5), of rest]
  show "mbtowc True (Some r) n = Some (m, Some ch) \<and> 0 < m" by (cases bs) (auto simp: mbtowc_def)
qed

text \<open>
  \<^verbatim>\<open>mblen\<close> repeats the code of \<^verbatim>\<open>mbtowc\<close> without the stores: it returns the same on
  every input.
\<close>

lemma mblen_raw_mbtowc: "mblen_raw r n = map_option fst (mbtowc_raw r n)"
  by (simp add: mblen_raw_def mbtowc_raw_def Let_def split: list.split option.split)

theorem mblen_is_mbtowc: "mblen s n = map_option fst (mbtowc pwc s n)"
  by (cases s) (simp_all add: mblen_def mbtowc_def mblen_raw_mbtowc option.map_comp comp_def)

lemma mbstowcs_count_store: "mbstowcs_count left s len = map_option fst (mbstowcs_store left s len acc)"
  by (induction left s len acc rule: mbstowcs_store.induct)
    (auto simp: mblen_raw_mbtowc Let_def split: option.split)

definition valid_wc :: "int \<Rightarrow> bool" where
  "valid_wc ch \<longleftrightarrow> 0 < ch \<and> ch \<le> 0x10ffff"

definition encode :: "int list \<Rightarrow> u8 list" where
  "encode ws = concat (map (\<lambda>ch. the (wctomb_raw ch)) ws)"

lemma encode_simps [simp]: "encode [] = []" "encode (w # ws) = the (wctomb_raw w) @ encode ws"
  by (simp_all add: encode_def)

lemma valid_encoded:
  assumes "valid_wc w"
  obtains bs where "wctomb_raw w = Some bs" "int (length bs) = count_wc w" "length bs \<le> MB_CUR_MAX" "bs \<noteq> []"
    "0 < w"
proof -
  have "\<exists>bs. wctomb_raw w = Some bs \<and> int (length bs) = count_wc w \<and> length bs \<le> MB_CUR_MAX \<and> bs \<noteq> []"
    using assms by (auto simp: valid_wc_def wctomb_raw_def count_wc_def)
  then show thesis using that assms by (auto simp: valid_wc_def)
qed

lemma length_encode: "list_all valid_wc ws \<Longrightarrow> int (length (encode ws)) = sum_list (map count_wc ws)"
  by (induction ws) (auto elim!: valid_encoded)

lemma mbstowcs_store_encoded:
  "list_all valid_wc ws \<Longrightarrow> length ws < k \<Longrightarrow>
    mbstowcs_store k (encode ws @ 0 # rest) len acc = Some (len + of_nat (length ws), acc @ ws @ [0])"
proof (induction ws arbitrary: k len acc)
  case Nil
  then obtain k' where "k = Suc k'" by (cases k) auto
  then show ?case by (simp add: mbtowc_lead)
next
  case (Cons w ws)
  then obtain k' where k: "k = Suc k'" by (cases k) auto
  from Cons.prems obtain bs where b: "wctomb_raw w = Some bs" "length bs \<le> MB_CUR_MAX" "bs \<noteq> []" "0 < w"
    by (auto elim!: valid_encoded)
  have "mbtowc_raw (bs @ encode ws @ 0 # rest) MB_CUR_MAX = Some (int (length bs), Some w)"
    by (rule mbtowc_encoded) (use b in auto)
  then show ?case using Cons b k by (simp add: add.commute)
qed

lemma wcstombs_store_encoded:
  "list_all valid_wc ws \<Longrightarrow> length (encode ws) \<le> left \<Longrightarrow> s + length (encode ws) \<le> length dest \<Longrightarrow>
    wcstombs_store n dest s left (ws @ [0]) =
      (if s + length (encode ws) < length dest
       then Some (of_nat (n - (left - length (encode ws))),
         take s dest @ encode ws @ 0 # drop (Suc (s + length (encode ws))) dest)
       else None)"
proof (induction ws arbitrary: dest s left)
  case Nil
  then show ?case by (simp add: put_bytes_def)
next
  case (Cons w ws)
  from Cons.prems obtain bs where b: "wctomb_raw w = Some bs" "length bs \<le> MB_CUR_MAX" "bs \<noteq> []" "0 < w"
    by (auto elim!: valid_encoded)
  let ?d = "take s dest @ bs @ drop (s + length bs) dest"
  have "put_bytes dest s bs = Some ?d" using Cons.prems b by (simp add: put_bytes_def)
  then have "wcstombs_store n dest s left ((w # ws) @ [0]) =
      wcstombs_store n ?d (s + length bs) (left - length bs) (ws @ [0])"
    using Cons.prems b by simp
  also have "\<dots> = (if s + length bs + length (encode ws) < length ?d
       then Some (of_nat (n - (left - length bs - length (encode ws))),
         take (s + length bs) ?d @ encode ws @ 0 # drop (Suc (s + length bs + length (encode ws))) ?d)
       else None)"
    by (rule Cons.IH) (use Cons.prems b in auto)
  finally show ?case using Cons.prems b by (auto simp: ac_simps)
qed

text \<open>
  C18. A wide string of valid characters that fits in the destination together with its
  terminator survives the way through \<^verbatim>\<open>wcstombs\<close> and \<^verbatim>\<open>mbstowcs\<close>: the former returns
  the number of bytes, and the latter, given room, restores every character and the
  terminator and returns their number.
\<close>

theorem wide_string_round_trip:
  assumes "\<forall>w \<in> set ws. 0 < w \<and> w \<le> 0x10ffff"
    and "sum_list (map count_wc ws) < int (length dest)" "n = length dest" "length ws < k"
  shows "\<exists>dest'. wcstombs (Some dest) (ws @ [0]) n = Some (word_of_int (sum_list (map count_wc ws)), dest') \<and>
    length dest' = n \<and> mbstowcs True dest' k = Some (of_nat (length ws), ws @ [0])"
proof -
  have v: "list_all valid_wc ws" using assms(1) by (simp add: list_all_iff valid_wc_def)
  note len = length_encode [OF v]
  let ?d = "encode ws @ 0 # drop (Suc (length (encode ws))) dest"
  have "wcstombs (Some dest) (ws @ [0]) n = Some (of_nat (length (encode ws)), ?d)"
    using wcstombs_store_encoded [OF v, of n 0 dest n] len assms(2,3) by (simp add: wcstombs_def)
  moreover have "mbstowcs True ?d k = Some (of_nat (length ws), ws @ [0])"
    using mbstowcs_store_encoded [OF v assms(4), of "drop (Suc (length (encode ws))) dest" 0 "[]"]
    by (simp add: mbstowcs_def)
  moreover have "length ?d = n" using len assms(2,3) by simp
  moreover have "word_of_int (sum_list (map count_wc ws)) = (of_nat (length (encode ws)) :: u32)"
    by (simp flip: len)
  ultimately show ?thesis by metis
qed

theorem wide_string_round_trip_witness:
  "\<exists>dest'. wcstombs (Some [9, 9, 9, 9, 9]) ([0x61, 0x20ac] @ [0]) 5 =
      Some (word_of_int (sum_list (map count_wc [0x61, 0x20ac])), dest') \<and>
    length dest' = 5 \<and> mbstowcs True dest' 3 = Some (of_nat (length [0x61, 0x20ac :: int]), [0x61, 0x20ac] @ [0])"
  by (rule wide_string_round_trip) (auto simp: count_wc_def)

text \<open>
  \<^verbatim>\<open>wcstombs\<close> stores the terminator without testing that there is room for it: when the
  characters fill the \<open>n\<close> bytes of the destination exactly, byte \<open>n\<close> is written.
\<close>

theorem wcstombs_overruns:
  assumes "\<forall>w \<in> set ws. 0 < w \<and> w \<le> 0x10ffff"
    and "sum_list (map count_wc ws) = int (length dest)" "n = length dest"
  shows "wcstombs (Some dest) (ws @ [0]) n = None"
proof -
  have v: "list_all valid_wc ws" using assms(1) by (simp add: list_all_iff valid_wc_def)
  show ?thesis using wcstombs_store_encoded [OF v, of n 0 dest n] length_encode [OF v] assms(2,3)
    by (simp add: wcstombs_def)
qed

theorem wcstombs_overruns_witness: "wcstombs (Some [0, 0, 0]) ([0x20ac] @ [0]) 3 = None"
  by (rule wcstombs_overruns) (auto simp: count_wc_def)

end
