(* ===== verification/Std_Malloc.thy ===== *)
theory Std_Malloc
  imports Set_List
begin

section \<open>The heap of the C library\<close>

text \<open>
  \<^verbatim>\<open>src/lib/libc/stdlib/malloc.c\<close>, \<^verbatim>\<open>malloc.h\<close>, \<^verbatim>\<open>realloc.c\<close> and \<^verbatim>\<open>calloc.c\<close>. The heap is a ring of
  fragments in the order of their addresses. A fragment is a header of two words, \<^verbatim>\<open>next\<close>
  and \<^verbatim>\<open>prev\<close>, followed by its bytes; the lowest bit of \<^verbatim>\<open>next\<close> says that it is in use. The
  bytes of a free fragment start with a second pair of words that links it into the list
  \<^verbatim>\<open>free_fragments\<close>.

  The state holds the pairs of words by address (\<open>nxt\<close>, \<open>prv\<close>; every access is to a multiple
  of 8), the address of the variable \<^verbatim>\<open>free_fragments\<close> and the two bounds of the heap. A
  null pointer is 0. Addresses are natural numbers; sizes and differences of
  addresses are 32-bit words and wrap around as in C. The break of the process is moved
  by the memory server: \<open>sbrk\<close> is an argument that says whether it grants a number of
  bytes beyond the current end.
\<close>

abbreviation (input) ENOMEM :: int where "ENOMEM \<equiv> 49"
abbreviation (input) MIN_SIZE :: u32 where "MIN_SIZE \<equiv> 8"
abbreviation (input) INITIAL_SIZE :: nat where "INITIAL_SIZE \<equiv> 32768"

record heap_t =
  lk :: "nat links"
  free_fragments :: nat
  heap_start :: nat
  heap_end :: nat
  heap_errno :: int

subsection \<open>Model\<close>

definition set_using :: "nat \<Rightarrow> nat links \<Rightarrow> nat links" where
  "set_using entry h = set_nxt entry (nxt h entry OR 1) h"

definition unset_using :: "nat \<Rightarrow> nat links \<Rightarrow> nat links" where
  "unset_using entry h = set_nxt entry (2 * (nxt h entry div 2)) h"

definition is_using :: "nat \<Rightarrow> nat links \<Rightarrow> bool" where
  "is_using entry h \<longleftrightarrow> nxt h entry AND 1 \<noteq> 0"

definition frag_initialize :: "nat \<Rightarrow> nat links \<Rightarrow> nat links" where
  "frag_initialize entry h = set_prv entry entry (set_nxt entry entry h)"

definition frag_insert :: "nat \<Rightarrow> nat \<Rightarrow> nat links \<Rightarrow> nat links" where
  "frag_insert to entry h =
    (let next = nxt h to;
         h1 = set_nxt entry next h;
         h2 = set_prv entry to h1;
         h3 = set_nxt to entry h2
     in set_prv next entry h3)"

definition frag_remove :: "nat \<Rightarrow> nat links \<Rightarrow> nat links" where
  "frag_remove entry h =
    (let next = nxt h entry; prev = prv h entry;
         h1 = set_prv next prev h
     in set_nxt prev next h1)"

text \<open>The two merges of \<^verbatim>\<open>free\<close> with the free neighbours of the fragment \<open>f\<close>.\<close>

definition merge_next :: "nat \<Rightarrow> nat links \<Rightarrow> nat links" where
  "merge_next f h =
    (if \<not> is_using (nxt h f) h then
       (let next = nxt h f;
            h = set_nxt (prv h next) f h;
            h = set_prv (nxt h next) f h;
            h = set_nxt f (nxt h next) h
        in frag_remove (next + 8) h)
     else h)"

definition merge_prev :: "nat \<Rightarrow> nat \<Rightarrow> nat links \<Rightarrow> nat links" where
  "merge_prev g f h =
    (if \<not> is_using (prv h f) h then
       (let prev = prv h f;
            h = set_nxt prev (nxt h f) h
        in set_prv (nxt h f) prev h)
     else frag_insert g (f + 8) h)"

definition free :: "nat \<Rightarrow> heap_t \<Rightarrow> heap_t" where
  "free p s =
    (if p AND 7 \<noteq> 0 \<or> heap_end s = 0 \<or> p < heap_start s + 16 \<or> heap_end s \<le> p then s
     else
       (let f = p - 8 in
        if \<not> is_using f (lk s) then s
        else s\<lparr>lk := merge_prev (free_fragments s) f (merge_next f (unset_using f (lk s)))\<rparr>))"

definition block_append :: "nat \<Rightarrow> nat \<Rightarrow> heap_t \<Rightarrow> heap_t" where
  "block_append to entry s =
    (let h = lk s;
         prev = prv h to;
         h = set_nxt entry (to OR 1) h;
         h = set_prv entry prev h;
         h = set_prv to entry h;
         h = set_nxt prev (entry OR (nxt h prev AND 1)) h
     in free (entry + 8) (s\<lparr>lk := h\<rparr>))"

text \<open>\<^verbatim>\<open>__malloc_initialize\<close>; \<open>start\<close> is what \<^verbatim>\<open>sbrk\<close> returned, \<^const>\<open>None\<close> for \<open>-1\<close>.\<close>

definition malloc_initialize :: "nat option \<Rightarrow> heap_t \<Rightarrow> heap_t" where
  "malloc_initialize start s =
    (let s = s\<lparr>lk := frag_initialize (free_fragments s) (lk s)\<rparr> in
     case start of
       None \<Rightarrow> s\<lparr>heap_start := 2 ^ 32 - 1\<rparr>
     | Some start \<Rightarrow>
         (let h = frag_initialize start (lk s);
              h = frag_insert start (start + 8) h;
              h = set_using start h;
              h = frag_insert (free_fragments s) (start + 16) h
          in s\<lparr>heap_start := start, heap_end := start + INITIAL_SIZE, lk := h\<rparr>))"

text \<open>The room of the fragment at \<open>f\<close>, and taking a fragment that has enough of it.\<close>

definition space_of :: "nat \<Rightarrow> heap_t \<Rightarrow> u32" where
  "space_of f s =
    of_nat (if nxt (lk s) f = heap_start s then heap_end s else nxt (lk s) f) - of_nat (f + 8)"

definition take_fragment :: "u32 \<Rightarrow> nat \<Rightarrow> heap_t \<Rightarrow> heap_t" where
  "take_fragment sz p s =
    (let f = p - 8; space = space_of f s;
         h1 = frag_remove p (lk s);
         h2 =
           (if space - sz \<ge> MIN_SIZE * 2 then
              (let next = p + unat sz
               in frag_insert (free_fragments s) (next + 8) (frag_insert f next h1))
            else h1)
     in s\<lparr>lk := set_using f h2\<rparr>)"

partial_function (option) find_from :: "u32 \<Rightarrow> nat \<Rightarrow> heap_t \<Rightarrow> (nat option \<times> heap_t) option" where
  "find_from sz p s =
    (if p = free_fragments s then Some (None, s)
     else if space_of (p - 8) s < sz then find_from sz (nxt (lk s) p) s
     else Some (Some p, take_fragment sz p s))"

definition find_c :: "u32 \<Rightarrow> heap_t \<Rightarrow> (nat option \<times> heap_t) option" where
  "find_c sz s = find_from sz (nxt (lk s) (free_fragments s)) s"

definition roundUp :: "u32 \<Rightarrow> u32 \<Rightarrow> u32" where
  "roundUp value ceil = (value + (ceil - 1)) AND NOT (ceil - 1)"

definition pageRoundUp :: "u32 \<Rightarrow> u32" where
  "pageRoundUp value = (value + 4096 - 1) AND 0xfffff000"

definition expand :: "(nat \<Rightarrow> u32 \<Rightarrow> bool) \<Rightarrow> u32 \<Rightarrow> heap_t \<Rightarrow> heap_t option" where
  "expand sbrk sz s =
    (let need = pageRoundUp (8 + sz) in
     if \<not> sbrk (heap_end s) need then None
     else
       (let entry = heap_end s;
            s = s\<lparr>heap_end := heap_end s + unat need\<rparr>
        in Some (block_append (heap_start s) entry s)))"

partial_function (option) malloc_loop ::
    "(nat \<Rightarrow> u32 \<Rightarrow> bool) \<Rightarrow> u32 \<Rightarrow> heap_t \<Rightarrow> (nat option \<times> heap_t) option" where
  "malloc_loop sbrk sz s =
    (case find_c sz s of
       None \<Rightarrow> None
     | Some (Some p, s) \<Rightarrow> Some (Some p, s)
     | Some (None, s) \<Rightarrow>
         if heap_end s = 0 then Some (None, s\<lparr>heap_errno := ENOMEM\<rparr>)
         else (case expand sbrk sz s of
                 None \<Rightarrow> Some (None, s\<lparr>heap_errno := ENOMEM\<rparr>)
               | Some s \<Rightarrow> malloc_loop sbrk sz s))"

definition malloc :: "(nat \<Rightarrow> u32 \<Rightarrow> bool) \<Rightarrow> u32 \<Rightarrow> heap_t \<Rightarrow> (nat option \<times> heap_t) option" where
  "malloc sbrk sz s =
    (if sz = 0 then Some (None, s)
     else malloc_loop sbrk (if sz < MIN_SIZE then MIN_SIZE else roundUp sz MIN_SIZE) s)"

text \<open>The bytes of the fragments are not part of the state, so neither is the copy of \<^verbatim>\<open>realloc\<close>.\<close>

definition realloc :: "(nat \<Rightarrow> u32 \<Rightarrow> bool) \<Rightarrow> nat \<Rightarrow> u32 \<Rightarrow> heap_t \<Rightarrow> (nat option \<times> heap_t) option" where
  "realloc sbrk ptr sz s =
    (if sz = 0 then Some (None, s)
     else if ptr = 0 then malloc sbrk sz s
     else
       (let f = ptr - 8; old = (of_nat (2 * (nxt (lk s) f div 2)) - of_nat ptr :: u32) in
        if old \<ge> sz then Some (Some ptr, s)
        else (case malloc sbrk sz s of
                None \<Rightarrow> None
              | Some (Some p, s) \<Rightarrow> Some (Some p, free ptr s)
              | Some (None, s) \<Rightarrow> Some (None, s\<lparr>heap_errno := ENOMEM\<rparr>))))"

text \<open>\<^verbatim>\<open>calloc\<close> asks for the product of its arguments; clearing the bytes is not part of the state.\<close>

definition calloc :: "(nat \<Rightarrow> u32 \<Rightarrow> bool) \<Rightarrow> u32 \<Rightarrow> u32 \<Rightarrow> heap_t \<Rightarrow> (nat option \<times> heap_t) option" where
  "calloc sbrk nmemb sz s =
    (let bytes = nmemb * sz in
     if bytes \<noteq> 0 then
       (case malloc sbrk bytes s of
          None \<Rightarrow> None
        | Some (Some p, s) \<Rightarrow> Some (Some p, s)
        | Some (None, s) \<Rightarrow> Some (None, s\<lparr>heap_errno := ENOMEM\<rparr>))
     else Some (None, s))"

subsection \<open>Rings\<close>

lemma ring_rotate: "ring h g (as @ f # bs) \<Longrightarrow> ring h f (bs @ g # as)"
  using linked_split [of h "g # as" f "bs @ [g]"] linked_split [of h "f # bs" g "as @ [f]"]
  by (auto simp: ring_def)

lemma ring_ends:
  assumes "ring h g (as @ e # bs)"
  shows "nxt h e = hd (bs @ [g])" "prv h e = last (g # as)"
  using ring_next [OF ring_rotate [OF assms]] ring_prev [OF ring_rotate [OF assms]]
  by (auto simp: hd_append)

lemma ring_insert_after:
  assumes "ring h g (as @ f # bs)" "e \<notin> set (g # as @ f # bs)"
  shows "ring (list_insert f e h) g (as @ f # e # bs)"
proof -
  have "ring (list_insert f e h) f (e # bs @ g # as)"
    by (rule ring_insert [OF ring_rotate [OF assms(1)]]) (use assms(2) in auto)
  from ring_rotate [of _ _ "e # bs", simplified, OF this] show ?thesis by simp
qed

lemma ring_unlink:
  assumes r: "ring h g (as @ e # bs)" and p: "p = last (g # as)" and n: "n = hd (bs @ [g])"
    and upd: "\<forall>x \<in> set (g # as @ bs). nxt h' x = (if x = p then n else nxt h x) \<and> prv h' x = (if x = n then p else prv h x)"
  shows "ring h' g (as @ bs)"
proof (rule ring_frame [OF ring_remove(1) [OF r]])
  have e: "e \<notin> set (g # as @ bs)" using r by (auto simp: ring_def)
  have "nxt h e = n" "prv h e = p" using ring_ends [OF r] p n by simp_all
  then have u: "nxt (list_remove e h) = (nxt h)(p := n, e := e)" "prv (list_remove e h) = (prv h)(n := p, e := e)"
    by (simp_all add: list_remove_def list_initialize_def Let_def)
  show "\<forall>x \<in> set (g # as @ bs). nxt h' x = nxt (list_remove e h) x \<and> prv h' x = prv (list_remove e h) x"
  proof
    fix x
    assume x: "x \<in> set (g # as @ bs)"
    then have "x \<noteq> e" using e by blast
    then show "nxt h' x = nxt (list_remove e h) x \<and> prv h' x = prv (list_remove e h) x"
      using bspec [OF upd x] unfolding u by simp
  qed
qed

lemma frag_insert_list: "frag_insert = list_insert"
  by (simp add: fun_eq_iff frag_insert_def list_insert_def)

subsection \<open>The invariant\<close>

text \<open>
  \<open>rings_ok\<close>: the fragments and the free list are two rings that share no address, and
  the free list holds the fragments \<open>F\<close>.
  \<open>untag\<close> reads the pointers of the fragments without the bit. \<open>layout\<close>: the fragments
  \<open>xs\<close> after the first one cover the heap in the order of their addresses, each with room
  for two words. \<open>frags_ok\<close>: the fragments form a ring, the free ones are those of the free list.
\<close>

definition ut :: "nat \<Rightarrow> nat" where "ut n = 2 * (n div 2)"

definition untag :: "nat links \<Rightarrow> nat links" where
  "untag h = h\<lparr>nxt := \<lambda>x. ut (nxt h x)\<rparr>"

definition layout :: "nat \<Rightarrow> nat \<Rightarrow> nat list \<Rightarrow> bool" where
  "layout hs e xs \<longleftrightarrow> 0 < hs \<and> xs \<noteq> [] \<and> hd xs = hs + 8 \<and> sorted_wrt (\<lambda>a b. a + 16 \<le> b) (xs @ [e]) \<and>
    (\<forall>x \<in> set (hs # xs @ [e]). 8 dvd x)"

definition rings_ok :: "nat links \<Rightarrow> nat \<Rightarrow> nat \<Rightarrow> nat list \<Rightarrow> nat set \<Rightarrow> nat list \<Rightarrow> bool" where
  "rings_ok h g hs xs F fs \<longleftrightarrow> ring (untag h) hs xs \<and> ring h g fs \<and> set fs = (\<lambda>x. x + 8) ` F \<and>
    (\<forall>y \<in> set (g # fs). y \<notin> set (hs # xs))"

definition frags_ok :: "nat links \<Rightarrow> nat \<Rightarrow> nat \<Rightarrow> nat \<Rightarrow> nat list \<Rightarrow> nat list \<Rightarrow> bool" where
  "frags_ok h g hs e xs fs \<longleftrightarrow>
    rings_ok h g hs xs {x \<in> set xs. even (nxt h x)} fs \<and> layout hs e xs \<and> odd (nxt h hs) \<and>
    g + 8 \<le> hs \<and> 8 dvd g"

lemma ut_simps [simp]: "even (ut n)" "even n \<Longrightarrow> ut n = n" "ut (n OR Suc 0) = ut n" "ut (ut n) = ut n"
  by (auto simp: ut_def or_Suc_0_eq)

lemma is_using_odd: "is_using x h \<longleftrightarrow> odd (nxt h x)"
  by (auto simp: is_using_def and_one_eq odd_iff_mod_2_eq_one)

lemma untag_simps [simp]: "nxt (untag h) x = ut (nxt h x)" "prv (untag h) = prv h"
  by (simp_all add: untag_def)

lemma untag_set_using [simp]: "untag (set_using x h) = untag h"
  by (rule links.equality) (auto simp: untag_def set_using_def fun_eq_iff)

lemma untag_unset_using [simp]: "untag (unset_using x h) = untag h"
  by (auto simp: untag_def unset_using_def ut_def fun_eq_iff)

lemma layout_after:
  assumes "layout hs e xs" "x \<in> set xs"
  shows "hs + 8 \<le> x" "x + 16 \<le> e" "8 dvd x" "x + 8 \<notin> set (hs # xs)" "x \<noteq> hs" "even x"
proof -
  from assms(2) obtain as bs where xs: "xs = as @ x # bs" by (meson split_list)
  have s: "sorted_wrt (\<lambda>a b. a + 16 \<le> b) (as @ x # bs @ [e])" using assms(1) xs by (simp add: layout_def)
  show "x + 16 \<le> e" using s by (auto simp: sorted_wrt_append)
  show hsx: "hs + 8 \<le> x"
  proof (cases as)
    case Nil
    then show ?thesis using assms(1) xs by (simp add: layout_def)
  next
    case (Cons a as')
    then have "a = hs + 8" "a + 16 \<le> x" using assms(1) xs s by (auto simp: layout_def)
    then show ?thesis by simp
  qed
  then show "x \<noteq> hs" by simp
  show "8 dvd x" using assms by (auto simp: layout_def)
  then show "even x" by (meson dvd_trans even_numeral)
  have "\<forall>y \<in> set xs. y \<noteq> x \<longrightarrow> x + 16 \<le> y \<or> y + 16 \<le> x" using s xs by (auto simp: sorted_wrt_append)
  then show "x + 8 \<notin> set (hs # xs)" using hsx by force
qed

lemma rings_sep: "rings_ok h g hs xs F fs \<Longrightarrow> z \<in> set (hs # xs) \<Longrightarrow> z \<notin> set (g # fs)"
  unfolding rings_ok_def by blast

lemma chain_frame:
  assumes "rings_ok h g hs xs F fs" "\<And>z. z \<in> set (hs # xs) \<Longrightarrow> nxt h' z = nxt h z \<and> prv h' z = prv h z"
  shows "ring (untag h') hs xs"
  by (rule ring_frame [of "untag h"]) (use assms in \<open>simp_all add: rings_ok_def\<close>)

lemma free_frame:
  assumes "rings_ok h g hs xs F fs" "\<And>z. z \<notin> set (hs # xs) \<Longrightarrow> z \<noteq> n \<Longrightarrow> nxt h' z = nxt h z \<and> prv h' z = prv h z"
    "n \<notin> set (g # fs)"
  shows "ring h' g fs"
proof (rule ring_frame [of h])
  show "\<forall>z \<in> set (g # fs). nxt h' z = nxt h z \<and> prv h' z = prv h z"
    using assms unfolding rings_ok_def by metis
qed (use assms(1) in \<open>simp add: rings_ok_def\<close>)

lemma rings_remove_free:
  assumes "rings_ok h g hs xs F fs" "x \<in> F"
  shows "rings_ok (frag_remove (x + 8) h) g hs xs (F - {x}) (remove1 (x + 8) fs)"
    and "z \<notin> set (g # fs) \<Longrightarrow> nxt (frag_remove (x + 8) h) z = nxt h z \<and> prv (frag_remove (x + 8) h) z = prv h z"
proof -
  let ?h = "frag_remove (x + 8) h"
  have "x + 8 \<in> set fs" using assms by (simp add: rings_ok_def)
  then obtain as bs where fs: "fs = as @ (x + 8) # bs" by (meson split_list)
  have r: "ring h g (as @ (x + 8) # bs)" using assms(1) unfolding fs rings_ok_def by blast
  have d: "distinct (g # as @ (x + 8) # bs)" using r by (simp add: ring_def)
  note e = ring_ends [OF r]
  have u: "nxt ?h = (nxt h)(last (g # as) := hd (bs @ [g]))" "prv ?h = (prv h)(hd (bs @ [g]) := last (g # as))"
    by (simp_all add: frag_remove_def Let_def e)
  have mem: "last (g # as) \<in> set (g # fs)" "hd (bs @ [g]) \<in> set (g # fs)"
    using fs by (auto simp: hd_append)
  show fr: "nxt ?h z = nxt h z \<and> prv ?h z = prv h z" if "z \<notin> set (g # fs)" for z
    using that mem unfolding u fun_upd_apply by metis
  have "ring ?h g (as @ bs)" by (rule ring_unlink [OF r refl refl]) (simp only: u fun_upd_apply, blast)
  moreover have rm: "remove1 (x + 8) fs = as @ bs" using d fs by (simp add: remove1_append)
  moreover have "ring (untag ?h) hs xs"
    by (rule chain_frame [OF assms(1)]) (use fr rings_sep [OF assms(1)] in blast)
  moreover have "set fs = (\<lambda>x. x + 8) ` F" using assms(1) unfolding rings_ok_def by blast
  then have "set (as @ bs) = (\<lambda>x. x + 8) ` F - {x + 8}" using d unfolding fs by auto
  then have "set (as @ bs) = (\<lambda>x. x + 8) ` (F - {x})"
    by (simp only: image_set_diff [OF inj_on_add'] image_insert image_empty)
  moreover have "set (g # as @ bs) \<subseteq> set (g # fs)" unfolding fs by auto
  then have "\<forall>y \<in> set (g # as @ bs). y \<notin> set (hs # xs)" using rings_sep [OF assms(1)] by blast
  ultimately show "rings_ok ?h g hs xs (F - {x}) (remove1 (x + 8) fs)"
    unfolding rings_ok_def rm by blast
qed

lemma rings_add_free:
  assumes "rings_ok h g hs xs F fs" "x + 8 \<notin> set (g # fs)" "x + 8 \<notin> set (hs # xs)"
  shows "rings_ok (frag_insert g (x + 8) h) g hs xs (insert x F) ((x + 8) # fs)"
    and "z \<notin> set (g # fs) \<Longrightarrow> z \<noteq> x + 8 \<Longrightarrow>
      nxt (frag_insert g (x + 8) h) z = nxt h z \<and> prv (frag_insert g (x + 8) h) z = prv h z"
proof -
  let ?h = "frag_insert g (x + 8) h"
  have r: "ring h g fs" using assms(1) unfolding rings_ok_def by blast
  have "hd (fs @ [g]) \<in> set (g # fs)" by (cases fs) auto
  then show fr: "nxt ?h z = nxt h z \<and> prv ?h z = prv h z" if "z \<notin> set (g # fs)" "z \<noteq> x + 8" for z
    using that ring_next [OF r] by (auto simp: frag_insert_def Let_def)
  have "ring ?h g ((x + 8) # fs)" unfolding frag_insert_list by (rule ring_insert [OF r assms(2)])
  moreover have "ring (untag ?h) hs xs"
    by (rule chain_frame [OF assms(1)]) (use fr rings_sep [OF assms(1)] assms(3) in metis)
  ultimately show "rings_ok ?h g hs xs (insert x F) ((x + 8) # fs)"
    using assms unfolding rings_ok_def by auto
qed

lemma rings_split:
  assumes "rings_ok h g hs (as @ f # bs) F fs" "even (nxt h f)" "even n"
    "n \<notin> set (hs # as @ f # bs)" "n \<notin> set (g # fs)"
  shows "rings_ok (frag_insert f n h) g hs (as @ f # n # bs) F fs"
proof -
  let ?h = "frag_insert f n h"
  have r: "ring (untag h) hs (as @ f # bs)" using assms(1) unfolding rings_ok_def by blast
  have "untag ?h = list_insert f n (untag h)"
    using assms(2,3) by (auto simp: frag_insert_def list_insert_def Let_def untag_def fun_upd_def intro!: links.equality)
  then have "ring (untag ?h) hs (as @ f # n # bs)" using ring_insert_after [OF r assms(4)] by simp
  moreover have "nxt h f = hd (bs @ [hs])" using ring_ends(1) [OF r] assms(2) by simp
  then have "nxt h f \<in> set (hs # as @ f # bs)" by (cases bs) auto
  then have "ring ?h g fs"
    by (intro free_frame [OF assms(1) _ assms(5)]) (auto simp: frag_insert_def Let_def)
  ultimately show ?thesis using assms(1,4,5) unfolding rings_ok_def by auto
qed

lemma rings_unlink:
  assumes "rings_ok h g hs (as @ x # bs) F fs" "p = last (hs # as)" "n = hd (bs @ [hs])" "even n"
    and "nxt h' = (nxt h)(p := n)" "prv h' = (prv h)(n := p)"
  shows "rings_ok h' g hs (as @ bs) F fs"
proof -
  have r: "ring (untag h) hs (as @ x # bs)" using assms(1) unfolding rings_ok_def by blast
  have "ring (untag h') hs (as @ bs)"
    by (rule ring_unlink [OF r assms(2,3)]) (use assms(4) in \<open>auto simp: assms(5,6)\<close>)
  moreover have "p \<in> set (hs # as @ x # bs)" "n \<in> set (hs # as @ x # bs)" using assms(2,3) by (auto simp: hd_append)
  then have "ring h' g fs"
    by (intro free_frame [OF assms(1), of x]) (use assms(1,5,6) in \<open>auto simp: rings_ok_def\<close>)
  ultimately show ?thesis using assms(1) unfolding rings_ok_def by auto
qed

subsection \<open>Freeing and taking a fragment\<close>

text \<open>
  \<open>used\<close>: the fragments in use, with the address of their end. While a fragment changes
  hands it is free, but not in the free list (\<open>pending\<close>).
\<close>

definition endof :: "nat links \<Rightarrow> nat \<Rightarrow> nat \<Rightarrow> nat \<Rightarrow> nat" where
  "endof h hs e x = (if ut (nxt h x) = hs then e else ut (nxt h x))"

definition used :: "nat links \<Rightarrow> nat \<Rightarrow> nat \<Rightarrow> nat list \<Rightarrow> nat \<Rightarrow> nat option" where
  "used h hs e xs x =
    (if x \<in> set xs \<and> odd (nxt h x) then Some (endof h hs e x) else None)"

definition pending :: "nat \<Rightarrow> nat links \<Rightarrow> nat \<Rightarrow> nat \<Rightarrow> nat \<Rightarrow> nat list \<Rightarrow> nat list \<Rightarrow> bool" where
  "pending f h g hs e xs fs \<longleftrightarrow>
    rings_ok h g hs xs ({x \<in> set xs. even (nxt h x)} - {f}) fs \<and> layout hs e xs \<and> odd (nxt h hs) \<and>
    g + 8 \<le> hs \<and> 8 dvd g \<and> f \<in> set xs \<and> even (nxt h f)"

lemma used_cong:
  assumes "\<And>x. x \<in> set xs \<Longrightarrow> odd (nxt h x) \<Longrightarrow> x \<in> set xs' \<and> nxt h' x = nxt h x"
    "\<And>x. x \<in> set xs' \<Longrightarrow> odd (nxt h' x) \<Longrightarrow> x \<in> set xs \<and> nxt h' x = nxt h x"
  shows "used h' hs e xs' = used h hs e xs"
proof
  fix x
  have "(x \<in> set xs' \<and> odd (nxt h' x)) = (x \<in> set xs \<and> odd (nxt h x))"
    "x \<in> set xs \<and> odd (nxt h x) \<Longrightarrow> nxt h' x = nxt h x" using assms [of x] by metis+
  then show "used h' hs e xs' x = used h hs e xs x" unfolding used_def endof_def by (metis (no_types))
qed

lemma rings_flag:
  assumes "rings_ok h g hs xs F fs" "f \<in> set (hs # xs)" "untag h' = untag h"
    "\<And>z. z \<noteq> f \<Longrightarrow> nxt h' z = nxt h z" "prv h' = prv h"
  shows "rings_ok h' g hs xs F fs"
proof -
  have "ring h' g fs"
  proof (rule ring_frame [of h])
    show "\<forall>z \<in> set (g # fs). nxt h' z = nxt h z \<and> prv h' z = prv h z"
      using assms(4,5) rings_sep [OF assms(1,2)] by metis
  qed (use assms(1) in \<open>simp add: rings_ok_def\<close>)
  then show ?thesis using assms(1,3) by (simp add: rings_ok_def)
qed

lemma unset_ok:
  assumes "frags_ok h g hs e xs fs" "f \<in> set xs" "odd (nxt h f)"
  shows "pending f (unset_using f h) g hs e xs fs" "used (unset_using f h) hs e xs = (used h hs e xs)(f := None)"
proof -
  let ?h = "unset_using f h"
  have n: "nxt ?h z = (if z = f then ut (nxt h f) else nxt h z)" "prv ?h = prv h" for z
    by (simp_all add: unset_using_def ut_def)
  have ly: "layout hs e xs" using assms(1) by (simp add: frags_ok_def)
  have "rings_ok ?h g hs xs {x \<in> set xs. even (nxt h x)} fs"
    by (rule rings_flag [of h _ _ _ _ _ f]) (use assms in \<open>auto simp: n frags_ok_def\<close>)
  moreover have "{x \<in> set xs. even (nxt ?h x)} - {f} = {x \<in> set xs. even (nxt h x)}" using assms(3) by (auto simp: n)
  ultimately show "pending f ?h g hs e xs fs"
    using assms layout_after(5) [OF ly assms(2)] by (auto simp: pending_def frags_ok_def n)
  show "used ?h hs e xs = (used h hs e xs)(f := None)"
    by (auto simp: used_def endof_def n fun_eq_iff)
qed

lemma layout_remove:
  assumes "layout hs e (as @ x # bs)" "as \<noteq> []"
  shows "layout hs e (as @ bs)"
  using assms by (auto simp: layout_def sorted_wrt_append)

lemma layout_ends:
  assumes "layout hs e (as @ f # bs)"
  shows "even (hd (bs @ [hs]))" "even hs"
proof -
  have "\<forall>x \<in> set (hs # as @ f # bs). even x" using assms unfolding layout_def
    by (metis UnCI dvd_trans even_numeral set_append set_ConsD list.set_intros(1,2))
  then show "even (hd (bs @ [hs]))" "even hs" by (cases bs; simp)+
qed

lemma pending_merge_next:
  assumes "pending f h g hs e xs fs"
  shows "\<exists>xs' fs'. pending f (merge_next f h) g hs e xs' fs' \<and> used (merge_next f h) hs e xs' = used h hs e xs \<and>
    endof h hs e f \<le> endof (merge_next f h) hs e f"
proof (cases "is_using (nxt h f) h")
  case True
  then show ?thesis using assms by (auto simp: merge_next_def)
next
  case False
  let ?F = "{x \<in> set xs. even (nxt h x)} - {f}"
  obtain as bs where xs: "xs = as @ f # bs" using assms by (auto simp: pending_def dest: split_list)
  have rk: "rings_ok h g hs xs ?F fs" and ly: "layout hs e xs" and odd: "odd (nxt h hs)" and ev: "even (nxt h f)"
    using assms by (auto simp: pending_def)
  have r: "ring (untag h) hs (as @ f # bs)" using rk xs by (simp add: rings_ok_def)
  have "nxt h f = hd (bs @ [hs])" using ring_ends(1) [OF r] ev by simp
  with False odd obtain nx bs' where bs: "bs = nx # bs'" and nx: "nxt h f = nx" "even (nxt h nx)"
    by (cases bs) (auto simp: is_using_odd)
  have r2: "ring (untag h) hs ((as @ [f]) @ nx # bs')" using r bs by simp
  have d: "distinct (hs # as @ f # nx # bs')" using r bs by (simp add: ring_def)
  define n where "n = hd (bs' @ [hs])"
  have n: "nxt h nx = n" "prv h nx = f" "even n" using ring_ends [OF r2] nx by (auto simp: n_def)
  define h1 where "h1 = set_nxt f n (set_prv n f h)"
  have m: "merge_next f h = frag_remove (nx + 8) h1"
    using False d nx n by (simp add: merge_next_def Let_def h1_def)
  have "rings_ok h1 g hs ((as @ [f]) @ bs') ?F fs"
    by (rule rings_unlink [where x = nx and p = f and n = n and h = h])
      (use rk n n_def in \<open>simp_all add: h1_def xs bs\<close>)
  moreover have "nx \<in> ?F" using nx d xs bs by auto
  ultimately have r3: "rings_ok (merge_next f h) g hs (as @ f # bs') (?F - {nx}) (remove1 (nx + 8) fs)"
    and fr: "z \<notin> set (g # fs) \<Longrightarrow> nxt (merge_next f h) z = nxt h1 z" for z
    unfolding m using rings_remove_free [of h1 g hs "as @ f # bs'" ?F fs nx] by auto
  have nx': "nxt (merge_next f h) z = (if z = f then n else nxt h z)" if "z \<in> set (hs # xs)" for z
    using fr rings_sep [OF rk that] by (simp add: h1_def)
  have F: "?F - {nx} = {x \<in> set (as @ f # bs'). even (nxt (merge_next f h) x)} - {f}"
    using d by (auto simp: nx' xs bs)
  have "layout hs e (as @ f # bs')" using layout_remove [of hs e "as @ [f]" nx bs'] ly xs bs by simp
  then have "pending f (merge_next f h) g hs e (as @ f # bs') (remove1 (nx + 8) fs)"
    using assms r3 odd n(3) d unfolding pending_def F by (auto simp: nx' xs)
  moreover have "used (merge_next f h) hs e (as @ f # bs') = used h hs e xs"
  proof (rule used_cong)
    fix x
    assume "x \<in> set xs" "odd (nxt h x)"
    then have "x \<noteq> f" "x \<noteq> nx" "x \<in> set xs" using ev nx(2) by auto
    then show "x \<in> set (as @ f # bs') \<and> nxt (merge_next f h) x = nxt h x" using nx' [of x] by (simp add: xs bs)
  next
    fix x
    assume x: "x \<in> set (as @ f # bs')" "odd (nxt (merge_next f h) x)"
    then have "x \<in> set xs" by (auto simp: xs bs)
    then show "x \<in> set xs \<and> nxt (merge_next f h) x = nxt h x" using nx' [of x] x(2) n(3) by (cases "x = f") auto
  qed
  moreover have "endof h hs e f \<le> endof (merge_next f h) hs e f"
  proof -
    have srt: "sorted_wrt (\<lambda>a b. a + 16 \<le> b) (as @ f # nx # bs' @ [e])" using ly by (simp add: layout_def xs bs)
    have "nx \<noteq> hs" "even nx" using d nx(1) ev by auto
    then have "endof h hs e f = nx" using nx by (simp add: endof_def)
    moreover have "endof (merge_next f h) hs e f = (if n = hs then e else n)"
      using nx' [of f] n(3) by (simp add: endof_def xs)
    moreover have "nx \<le> e" "n = hs \<or> nx \<le> n" using srt by (cases bs'; force simp: n_def sorted_wrt_append)+
    ultimately show ?thesis by auto
  qed
  ultimately show ?thesis by blast
qed

lemma add8_image: "x + 8 \<in> (\<lambda>x. x + 8) ` F \<longleftrightarrow> x \<in> F" for x :: nat
  by (rule inj_image_mem_iff) (rule injI, rule add_right_imp_eq)

lemma pending_not_listed:
  assumes "pending f h g hs e xs fs"
  shows "f + 8 \<notin> set (g # fs)" "f + 8 \<notin> set (hs # xs)"
proof -
  have ly: "layout hs e xs" and f: "f \<in> set xs" and g: "g + 8 \<le> hs"
    and fs: "set fs = (\<lambda>x. x + 8) ` ({x \<in> set xs. even (nxt h x)} - {f})"
    using assms unfolding pending_def rings_ok_def by blast+
  show "f + 8 \<notin> set (hs # xs)" using layout_after(4) [OF ly f] .
  have "f + 8 \<noteq> g" using g layout_after(1) [OF ly f] by linarith
  moreover have "f + 8 \<notin> set fs" unfolding fs add8_image by blast
  ultimately show "f + 8 \<notin> set (g # fs)" by simp
qed

lemma pending_add_free:
  assumes "pending f h g hs e xs fs"
  shows "frags_ok (frag_insert g (f + 8) h) g hs e xs ((f + 8) # fs)"
    "used (frag_insert g (f + 8) h) hs e xs = used h hs e xs"
    "z \<in> set (hs # xs) \<Longrightarrow> nxt (frag_insert g (f + 8) h) z = nxt h z"
proof -
  let ?h = "frag_insert g (f + 8) h" and ?F = "{x \<in> set xs. even (nxt h x)}"
  have rk: "rings_ok h g hs xs (?F - {f}) fs" and f: "f \<in> ?F" using assms by (auto simp: pending_def)
  note out = pending_not_listed [OF assms]
  show n: "nxt ?h z = nxt h z" if "z \<in> set (hs # xs)" for z
    using rings_add_free(2) [OF rk out] rings_sep [OF rk that] that out(2) by metis
  have "rings_ok ?h g hs xs (insert f (?F - {f})) ((f + 8) # fs)" by (rule rings_add_free(1) [OF rk out])
  moreover have "insert f (?F - {f}) = {x \<in> set xs. even (nxt ?h x)}" using f n by auto
  ultimately show "frags_ok ?h g hs e xs ((f + 8) # fs)" using assms n by (simp add: frags_ok_def pending_def)
  show "used ?h hs e xs = used h hs e xs" by (rule used_cong) (use n in auto)
qed

lemma pending_merge_prev:
  assumes "pending f h g hs e xs fs"
  shows "\<exists>xs' fs'. frags_ok (merge_prev g f h) g hs e xs' fs' \<and> used (merge_prev g f h) hs e xs' = used h hs e xs \<and>
    (\<exists>x \<in> set xs'. even (nxt (merge_prev g f h) x) \<and> x \<le> f \<and> endof (merge_prev g f h) hs e x = endof h hs e f)"
proof (cases "is_using (prv h f) h")
  case True
  then have "merge_prev g f h = frag_insert g (f + 8) h" by (simp add: merge_prev_def)
  moreover have "nxt (frag_insert g (f + 8) h) f = nxt h f" "f \<in> set xs" "even (nxt h f)"
    using assms pending_add_free(3) [OF assms] by (auto simp: pending_def)
  ultimately show ?thesis using pending_add_free [OF assms] unfolding endof_def by (metis order_refl)
next
  case False
  let ?F = "{x \<in> set xs. even (nxt h x)} - {f}"
  obtain as bs where xs: "xs = as @ f # bs" using assms by (auto simp: pending_def dest: split_list)
  have rk: "rings_ok h g hs xs ?F fs" and ly: "layout hs e xs" and odd: "odd (nxt h hs)" and ev: "even (nxt h f)"
    using assms by (auto simp: pending_def)
  have r: "ring (untag h) hs (as @ f # bs)" using rk xs by (simp add: rings_ok_def)
  define n where "n = hd (bs @ [hs])"
  define pv where "pv = last (hs # as)"
  have l: "prv h f = pv" "nxt h f = n" using ring_ends [OF r] ev by (auto simp: n_def pv_def)
  have en: "even n" using l(2) ev by simp
  have pv: "even (nxt h pv)" using False l by (simp add: is_using_odd)
  then have as: "as \<noteq> []" "pv \<in> set as" using odd by (auto simp: pv_def)
  have d: "distinct (hs # as @ f # bs)" using r by (simp add: ring_def)
  have "pv \<noteq> f" using d as(2) by auto
  then have m: "merge_prev g f h = set_prv n pv (set_nxt pv n h)"
    using False l by (simp add: merge_prev_def Let_def)
  have nx: "nxt (merge_prev g f h) = (nxt h)(pv := n)" "prv (merge_prev g f h) = (prv h)(n := pv)"
    unfolding m by simp_all
  have "rings_ok (merge_prev g f h) g hs (as @ bs) ?F fs"
    by (rule rings_unlink [OF _ pv_def n_def en nx]) (use rk xs in simp)
  moreover have "?F = {x \<in> set (as @ bs). even (nxt (merge_prev g f h) x)}"
    using d pv en by (auto simp: nx xs)
  ultimately have "frags_ok (merge_prev g f h) g hs e (as @ bs) fs"
    using assms layout_remove [OF ly [unfolded xs] as(1)] odd pv by (auto simp: frags_ok_def pending_def nx)
  moreover have "used (merge_prev g f h) hs e (as @ bs) = used h hs e xs"
  proof (rule used_cong)
    fix x
    assume "x \<in> set xs" "odd (nxt h x)"
    then have "x \<noteq> f" "x \<noteq> pv" "x \<in> set xs" using ev pv by auto
    then show "x \<in> set (as @ bs) \<and> nxt (merge_prev g f h) x = nxt h x" by (simp add: nx xs)
  next
    fix x
    assume x: "x \<in> set (as @ bs)" "odd (nxt (merge_prev g f h) x)"
    then have "x \<noteq> pv" using en nx by auto
    then show "x \<in> set xs \<and> nxt (merge_prev g f h) x = nxt h x" using x(1) by (auto simp: nx xs)
  qed
  moreover have "pv \<in> set (as @ bs)" "even (nxt (merge_prev g f h) pv)" "pv \<le> f"
    using as(2) en ly by (auto simp: nx layout_def xs sorted_wrt_append)
  moreover have "endof (merge_prev g f h) hs e pv = endof h hs e f" using l(2) en by (simp add: endof_def nx)
  ultimately show ?thesis by blast
qed

lemma pending_split:
  assumes p: "pending f h g hs e xs fs" and xs: "xs = as @ f # bs"
    and n: "8 dvd n" "f + 16 \<le> n" "n + 16 \<le> hd (bs @ [e])"
  shows "pending f (frag_insert g (n + 8) (frag_insert f n h)) g hs e (as @ f # n # bs) ((n + 8) # fs)"
    "used (frag_insert g (n + 8) (frag_insert f n h)) hs e (as @ f # n # bs) = used h hs e xs"
    "nxt (frag_insert g (n + 8) (frag_insert f n h)) f = n"
proof -
  let ?h1 = "frag_insert f n h"
  let ?h = "frag_insert g (n + 8) ?h1"
  let ?xs = "as @ f # n # bs"
  let ?F = "{x \<in> set xs. even (nxt h x)} - {f}"
  have rk: "rings_ok h g hs (as @ f # bs) ?F fs" and ly: "layout hs e xs" and odd: "odd (nxt h hs)"
    and ev: "even (nxt h f)" and g: "g + 8 \<le> hs" using p by (auto simp: pending_def xs)
  have srt: "sorted_wrt (\<lambda>a b. a + 16 \<le> b) (as @ f # bs @ [e])" using ly by (simp add: layout_def xs)
  have later: "\<forall>y \<in> set (bs @ [e]). hd (bs @ [e]) \<le> y"
    using srt by (cases bs) (auto simp: sorted_wrt_append)
  have en: "even n" using n(1) by (meson dvd_trans even_numeral)
  have "hs + 8 \<le> f" using layout_after(1) [OF ly] xs by simp
  have lyn: "layout hs e ?xs"
  proof -
    have "sorted_wrt (\<lambda>a b. a + 16 \<le> b) (as @ f # n # bs @ [e])"
      using srt n(2,3) later by (fastforce simp: sorted_wrt_append)
    then show ?thesis using ly n(1) by (cases as) (auto simp: layout_def xs)
  qed
  have nout: "n \<notin> set (hs # as @ f # bs)"
    using srt n(2,3) later \<open>hs + 8 \<le> f\<close> by (fastforce simp: sorted_wrt_append)
  have nfree: "n \<notin> set (g # fs)"
  proof -
    have "y + 8 \<noteq> n" if "y \<in> set xs" "y \<noteq> f" for y
      using that srt n(2,3) later unfolding xs by (fastforce simp: sorted_wrt_append)
    moreover have "set fs = (\<lambda>x. x + 8) ` ?F" using rk by (simp add: rings_ok_def)
    moreover have "n \<noteq> g" using g \<open>hs + 8 \<le> f\<close> n(2) by simp
    ultimately show ?thesis by auto
  qed
  have rk1: "rings_ok ?h1 g hs ?xs ?F fs" by (rule rings_split [OF rk ev en nout nfree])
  have n1: "nxt ?h1 z = (if z = f then n else if z = n then nxt h f else nxt h z)" for z
    using nout by (auto simp: frag_insert_def Let_def)
  have F1: "?F = {x \<in> set ?xs. even (nxt ?h1 x)} - {f, n}"
    using nout by (auto simp: n1 xs)
  have "\<forall>x \<in> ?F. x + 8 \<noteq> n + 8" using nout by (auto simp: xs)
  then have out: "n + 8 \<notin> set (g # fs)"
    using rk g \<open>hs + 8 \<le> f\<close> n(2) unfolding rings_ok_def by auto
  have out2: "n + 8 \<notin> set (hs # ?xs)" using layout_after(4) [OF lyn] by simp
  have rk2: "rings_ok ?h g hs ?xs (insert n ?F) ((n + 8) # fs)" by (rule rings_add_free(1) [OF rk1 out out2])
  have n2: "nxt ?h z = nxt ?h1 z" if "z \<in> set (hs # ?xs)" for z
    using rings_add_free(2) [OF rk1 out out2] rings_sep [OF rk1 that] that out2 by metis
  have "{x \<in> set ?xs. even (nxt ?h x)} = {x \<in> set ?xs. even (nxt ?h1 x)}"
    by (intro Collect_cong conj_cong refl) (simp add: n2)
  moreover have "n \<in> {x \<in> set ?xs. even (nxt ?h1 x)}" "n \<noteq> f" using ev nout by (auto simp: n1)
  ultimately have "insert n ?F = {x \<in> set ?xs. even (nxt ?h x)} - {f}" unfolding F1 by blast
  moreover have "hs \<noteq> f" "hs \<noteq> n" using \<open>hs + 8 \<le> f\<close> n(2) by auto
  ultimately show "pending f ?h g hs e ?xs ((n + 8) # fs)"
    using p rk2 lyn odd n2 [of hs] n2 [of f] en unfolding pending_def by (simp add: n1)
  show "nxt ?h f = n" using n2 by (simp add: n1)
  show "used ?h hs e ?xs = used h hs e xs"
  proof (rule used_cong)
    fix x
    assume "x \<in> set xs" "odd (nxt h x)"
    then have "x \<noteq> f" "x \<noteq> n" "x \<in> set xs" using ev nout xs by auto
    then show "x \<in> set ?xs \<and> nxt ?h x = nxt h x" using n2 [of x] by (simp add: n1 xs)
  next
    fix x
    assume x: "x \<in> set ?xs" "odd (nxt ?h x)"
    then have "odd (nxt ?h1 x)" using n2 by simp
    then have "x \<noteq> f" "x \<noteq> n" using en ev by (auto simp: n1 split: if_splits)
    then show "x \<in> set xs \<and> nxt ?h x = nxt h x" using x(1) n2 [of x] by (auto simp: n1 xs)
  qed
qed

lemma pending_set_using:
  assumes "pending f h g hs e xs fs"
  shows "frags_ok (set_using f h) g hs e xs fs"
    "used (set_using f h) hs e xs = (used h hs e xs)(f \<mapsto> endof h hs e f)"
proof -
  let ?h = "set_using f h" and ?F = "{x \<in> set xs. even (nxt h x)} - {f}"
  have rk: "rings_ok h g hs xs ?F fs" and f: "f \<in> set xs" "even (nxt h f)" and ly: "layout hs e xs"
    using assms unfolding pending_def by blast+
  have n: "nxt ?h z = (if z = f then nxt h f + 1 else nxt h z)" "prv ?h = prv h" for z
    using f(2) by (simp_all add: set_using_def or_Suc_0_eq)
  have "rings_ok ?h g hs xs ?F fs"
    by (rule rings_flag [OF rk, of f]) (use f in \<open>simp_all add: n\<close>)
  moreover have "?F = {x \<in> set xs. even (nxt ?h x)}" using f by (auto simp: n)
  ultimately show "frags_ok ?h g hs e xs fs"
    using assms layout_after(5) [OF ly f(1)] unfolding frags_ok_def pending_def by (simp add: n)
  show "used ?h hs e xs = (used h hs e xs)(f \<mapsto> endof h hs e f)"
    using f by (auto simp: used_def endof_def n fun_eq_iff ut_def)
qed

lemma take_free:
  assumes "frags_ok h g hs e xs fs" "f \<in> set xs" "even (nxt h f)"
  shows "pending f (frag_remove (f + 8) h) g hs e xs (remove1 (f + 8) fs)"
    "used (frag_remove (f + 8) h) hs e xs = used h hs e xs"
    "z \<in> set (hs # xs) \<Longrightarrow> nxt (frag_remove (f + 8) h) z = nxt h z"
proof -
  let ?h = "frag_remove (f + 8) h" and ?F = "{x \<in> set xs. even (nxt h x)}"
  have rk: "rings_ok h g hs xs ?F fs" and f: "f \<in> ?F"
    using assms unfolding frags_ok_def by blast+
  show n: "nxt ?h z = nxt h z" if "z \<in> set (hs # xs)" for z
    using rings_remove_free(2) [OF rk f] rings_sep [OF rk that] by blast
  have "rings_ok ?h g hs xs (?F - {f}) (remove1 (f + 8) fs)" by (rule rings_remove_free(1) [OF rk f])
  moreover have "?F = {x \<in> set xs. even (nxt ?h x)}" by (intro Collect_cong conj_cong refl) (simp add: n)
  ultimately show "pending f ?h g hs e xs (remove1 (f + 8) fs)"
    using assms n unfolding frags_ok_def pending_def by simp
  show "used ?h hs e xs = used h hs e xs" by (rule used_cong) (use n in auto)
qed

subsection \<open>The operations on the heap\<close>

definition heap_ok :: "heap_t \<Rightarrow> nat list \<Rightarrow> nat list \<Rightarrow> bool" where
  "heap_ok s xs fs \<longleftrightarrow>
    frags_ok (lk s) (free_fragments s) (heap_start s) (heap_end s) xs fs \<and> heap_end s < 2 ^ 32"

definition used_of :: "heap_t \<Rightarrow> nat list \<Rightarrow> nat \<Rightarrow> nat option" where
  "used_of s xs = used (lk s) (heap_start s) (heap_end s) xs"

definition room :: "heap_t \<Rightarrow> nat \<Rightarrow> nat" where
  "room s f = endof (lk s) (heap_start s) (heap_end s) f - (f + 8)"

lemma and_7_nat: "n AND 7 = n mod 8" for n :: nat
  using take_bit_eq_mask [of 3 n] by (simp add: mask_eq_exp_minus_1 take_bit_eq_mod)

lemma frags_end:
  assumes "frags_ok h g hs e xs fs" "xs = as @ f # bs"
  shows "endof h hs e f = hd (bs @ [e])" "f + 16 \<le> endof h hs e f" "endof h hs e f \<le> e"
proof -
  have ly: "layout hs e xs" and r: "ring (untag h) hs (as @ f # bs)"
    using assms unfolding frags_ok_def rings_ok_def by blast+
  have n: "ut (nxt h f) = hd (bs @ [hs])" using ring_ends(1) [OF r] by simp
  have "hs \<notin> set bs" using r by (simp add: ring_def)
  then show en: "endof h hs e f = hd (bs @ [e])" by (cases bs) (auto simp: endof_def n)
  show "f + 16 \<le> endof h hs e f" "endof h hs e f \<le> e"
    using ly unfolding en layout_def assms(2) by (cases bs; auto simp: sorted_wrt_append)+
qed

lemma free_ok:
  assumes "heap_ok s xs fs" "used_of s xs f = Some b"
  shows "\<exists>xs' fs'. heap_ok (free (f + 8) s) xs' fs' \<and>
    used_of (free (f + 8) s) xs' = (used_of s xs)(f := None) \<and>
    (\<exists>x \<in> set xs'. even (nxt (lk (free (f + 8) s)) x) \<and> b - (f + 8) \<le> room (free (f + 8) s) x) \<and>
    heap_start (free (f + 8) s) = heap_start s \<and> heap_end (free (f + 8) s) = heap_end s \<and>
    free_fragments (free (f + 8) s) = free_fragments s"
proof -
  let ?h = "lk s" and ?g = "free_fragments s" and ?hs = "heap_start s" and ?e = "heap_end s"
  have fk: "frags_ok ?h ?g ?hs ?e xs fs" and ly: "layout ?hs ?e xs" and e: "?e < 2 ^ 32"
    using assms(1) unfolding heap_ok_def frags_ok_def by blast+
  have f: "f \<in> set xs" "odd (nxt ?h f)" and b: "b = endof ?h ?hs ?e f"
    using assms(2) by (auto simp: used_of_def used_def split: if_splits)
  let ?h1 = "unset_using f ?h"
  let ?h2 = "merge_next f ?h1"
  let ?h3 = "merge_prev ?g f ?h2"
  have "8 dvd f + 8" "?hs + 16 \<le> f + 8" "f + 8 < ?e" "0 < ?e"
    using layout_after [OF ly f(1)] by auto
  then have fr: "free (f + 8) s = s\<lparr>lk := ?h3\<rparr>"
    using f(2) by (auto simp: free_def Let_def and_7_nat is_using_odd)
  have b1: "endof ?h1 ?hs ?e f = b" by (simp add: b endof_def unset_using_def flip: ut_def)
  obtain xs2 fs2 where p2: "pending f ?h2 ?g ?hs ?e xs2 fs2"
      "used ?h2 ?hs ?e xs2 = used ?h1 ?hs ?e xs" "b \<le> endof ?h2 ?hs ?e f"
    using pending_merge_next [OF unset_ok(1) [OF fk f]] b1 by metis
  obtain xs3 fs3 x where p3: "frags_ok ?h3 ?g ?hs ?e xs3 fs3" "used ?h3 ?hs ?e xs3 = used ?h2 ?hs ?e xs2"
      "x \<in> set xs3" "even (nxt ?h3 x)" "x \<le> f" "endof ?h3 ?hs ?e x = endof ?h2 ?hs ?e f"
    using pending_merge_prev [OF p2(1)] by blast
  have "heap_ok (free (f + 8) s) xs3 fs3" using p3(1) e by (simp add: heap_ok_def fr)
  moreover have "used_of (free (f + 8) s) xs3 = (used_of s xs)(f := None)"
    using p3(2) p2(2) unset_ok(2) [OF fk f] by (simp add: used_of_def fr)
  moreover have "b - (f + 8) \<le> room (free (f + 8) s) x" using p3(5,6) p2(3) by (simp add: room_def fr)
  ultimately show ?thesis using p3(3,4) fr by auto
qed

lemma unat_of_nat_small: "m < 2 ^ 32 \<Longrightarrow> unat (of_nat m :: u32) = m"
  by (simp add: unsigned_of_nat take_bit_nat_eq_self)

lemma unat_diff_nat: "b \<le> a \<Longrightarrow> a < 2 ^ 32 \<Longrightarrow> unat (of_nat a - of_nat b :: u32) = a - b"
  by (simp add: unat_sub_no_wrap unsigned_of_nat take_bit_nat_eq_self)

lemma space_room:
  assumes "heap_ok s xs fs" "f \<in> set xs" "even (nxt (lk s) f)"
  shows "unat (space_of f s) = room s f" "f + 8 + room s f = endof (lk s) (heap_start s) (heap_end s) f"
proof -
  obtain as bs where xs: "xs = as @ f # bs" using assms(2) by (meson split_list)
  have e: "heap_end s < 2 ^ 32" and fk: "frags_ok (lk s) (free_fragments s) (heap_start s) (heap_end s) xs fs"
    using assms(1) unfolding heap_ok_def by blast+
  note en = frags_end(2,3) [OF fk xs]
  show "f + 8 + room s f = endof (lk s) (heap_start s) (heap_end s) f" using en(1) by (simp add: room_def)
  have "space_of f s = of_nat (endof (lk s) (heap_start s) (heap_end s) f) - of_nat (f + 8)"
    using assms(3) by (simp add: space_of_def endof_def)
  then show "unat (space_of f s) = room s f"
    using unat_diff_nat [of "f + 8" "endof (lk s) (heap_start s) (heap_end s) f"] en e by (simp add: room_def)
qed

text \<open>A free fragment with enough room is cut and handed out.\<close>

lemma take_fragment_ok:
  assumes ok: "heap_ok s xs fs" and f: "f \<in> set xs" "even (nxt (lk s) f)"
    and sz: "8 dvd unat sz" "8 \<le> unat sz" "unat sz \<le> room s f"
  shows "\<exists>xs' fs' b. heap_ok (take_fragment sz (f + 8) s) xs' fs' \<and>
    used_of (take_fragment sz (f + 8) s) xs' = (used_of s xs)(f \<mapsto> b) \<and> f + 8 + unat sz \<le> b"
proof -
  let ?h = "lk s" and ?g = "free_fragments s" and ?hs = "heap_start s" and ?e = "heap_end s"
  let ?h1 = "frag_remove (f + 8) ?h"
  have fk: "frags_ok ?h ?g ?hs ?e xs fs" and ly: "layout ?hs ?e xs" and e: "?e < 2 ^ 32"
    using ok unfolding heap_ok_def frags_ok_def by blast+
  note t = take_free [OF fk f]
  note sp = space_room [OF ok f]
  have fin: "heap_ok (s\<lparr>lk := set_using f h\<rparr>) xs' fs' \<and>
      used_of (s\<lparr>lk := set_using f h\<rparr>) xs' = (used_of s xs)(f \<mapsto> endof h ?hs ?e f)"
    if "pending f h ?g ?hs ?e xs' fs'" "used h ?hs ?e xs' = used ?h ?hs ?e xs" for h xs' fs'
    using pending_set_using [OF that(1)] that(2) e by (simp add: heap_ok_def used_of_def)
  have le: "sz \<le> space_of f s" using sz(3) sp(1) by (simp add: word_le_nat_alt)
  show ?thesis
  proof (cases "MIN_SIZE * 2 \<le> space_of f s - sz")
    case False
    then have "take_fragment sz (f + 8) s = s\<lparr>lk := set_using f ?h1\<rparr>"
      by (simp add: take_fragment_def Let_def)
    moreover have "endof ?h1 ?hs ?e f = endof ?h ?hs ?e f" using t(3) f by (simp add: endof_def)
    ultimately show ?thesis using fin [OF t(1,2)] sz(3) sp(2) by (metis add_left_mono)
  next
    case True
    let ?n = "f + 8 + unat sz"
    let ?h2 = "frag_insert ?g (?n + 8) (frag_insert f ?n ?h1)"
    from True have "take_fragment sz (f + 8) s = s\<lparr>lk := set_using f ?h2\<rparr>"
      by (simp add: take_fragment_def Let_def)
    moreover obtain as bs where xs: "xs = as @ f # bs" using f(1) by (meson split_list)
    have "16 \<le> unat (space_of f s - sz)" using True by (simp add: word_le_nat_alt)
    then have "16 \<le> room s f - unat sz" using le sp(1) by (simp add: unat_sub)
    then have nn: "?n + 16 \<le> hd (bs @ [?e])" using sp(2) frags_end(1) [OF fk xs] by simp
    have n8: "8 dvd ?n" using layout_after(3) [OF ly f(1)] sz(1) by simp
    have nf: "f + 16 \<le> ?n" using sz(2) by simp
    note p = pending_split [OF t(1) xs n8 nf nn]
    have "even ?n" using n8 by (meson dvd_trans even_numeral)
    moreover have "?n \<noteq> ?hs" using layout_after(1) [OF ly f(1)] by simp
    ultimately have "endof ?h2 ?hs ?e f = ?n" using p(3) by (simp add: endof_def)
    then show ?thesis using fin [OF p(1)] p(2) t(2) \<open>take_fragment sz (f + 8) s = _\<close> by (metis order_refl)
  qed
qed

lemma take_fragment_fields [simp]:
  "heap_start (take_fragment sz p s) = heap_start s" "heap_end (take_fragment sz p s) = heap_end s"
  "free_fragments (take_fragment sz p s) = free_fragments s"
  by (simp_all add: take_fragment_def Let_def)

text \<open>The search for a fragment ends, and fails only if no free fragment has the room.\<close>

lemma find_from_walks:
  assumes "heap_ok s xs (as @ bs)" "p = hd (bs @ [free_fragments s])"
    "\<forall>y \<in> set as. room s (y - 8) < unat sz"
  shows "find_from sz p s = Some (None, s) \<and> (\<forall>y \<in> set (as @ bs). room s (y - 8) < unat sz) \<or>
    (\<exists>f \<in> set xs. even (nxt (lk s) f) \<and> unat sz \<le> room s f \<and>
       find_from sz p s = Some (Some (f + 8), take_fragment sz (f + 8) s))"
  using assms
proof (induction bs arbitrary: as p)
  case Nil
  then show ?case by (subst find_from.simps) simp
next
  case (Cons y bs)
  have r: "ring (lk s) (free_fragments s) (as @ y # bs)"
    and fs: "set (as @ y # bs) = (\<lambda>x. x + 8) ` {x \<in> set xs. even (nxt (lk s) x)}"
    using Cons.prems(1) unfolding heap_ok_def frags_ok_def rings_ok_def by blast+
  have "y \<in> set (as @ y # bs)" by simp
  then obtain f where f: "y = f + 8" "f \<in> set xs" "even (nxt (lk s) f)" unfolding fs by blast
  have y: "p = y" "y \<noteq> free_fragments s" using Cons.prems(2) r by (auto simp: ring_def)
  note sp = space_room(1) [OF Cons.prems(1) f(2,3)]
  show ?case
  proof (cases "space_of f s < sz")
    case True
    then have "find_from sz p s = find_from sz (hd (bs @ [free_fragments s])) s"
      using y f(1) ring_ends(1) [OF r] by (subst find_from.simps) simp
    moreover have "\<forall>y \<in> set (as @ [y]). room s (y - 8) < unat sz"
      using Cons.prems(3) True sp f(1) by (auto simp: word_less_nat_alt)
    ultimately show ?thesis using Cons.IH [of "as @ [y]" "hd (bs @ [free_fragments s])"] Cons.prems(1) by simp
  next
    case False
    then have "find_from sz p s = Some (Some y, take_fragment sz y s)"
      using y f(1) by (subst find_from.simps) simp
    moreover have "unat sz \<le> room s f" using False sp by (simp add: word_less_nat_alt)
    ultimately show ?thesis using f by blast
  qed
qed

lemma find_cases:
  assumes "heap_ok s xs fs"
  obtains "find_c sz s = Some (None, s)" "\<forall>f \<in> set xs. even (nxt (lk s) f) \<longrightarrow> room s f < unat sz"
  | f where "f \<in> set xs" "even (nxt (lk s) f)" "unat sz \<le> room s f"
      "find_c sz s = Some (Some (f + 8), take_fragment sz (f + 8) s)"
proof -
  have fs: "set fs = (\<lambda>x. x + 8) ` {x \<in> set xs. even (nxt (lk s) x)}"
    and r: "ring (lk s) (free_fragments s) fs"
    using assms unfolding heap_ok_def frags_ok_def rings_ok_def by blast+
  have listed: "f + 8 \<in> set fs" if "f \<in> set xs" "even (nxt (lk s) f)" for f
    using that unfolding fs by blast
  have "find_c sz s = Some (None, s) \<and> (\<forall>y \<in> set fs. room s (y - 8) < unat sz) \<or>
    (\<exists>f \<in> set xs. even (nxt (lk s) f) \<and> unat sz \<le> room s f \<and>
       find_c sz s = Some (Some (f + 8), take_fragment sz (f + 8) s))"
    using find_from_walks [of s xs "[]" fs "nxt (lk s) (free_fragments s)" sz] assms ring_next [OF r]
    by (simp add: find_c_def)
  then show thesis
  proof (elim disjE conjE bexE)
    assume a: "find_c sz s = Some (None, s)" "\<forall>y \<in> set fs. room s (y - 8) < unat sz"
    have "room s f < unat sz" if "f \<in> set xs" "even (nxt (lk s) f)" for f
      using bspec [OF a(2) listed [OF that]] by simp
    then show thesis using a(1) that(1) by blast
  qed (use that(2) in blast)
qed

lemma expand_ok:
  assumes ok: "heap_ok s xs fs" and need: "unat sz + 8 \<le> unat (pageRoundUp (8 + sz))"
      "8 dvd unat (pageRoundUp (8 + sz))" "8 \<le> unat sz"
    and end': "heap_end s + unat (pageRoundUp (8 + sz)) < 2 ^ 32"
    and g: "sbrk (heap_end s) (pageRoundUp (8 + sz))"
  shows "\<exists>s' xs' fs'. expand sbrk sz s = Some s' \<and> heap_ok s' xs' fs' \<and> used_of s' xs' = used_of s xs \<and>
    (\<exists>x \<in> set xs'. even (nxt (lk s') x) \<and> unat sz \<le> room s' x) \<and>
    heap_start s' = heap_start s \<and> heap_end s' = heap_end s + unat (pageRoundUp (8 + sz)) \<and>
    free_fragments s' = free_fragments s"
proof -
  let ?h = "lk s" and ?g = "free_fragments s" and ?hs = "heap_start s" and ?e = "heap_end s"
  define e' where "e' = ?e + unat (pageRoundUp (8 + sz))"
  define l where "l = last xs"
  define h1 where "h1 = set_nxt l (?e OR (nxt ?h l AND 1)) (set_prv ?hs ?e (set_prv ?e l (set_nxt ?e (?hs OR 1) ?h)))"
  let ?s1 = "s\<lparr>heap_end := e', lk := h1\<rparr>"
  have fk: "frags_ok ?h ?g ?hs ?e xs fs" and rk: "rings_ok ?h ?g ?hs xs {x \<in> set xs. even (nxt ?h x)} fs"
    and ly: "layout ?hs ?e xs" and odd: "odd (nxt ?h ?hs)" and gg: "?g + 8 \<le> ?hs" "8 dvd ?g"
    using ok unfolding heap_ok_def frags_ok_def by blast+
  have r: "ring (untag ?h) ?hs xs" using rk unfolding rings_ok_def by blast
  have ne: "xs \<noteq> []" using ly by (simp add: layout_def)
  have l: "l \<in> set xs" "prv ?h ?hs = l" using ne ring_prev [OF r] by (auto simp: l_def)
  have eout: "?e \<notin> set (?hs # xs)" using layout_after(2) [OF ly] layout_after(1) [OF ly l(1)] l by force
  have ev: "even ?e" "even ?hs" using ly unfolding layout_def by (auto dest: dvd_trans [OF even_numeral])
  have par: "?e OR n mod 2 = ?e + n mod 2" for n :: nat
    using ev(1) by (auto simp: or_Suc_0_eq mod2_eq_if)
  have nx: "nxt h1 z = (if z = l then ?e + nxt ?h l mod 2 else if z = ?e then ?hs + 1 else nxt ?h z)"
    "prv h1 z = (if z = ?hs then ?e else if z = ?e then l else prv ?h z)" for z
    using ev eout l(1) by (auto simp: h1_def par or_Suc_0_eq and_one_eq)
  have exp: "expand sbrk sz s = Some (free (?e + 8) ?s1)"
    using g l eout by (auto simp: expand_def block_append_def Let_def h1_def e'_def)
  have efree: "?e \<notin> set (?g # fs)"
  proof -
    have "?e \<noteq> x + 8" if "x \<in> set xs" for x using layout_after(2) [OF ly that] by linarith
    moreover have "set fs = (\<lambda>x. x + 8) ` {x \<in> set xs. even (nxt ?h x)}" using rk unfolding rings_ok_def by blast
    moreover have "?e \<noteq> ?g" using gg layout_after(1,2) [OF ly l(1)] by linarith
    ultimately show ?thesis by auto
  qed
  have "untag h1 = list_append ?hs ?e (untag ?h)"
    using ev eout l by (auto simp: list_append_def Let_def untag_def nx fun_eq_iff ut_def intro!: links.equality)
  then have r1: "ring (untag h1) ?hs (xs @ [?e])" using ring_append [OF r eout] by simp
  have fr1: "ring h1 ?g fs"
    by (rule free_frame [OF rk _ efree]) (use l(1) in \<open>auto simp: nx\<close>)
  have F: "{x \<in> set (xs @ [?e]). even (nxt h1 x)} = {x \<in> set xs. even (nxt ?h x)}"
    using ev eout l(1) by (auto simp: nx)
  have ly1: "layout ?hs e' (xs @ [?e])"
    using ly need unfolding layout_def e'_def by (auto simp: sorted_wrt_append)
  have sep: "\<forall>y \<in> set (?g # fs). y \<notin> set (?hs # xs @ [?e])" using efree rings_sep [OF rk] by auto
  have "rings_ok h1 ?g ?hs (xs @ [?e]) {x \<in> set xs. even (nxt ?h x)} fs"
    using r1 fr1 sep rk unfolding rings_ok_def by blast
  moreover have "odd (nxt h1 ?hs)" using odd eout layout_after(5) [OF ly l(1)] by (auto simp: nx)
  ultimately have fk1: "frags_ok h1 ?g ?hs e' (xs @ [?e]) fs" using ly1 gg unfolding frags_ok_def F by blast
  then have ok1: "heap_ok ?s1 (xs @ [?e]) fs" using end' by (simp add: heap_ok_def e'_def)
  have "used_of ?s1 (xs @ [?e]) x = ((used_of s xs)(?e \<mapsto> e')) x" for x
  proof (cases "x \<in> set xs")
    case True
    then obtain as bs where xs: "xs = as @ x # bs" by (meson split_list)
    have "endof h1 ?hs e' x = endof ?h ?hs ?e x"
      using frags_end(1) [OF fk xs] frags_end(1) [OF fk1, of as x "bs @ [?e]"] xs by (simp add: hd_append)
    moreover have "even (nxt h1 x) = even (nxt ?h x)" using True eout ev by (auto simp: nx)
    moreover have "x \<noteq> ?e" using True eout by auto
    ultimately show ?thesis using True by (simp add: used_of_def used_def)
  next
    case False
    then show ?thesis using ev l(1) eout by (auto simp: used_of_def used_def endof_def nx ut_def)
  qed
  then have u1: "used_of ?s1 (xs @ [?e]) = (used_of s xs)(?e \<mapsto> e')" by blast
  then have "used_of ?s1 (xs @ [?e]) ?e = Some e'" by simp
  from free_ok [OF ok1 this] obtain xs' fs' x where t: "heap_ok (free (?e + 8) ?s1) xs' fs'"
    "used_of (free (?e + 8) ?s1) xs' = (used_of ?s1 (xs @ [?e]))(?e := None)"
    "x \<in> set xs'" "even (nxt (lk (free (?e + 8) ?s1)) x)" "e' - (?e + 8) \<le> room (free (?e + 8) ?s1) x"
    "heap_start (free (?e + 8) ?s1) = ?hs" "heap_end (free (?e + 8) ?s1) = e'" "free_fragments (free (?e + 8) ?s1) = ?g"
    by auto
  have "unat sz \<le> e' - (?e + 8)" using need(1) by (simp add: e'_def)
  then have "unat sz \<le> room (free (?e + 8) ?s1) x" using t(5) by linarith
  moreover have "used_of s xs ?e = None" using eout by (simp add: used_of_def used_def)
  then have "used_of (free (?e + 8) ?s1) xs' = used_of s xs" unfolding t(2) u1 by (simp add: fun_upd_idem)
  ultimately show ?thesis using exp t(1,3,4,6,7,8) unfolding e'_def by blast
qed

subsection \<open>Rounding\<close>

lemma and_not_mask: "unat (w AND NOT (mask k)) = unat w - unat w mod 2 ^ k" for w :: u32
proof -
  have "(w AND mask k) + (w AND NOT (mask k)) = (w AND mask k) OR (w AND NOT (mask k))"
    by (rule disjunctive_add) (simp add: bit_and_iff bit_not_iff)
  also have "\<dots> = w" by (rule bit_word_eqI) (auto simp: bit_and_iff bit_or_iff bit_not_iff)
  finally have "w AND NOT (mask k) = w - (w AND mask k)" by (metis add_diff_cancel_left')
  moreover have u: "unat (w AND mask k) = unat w mod 2 ^ k"
    unfolding take_bit_eq_mask [symmetric] unsigned_take_bit_eq by (rule take_bit_eq_mod)
  ultimately show ?thesis using unat_sub_no_wrap [of "w AND mask k" w] by simp
qed

lemma mod_round: "n \<le> (n + k - 1) - (n + k - 1) mod k \<and> k dvd (n + k - 1) - (n + k - 1) mod k" if "0 < k" for n k :: nat
proof -
  have "(n + k - 1) mod k \<le> k - 1" using that by (simp add: less_Suc_eq_le [symmetric] Suc_diff_1)
  then have "n \<le> (n + k - 1) - (n + k - 1) mod k" using that by linarith
  then show ?thesis by (simp add: minus_mod_eq_mult_div)
qed

definition rounded :: "u32 \<Rightarrow> u32" where
  "rounded sz = (if sz < MIN_SIZE then MIN_SIZE else roundUp sz MIN_SIZE)"

lemma unat_roundUp8:
  assumes "unat sz \<le> 2 ^ 32 - 8"
  shows "unat (roundUp sz 8) = (unat sz + 8 - 1) - (unat sz + 8 - 1) mod 8"
proof -
  have "unat (sz + 7) = unat sz + 7" using assms by (subst unat_add_no_wrap) auto
  then show ?thesis
    using and_not_mask [of "sz + 7" 3] by (simp add: roundUp_def mask_eq_exp_minus_1 add.commute)
qed

lemma rounded_size:
  assumes "0 < unat sz" "unat sz \<le> 2 ^ 32 - 8"
  shows "8 dvd unat (rounded sz)" "8 \<le> unat (rounded sz)" "unat sz \<le> unat (rounded sz)" "unat (rounded sz) \<le> unat sz + 7"
proof -
  note r = unat_roundUp8 [OF assms(2)]
  have c: "sz < 8 \<longleftrightarrow> unat sz < 8" by (simp add: word_less_nat_alt)
  show "8 dvd unat (rounded sz)" "unat sz \<le> unat (rounded sz)" "unat (rounded sz) \<le> unat sz + 7"
    "8 \<le> unat (rounded sz)"
    using mod_round [of 8 "unat sz"] assms(1) unfolding rounded_def c by (auto simp: r simp del: One_nat_def)
qed

lemma page_rounded:
  assumes "unat v \<le> 0xfffff000"
  shows "unat v \<le> unat (pageRoundUp v)" "4096 dvd unat (pageRoundUp v)"
proof -
  have "v + 4096 - 1 = v + 4095" by simp
  moreover have "unat (v + 4095) = unat v + 4096 - 1" using assms by (subst unat_add_no_wrap) auto
  moreover have "(0xfffff000 :: u32) = NOT (mask 12)" by (simp add: mask_eq_exp_minus_1)
  ultimately have "unat (pageRoundUp v) = (unat v + 4096 - 1) - (unat v + 4096 - 1) mod 4096"
    using and_not_mask [of "v + 4095" 12] by (simp add: pageRoundUp_def add.commute)
  then show "unat v \<le> unat (pageRoundUp v)" "4096 dvd unat (pageRoundUp v)"
    using mod_round [of 4096 "unat v"] by simp_all
qed

subsection \<open>Allocation\<close>

text \<open>
  The largest request for which neither the rounding of the size nor that of the extension of the heap
  wraps around.
\<close>

definition MAX_REQUEST :: nat where "MAX_REQUEST = 0xfffff000 - 8"

lemma malloc_rounded: "sz \<noteq> 0 \<Longrightarrow> malloc sbrk sz s = malloc_loop sbrk (rounded sz) s"
  by (simp add: malloc_def rounded_def)

lemma take_found:
  assumes "heap_ok s xs fs" "f \<in> set xs" "even (nxt (lk s) f)" "8 dvd unat n" "8 \<le> unat n" "unat n \<le> room s f"
  shows "\<exists>s' xs' fs' b. take_fragment n (f + 8) s = s' \<and> heap_ok s' xs' fs' \<and> used_of s xs f = None \<and>
    used_of s' xs' = (used_of s xs)(f \<mapsto> b) \<and> f + 8 + unat n \<le> b"
  using take_fragment_ok [OF assms] assms(3) by (auto simp: used_of_def used_def)

definition outcome :: "(nat \<Rightarrow> u32 \<Rightarrow> bool) \<Rightarrow> u32 \<Rightarrow> heap_t \<Rightarrow> nat list \<Rightarrow> nat option \<Rightarrow> heap_t \<Rightarrow> nat list \<Rightarrow> bool" where
  "outcome sbrk sz s xs r s' xs' \<longleftrightarrow>
    (case r of
       None \<Rightarrow> used_of s' xs' = used_of s xs \<and> heap_errno s' = ENOMEM \<and>
         \<not> sbrk (heap_end s) (pageRoundUp (8 + rounded sz))
     | Some p \<Rightarrow> \<exists>f b. p = f + 8 \<and> used_of s xs f = None \<and> used_of s' xs' = (used_of s xs)(f \<mapsto> b) \<and>
         p + unat sz \<le> b)"

lemma malloc_ok:
  assumes ok: "heap_ok s xs fs" and sz: "0 < unat sz" "unat sz \<le> MAX_REQUEST"
    and sbrk: "\<And>e n. sbrk e n \<Longrightarrow> e + unat n < 2 ^ 32"
  shows "\<exists>r s' xs' fs'. malloc sbrk sz s = Some (r, s') \<and> heap_ok s' xs' fs' \<and> outcome sbrk sz s xs r s' xs'"
proof -
  let ?n = "rounded sz"
  have n: "8 dvd unat ?n" "8 \<le> unat ?n" "unat sz \<le> unat ?n" "unat ?n \<le> unat sz + 7"
    using rounded_size [of sz] sz by (auto simp: MAX_REQUEST_def)
  have mx: "unat ?n \<le> MAX_REQUEST" using n(1,4) sz(2) by (auto simp: MAX_REQUEST_def elim!: dvdE)
  have nz: "sz \<noteq> 0" using sz(1) by auto
  have "heap_end s \<noteq> 0" using ok unfolding heap_ok_def frags_ok_def layout_def by (auto simp: sorted_wrt_append neq_Nil_conv)
  from ok show ?thesis
  proof (cases rule: find_cases [where sz = ?n])
    case (2 f)
    obtain s' xs' fs' b where t: "take_fragment ?n (f + 8) s = s'" "heap_ok s' xs' fs'" "used_of s xs f = None"
        "used_of s' xs' = (used_of s xs)(f \<mapsto> b)" "f + 8 + unat ?n \<le> b"
      using take_found [OF ok 2(1,2) n(1,2) 2(3)] by blast
    have "malloc sbrk sz s = Some (Some (f + 8), s')"
      unfolding malloc_rounded [OF nz] using 2(4) t(1) by (subst malloc_loop.simps) simp
    moreover have "outcome sbrk sz s xs (Some (f + 8)) s' xs'" using t(3-5) n(3) by (auto simp: outcome_def)
    ultimately show ?thesis using t(2) by blast
  next
    case 1
    show ?thesis
    proof (cases "sbrk (heap_end s) (pageRoundUp (8 + ?n))")
      case False
      then have "malloc sbrk sz s = Some (None, s\<lparr>heap_errno := ENOMEM\<rparr>)"
        unfolding malloc_rounded [OF nz] using 1(1) by (subst malloc_loop.simps) (simp add: expand_def Let_def)
      moreover have "heap_ok (s\<lparr>heap_errno := ENOMEM\<rparr>) xs fs" "used_of (s\<lparr>heap_errno := ENOMEM\<rparr>) xs = used_of s xs"
        using ok by (simp_all add: heap_ok_def used_of_def)
      moreover from this have "outcome sbrk sz s xs None (s\<lparr>heap_errno := ENOMEM\<rparr>) xs"
        using False by (simp add: outcome_def)
      ultimately show ?thesis by blast
    next
      case True
      have v: "unat (8 + ?n) = 8 + unat ?n" using mx by (subst unat_add_no_wrap) (auto simp: MAX_REQUEST_def)
      then have "unat (8 + ?n) \<le> 0xfffff000" using mx by (simp add: MAX_REQUEST_def)
      note pg = page_rounded [OF this]
      have "8 dvd unat (pageRoundUp (8 + ?n))" using pg(2) by (rule dvd_trans [rotated]) simp
      then obtain s1 xs1 fs1 x where e: "expand sbrk ?n s = Some s1" "heap_ok s1 xs1 fs1" "used_of s1 xs1 = used_of s xs"
          "x \<in> set xs1" "even (nxt (lk s1) x)" "unat ?n \<le> room s1 x"
        using expand_ok [OF ok, of ?n sbrk] pg(1) v n(2) sbrk [OF True] True by auto
      have m: "malloc sbrk sz s = malloc_loop sbrk ?n s1"
        unfolding malloc_rounded [OF nz] using 1(1) e(1) \<open>heap_end s \<noteq> 0\<close> by (subst malloc_loop.simps) simp
      from e(2) show ?thesis
      proof (cases rule: find_cases [where sz = ?n])
        case 1
        then show ?thesis using e(4,5,6) by force
      next
        case (2 f)
        obtain s' xs' fs' b where t: "take_fragment ?n (f + 8) s1 = s'" "heap_ok s' xs' fs'" "used_of s1 xs1 f = None"
            "used_of s' xs' = (used_of s1 xs1)(f \<mapsto> b)" "f + 8 + unat ?n \<le> b"
          using take_found [OF e(2) 2(1,2) n(1,2) 2(3)] by blast
        have "malloc sbrk sz s = Some (Some (f + 8), s')"
          unfolding m using 2(4) t(1) by (subst malloc_loop.simps) simp
        moreover have "outcome sbrk sz s xs (Some (f + 8)) s' xs'" using t(3-5) n(3) e(3) by (auto simp: outcome_def)
        ultimately show ?thesis using t(2) by blast
      qed
    qed
  qed
qed

subsection \<open>Histories of the heap\<close>

text \<open>
  The states that \<^verbatim>\<open>__malloc_initialize\<close>, calls of \<^verbatim>\<open>malloc\<close> and calls of \<^verbatim>\<open>free\<close> with
  pointers that were handed out lead to, with the blocks the program holds and the sizes it
  asked for, none of them greater than \<open>mx\<close>.
\<close>

inductive heap_run :: "(nat \<Rightarrow> u32 \<Rightarrow> bool) \<Rightarrow> nat \<Rightarrow> heap_t \<Rightarrow> (nat \<Rightarrow> u32 option) \<Rightarrow> bool" for sbrk mx where
  start: "8 dvd a \<Longrightarrow> 8 dvd free_fragments s \<Longrightarrow> free_fragments s + 8 \<le> a \<Longrightarrow> a + INITIAL_SIZE < 2 ^ 32 \<Longrightarrow>
    heap_run sbrk mx (malloc_initialize (Some a) s) (\<lambda>_. None)"
| malloc: "heap_run sbrk mx s live \<Longrightarrow> unat n \<le> mx \<Longrightarrow> malloc sbrk n s = Some (Some p, s') \<Longrightarrow>
    heap_run sbrk mx s' (live(p \<mapsto> n))"
| malloc_null: "heap_run sbrk mx s live \<Longrightarrow> unat n \<le> mx \<Longrightarrow> malloc sbrk n s = Some (None, s') \<Longrightarrow>
    heap_run sbrk mx s' live"
| free: "heap_run sbrk mx s live \<Longrightarrow> live p \<noteq> None \<Longrightarrow> heap_run sbrk mx (free p s) (live(p := None))"

definition holds :: "heap_t \<Rightarrow> nat list \<Rightarrow> (nat \<Rightarrow> u32 option) \<Rightarrow> bool" where
  "holds s xs live \<longleftrightarrow>
    (\<forall>p n. live p = Some n \<longrightarrow> 8 \<le> p \<and> (\<exists>b. used_of s xs (p - 8) = Some b \<and> p + unat n \<le> b)) \<and>
    (\<forall>f. used_of s xs f \<noteq> None \<longrightarrow> live (f + 8) \<noteq> None)"

lemma initialize_ok:
  assumes "8 dvd a" "8 dvd free_fragments s" "free_fragments s + 8 \<le> a" "a + INITIAL_SIZE < 2 ^ 32"
  shows "heap_ok (malloc_initialize (Some a) s) [a + 8] [a + 16]"
    "used_of (malloc_initialize (Some a) s) [a + 8] = (\<lambda>_. None)"
proof -
  let ?s = "malloc_initialize (Some a) s" and ?g = "free_fragments s"
  have ev: "even a" using assms(1) by (meson dvd_trans even_numeral)
  have ne: "?g \<noteq> a" "?g \<noteq> a + 8" "?g \<noteq> a + 16" using assms(3) by auto
  have n: "nxt (lk ?s) a = a + 9" "nxt (lk ?s) (a + 8) = a" "nxt (lk ?s) ?g = a + 16" "nxt (lk ?s) (a + 16) = ?g"
    "prv (lk ?s) a = a + 8" "prv (lk ?s) (a + 8) = a" "prv (lk ?s) ?g = a + 16" "prv (lk ?s) (a + 16) = ?g"
    "heap_start ?s = a" "heap_end ?s = a + INITIAL_SIZE" "free_fragments ?s = ?g"
    using ne ev by (simp_all add: malloc_initialize_def frag_initialize_def frag_insert_def set_using_def Let_def or_Suc_0_eq)
  have "ut (a + 9) = a + 8" using ev by (auto simp: ut_def elim!: evenE)
  moreover have F: "{x \<in> set [a + 8]. even (nxt (lk ?s) x)} = {a + 8}" using ev n(2) by auto
  ultimately have "rings_ok (lk ?s) ?g a [a + 8] {x \<in> set [a + 8]. even (nxt (lk ?s) x)} [a + 16]"
    using ne ev unfolding F by (simp add: rings_ok_def ring_def n)
  moreover have "layout a (a + INITIAL_SIZE) [a + 8]" using assms by (auto simp: layout_def)
  ultimately show "heap_ok ?s [a + 8] [a + 16]" using assms ev by (simp add: heap_ok_def frags_ok_def n)
  show "used_of ?s [a + 8] = (\<lambda>_. None)" using ev by (auto simp: used_of_def used_def n)
qed

lemma heap_run_ok:
  assumes "heap_run sbrk mx s live" and mx: "mx \<le> MAX_REQUEST" and sbrk: "\<And>e n. sbrk e n \<Longrightarrow> e + unat n < 2 ^ 32"
  shows "\<exists>xs fs. heap_ok s xs fs \<and> holds s xs live"
  using assms(1)
proof (induction rule: heap_run.induct)
  case (start a s)
  from initialize_ok [OF start] show ?case by (metis holds_def option.distinct(1))
next
  case (malloc s live n p s')
  then obtain xs fs where ok: "heap_ok s xs fs" "holds s xs live" by blast
  have "0 < unat n" using malloc(3) by (cases "n = 0") (auto simp: malloc_def unat_gt_0)
  from malloc_ok [OF ok(1) this order_trans [OF malloc(2) mx] sbrk, of "\<lambda>e n. sbrk e n"] malloc(3)
  obtain xs' fs' f b where m: "heap_ok s' xs' fs'" "p = f + 8" "used_of s' xs' = (used_of s xs)(f \<mapsto> b)"
      "p + unat n \<le> b" by (auto simp: outcome_def)
  then have "holds s' xs' (live(p \<mapsto> n))" using ok(2) unfolding holds_def by auto
  then show ?case using m(1) by blast
next
  case (malloc_null s live n s')
  then obtain xs fs where ok: "heap_ok s xs fs" "holds s xs live" by blast
  show ?case
  proof (cases "n = 0")
    case True
    then show ?thesis using malloc_null(3) ok by (auto simp: malloc_def)
  next
    case False
    then have "0 < unat n" by (simp add: unat_gt_0)
    from malloc_ok [OF ok(1) this order_trans [OF malloc_null(2) mx] sbrk, of "\<lambda>e n. sbrk e n"] malloc_null(3)
    obtain xs' fs' where "heap_ok s' xs' fs'" "used_of s' xs' = used_of s xs" by (auto simp: outcome_def)
    then show ?thesis using ok(2) unfolding holds_def by metis
  qed
next
  case (free s live p)
  then obtain xs fs where ok: "heap_ok s xs fs" "holds s xs live" by blast
  from free(2) ok(2) obtain b where b: "8 \<le> p" "used_of s xs (p - 8) = Some b" unfolding holds_def by blast
  from free_ok [OF ok(1) b(2)] b(1)
  obtain xs' fs' where f: "heap_ok (free p s) xs' fs'" "used_of (free p s) xs' = (used_of s xs)(p - 8 := None)"
    by auto
  have "q - 8 \<noteq> p - 8" if "live q = Some m" "q \<noteq> p" for q m
  proof -
    from ok(2) that(1) have "8 \<le> q" unfolding holds_def by blast
    then show ?thesis using b(1) that(2) by linarith
  qed
  moreover have "f + 8 \<noteq> p" if "f \<noteq> p - 8" for f using that by auto
  ultimately have "holds (free p s) xs' (live(p := None))" using ok(2) unfolding holds_def f(2) by auto
  then show ?case using f(1) by blast
qed

lemma used_apart:
  assumes "heap_ok s xs fs" "used_of s xs f = Some b" "used_of s xs f' = Some b'" "f < f'"
  shows "b \<le> f'"
proof -
  have fk: "frags_ok (lk s) (free_fragments s) (heap_start s) (heap_end s) xs fs" and ly: "layout (heap_start s) (heap_end s) xs"
    using assms(1) unfolding heap_ok_def frags_ok_def by blast+
  have f: "f \<in> set xs" "f' \<in> set xs" "b = endof (lk s) (heap_start s) (heap_end s) f"
    using assms(2,3) by (auto simp: used_of_def used_def split: if_splits)
  from f(1) obtain as bs where xs: "xs = as @ f # bs" by (meson split_list)
  have "f' \<in> set bs" using f(2) assms(4) ly by (auto simp: layout_def xs sorted_wrt_append)
  then show ?thesis using frags_end(1) [OF fk xs] f(3) ly
    by (cases bs) (auto simp: layout_def xs sorted_wrt_append)
qed

lemma held_block:
  assumes "heap_ok s xs fs" "holds s xs live" "live p = Some n"
  obtains b where "8 dvd p" "heap_start s + 16 \<le> p" "p + unat n \<le> b" "b \<le> heap_end s" "used_of s xs (p - 8) = Some b"
proof -
  have fk: "frags_ok (lk s) (free_fragments s) (heap_start s) (heap_end s) xs fs" and ly: "layout (heap_start s) (heap_end s) xs"
    using assms(1) unfolding heap_ok_def frags_ok_def by blast+
  from assms(2,3) obtain b where b: "8 \<le> p" "used_of s xs (p - 8) = Some b" "p + unat n \<le> b"
    unfolding holds_def by blast
  then have f: "p - 8 \<in> set xs" "b = endof (lk s) (heap_start s) (heap_end s) (p - 8)"
    by (auto simp: used_of_def used_def split: if_splits)
  from f(1) obtain as bs where xs: "xs = as @ (p - 8) # bs" by (meson split_list)
  have "b \<le> heap_end s" using frags_end(3) [OF fk xs] f(2) by simp
  moreover have "8 dvd p" "heap_start s + 16 \<le> p" using layout_after(1,3) [OF ly f(1)] b(1)
    by (auto dest: dvd_add [of 8 "p - 8" 8])
  ultimately show thesis using that b by blast
qed

subsection \<open>Properties\<close>

text \<open>
  A concrete heap at address \<open>0x1000\<close> for the examples below, and a memory server that
  grants all of the address space.
\<close>

definition heap0 :: heap_t where
  "heap0 = malloc_initialize (Some 0x1000)
    \<lparr>lk = \<lparr>nxt = \<lambda>_. 0, prv = \<lambda>_. 0\<rparr>, free_fragments = 0x800, heap_start = 0, heap_end = 0, heap_errno = 0\<rparr>"

definition sbrk0 :: "nat \<Rightarrow> u32 \<Rightarrow> bool" where
  "sbrk0 e n \<longleftrightarrow> e + unat n < 2 ^ 32"

lemma heap0_run: "heap_run sbrk0 MAX_REQUEST heap0 (\<lambda>_. None)"
  unfolding heap0_def by (rule heap_run.start) auto

lemmas heap0_simps = heap0_def malloc_initialize_def frag_initialize_def frag_insert_def frag_remove_def
  set_using_def take_fragment_def space_of_def Let_def or_Suc_0_eq

lemma malloc_first_fit:
  assumes "sz \<noteq> 0" "nxt (lk s) (free_fragments s) = p" "p \<noteq> free_fragments s" "\<not> space_of (p - 8) s < rounded sz"
  shows "malloc sbrk sz s = Some (Some p, take_fragment (rounded sz) p s)"
proof -
  have "find_c (rounded sz) s = Some (Some p, take_fragment (rounded sz) p s)"
    using assms(2-4) unfolding find_c_def by (subst find_from.simps) simp
  then show ?thesis unfolding malloc_rounded [OF assms(1)] by (subst malloc_loop.simps) simp
qed

lemma rounded_values: "rounded 24 = 24" "rounded 8 = 8" "rounded 32752 = 32752"
  by (simp_all add: rounded_def roundUp_def)

lemma heap0_two_blocks: "\<exists>s. heap_run sbrk0 MAX_REQUEST s [0x1010 \<mapsto> 24, 0x1030 \<mapsto> 8]"
proof -
  let ?s1 = "take_fragment 24 0x1010 heap0"
  have "malloc sbrk0 24 heap0 = Some (Some 0x1010, ?s1)"
    by (rule malloc_first_fit [where sz = 24 and p = "0x1010", unfolded rounded_values]) (simp_all add: heap0_simps)
  then have "heap_run sbrk0 MAX_REQUEST ?s1 ((\<lambda>_. None)(0x1010 \<mapsto> 24))"
    by (rule heap_run.malloc [OF heap0_run, rotated]) (simp add: MAX_REQUEST_def)
  moreover have "malloc sbrk0 8 ?s1 = Some (Some 0x1030, take_fragment 8 0x1030 ?s1)"
    by (rule malloc_first_fit [where sz = 8 and p = "0x1030", unfolded rounded_values]) (simp_all add: heap0_simps)
  ultimately show ?thesis using heap_run.malloc [of sbrk0 MAX_REQUEST ?s1 _ 8] by (fastforce simp: MAX_REQUEST_def)
qed

lemma heap0_full:
  "malloc sbrk0 32752 heap0 = Some (Some 0x1010, take_fragment 32752 0x1010 heap0)"
  by (rule malloc_first_fit [where sz = 32752 and p = "0x1010", unfolded rounded_values]) (simp_all add: heap0_simps)

text \<open>
  C7. After any history of \<^verbatim>\<open>malloc\<close> and \<^verbatim>\<open>free\<close> calls with sizes up to \<^const>\<open>MAX_REQUEST\<close> (above it the
  rounding of the size wraps around, and the block can be too small), with blocks split, fragments merged
  and the heap extended, the blocks the program holds lie inside the heap, start at
  multiples of 8 and are pairwise disjoint over the sizes that were asked for. (The memory
  server never moves the break beyond the address space.)
\<close>

theorem heap_blocks_disjoint:
  assumes "heap_run sbrk mx s live" "mx \<le> MAX_REQUEST" "\<And>e n. sbrk e n \<Longrightarrow> e + unat n < 2 ^ 32" "live p = Some n"
  shows "8 dvd p \<and> heap_start s + 16 \<le> p \<and> p + unat n \<le> heap_end s \<and>
    (\<forall>q m. live q = Some m \<and> q \<noteq> p \<longrightarrow> p + unat n \<le> q \<or> q + unat m \<le> p)"
proof -
  obtain xs fs where ok: "heap_ok s xs fs" "holds s xs live" using heap_run_ok [OF assms(1-3)] by blast
  obtain b where b: "8 dvd p" "heap_start s + 16 \<le> p" "p + unat n \<le> b" "b \<le> heap_end s" "used_of s xs (p - 8) = Some b"
    by (rule held_block [OF ok assms(4)])
  have "p + unat n \<le> q \<or> q + unat m \<le> p" if q: "live q = Some m" "q \<noteq> p" for q m
  proof -
    obtain c where c: "heap_start s + 16 \<le> q" "q + unat m \<le> c" "used_of s xs (q - 8) = Some c"
      by (rule held_block [OF ok q(1)])
    show ?thesis using used_apart [OF ok(1) b(5) c(3)] used_apart [OF ok(1) c(3) b(5)] b c q(2) by linarith
  qed
  then show ?thesis using b(1-4) by auto
qed

theorem heap_blocks_disjoint_witness:
  "\<exists>s live. heap_run sbrk0 MAX_REQUEST s live \<and> live 0x1010 = Some 24 \<and> live 0x1030 = Some 8 \<and>
    8 dvd (0x1010 :: nat) \<and> heap_start s + 16 \<le> 0x1010 \<and> 0x1010 + unat (24 :: u32) \<le> heap_end s \<and>
    (\<forall>q m. live q = Some m \<and> q \<noteq> 0x1010 \<longrightarrow> 0x1010 + unat (24 :: u32) \<le> q \<or> q + unat m \<le> 0x1010)"
proof -
  obtain s where s: "heap_run sbrk0 MAX_REQUEST s [0x1010 \<mapsto> 24, 0x1030 \<mapsto> 8]" using heap0_two_blocks by blast
  have live: "[0x1010 \<mapsto> 24, 0x1030 \<mapsto> 8] (0x1010 :: nat) = Some (24 :: u32)" by simp
  have "live0 0x1010 = Some 24 \<and> live0 0x1030 = Some 8" if "live0 = [0x1010 \<mapsto> 24, 0x1030 \<mapsto> 8]"
    for live0 :: "nat \<Rightarrow> u32 option" using that by simp
  then show ?thesis using heap_blocks_disjoint [OF s order_refl _ live] s unfolding sbrk0_def by blast
qed

text \<open>
  C25. \<^verbatim>\<open>malloc\<close> of at least one byte and at most \<^const>\<open>MAX_REQUEST\<close> always returns. It returns a null pointer
  only when the memory server refuses to extend the heap, and then sets \<^verbatim>\<open>errno\<close>; the
  pointers it returns were not held before.
\<close>

theorem malloc_returns:
  assumes "heap_run sbrk mx s live" "mx \<le> MAX_REQUEST" "\<And>e n. sbrk e n \<Longrightarrow> e + unat n < 2 ^ 32" "0 < unat n" "unat n \<le> MAX_REQUEST"
  shows "\<exists>r s'. malloc sbrk n s = Some (r, s') \<and>
    (case r of
       Some p \<Rightarrow> live p = None
     | None \<Rightarrow> heap_errno s' = ENOMEM \<and> \<not> sbrk (heap_end s) (pageRoundUp (8 + roundUp n MIN_SIZE)))"
proof -
  obtain xs fs where ok: "heap_ok s xs fs" "holds s xs live" using heap_run_ok [OF assms(1-3)] by blast
  have rd: "rounded n = roundUp n MIN_SIZE"
  proof (cases "n < MIN_SIZE")
    case True
    then have u: "0 < unat n" "unat n < 8" using assms(4) by (auto simp: word_less_nat_alt)
    then have "unat n + 8 - 1 = 8 + (unat n - 1)" "(8 + (unat n - 1)) mod 8 = unat n - 1"
      by (simp, subst mod_add_self1, simp)
    then have "(unat n + 8 - 1) - (unat n + 8 - 1) mod 8 = 8" by simp
    then have "roundUp n 8 = 8" using unat_roundUp8 [of n] u by (simp add: word_unat_eq_iff)
    then show ?thesis by (simp add: rounded_def)
  qed (simp add: rounded_def)
  have free: "live p = None" if "p = f + 8" "used_of s xs f = None" for p f
    using that ok(2) unfolding holds_def by (cases "live p") force+
  obtain r s' xs' where r: "malloc sbrk n s = Some (r, s')" "outcome sbrk n s xs r s' xs'"
    using malloc_ok [OF ok(1) assms(4,5,3)] by blast
  show ?thesis
  proof (cases r)
    case None
    then show ?thesis using r unfolding rd [symmetric] by (auto simp: outcome_def)
  next
    case (Some p)
    then have "live p = None" using r(2) free by (auto simp: outcome_def)
    then show ?thesis using r(1) Some by auto
  qed
qed

theorem malloc_returns_witness:
  "\<exists>r s'. malloc sbrk0 24 heap0 = Some (r, s') \<and>
    (case r of
       Some p \<Rightarrow> (\<lambda>_. None :: u32 option) p = None
     | None \<Rightarrow> heap_errno s' = ENOMEM \<and> \<not> sbrk0 (heap_end heap0) (pageRoundUp (8 + roundUp 24 MIN_SIZE)))"
  by (rule malloc_returns [OF heap0_run order_refl]) (auto simp: sbrk0_def MAX_REQUEST_def)

text \<open>
  The rounding of the size wraps around: for the sizes from \<open>0xfffffff9\<close> up it gives 0, so
  that \<^verbatim>\<open>malloc\<close> returns the first free fragment, of whatever size, instead of a null pointer.
\<close>

theorem malloc_wraps:
  assumes "0xfffffff9 \<le> unat n" "nxt (lk s) (free_fragments s) \<noteq> free_fragments s"
  shows "\<exists>s'. malloc sbrk n s = Some (Some (nxt (lk s) (free_fragments s)), s')"
proof -
  have "unat (n + 7) = (unat n + 7) mod 4294967296" by (simp add: unat_word_ariths)
  moreover define k where "k = unat n + 7 - 4294967296"
  have k: "unat n + 7 = 4294967296 + k" "k < 8" using assms(1) unat_u32_less [of n] unfolding k_def by linarith+
  ultimately have "unat (n + 7) < 8" by simp
  then have "roundUp n 8 = 0" using and_not_mask [of "n + 7" 3]
    by (simp add: roundUp_def mask_eq_exp_minus_1 word_unat_eq_iff)
  moreover have "n \<noteq> 0" "\<not> n < 8" using assms(1) by (auto simp: word_less_nat_alt)
  ultimately have "malloc sbrk n s = malloc_loop sbrk 0 s" by (simp add: malloc_def)
  then show ?thesis using assms(2)
    by (subst (asm) malloc_loop.simps) (subst (asm) find_c_def, subst (asm) find_from.simps, simp)
qed

theorem malloc_wraps_witness:
  "\<exists>s'. malloc sbrk0 0xffffffff heap0 = Some (Some (nxt (lk heap0) (free_fragments heap0)), s')"
  by (rule malloc_wraps) (simp_all add: heap0_simps)

text \<open>
  C35. \<^verbatim>\<open>realloc\<close> computes the old size of the last fragment from the start of the heap, where
  its pointer to the next fragment leads: the difference wraps around, and a block in the
  last fragment is said to have been enlarged in place to any size up to nearly the whole
  address space.
\<close>

theorem realloc_grows_in_place:
  assumes "heap_run sbrk mx s live" "mx \<le> MAX_REQUEST" "\<And>e n. sbrk e n \<Longrightarrow> e + unat n < 2 ^ 32" "live p = Some n"
    and "2 * (nxt (lk s) (p - 8) div 2) = heap_start s"
    and "0 < unat sz" "unat sz + (p - heap_start s) \<le> 2 ^ 32"
  shows "realloc sbrk p sz s = Some (Some p, s)"
proof -
  obtain xs fs where ok: "heap_ok s xs fs" "holds s xs live" using heap_run_ok [OF assms(1-3)] by blast
  obtain b where b: "heap_start s + 16 \<le> p" "p + unat n \<le> b" "b \<le> heap_end s"
    by (rule held_block [OF ok assms(4)])
  define d where "d = p - heap_start s"
  have d: "0 < d" "d < 2 ^ 32" "p = heap_start s + d" using b ok(1) by (auto simp: d_def heap_ok_def)
  have "of_nat (heap_start s) - of_nat p = (of_nat (2 ^ 32 - d) :: u32)" using d by (subst of_nat_diff) auto
  moreover have "unat (of_nat (2 ^ 32 - d) :: u32) = 2 ^ 32 - d"
    by (rule unat_of_nat_small) (use d(1) in simp)
  ultimately have "sz \<le> of_nat (heap_start s) - of_nat p" using assms(7) by (simp add: word_le_nat_alt flip: d_def)
  then show ?thesis using assms(6) b(1) unfolding realloc_def Let_def assms(5) by auto
qed

theorem realloc_grows_in_place_witness:
  "\<exists>s. heap_end s = 0x9000 \<and> realloc sbrk0 0x1010 0x10000 s = Some (Some 0x1010, s)"
proof -
  let ?s = "take_fragment 32752 0x1010 heap0"
  have "heap_run sbrk0 MAX_REQUEST ?s ((\<lambda>_. None)(0x1010 \<mapsto> 32752))"
    by (rule heap_run.malloc [OF heap0_run _ heap0_full]) (simp add: MAX_REQUEST_def)
  then have "realloc sbrk0 0x1010 0x10000 ?s = Some (Some 0x1010, ?s)"
    by (rule realloc_grows_in_place [OF _ order_refl]) (simp_all add: sbrk0_def heap0_simps)
  moreover have "heap_end ?s = 0x9000" by (simp add: heap0_simps)
  ultimately show ?thesis by blast
qed

end
