(* ===== verification/Nc_Ctype.thy ===== *)
theory Nc_Ctype
  imports Eo_Prelude
begin

section \<open>Character classes\<close>

text \<open>
  \<^verbatim>\<open>src/lib/libnc/ctype/ctype.c\<close>: a table of class bits for \<^verbatim>\<open>EOF\<close> and the 256 byte values, and
  the functions that test it. The table is written with its runs of equal entries.
\<close>

unbundle bit_operations_syntax

abbreviation (input) C_N :: nat where "C_N \<equiv> 0x00"
abbreviation (input) C_U :: nat where "C_U \<equiv> 0x01"
abbreviation (input) C_L :: nat where "C_L \<equiv> 0x02"
abbreviation (input) C_X :: nat where "C_X \<equiv> 0x04"
abbreviation (input) C_D :: nat where "C_D \<equiv> 0x08"
abbreviation (input) C_P :: nat where "C_P \<equiv> 0x10"
abbreviation (input) C_C :: nat where "C_C \<equiv> 0x20"
abbreviation (input) C_S :: nat where "C_S \<equiv> 0x40"
abbreviation (input) C_W :: nat where "C_W \<equiv> 0x80"

definition ctype_tbl :: "nat list" where
  "ctype_tbl = [C_N] @
    replicate 9 C_C @ replicate 5 (C_C OR C_S) @ replicate 18 C_C @
    [C_W OR C_S] @ replicate 15 C_P @
    replicate 10 C_D @ replicate 7 C_P @
    replicate 6 (C_U OR C_X) @ replicate 20 C_U @ replicate 6 C_P @
    replicate 6 (C_L OR C_X) @ replicate 20 C_L @ replicate 4 C_P @ [C_C] @
    replicate 128 C_N"

definition ctype_class :: "int \<Rightarrow> nat \<Rightarrow> int" where
  "ctype_class c m = int (ctype_tbl ! nat (c + 1) AND m)"

definition isalnum :: "int \<Rightarrow> int" where "isalnum c = ctype_class c (C_U OR C_L OR C_D)"
definition isalpha :: "int \<Rightarrow> int" where "isalpha c = ctype_class c (C_U OR C_L)"
definition iscntrl :: "int \<Rightarrow> int" where "iscntrl c = ctype_class c C_C"
definition isdigit :: "int \<Rightarrow> int" where "isdigit c = ctype_class c C_D"
definition isgraph :: "int \<Rightarrow> int" where "isgraph c = ctype_class c (C_U OR C_L OR C_D OR C_P)"
definition islower :: "int \<Rightarrow> int" where "islower c = ctype_class c C_L"
definition isprint :: "int \<Rightarrow> int" where "isprint c = ctype_class c (C_U OR C_L OR C_D OR C_P OR C_W)"
definition ispunct :: "int \<Rightarrow> int" where "ispunct c = ctype_class c C_P"
definition isspace :: "int \<Rightarrow> int" where "isspace c = ctype_class c (C_S OR C_W)"
definition isupper :: "int \<Rightarrow> int" where "isupper c = ctype_class c C_U"
definition isxdigit :: "int \<Rightarrow> int" where "isxdigit c = ctype_class c (C_D OR C_X)"

definition tolower :: "int \<Rightarrow> int" where
  "tolower c = (if isupper c \<noteq> 0 then c + (97 - 65) else c)"

definition toupper :: "int \<Rightarrow> int" where
  "toupper c = (if islower c \<noteq> 0 then c - (97 - 65) else c)"

lemmas ctype_defs = isalnum_def isalpha_def iscntrl_def isdigit_def isgraph_def islower_def isprint_def
  ispunct_def isspace_def isupper_def isxdigit_def ctype_class_def

text \<open>The table as a case distinction on the character.\<close>

definition ctype_ranges :: "int \<Rightarrow> nat" where
  "ctype_ranges c =
    (if c < 0 then C_N else if c < 9 then C_C else if c < 14 then 96 else if c < 32 then C_C
     else if c < 33 then 192 else if c < 48 then C_P else if c < 58 then C_D else if c < 65 then C_P
     else if c < 71 then 5 else if c < 91 then C_U else if c < 97 then C_P
     else if c < 103 then 6 else if c < 123 then C_L else if c < 127 then C_P else if c < 128 then C_C
     else C_N)"

lemma ctype_entries: "ctype_tbl = map ctype_ranges [- 1..255]"
  by code_simp

lemma ctype_entry:
  assumes "- 1 \<le> c" "c \<le> 255"
  shows "ctype_tbl ! nat (c + 1) = ctype_ranges c"
  using assms unfolding ctype_entries by (subst nth_map) (auto simp: nth_upto)

lemma ctype_class_ranges:
  "- 1 \<le> c \<Longrightarrow> c \<le> 255 \<Longrightarrow> ctype_class c m \<noteq> 0 \<longleftrightarrow> ctype_ranges c AND m \<noteq> 0"
  by (simp add: ctype_class_def ctype_entry)

lemma ctype_masks:
  "ctype_ranges c AND 8 \<noteq> 0 \<longleftrightarrow> 48 \<le> c \<and> c \<le> 57"
  "ctype_ranges c AND 1 \<noteq> 0 \<longleftrightarrow> 65 \<le> c \<and> c \<le> 90"
  "ctype_ranges c AND 2 \<noteq> 0 \<longleftrightarrow> 97 \<le> c \<and> c \<le> 122"
  "ctype_ranges c AND 192 \<noteq> 0 \<longleftrightarrow> 9 \<le> c \<and> c \<le> 13 \<or> c = 32"
  "ctype_ranges c AND 12 \<noteq> 0 \<longleftrightarrow> 48 \<le> c \<and> c \<le> 57 \<or> 65 \<le> c \<and> c \<le> 70 \<or> 97 \<le> c \<and> c \<le> 102"
  "ctype_ranges c AND 32 \<noteq> 0 \<longleftrightarrow> 0 \<le> c \<and> c \<le> 31 \<or> c = 127"
  "ctype_ranges c AND 155 \<noteq> 0 \<longleftrightarrow> 32 \<le> c \<and> c \<le> 126"
  "ctype_ranges c AND 27 \<noteq> 0 \<longleftrightarrow> 33 \<le> c \<and> c \<le> 126"
  unfolding ctype_ranges_def
  by (simp_all only: if_distrib [of "\<lambda>x. x AND _"] if_distrib [of "\<lambda>x. x \<noteq> 0"]) simp_all

lemma ctype_tests:
  assumes "- 1 \<le> c" "c \<le> 255"
  shows "isdigit c \<noteq> 0 \<longleftrightarrow> 48 \<le> c \<and> c \<le> 57"
    "isupper c \<noteq> 0 \<longleftrightarrow> 65 \<le> c \<and> c \<le> 90"
    "islower c \<noteq> 0 \<longleftrightarrow> 97 \<le> c \<and> c \<le> 122"
    "isspace c \<noteq> 0 \<longleftrightarrow> 9 \<le> c \<and> c \<le> 13 \<or> c = 32"
    "isxdigit c \<noteq> 0 \<longleftrightarrow> 48 \<le> c \<and> c \<le> 57 \<or> 65 \<le> c \<and> c \<le> 70 \<or> 97 \<le> c \<and> c \<le> 102"
    "iscntrl c \<noteq> 0 \<longleftrightarrow> 0 \<le> c \<and> c \<le> 31 \<or> c = 127"
    "isprint c \<noteq> 0 \<longleftrightarrow> 32 \<le> c \<and> c \<le> 126"
    "isgraph c \<noteq> 0 \<longleftrightarrow> 33 \<le> c \<and> c \<le> 126"
proof -
  note cls = ctype_class_ranges [OF assms] ctype_masks
  show "isdigit c \<noteq> 0 \<longleftrightarrow> 48 \<le> c \<and> c \<le> 57" unfolding isdigit_def cls ..
  show "isupper c \<noteq> 0 \<longleftrightarrow> 65 \<le> c \<and> c \<le> 90" unfolding isupper_def cls ..
  show "islower c \<noteq> 0 \<longleftrightarrow> 97 \<le> c \<and> c \<le> 122" unfolding islower_def cls ..
  show "iscntrl c \<noteq> 0 \<longleftrightarrow> 0 \<le> c \<and> c \<le> 31 \<or> c = 127" unfolding iscntrl_def cls ..
  have m: "C_S OR C_W = 192" "C_D OR C_X = 12" "C_U OR C_L OR C_D OR C_P OR C_W = 155" "C_U OR C_L OR C_D OR C_P = 27"
    by simp_all
  show "isspace c \<noteq> 0 \<longleftrightarrow> 9 \<le> c \<and> c \<le> 13 \<or> c = 32" unfolding isspace_def m cls ..
  show "isxdigit c \<noteq> 0 \<longleftrightarrow> 48 \<le> c \<and> c \<le> 57 \<or> 65 \<le> c \<and> c \<le> 70 \<or> 97 \<le> c \<and> c \<le> 102"
    unfolding isxdigit_def m cls ..
  show "isprint c \<noteq> 0 \<longleftrightarrow> 32 \<le> c \<and> c \<le> 126" unfolding isprint_def m cls ..
  show "isgraph c \<noteq> 0 \<longleftrightarrow> 33 \<le> c \<and> c \<le> 126" unfolding isgraph_def m cls ..
qed

lemma toupper_range:
  assumes "- 1 \<le> c" "c \<le> 255"
  shows "toupper c = (if 97 \<le> c \<and> c \<le> 122 then c - 32 else c)" "tolower c = (if 65 \<le> c \<and> c \<le> 90 then c + 32 else c)"
  unfolding toupper_def tolower_def ctype_tests [OF assms] by auto

text \<open>
  The classification functions test the ASCII ranges of the C locale, for every
  byte value and \<^verbatim>\<open>EOF\<close>; the case conversions move letters only, and undo each other on them.
\<close>

theorem ctype_ascii:
  assumes "- 1 \<le> c" "c \<le> 255"
  shows "(isdigit c \<noteq> 0 \<longleftrightarrow> 48 \<le> c \<and> c \<le> 57) \<and> (isupper c \<noteq> 0 \<longleftrightarrow> 65 \<le> c \<and> c \<le> 90) \<and>
    (islower c \<noteq> 0 \<longleftrightarrow> 97 \<le> c \<and> c \<le> 122) \<and> (isspace c \<noteq> 0 \<longleftrightarrow> 9 \<le> c \<and> c \<le> 13 \<or> c = 32) \<and>
    (isxdigit c \<noteq> 0 \<longleftrightarrow> 48 \<le> c \<and> c \<le> 57 \<or> 65 \<le> c \<and> c \<le> 70 \<or> 97 \<le> c \<and> c \<le> 102) \<and>
    (iscntrl c \<noteq> 0 \<longleftrightarrow> 0 \<le> c \<and> c \<le> 31 \<or> c = 127) \<and> (isprint c \<noteq> 0 \<longleftrightarrow> 32 \<le> c \<and> c \<le> 126) \<and>
    (isgraph c \<noteq> 0 \<longleftrightarrow> 33 \<le> c \<and> c \<le> 126) \<and>
    tolower (toupper c) = tolower c \<and> toupper (tolower c) = toupper c"
proof -
  have "- 1 \<le> toupper c" "toupper c \<le> 255" "- 1 \<le> tolower c" "tolower c \<le> 255"
    using assms by (auto simp: toupper_range [OF assms])
  then have "tolower (toupper c) = tolower c \<and> toupper (tolower c) = toupper c"
    using assms by (auto simp: toupper_range)
  then show ?thesis using ctype_tests [OF assms] by blast
qed

theorem ctype_ascii_witness: "isdigit 57 \<noteq> 0 \<and> isdigit 58 = 0"
  using ctype_ascii [of 57] ctype_ascii [of 58] by simp

end
