(* ===== verification/Std_Number.thy ===== *)
theory Std_Number
  imports Nc_Ctype "HOL-Library.Monad_Syntax"
begin

section \<open>Numbers from strings\<close>

text \<open>
  \<^verbatim>\<open>strtol.c\<close>, \<^verbatim>\<open>strtoul.c\<close>, \<^verbatim>\<open>atoi.c\<close> and \<^verbatim>\<open>atol.c\<close> of \<^verbatim>\<open>src/lib/libc/stdlib\<close>. A pointer into a
  string is the list of the bytes from there on; reading past its end is \<^const>\<open>None\<close>. A
  conversion yields the value, the error number it stores (0 if none) and what is stored
  through \<^verbatim>\<open>endptr\<close>. The values are 32-bit words; \<open>sint\<close> reads a \<^verbatim>\<open>long\<close>.
\<close>

abbreviation (input) EINVAL :: int where "EINVAL \<equiv> 28"
abbreviation (input) ERANGE :: int where "ERANGE \<equiv> 70"
abbreviation (input) LONG_MAX :: u32 where "LONG_MAX \<equiv> 0x7fffffff"
abbreviation (input) LONG_MIN :: u32 where "LONG_MIN \<equiv> 0x80000000"

definition byte_at :: "u8 list \<Rightarrow> nat \<Rightarrow> int option" where
  "byte_at r i = (if i < length r then Some (uint (r ! i)) else None)"

fun skip_space :: "u8 list \<Rightarrow> u8 list option" where
  "skip_space [] = None"
| "skip_space (c # r) = (if isspace (uint c) \<noteq> 0 then skip_space r else Some (c # r))"

definition skip_sign :: "u8 list \<Rightarrow> (bool \<times> u8 list) option" where
  "skip_sign r =
    (case r of
       [] \<Rightarrow> None
     | c # r' \<Rightarrow> Some (if uint c = 45 then (True, r') else if uint c = 43 then (False, r') else (False, c # r')))"

definition get_num :: "int \<Rightarrow> int \<Rightarrow> int" where
  "get_num chr base =
    (if 48 \<le> chr \<and> chr \<le> 57 then (if base \<le> chr - 48 then - 1 else chr - 48)
     else
       (let c = toupper chr in
        if 65 \<le> c \<and> c \<le> 90 then (if base \<le> c - 65 + 10 then - 1 else c - 65 + 10) else - 1))"

definition is_hex :: "u8 list \<Rightarrow> bool option" where
  "is_hex r = do {
     c0 \<leftarrow> byte_at r 0;
     if c0 = 48 then do { c1 \<leftarrow> byte_at r 1; Some (toupper c1 = 88) } else Some False
   }"

definition hex_prefix :: "u8 list \<Rightarrow> bool option" where
  "hex_prefix r = do {
     h \<leftarrow> is_hex r;
     if h then do { c2 \<leftarrow> byte_at r 2; Some (get_num c2 16 \<ge> 0) } else Some False
   }"

text \<open>
  The choice of the base: \<^const>\<open>None\<close> as result for a base that is refused, otherwise the
  base and the first digit.
\<close>

definition choose_base :: "int \<Rightarrow> u8 list \<Rightarrow> (int \<times> u8 list) option option" where
  "choose_base base r =
    (if base \<noteq> 0 then
       (if base < 2 \<or> 36 < base then Some None
        else if base = 16 then do { h \<leftarrow> hex_prefix r; Some (Some (base, if h then drop 2 r else r)) }
        else Some (Some (base, r)))
     else do {
       c0 \<leftarrow> byte_at r 0;
       if c0 = 48 then do {
         h \<leftarrow> hex_prefix r;
         Some (Some (if h then (16, drop 2 r) else (8, r)))
       } else Some (Some (10, r))
     })"

fun strtol_loop :: "int \<Rightarrow> u32 \<Rightarrow> u32 \<Rightarrow> int \<Rightarrow> u8 list \<Rightarrow> (u32 \<times> int \<times> u8 list) option" where
  "strtol_loop base mx v err [] = None"
| "strtol_loop base mx v err (c # r) =
    (let n = get_num (uint c) base in
     if n \<ge> 0 then
       (let y = v * word_of_int base in
        if uint v * base \<ge> 2 ^ 32 \<or> y > mx \<or> word_of_int n > mx - y
        then strtol_loop base mx mx ERANGE r
        else strtol_loop base mx (y + word_of_int n) err r)
     else Some (v, err, c # r))"

definition strtol :: "u8 list \<Rightarrow> int \<Rightarrow> (u32 \<times> int \<times> u8 list) option" where
  "strtol str base = do {
     r \<leftarrow> skip_space str;
     (minus, r) \<leftarrow> skip_sign r;
     b \<leftarrow> choose_base base r;
     case b of
       None \<Rightarrow> Some (0, EINVAL, str)
     | Some (base, r) \<Rightarrow> do {
         c \<leftarrow> byte_at r 0;
         if get_num c base < 0 then Some (0, 0, str)
         else do {
           (v, err, r) \<leftarrow> strtol_loop base (if minus then LONG_MIN else LONG_MAX) 0 0 r;
           Some (if minus then - v else v, err, r)
         }
       }
   }"

fun strtoul_loop :: "int \<Rightarrow> u32 \<Rightarrow> int \<Rightarrow> u8 list \<Rightarrow> (u32 \<times> int \<times> u8 list) option" where
  "strtoul_loop base v err [] = None"
| "strtoul_loop base v err (c # r) =
    (let n = get_num (uint c) base; mx = - 1 in
     if n \<ge> 0 then
       (let y = v * word_of_int base in
        if uint v * base \<ge> 2 ^ 32 \<or> word_of_int n > mx - y
        then strtoul_loop base mx ERANGE r
        else strtoul_loop base (y + word_of_int n) err r)
     else Some (v, err, c # r))"

definition strtoul :: "u8 list \<Rightarrow> int \<Rightarrow> (u32 \<times> int \<times> u8 list) option" where
  "strtoul str base = do {
     r \<leftarrow> skip_space str;
     (minus, r) \<leftarrow> skip_sign r;
     b \<leftarrow> choose_base base r;
     case b of
       None \<Rightarrow> Some (0, EINVAL, str)
     | Some (base, r) \<Rightarrow> do {
         c \<leftarrow> byte_at r 0;
         if get_num c base < 0 then Some (0, 0, str)
         else do {
           (v, err, r) \<leftarrow> strtoul_loop base 0 0 r;
           Some (if minus then - v else v, err, r)
         }
       }
   }"

fun atoi_loop :: "u32 \<Rightarrow> u8 list \<Rightarrow> u32 option" where
  "atoi_loop v [] = None"
| "atoi_loop v (c # r) =
    (if isdigit (uint c) \<noteq> 0 then atoi_loop (v * 10 + word_of_int (uint c - 48)) r else Some v)"

definition atoi :: "u8 list \<Rightarrow> u32 option" where
  "atoi p = do {
     r \<leftarrow> skip_space p;
     (minus, r) \<leftarrow> skip_sign r;
     v \<leftarrow> atoi_loop 0 r;
     Some (if minus then - v else v)
   }"

text \<open>\<^verbatim>\<open>atol\<close> is the same code on \<^verbatim>\<open>long\<close>, which has the width of \<^verbatim>\<open>int\<close>.\<close>

definition atol :: "u8 list \<Rightarrow> u32 option" where
  "atol p = do {
     r \<leftarrow> skip_space p;
     (minus, r) \<leftarrow> skip_sign r;
     v \<leftarrow> atoi_loop 0 r;
     Some (if minus then - v else v)
   }"

subsection \<open>The digits\<close>

text \<open>The number a sequence of digits denotes.\<close>

definition number :: "int \<Rightarrow> int \<Rightarrow> u8 list \<Rightarrow> int" where
  "number base v ds = foldl (\<lambda>v c. v * base + get_num (uint c) base) v ds"

definition digits :: "int \<Rightarrow> u8 list \<Rightarrow> bool" where
  "digits base ds \<longleftrightarrow> list_all (\<lambda>c. get_num (uint c) base \<ge> 0) ds"

lemma get_num_less: "2 \<le> base \<Longrightarrow> get_num chr base < base"
  by (auto simp: get_num_def Let_def)

lemma get_num_36: "2 \<le> base \<Longrightarrow> base \<le> 36 \<Longrightarrow> get_num chr base < 36"
  using get_num_less [of base chr] by simp

lemma number_ge: "2 \<le> base \<Longrightarrow> 0 \<le> v \<Longrightarrow> digits base ds \<Longrightarrow> v \<le> number base v ds"
proof (induction ds arbitrary: v)
  case (Cons c ds)
  let ?w = "v * base + get_num (uint c) base"
  have "0 \<le> get_num (uint c) base" "digits base ds" using Cons.prems by (auto simp: digits_def)
  moreover have "v \<le> v * base" using Cons.prems(1,2) by (simp add: mult_le_cancel_left1)
  ultimately have "v \<le> ?w" "0 \<le> ?w" using Cons.prems(2) by linarith+
  then show ?case using Cons.IH [OF Cons.prems(1), of ?w] \<open>digits base ds\<close> by (simp add: number_def)
qed (simp add: number_def)

lemma uint_below_2_32: "0 \<le> x \<Longrightarrow> x < 2 ^ 32 \<Longrightarrow> uint (word_of_int x :: u32) = x"
  by (simp add: uint_word_of_int)

lemma uint_u32_less: "uint (w :: u32) < 2 ^ 32" "0 \<le> uint w"
  using uint_bounded [of w] by auto

text \<open>The test for overflow of one step is exact.\<close>

lemma overflow_test:
  fixes mx :: u32
  assumes v: "0 \<le> v" "v \<le> uint mx" and n: "0 \<le> n" "n < 36" and base: "2 \<le> base" "base \<le> 36"
  shows "(uint (word_of_int v :: u32) * base \<ge> 2 ^ 32 \<or> word_of_int v * word_of_int base > mx \<or>
      word_of_int n > mx - word_of_int v * word_of_int base) \<longleftrightarrow> uint mx < v * base + n"
proof -
  note m = uint_u32_less [of mx]
  have w: "uint (word_of_int v :: u32) = v" using v m by (intro uint_below_2_32) auto
  have y: "word_of_int v * word_of_int base = (word_of_int (v * base) :: u32)" by simp
  show ?thesis
  proof (cases "v * base < 2 ^ 32")
    case False
    then show ?thesis using w m n by auto
  next
    case True
    have uy: "uint (word_of_int (v * base) :: u32) = v * base" using True v base by (intro uint_below_2_32) auto
    have un: "uint (word_of_int n :: u32) = n" using n by (intro uint_below_2_32) auto
    show ?thesis
    proof (cases "v * base \<le> uint mx")
      case le: True
      then have "word_of_int (v * base) \<le> mx" using uy by (simp add: word_le_def)
      then have "uint (mx - word_of_int (v * base)) = uint mx - v * base" using uy by (simp add: uint_sub_if_size word_le_def word_size)
      then show ?thesis unfolding y w using True le uy un by (auto simp: word_less_def)
    next
      case False
      then show ?thesis unfolding y w using uy n by (auto simp: word_less_def)
    qed
  qed
qed

text \<open>
  The loop of \<^verbatim>\<open>strtol\<close> computes the number, cut off at the maximum, and reports the cut.
  \<open>t\<close> is the true value of the digits read so far.
\<close>

lemma strtol_loop_digits:
  assumes "2 \<le> base" "base \<le> 36" "0 \<le> t" "36 \<le> uint mx"
  shows "digits base ds \<Longrightarrow> get_num (uint c) base < 0 \<Longrightarrow>
    strtol_loop base mx (word_of_int (min t (uint mx))) (if t \<le> uint mx then 0 else ERANGE) (ds @ c # r) =
      Some (word_of_int (min (number base t ds) (uint mx)), if number base t ds \<le> uint mx then 0 else ERANGE, c # r)"
  using assms(3)
proof (induction ds arbitrary: t)
  case Nil
  then show ?case by (simp add: number_def)
next
  case (Cons d ds)
  let ?n = "get_num (uint d) base" and ?v = "min t (uint mx)"
  let ?t = "t * base + ?n"
  have d: "0 \<le> ?n" "?n < 36" "digits base ds" using Cons.prems(1) get_num_36 [OF assms(1,2)] by (auto simp: digits_def)
  have v: "0 \<le> ?v" "?v \<le> uint mx" using Cons.prems(3) uint_u32_less(2) [of mx] by auto
  have grow: "t \<le> t * base" using Cons.prems(3) assms(1) by (simp add: mult_le_cancel_left1)
  note test = overflow_test [OF v d(1,2) assms(1,2)]
  have step: "strtol_loop base mx (word_of_int ?v) (if t \<le> uint mx then 0 else ERANGE) ((d # ds) @ c # r) =
      strtol_loop base mx (word_of_int (min ?t (uint mx))) (if ?t \<le> uint mx then 0 else ERANGE) (ds @ c # r)"
  proof (cases "t \<le> uint mx")
    case True
    then show ?thesis using test d(1) by (auto simp: Let_def)
  next
    case False
    have "uint mx * 2 \<le> uint mx * base" using assms(1) uint_u32_less(2) [of mx] by (intro mult_left_mono) auto
    then have "uint mx < uint mx * base + ?n" using assms(4) d(1) by linarith
    moreover have "uint mx < ?t" using False grow d(1) by linarith
    ultimately show ?thesis using test d(1) False by (auto simp: Let_def)
  qed
  have "0 \<le> ?t" using grow Cons.prems(3) d(1) by linarith
  from Cons.IH [OF d(3) Cons.prems(2) this] step show ?case by (simp add: number_def)
qed

lemma strtoul_loop_strtol: "strtoul_loop base v err r = strtol_loop base (- 1) v err r"
proof (induction base v err r rule: strtoul_loop.induct)
  case (2 base v err c r)
  have "\<not> (- 1 :: u32) < y" for y using word_n1_ge [of y] by (simp add: not_less)
  then show ?case using 2 by (simp add: Let_def)
qed simp

subsection \<open>What a text denotes\<close>

text \<open>
  The meaning of a text, written down independently of the code: the value of a figure (36 for a character that is none in any base), the
  positional value of a sequence of figures, and the parts of the text: white space, a sign, a prefix, the figures.
\<close>

definition figure :: "u8 \<Rightarrow> nat" where
  "figure c =
    (if c \<in> {48..57} then unat c - 48 else if c \<in> {65..90} then unat c - 55
     else if c \<in> {97..122} then unat c - 87 else 36)"

definition positional :: "nat \<Rightarrow> u8 list \<Rightarrow> nat" where
  "positional b ds = (\<Sum>i < length ds. figure (ds ! i) * b ^ (length ds - 1 - i))"

definition white :: "u8 \<Rightarrow> bool" where
  "white c \<longleftrightarrow> c = 32 \<or> c \<in> {9..13}"

definition hex_prefixed :: "u8 list \<Rightarrow> bool" where
  "hex_prefixed r \<longleftrightarrow> 3 \<le> length r \<and> r ! 0 = 48 \<and> r ! 1 \<in> {88, 120} \<and> figure (r ! 2) < 16"

definition base_of :: "int \<Rightarrow> u8 list \<Rightarrow> nat" where
  "base_of base r =
    (if base \<noteq> 0 then nat base else if hex_prefixed r then 16 else if hd r = 48 then 8 else 10)"

definition figures_of :: "int \<Rightarrow> u8 list \<Rightarrow> u8 list" where
  "figures_of base r = (if base \<in> {0, 16} \<and> hex_prefixed r then drop 2 r else r)"

definition denoted :: "u8 list \<Rightarrow> int \<Rightarrow> (int \<times> u8 list) option" where
  "denoted str base =
    (let s = dropWhile white str; r = (if hd s \<in> {45, 43} then tl s else s);
         b = base_of base r; f = figures_of base r; v = int (positional b (takeWhile (\<lambda>c. figure c < b) f))
     in if figure (hd f) < b then Some (if hd s = 45 then - v else v, dropWhile (\<lambda>c. figure c < b) f) else None)"

lemma byte_range: "- 1 \<le> uint c" "uint c \<le> 255" "0 \<le> uint c" for c :: u8
proof -
  show z: "0 \<le> uint c" by simp
  then show "- 1 \<le> uint c" by linarith
  show "uint c \<le> 255" using uint_bounded [of c] by simp
qed

lemma byte_unat: "uint c = int (unat c)" "unat c \<le> 255" "c \<in> {l..h} \<longleftrightarrow> unat l \<le> unat c \<and> unat c \<le> unat h" for c :: u8
  using unsigned_less [of c, where ?'a = nat] by (simp_all add: word_le_nat_alt)

lemma byte_eq: "c = k \<longleftrightarrow> unat c = unat k" for c :: u8
  by (rule word_unat_eq_iff)

lemma figure_unat:
  "unat c = n \<Longrightarrow> figure c = (if 48 \<le> n \<and> n \<le> 57 then n - 48 else if 65 \<le> n \<and> n \<le> 90 then n - 55
    else if 97 \<le> n \<and> n \<le> 122 then n - 87 else 36)"
  unfolding figure_def byte_unat(3) by simp

lemma get_num_figure:
  assumes "base \<le> 36"
  shows "get_num (uint c) base = (if int (figure c) < base then int (figure c) else - 1)"
proof -
  obtain n where n: "unat c = n" by blast
  have "uint c = int n" using n by (simp add: byte_unat(1))
  moreover have "toupper (uint c) = (if 97 \<le> int n \<and> int n \<le> 122 then int n - 32 else int n)"
    using toupper_range [OF byte_range(1,2) [of c]] calculation by simp
  ultimately show ?thesis using assms unfolding get_num_def figure_unat [OF n] Let_def by auto
qed

lemma isspace_white: "isspace (uint c) \<noteq> 0 \<longleftrightarrow> white c" for c :: u8
proof -
  obtain n where n: "unat c = n" by blast
  then have "uint c = int n" "c = 32 \<longleftrightarrow> n = 32" "c \<in> {9..13} \<longleftrightarrow> 9 \<le> n \<and> n \<le> 13"
    by (simp_all add: byte_unat(1) byte_eq word_le_nat_alt)
  then show ?thesis unfolding white_def ctype_tests(4) [OF byte_range(1,2) [of c]] by auto
qed

lemma figure_nul [simp]: "figure 0 = 36" "\<not> white 0"
  by (simp_all add: figure_def white_def)

lemma skip_space_white: "0 \<in> set str \<Longrightarrow> skip_space str = Some (dropWhile white str) \<and> 0 \<in> set (dropWhile white str)"
  by (induction str) (auto simp: isspace_white)

lemma skip_sign_text:
  assumes "0 \<in> set s"
  shows "skip_sign s = Some (hd s = 45, if hd s \<in> {45, 43} then tl s else s) \<and> 0 \<in> set (if hd s \<in> {45, 43} then tl s else s)"
proof (cases s)
  case (Cons c r)
  have "uint c = 45 \<longleftrightarrow> c = 45" "uint c = 43 \<longleftrightarrow> c = 43" by (simp_all add: word_uint_eq_iff)
  then show ?thesis using assms Cons by (auto simp: skip_sign_def)
qed (use assms in simp)

lemma hex_prefix_text:
  assumes "0 \<in> set r"
  shows "hex_prefix r = Some (hex_prefixed r)" "hex_prefixed r \<Longrightarrow> 0 \<in> set (drop 2 r)"
proof -
  have x: "toupper (uint c) = 88 \<longleftrightarrow> c \<in> {88, 120}" for c :: u8
    using toupper_range [OF byte_range(1,2) [of c]] by (auto simp: word_uint_eq_iff)
  have z: "uint c = 48 \<longleftrightarrow> c = 48" for c :: u8 by (simp add: word_uint_eq_iff)
  have nul: "toupper 0 \<noteq> 88" using x [of 0] by simp
  consider "r = [0]" | a q where "r = a # q" "a \<noteq> 48" | q where "r = [48, 0] @ q" | b q where "r = [48, b] @ q" "b \<noteq> 0" "0 \<in> set q"
    using assms by (cases r; cases "tl r") auto
  then show "hex_prefix r = Some (hex_prefixed r)"
    by cases (auto simp: hex_prefix_def is_hex_def byte_at_def hex_prefixed_def x z nul get_num_figure Suc_le_eq split: if_splits)
  show "0 \<in> set (drop 2 r)" if "hex_prefixed r"
    using that assms by (cases r; cases "tl r") (auto simp: hex_prefixed_def)
qed

lemma choose_base_text:
  assumes "0 \<in> set r" "base = 0 \<or> 2 \<le> base \<and> base \<le> 36"
  shows "choose_base base r = Some (Some (int (base_of base r), figures_of base r))" "0 \<in> set (figures_of base r)"
    "2 \<le> base_of base r" "base_of base r \<le> 36"
proof -
  have "r \<noteq> []" using assms(1) by auto
  then have "byte_at r 0 = Some (uint (hd r))" by (simp add: byte_at_def hd_conv_nth)
  moreover have "uint (hd r) = 48 \<longleftrightarrow> hd r = 48" by (simp add: word_uint_eq_iff)
  moreover have "hex_prefixed r \<Longrightarrow> hd r = 48" using \<open>r \<noteq> []\<close> by (simp add: hex_prefixed_def hd_conv_nth)
  ultimately show "choose_base base r = Some (Some (int (base_of base r), figures_of base r))"
    using assms(2) hex_prefix_text(1) [OF assms(1)]
    by (cases "hex_prefixed r") (auto simp: choose_base_def base_of_def figures_of_def)
  show "0 \<in> set (figures_of base r)" using assms(1) hex_prefix_text(2) [OF assms(1)] by (auto simp: figures_of_def)
  show "2 \<le> base_of base r" "base_of base r \<le> 36" using assms(2) by (auto simp: base_of_def)
qed

lemma number_positional:
  assumes "b \<le> 36" "\<forall>d \<in> set ds. figure d < b"
  shows "number (int b) 0 ds = int (positional b ds)"
  using assms(2)
proof (induction ds rule: rev_induct)
  case (snoc d ds)
  have "positional b (ds @ [d]) = positional b ds * b + figure d"
  proof -
    have "(\<Sum>i < length ds. figure ((ds @ [d]) ! i) * b ^ (length ds - i)) = (\<Sum>i < length ds. figure (ds ! i) * b ^ (length ds - 1 - i) * b)"
      by (rule sum.cong) (auto simp: nth_append power_Suc2 [symmetric] Suc_diff_Suc simp del: power_Suc)
    then show ?thesis by (simp add: positional_def sum_distrib_right)
  qed
  then show ?case using snoc assms(1) by (simp add: number_def get_num_figure)
qed (simp add: number_def positional_def)

text \<open>The loop, from the first figure on.\<close>

lemma strtol_loop_text:
  assumes "0 \<in> set f" "2 \<le> b" "b \<le> 36" "36 \<le> uint mx"
  shows "strtol_loop (int b) mx 0 0 f =
    (let v = int (positional b (takeWhile (\<lambda>c. figure c < b) f)) in
     Some (word_of_int (min v (uint mx)), if v \<le> uint mx then 0 else ERANGE, dropWhile (\<lambda>c. figure c < b) f))"
proof -
  let ?ds = "takeWhile (\<lambda>c. figure c < b) f" and ?r = "dropWhile (\<lambda>c. figure c < b) f"
  have "\<not> figure 0 < b" using assms(3) by simp
  then have "?r \<noteq> []" using assms(1) by (metis dropWhile_eq_Nil_conv)
  then obtain c q where r: "?r = c # q" by (cases ?r) auto
  then have c: "\<not> figure c < b" using hd_dropWhile [of "\<lambda>c. figure c < b" f] by simp
  have ds: "\<forall>d \<in> set ?ds. figure d < b" by (auto dest: set_takeWhileD)
  have "digits (int b) ?ds" using ds assms(3) by (auto simp: digits_def list_all_iff get_num_figure)
  from strtol_loop_digits [OF _ _ _ assms(4) this, of 0 c q] show ?thesis
    using assms(2,3) c number_positional [OF assms(3) ds] r takeWhile_dropWhile_id [of "\<lambda>c. figure c < b" f]
    by (simp add: get_num_figure Let_def)
qed

lemma first_figure:
  assumes "0 \<in> set f" "b \<le> 36"
  shows "\<exists>c. byte_at f 0 = Some c \<and> (get_num c (int b) < 0 \<longleftrightarrow> \<not> figure (hd f) < b)"
  using assms by (cases f) (auto simp: byte_at_def get_num_figure)

lemma sint_small: "- (2 ^ 31) \<le> x \<Longrightarrow> x < 2 ^ 31 \<Longrightarrow> sint (word_of_int x :: u32) = x"
  by (simp add: signed_of_int signed_take_bit_int_eq_self)

text \<open>The parts of a text, as \<^verbatim>\<open>strtol\<close> and \<^verbatim>\<open>strtoul\<close> find them before their loops.\<close>

lemma text_parts:
  assumes "0 \<in> set str"
  obtains s minus r where "skip_space str = Some s" "skip_sign s = Some (minus, r)"
    "base = 0 \<or> 2 \<le> base \<and> base \<le> 36 \<Longrightarrow> \<exists>B f c. choose_base base r = Some (Some (int B, f)) \<and> 0 \<in> set f \<and> 2 \<le> B \<and> B \<le> 36 \<and>
      byte_at f 0 = Some c \<and> (get_num c (int B) < 0 \<longleftrightarrow> \<not> figure (hd f) < B) \<and>
      denoted str base = (let v = int (positional B (takeWhile (\<lambda>c. figure c < B) f)) in
        if figure (hd f) < B then Some (if minus then - v else v, dropWhile (\<lambda>c. figure c < B) f) else None)"
proof -
  define s where "s = dropWhile white str"
  define r where "r = (if hd s \<in> {45, 43} then tl s else s)"
  have s: "skip_space str = Some s" "skip_sign s = Some (hd s = 45, r)" "0 \<in> set r"
    using skip_space_white [OF assms] skip_sign_text [of s] by (auto simp: s_def r_def)
  show thesis
  proof (rule that [OF s(1,2)])
    assume "base = 0 \<or> 2 \<le> base \<and> base \<le> 36"
    note b = choose_base_text [OF s(3) this]
    obtain c where c: "byte_at (figures_of base r) 0 = Some c"
      "get_num c (int (base_of base r)) < 0 \<longleftrightarrow> \<not> figure (hd (figures_of base r)) < base_of base r"
      using first_figure [OF b(2,4)] by blast
    show "\<exists>B f c. choose_base base r = Some (Some (int B, f)) \<and> 0 \<in> set f \<and> 2 \<le> B \<and> B \<le> 36 \<and>
      byte_at f 0 = Some c \<and> (get_num c (int B) < 0 \<longleftrightarrow> \<not> figure (hd f) < B) \<and>
      denoted str base = (let v = int (positional B (takeWhile (\<lambda>c. figure c < B) f)) in
        if figure (hd f) < B then Some (if hd s = 45 then - v else v, dropWhile (\<lambda>c. figure c < B) f) else None)"
      by (intro exI [of _ "base_of base r"] exI [of _ "figures_of base r"] exI [of _ c] conjI b c)
        (simp only: denoted_def Let_def s_def [symmetric] r_def [symmetric])
  qed
qed

lemma strtol_text:
  assumes "0 \<in> set str"
  shows "\<exists>w err e. strtol str base = Some (w, err, e) \<and>
    (if base \<noteq> 0 \<and> (base < 2 \<or> 36 < base) then sint w = 0 \<and> err = EINVAL \<and> e = str
     else
       (case denoted str base of
          None \<Rightarrow> sint w = 0 \<and> err = 0 \<and> e = str
        | Some (v, rest) \<Rightarrow> sint w = max (- (2 ^ 31)) (min v (2 ^ 31 - 1)) \<and>
            err = (if - (2 ^ 31) \<le> v \<and> v < 2 ^ 31 then 0 else ERANGE) \<and> e = rest))"
proof (rule text_parts [OF assms, of base])
  fix s minus r
  assume s: "skip_space str = Some s" "skip_sign s = Some (minus, r)"
    and parts: "base = 0 \<or> 2 \<le> base \<and> base \<le> 36 \<Longrightarrow> \<exists>B f c. choose_base base r = Some (Some (int B, f)) \<and> 0 \<in> set f \<and> 2 \<le> B \<and> B \<le> 36 \<and>
      byte_at f 0 = Some c \<and> (get_num c (int B) < 0 \<longleftrightarrow> \<not> figure (hd f) < B) \<and>
      denoted str base = (let v = int (positional B (takeWhile (\<lambda>c. figure c < B) f)) in
        if figure (hd f) < B then Some (if minus then - v else v, dropWhile (\<lambda>c. figure c < B) f) else None)"
  show ?thesis
  proof (cases "base \<noteq> 0 \<and> (base < 2 \<or> 36 < base)")
    case True
    then show ?thesis using s by (auto simp: strtol_def choose_base_def)
  next
    case False
    then have "base = 0 \<or> 2 \<le> base \<and> base \<le> 36" by auto
    from parts [OF this] obtain B f c where b: "choose_base base r = Some (Some (int B, f))" "0 \<in> set f" "2 \<le> B" "B \<le> 36"
      "byte_at f 0 = Some c" "get_num c (int B) < 0 \<longleftrightarrow> \<not> figure (hd f) < B"
      and dn: "denoted str base = (let v = int (positional B (takeWhile (\<lambda>c. figure c < B) f)) in
        if figure (hd f) < B then Some (if minus then - v else v, dropWhile (\<lambda>c. figure c < B) f) else None)" by blast
    define v where "v = int (positional B (takeWhile (\<lambda>c. figure c < B) f))"
    let ?mx = "if minus then LONG_MIN else LONG_MAX"
    have "strtol_loop (int B) ?mx 0 0 f =
        Some (word_of_int (min v (uint ?mx)), if v \<le> uint ?mx then 0 else ERANGE, dropWhile (\<lambda>c. figure c < B) f)"
      using strtol_loop_text [OF b(2-4), of ?mx] by (simp add: v_def Let_def)
    then have st: "strtol str base = (if figure (hd f) < B then
        Some (if minus then - word_of_int (min v (uint ?mx)) else word_of_int (min v (uint ?mx)),
          if v \<le> uint ?mx then 0 else ERANGE, dropWhile (\<lambda>c. figure c < B) f) else Some (0, 0, str))"
      using s b(1,5,6) by (simp add: strtol_def)
    have "sint (- word_of_int (min v (2 ^ 31)) :: u32) = - min v (2 ^ 31)"
      "sint (word_of_int (min v (2 ^ 31 - 1)) :: u32) = min v (2 ^ 31 - 1)" "0 \<le> v"
      using sint_small [of "- min v (2 ^ 31)"] sint_small [of "min v (2 ^ 31 - 1)"] by (auto simp: v_def)
    then show ?thesis unfolding st dn v_def [symmetric] Let_def using False by (cases minus) (auto simp: min_def max_def)
  qed
qed

text \<open>
  C15. \<^verbatim>\<open>strtol\<close> on any string that is terminated, with any base: a base other than 0 and 2 to 36 is refused with
  \<^verbatim>\<open>EINVAL\<close>. Otherwise a text without a number gives 0, with \<^verbatim>\<open>endptr\<close> left at the start. A number, in the base that is given or that
  the prefix says, is returned with \<^verbatim>\<open>endptr\<close> at the first character behind it; one outside \<^verbatim>\<open>long\<close>, however long, is replaced
  by the nearest bound and reported with \<^verbatim>\<open>ERANGE\<close>.
\<close>

theorem strtol_value:
  assumes "0 \<in> set str"
  shows "\<exists>w err e. strtol str base = Some (w, err, e) \<and>
    (if base \<noteq> 0 \<and> (base < 2 \<or> 36 < base) then sint w = 0 \<and> err = EINVAL \<and> e = str
     else
       (case denoted str base of
          None \<Rightarrow> sint w = 0 \<and> err = 0 \<and> e = str
        | Some (v, rest) \<Rightarrow> sint w = max (- (2 ^ 31)) (min v (2 ^ 31 - 1)) \<and>
            err = (if - (2 ^ 31) \<le> v \<and> v < 2 ^ 31 then 0 else ERANGE) \<and> e = rest))"
  using assms by (rule strtol_text)

text \<open>The text \<open>" -0x2A;"\<close> and its value.\<close>

theorem strtol_value_witness:
  "\<exists>w. strtol [32, 45, 48, 120, 50, 65, 59, 0] 0 = Some (w, 0, [59, 0]) \<and> sint w = - 42"
proof -
  have "denoted [32, 45, 48, 120, 50, 65, 59, 0] 0 = Some (- 42, [59, 0])"
    by (simp add: denoted_def white_def base_of_def figures_of_def hex_prefixed_def figure_def positional_def Let_def)
  then show ?thesis using strtol_value [of "[32, 45, 48, 120, 50, 65, 59, 0]" 0] by auto
qed

text \<open>
  \<^verbatim>\<open>strtoul\<close> cuts a number off at the greatest word, and negates what is left.
\<close>

theorem strtoul_value:
  assumes "0 \<in> set str" "base = 0 \<or> 2 \<le> base \<and> base \<le> 36"
  shows "strtoul str base =
    (case denoted str base of
       None \<Rightarrow> Some (0, 0, str)
     | Some (v, rest) \<Rightarrow>
         Some (word_of_int (max (- (2 ^ 32 - 1)) (min v (2 ^ 32 - 1))), if \<bar>v\<bar> < 2 ^ 32 then 0 else ERANGE, rest))"
proof (rule text_parts [OF assms(1), of base])
  fix s minus r
  assume s: "skip_space str = Some s" "skip_sign s = Some (minus, r)"
    and parts: "base = 0 \<or> 2 \<le> base \<and> base \<le> 36 \<Longrightarrow> \<exists>B f c. choose_base base r = Some (Some (int B, f)) \<and> 0 \<in> set f \<and> 2 \<le> B \<and> B \<le> 36 \<and>
      byte_at f 0 = Some c \<and> (get_num c (int B) < 0 \<longleftrightarrow> \<not> figure (hd f) < B) \<and>
      denoted str base = (let v = int (positional B (takeWhile (\<lambda>c. figure c < B) f)) in
        if figure (hd f) < B then Some (if minus then - v else v, dropWhile (\<lambda>c. figure c < B) f) else None)"
  from parts [OF assms(2)] obtain B f c where b: "choose_base base r = Some (Some (int B, f))" "0 \<in> set f" "2 \<le> B" "B \<le> 36"
    "byte_at f 0 = Some c" "get_num c (int B) < 0 \<longleftrightarrow> \<not> figure (hd f) < B"
    and dn: "denoted str base = (let v = int (positional B (takeWhile (\<lambda>c. figure c < B) f)) in
      if figure (hd f) < B then Some (if minus then - v else v, dropWhile (\<lambda>c. figure c < B) f) else None)" by blast
  define v where "v = int (positional B (takeWhile (\<lambda>c. figure c < B) f))"
  have m: "uint (- 1 :: u32) = 2 ^ 32 - 1" by (simp add: unsigned_minus_1_eq_mask mask_eq_exp_minus_1)
  define M :: int where "M = 2 ^ 32 - 1"
  have "strtoul_loop (int B) 0 0 f = Some (word_of_int (min v M), if v \<le> M then 0 else ERANGE, dropWhile (\<lambda>c. figure c < B) f)"
    using strtol_loop_text [OF b(2-4), of "- 1"] unfolding strtoul_loop_strtol m by (simp add: v_def M_def Let_def)
  then have st: "strtoul str base = (if figure (hd f) < B then
      Some (if minus then - word_of_int (min v M) else word_of_int (min v M), if v \<le> M then 0 else ERANGE, dropWhile (\<lambda>c. figure c < B) f)
      else Some (0, 0, str))"
    using s b(1,5,6) by (simp add: strtoul_def)
  have w: "word_of_int (max (- M) (min v M)) = (word_of_int (min v M) :: u32)"
    "word_of_int (max (- M) (min (- v) M)) = (- word_of_int (min v M) :: u32)"
  proof -
    have "max (- M) (min v M) = min v M" "max (- M) (min (- v) M) = - min v M" by (auto simp: v_def M_def)
    then show "word_of_int (max (- M) (min v M)) = (word_of_int (min v M) :: u32)"
      "word_of_int (max (- M) (min (- v) M)) = (- word_of_int (min v M) :: u32)" by (simp_all only: wi_hom_neg)
  qed
  have "\<bar>v\<bar> < 2 ^ 32 \<longleftrightarrow> v \<le> M" by (auto simp: v_def M_def)
  then show ?thesis unfolding st dn v_def [symmetric] Let_def M_def [symmetric]
    by (cases "figure (hd f) < B"; cases minus) (simp_all only: w abs_minus_cancel if_True if_False option.case prod.case)
qed

theorem strtoul_value_witness: "strtoul [45, 49, 0] 0 = Some (- 1, 0, [0])"
proof -
  have "denoted [45, 49, 0] 0 = Some (- 1, [0])"
    by (simp add: denoted_def white_def base_of_def figures_of_def hex_prefixed_def figure_def positional_def Let_def)
  then show ?thesis using strtoul_value [of "[45, 49, 0]" 0] by simp
qed

text \<open>A decimal number in the middle of nothing else.\<close>

lemma denoted_decimal:
  assumes "sg = [] \<or> sg = [45]" "ds \<noteq> []" "\<forall>d \<in> set ds. figure d < 10"
  shows "denoted (sg @ ds @ 0 # r) 10 =
    Some (if sg = [45] then - int (positional 10 ds) else int (positional 10 ds), 0 # r)"
proof -
  obtain d q where ds: "ds = d # q" using assms(2) by (cases ds) auto
  have d: "figure d < 10" using assms(3) ds by simp
  have "\<not> white d" "d \<noteq> 45" "d \<noteq> 43" using d by (auto simp: figure_def white_def word_le_nat_alt split: if_splits)
  then have "dropWhile white (sg @ ds @ 0 # r) = sg @ ds @ 0 # r" "hd ds \<noteq> 45" "hd ds \<noteq> 43"
    using assms(1) ds by (auto simp: white_def)
  moreover have "takeWhile (\<lambda>c. figure c < 10) (ds @ 0 # r) = ds" "dropWhile (\<lambda>c. figure c < 10) (ds @ 0 # r) = 0 # r"
    using assms(3) by simp_all
  ultimately show ?thesis using assms(1,2) d ds by (auto simp: denoted_def Let_def base_of_def figures_of_def)
qed

subsection \<open>Conversions without a report\<close>

lemma get_num_10: "0 \<le> get_num (uint c) 10 \<longleftrightarrow> isdigit (uint c) \<noteq> 0" "isdigit (uint c) \<noteq> 0 \<Longrightarrow> get_num (uint c) 10 = uint c - 48"
  for c :: u8
  using ctype_tests(1) [OF byte_range(1,2) [of c]] by (auto simp: get_num_def Let_def)

lemma range_error_stays: "strtol_loop base mx v ERANGE r = Some (w, e, r') \<Longrightarrow> e = ERANGE"
  by (induction base mx v "ERANGE :: int" r rule: strtol_loop.induct) (auto simp: Let_def split: if_splits)

lemma atoi_loop_strtol: "strtol_loop 10 mx v e r = Some (w, 0, r') \<Longrightarrow> atoi_loop v r = Some w"
proof (induction v r arbitrary: e rule: atoi_loop.induct)
  case (2 v c r)
  show ?case
  proof (cases "isdigit (uint c) \<noteq> 0")
    case True
    then have "strtol_loop 10 mx (v * 10 + word_of_int (uint c - 48)) e r = Some (w, 0, r')"
      using 2(2) get_num_10 [of c] range_error_stays [of 10 mx mx r w 0 r'] by (auto simp: Let_def split: if_splits)
    from 2(1) [OF True this] True show ?thesis by simp
  next
    case False
    then show ?thesis using 2(2) get_num_10(1) [of c] by (auto simp: Let_def)
  qed
qed simp

text \<open>
  On every string whose number \<^verbatim>\<open>strtol\<close> converts to base 10 without an error,
  \<^verbatim>\<open>atoi\<close> returns the same value.
\<close>

theorem atoi_is_strtol:
  assumes "strtol p 10 = Some (w, 0, e)"
  shows "atoi p = Some w"
proof -
  from assms obtain r minus r' c where r: "skip_space p = Some r" "skip_sign r = Some (minus, r')" "byte_at r' 0 = Some c"
    by (auto simp: strtol_def choose_base_def split: bind_splits if_splits)
  then obtain b bs where b: "r' = b # bs" "c = uint b" by (cases r') (auto simp: byte_at_def)
  show ?thesis
  proof (cases "get_num c 10 < 0")
    case True
    then have "w = 0" "isdigit (uint b) = 0" using assms r get_num_10(1) [of b] b
      by (auto simp: strtol_def choose_base_def)
    then show ?thesis using r b by (simp add: atoi_def)
  next
    case False
    then obtain v where v: "strtol_loop 10 (if minus then LONG_MIN else LONG_MAX) 0 0 r' = Some (v, 0, e)"
        "w = (if minus then - v else v)"
      using assms r by (auto simp: strtol_def choose_base_def split: bind_splits)
    then show ?thesis using r atoi_loop_strtol [OF v(1)] by (simp add: atoi_def)
  qed
qed

theorem atoi_is_strtol_witness: "atoi [49, 50, 0] = Some 12"
proof (rule atoi_is_strtol)
  have "isspace 49 = 0" using ctype_tests(4) [of 49] by simp
  then show "strtol [49, 50, 0] 10 = Some (12, 0, [0])"
    by (simp add: strtol_def choose_base_def byte_at_def skip_sign_def get_num_def toupper_range Let_def)
qed

end
