(* ===== verification/Nc_Bignum.thy ===== *)
theory Nc_Bignum
  imports Eo_Prelude "HOL-Library.Monad_Syntax"
begin

section \<open>Large numbers of the formatted output\<close>

text \<open>
  The numbers of \<^verbatim>\<open>src/lib/libnc/stdio/vnprintf2.c\<close> that hold the digits of a
  floating-point value: an array of 32-bit words, least significant first, of which the
  first \<^verbatim>\<open>len\<close> are in use. The size \<^verbatim>\<open>max\<close> of the array is the length of the list. The
  argument \<open>alloc\<close> says whether \<^verbatim>\<open>malloc\<close> grants a number of bytes for the structure (\<^const>\<open>False\<close>) or for
  an array (\<^const>\<open>True\<close>). A new array holds
  zeros where the code leaves it uninitialised; these entries are written before they are read.
\<close>

type_synonym u64 = "64 word"

record number_t =
  n_minus :: bool
  n_len :: nat
  n_buf :: "u32 list"

abbreviation (input) NUMBER_MIN_UNITS :: nat where "NUMBER_MIN_UNITS \<equiv> 4"
abbreviation (input) NUMBER_ARRAY_MAX :: nat where "NUMBER_ARRAY_MAX \<equiv> 4"

definition number_create :: "(bool \<Rightarrow> nat \<Rightarrow> bool) \<Rightarrow> u64 \<Rightarrow> bool \<Rightarrow> number_t option" where
  "number_create alloc x neg =
    (if \<not> alloc False 16 then None
     else if \<not> alloc True (NUMBER_ARRAY_MAX * 4) then None
     else
       (let lo = ucast x; hi = ucast (drop_bit 32 x); lst = (if hi \<noteq> 0 then 1 else 0)
        in Some \<lparr>n_minus = neg, n_len = lst + 1, n_buf = [lo, hi, 0, 0]\<rparr>))"

definition round_units :: "nat \<Rightarrow> nat" where
  "round_units l = (l + NUMBER_MIN_UNITS - 1) div NUMBER_MIN_UNITS * NUMBER_MIN_UNITS"

text \<open>The loop of \<^verbatim>\<open>number_multiply\<close>; \<open>src\<close> is the old array when there is a new one.\<close>

fun multiply_loop :: "u32 list option \<Rightarrow> nat \<Rightarrow> u32 \<Rightarrow> nat \<Rightarrow> nat \<Rightarrow> u32 \<Rightarrow> nat \<Rightarrow> u32 list
    \<Rightarrow> (nat \<times> u32 list) option" where
  "multiply_loop src plen n 0 i carry lst buf = Some (lst, buf)"
| "multiply_loop src plen n (Suc k) i carry lst buf = do {
     v \<leftarrow> (if i < plen
           then do { w \<leftarrow> rd (case src of Some old \<Rightarrow> old | None \<Rightarrow> buf) i; Some ((ucast w :: u64) * ucast n) }
           else Some 0);
     let v = v + ucast carry;
     buf \<leftarrow> wr buf i (ucast v);
     multiply_loop src plen n k (Suc i) (ucast (drop_bit 32 v)) (if v \<noteq> 0 then i else lst) buf
   }"

definition number_multiply :: "(bool \<Rightarrow> nat \<Rightarrow> bool) \<Rightarrow> number_t \<Rightarrow> u32 \<Rightarrow> (int \<times> number_t) option" where
  "number_multiply alloc p n =
    (let len = n_len p + 1 in
     if length (n_buf p) < len then
       (let mx = round_units len in
        if \<not> alloc True (mx * 4) then Some (- 1, p)
        else do {
          (lst, buf) \<leftarrow> multiply_loop (Some (n_buf p)) (n_len p) n len 0 0 0 (replicate mx 0);
          Some (0, p\<lparr>n_len := lst + 1, n_buf := buf\<rparr>)
        })
     else do {
       (lst, buf) \<leftarrow> multiply_loop None (n_len p) n len 0 0 0 (n_buf p);
       Some (0, p\<lparr>n_len := lst + 1, n_buf := buf\<rparr>)
     })"

text \<open>The loops of \<^verbatim>\<open>number_shift\<close>; \<open>k\<close> is the number of words left, \<open>i\<close> the index above the next.\<close>

fun move_loop :: "nat \<Rightarrow> nat \<Rightarrow> nat \<Rightarrow> u32 list \<Rightarrow> u32 list option" where
  "move_loop q 0 i buf = Some buf"
| "move_loop q (Suc k) i buf = do {
     w \<leftarrow> rd buf (i - 1);
     buf \<leftarrow> wr buf (i - 1 + q) w;
     move_loop q k (i - 1) buf
   }"

fun shift_loop :: "nat \<Rightarrow> nat \<Rightarrow> nat \<Rightarrow> nat \<Rightarrow> u32 \<Rightarrow> u32 list \<Rightarrow> (u32 \<times> u32 list) option" where
  "shift_loop q r 0 i rest buf = Some (rest, buf)"
| "shift_loop q r (Suc k) i rest buf = do {
     w \<leftarrow> rd buf (i - 1);
     buf \<leftarrow> wr buf (i - 1 + q + 1) (rest OR drop_bit (32 - r) w);
     shift_loop q r k (i - 1) (push_bit r w) buf
   }"

definition clear_words :: "nat \<Rightarrow> nat \<Rightarrow> u32 list \<Rightarrow> u32 list" where
  "clear_words a b buf = fold (\<lambda>i buf. buf[i := 0]) [a..<b] buf"

definition shift_words :: "number_t \<Rightarrow> nat \<Rightarrow> nat \<Rightarrow> u32 list \<Rightarrow> (int \<times> number_t) option" where
  "shift_words p n first_block buf =
    (let len = n_len p; q = n div 32; r = n - q * 32 in do {
       (len', buf) \<leftarrow>
         (if r = 0 then do {
            buf \<leftarrow> move_loop q (len - first_block) len buf;
            Some (len + q, buf)
          } else do {
            (rest, buf) \<leftarrow> shift_loop q r (len - first_block) len 0 buf;
            buf \<leftarrow> wr buf (first_block + q) rest;
            w \<leftarrow> rd buf (len + q);
            Some (if w \<noteq> 0 then len + q + 1 else len + q, buf)
          });
       Some (0, p\<lparr>n_len := len',
         n_buf := clear_words first_block (if first_block + q < len then first_block + q else len) buf\<rparr>)
     })"

definition number_shift :: "(bool \<Rightarrow> nat \<Rightarrow> bool) \<Rightarrow> number_t \<Rightarrow> int \<Rightarrow> (int \<times> number_t) option" where
  "number_shift alloc p n =
    (if n < 0 then Some (- 1, p)
     else if n = 0 then Some (0, p)
     else
       (case List.find (\<lambda>i. n_buf p ! i \<noteq> 0) [0..<n_len p] of
          None \<Rightarrow> Some (0, p)
        | Some first_block \<Rightarrow>
            (let len = n_len p + (nat n + 31) div 32; mx = round_units len in
             if length (n_buf p) < len then
               (if \<not> alloc True (mx * 4) then Some (- 1, p)
                else shift_words p (nat n) first_block (take (n_len p) (n_buf p) @ replicate (mx - n_len p) 0))
             else shift_words p (nat n) first_block (n_buf p))))"

text \<open>
  The loop of \<^verbatim>\<open>number_divide_10\<close>. The dividends stay below \<open>10 * 2 ^ 16\<close>, so the signed
  division of \<^verbatim>\<open>ldiv\<close> is the division of the words.
\<close>

fun divide_loop :: "nat \<Rightarrow> u32 \<Rightarrow> nat \<Rightarrow> u32 list \<Rightarrow> (u32 \<times> nat \<times> u32 list) option" where
  "divide_loop 0 reminder lst buf = Some (reminder, lst, buf)"
| "divide_loop (Suc i) reminder lst buf = do {
     w \<leftarrow> rd buf i;
     let x = push_bit 16 reminder OR drop_bit 16 w;
     let q = push_bit 16 (x div 10);
     let x = push_bit 16 (x mod 10) OR (w AND 0xffff);
     let q = q OR (x div 10);
     buf \<leftarrow> wr buf i q;
     divide_loop i (x mod 10) (if lst = 0 \<and> q \<noteq> 0 then i else lst) buf
   }"

definition number_divide_10 :: "number_t \<Rightarrow> (u32 \<times> number_t) option" where
  "number_divide_10 p = do {
     (reminder, lst, buf) \<leftarrow> divide_loop (n_len p) 0 0 (n_buf p);
     Some (reminder, p\<lparr>n_len := lst + 1, n_buf := buf\<rparr>)
   }"

text \<open>
  \<^verbatim>\<open>_number_to_decimal\<close> fills a buffer from its end; \<open>i\<close> is the index of the character
  written last, \<open>cs\<close> the characters from there on, without the terminator.
\<close>

fun number_to_decimal :: "nat \<Rightarrow> number_t \<Rightarrow> u8 list \<Rightarrow> (nat \<times> u8 list) option" where
  "number_to_decimal i num cs = do {
     b \<leftarrow> rd (n_buf num) 0;
     if n_len num > 1 \<or> b \<noteq> 0 then
       (case i of
          0 \<Rightarrow> None
        | Suc j \<Rightarrow> do {
            (d, num) \<leftarrow> number_divide_10 num;
            number_to_decimal j num (ucast (d + 48) # cs)
          })
     else Some (i, cs)
   }"

declare number_to_decimal.simps [simp del]

subsection \<open>The number in an array\<close>

fun val :: "u32 list \<Rightarrow> nat" where
  "val [] = 0"
| "val (w # ws) = unat w + 2 ^ 32 * val ws"

definition num_ok :: "number_t \<Rightarrow> bool" where
  "num_ok p \<longleftrightarrow> 0 < n_len p \<and> n_len p \<le> length (n_buf p) \<and> (\<forall>i < length (n_buf p). n_len p \<le> i \<longrightarrow> n_buf p ! i = 0) \<and>
    (1 < n_len p \<longrightarrow> n_buf p ! (n_len p - 1) \<noteq> 0)"

definition num_val :: "number_t \<Rightarrow> nat" where
  "num_val p = val (n_buf p)"

lemma val_append: "val (xs @ ys) = val xs + 2 ^ (32 * length xs) * val ys"
  by (induction xs) (simp_all add: algebra_simps power_add)

lemma val_zero: "val ws = 0 \<longleftrightarrow> (\<forall>w \<in> set ws. w = 0)"
  by (induction ws) (auto simp: unat_eq_zero)

lemma val_less: "val ws < 2 ^ (32 * length ws)"
proof (induction ws)
  case (Cons w ws)
  have "unat w + 2 ^ 32 * val ws < 2 ^ 32 * (val ws + 1)" using unat_u32_less [of w] by simp
  also have "\<dots> \<le> 2 ^ 32 * 2 ^ (32 * length ws)" using Cons by (intro mult_left_mono) auto
  finally show ?case by (simp add: power_add)
qed simp

lemma num_val_take:
  assumes "num_ok p"
  shows "num_val p = val (take (n_len p) (n_buf p))"
proof -
  have "val (drop (n_len p) (n_buf p)) = 0"
    using assms unfolding val_zero num_ok_def by (auto simp: in_set_conv_nth)
  then show ?thesis using val_append [of "take (n_len p) (n_buf p)" "drop (n_len p) (n_buf p)"]
    by (simp add: num_val_def)
qed

subsection \<open>Multiplication\<close>

lemma unat_up: "unat (ucast w :: u64) = unat w" for w :: u32
proof -
  have "unat w < 2 ^ 64" using unat_u32_less [of w] by (rule less_trans) simp
  then show ?thesis by (simp add: unsigned_ucast_eq take_bit_nat_eq_self)
qed

lemma unat_down: "unat (ucast v :: u32) = unat v mod 2 ^ 32" for v :: u64
  by (simp add: unsigned_ucast_eq unsigned_take_bit_eq take_bit_nat_def)

lemma unat_high: "unat (ucast (drop_bit 32 v) :: u32) = unat v div 2 ^ 32" for v :: u64
proof -
  have "unat (drop_bit 32 v) = unat v div 2 ^ 32" by (simp add: drop_bit_eq_div unat_div)
  moreover have "unat v div 2 ^ 32 < 2 ^ 32" using unsigned_less [of v, where ?'a = nat] by (simp add: less_mult_imp_div_less)
  ultimately show ?thesis by (simp add: unat_down)
qed

lemma unat_u32_le: "unat (w :: u32) \<le> 4294967295"
  using unat_u32_less [of w] by linarith

definition product :: "u32 \<Rightarrow> u32 \<Rightarrow> u32 \<Rightarrow> u64" where
  "product w n carry = ucast w * ucast n + ucast carry"

lemma unat_product: "unat (product w n carry) = unat w * unat n + unat carry"
proof -
  have "unat w * unat n \<le> 4294967295 * 4294967295" by (intro mult_mono unat_u32_le) auto
  then have "unat w * unat n \<le> 18446744065119617025" by simp
  then have "unat w * unat n + unat carry < 18446744073709551616" using unat_u32_le [of carry] by linarith
  then show ?thesis
    by (simp add: product_def unat_word_ariths unat_up)
qed

text \<open>The digits of a product, as the loop produces them.\<close>

fun mul_digits :: "u32 \<Rightarrow> u32 \<Rightarrow> u32 list \<Rightarrow> u32 list" where
  "mul_digits n carry [] = []"
| "mul_digits n carry (w # ws) =
    ucast (product w n carry) # mul_digits n (ucast (drop_bit 32 (product w n carry))) ws"

lemma length_mul_digits [simp]: "length (mul_digits n carry ws) = length ws"
  by (induction n carry ws rule: mul_digits.induct) auto

lemma val_mul_digits:
  "val (mul_digits n carry (ws @ [0])) = val ws * unat n + unat carry"
proof (induction ws arbitrary: carry)
  case Nil
  have "product 0 n carry = ucast carry" by (simp add: product_def)
  then show ?case by (simp add: unat_down unat_up)
next
  case (Cons w ws)
  let ?v = "unat w * unat n + unat carry"
  have "val (mul_digits n carry ((w # ws) @ [0])) = ?v mod 2 ^ 32 + 2 ^ 32 * (val ws * unat n + ?v div 2 ^ 32)"
    by (simp only: append_Cons mul_digits.simps val.simps Cons unat_high) (simp only: unat_down unat_product)
  also have "\<dots> = ?v + 2 ^ 32 * (val ws * unat n)"
    by (simp add: algebra_simps)
  finally show ?case by (simp add: algebra_simps)
qed

fun mul_last :: "u32 \<Rightarrow> u32 \<Rightarrow> nat \<Rightarrow> nat \<Rightarrow> u32 list \<Rightarrow> nat" where
  "mul_last n carry i lst [] = lst"
| "mul_last n carry i lst (w # ws) =
    mul_last n (ucast (drop_bit 32 (product w n carry))) (Suc i) (if product w n carry \<noteq> 0 then i else lst) ws"

lemma multiply_loop_digits:
  assumes "length xs = length ws" "length ds = i"
    "\<forall>j < length ws. i + j < plen \<longrightarrow>
      (case src of Some old \<Rightarrow> i + j < length old \<and> old ! (i + j) = ws ! j | None \<Rightarrow> xs ! j = ws ! j)"
    "\<forall>j < length ws. plen \<le> i + j \<longrightarrow> ws ! j = 0"
  shows "multiply_loop src plen n (length ws) i carry lst (ds @ xs @ ys) =
    Some (mul_last n carry i lst ws, ds @ mul_digits n carry ws @ ys)"
  using assms
proof (induction ws arbitrary: xs ds i carry lst)
  case (Cons w ws)
  from Cons.prems(1) obtain x xs' where xs: "xs = x # xs'" "length xs' = length ws" by (cases xs) auto
  have v: "(if i < plen
           then do { w \<leftarrow> rd (case src of Some old \<Rightarrow> old | None \<Rightarrow> ds @ xs @ ys) i; Some ((ucast w :: u64) * ucast n) }
           else Some 0) = Some (ucast w * ucast n)"
  proof (cases "i < plen")
    case True
    have "rd (case src of Some old \<Rightarrow> old | None \<Rightarrow> ds @ xs @ ys) i = Some w"
      using Cons.prems(2) Cons.prems(3) [rule_format, of 0] True rd_append [of ds x "xs' @ ys"]
      by (auto simp: xs rd_def split: option.splits)
    then show ?thesis using True by simp
  next
    case False
    then show ?thesis using Cons.prems(4) [rule_format, of 0] by simp
  qed
  let ?v = "product w n carry"
  have "wr (ds @ xs @ ys) i (ucast ?v) = Some ((ds @ [ucast ?v]) @ xs' @ ys)"
    using wr_append [of ds x "xs' @ ys" "ucast ?v"] Cons.prems(2) by (simp add: xs)
  then have "multiply_loop src plen n (length (w # ws)) i carry lst (ds @ xs @ ys) =
      multiply_loop src plen n (length ws) (Suc i) (ucast (drop_bit 32 ?v)) (if ?v \<noteq> 0 then i else lst)
        ((ds @ [ucast ?v]) @ xs' @ ys)"
    by (simp only: list.size One_nat_def add_Suc_right add_0_right multiply_loop.simps v) (simp add: product_def Let_def)
  also have "\<dots> = Some (mul_last n (ucast (drop_bit 32 ?v)) (Suc i) (if ?v \<noteq> 0 then i else lst) ws,
      (ds @ [ucast ?v]) @ mul_digits n (ucast (drop_bit 32 ?v)) ws @ ys)"
  proof (rule Cons.IH)
    show "\<forall>j < length ws. Suc i + j < plen \<longrightarrow>
        (case src of Some old \<Rightarrow> Suc i + j < length old \<and> old ! (Suc i + j) = ws ! j | None \<Rightarrow> xs' ! j = ws ! j)"
    proof (intro allI impI)
      fix j
      assume "j < length ws" "Suc i + j < plen"
      then show "case src of Some old \<Rightarrow> Suc i + j < length old \<and> old ! (Suc i + j) = ws ! j | None \<Rightarrow> xs' ! j = ws ! j"
        using Cons.prems(3) [rule_format, of "Suc j"] by (simp add: xs split: option.splits)
    qed
    show "\<forall>j < length ws. plen \<le> Suc i + j \<longrightarrow> ws ! j = 0"
      using Cons.prems(4) by (metis Suc_less_eq add_Suc add_Suc_right length_Cons nth_Cons_Suc)
  qed (use xs Cons.prems(2) in auto)
  finally show ?case by simp
qed simp

lemma mul_last_spec:
  assumes "lst \<le> i"
  shows "(\<forall>j < length (ws @ [0]). mul_last n carry i lst (ws @ [0]) < i + j \<longrightarrow> mul_digits n carry (ws @ [0]) ! j = 0) \<and>
    (mul_last n carry i lst (ws @ [0]) = lst \<or>
     i \<le> mul_last n carry i lst (ws @ [0]) \<and> mul_last n carry i lst (ws @ [0]) < i + length (ws @ [0]) \<and>
     mul_digits n carry (ws @ [0]) ! (mul_last n carry i lst (ws @ [0]) - i) \<noteq> 0)"
  using assms
proof (induction ws arbitrary: carry i lst)
  case Nil
  have p: "product 0 n carry = ucast carry" by (simp add: product_def)
  have "ucast carry = (0 :: u64) \<longleftrightarrow> carry = 0" by (metis unat_up unat_eq_zero unsigned_0)
  moreover have "ucast (ucast carry :: u64) = carry" by (simp only: word_unat_eq_iff unat_down unat_up) simp
  ultimately show ?case by (auto simp: p)
next
  case (Cons w ws)
  let ?v = "product w n carry"
  let ?c = "ucast (drop_bit 32 ?v) :: u32" and ?l = "if ?v \<noteq> 0 then i else lst"
  let ?m = "mul_last n ?c (Suc i) ?l (ws @ [0])" and ?d = "mul_digits n ?c (ws @ [0])"
  have le: "?l \<le> Suc i" using Cons.prems by simp
  have high: "\<forall>j < length (ws @ [0]). ?m < Suc i + j \<longrightarrow> ?d ! j = 0"
    and low: "?m = ?l \<or> Suc i \<le> ?m \<and> ?m < Suc i + length (ws @ [0]) \<and> ?d ! (?m - Suc i) \<noteq> 0"
    using Cons.IH [OF le, of ?c] by blast+
  have first: "ucast ?v \<noteq> (0 :: u32) \<and> ?m = i" if "?m < Suc i" "?v \<noteq> 0"
  proof -
    have "?m = i" using low that by auto
    then have "val ?d = 0" using high unfolding val_zero by (auto simp: in_set_conv_nth)
    then have "unat ?c = 0" unfolding val_mul_digits by simp
    then have "unat ?v div 2 ^ 32 = 0" by (simp only: unat_high)
    then have "unat ?v mod 2 ^ 32 \<noteq> 0" using that by (simp add: unat_eq_zero)
    then have "unat (ucast ?v :: u32) \<noteq> 0" by (simp only: unat_down not_False_eq_True)
    then show ?thesis using \<open>?m = i\<close> by auto
  qed
  have m: "mul_last n carry i lst ((w # ws) @ [0]) = ?m" and d: "mul_digits n carry ((w # ws) @ [0]) = ucast ?v # ?d"
    by simp_all
  have zero: "ucast ?v = (0 :: u32)" if "?m < i" using first that low Cons.prems by (cases "?v = 0") auto
  show ?case unfolding m d
  proof (intro conjI allI impI)
    fix j
    assume j: "j < length ((w # ws) @ [0])" "?m < i + j"
    show "(ucast ?v # ?d) ! j = 0"
      using j zero high by (cases j) auto
  next
    show "?m = lst \<or> i \<le> ?m \<and> ?m < i + length ((w # ws) @ [0]) \<and> (ucast ?v # ?d) ! (?m - i) \<noteq> 0"
    proof (cases "?m < Suc i")
      case True
      then show ?thesis using first low by (cases "?v = 0") auto
    next
      case False
      then have "?m - i = Suc (?m - Suc i)" by simp
      then show ?thesis using False low by auto
    qed
  qed
qed

lemma product_ok:
  assumes zeros: "\<forall>w \<in> set ys. w = 0"
  shows "num_ok (p\<lparr>n_len := mul_last n 0 0 0 (ws @ [0]) + 1, n_buf := mul_digits n 0 (ws @ [0]) @ ys\<rparr>) \<and>
    num_val (p\<lparr>n_len := mul_last n 0 0 0 (ws @ [0]) + 1, n_buf := mul_digits n 0 (ws @ [0]) @ ys\<rparr>) = val ws * unat n"
proof -
  let ?d = "mul_digits n 0 (ws @ [0])" and ?m = "mul_last n 0 0 0 (ws @ [0])"
  have high: "\<forall>j < length (ws @ [0]). ?m < j \<longrightarrow> ?d ! j = 0" and low: "?m = 0 \<or> ?m < length (ws @ [0]) \<and> ?d ! ?m \<noteq> 0"
    using mul_last_spec [of 0 0 ws n 0] by auto
  have "val ys = 0" using zeros by (simp add: val_zero)
  then have "num_val (p\<lparr>n_len := ?m + 1, n_buf := ?d @ ys\<rparr>) = val ws * unat n"
    using val_mul_digits [of n 0 ws] by (simp add: num_val_def val_append)
  moreover have "?m < length (ws @ [0])" using low by auto
  moreover have "(?d @ ys) ! i = 0" if "i < length (?d @ ys)" "?m + 1 \<le> i" for i
  proof (cases "i < length ?d")
    case True
    then show ?thesis using high that by (simp add: nth_append)
  next
    case False
    then have "(?d @ ys) ! i \<in> set ys" using that by (simp add: nth_append)
    then show ?thesis using zeros by blast
  qed
  ultimately show ?thesis using low by (auto simp: num_ok_def nth_append)
qed

lemma number_multiply_correct:
  assumes "num_ok p"
  shows "(\<exists>p'. number_multiply alloc p n = Some (0, p') \<and> num_ok p' \<and> num_val p' = num_val p * unat n \<and>
      length (n_buf p') = (if length (n_buf p) < n_len p + 1 then round_units (n_len p + 1) else length (n_buf p))) \<or>
    number_multiply alloc p n = Some (- 1, p) \<and> length (n_buf p) < n_len p + 1 \<and> \<not> alloc True (round_units (n_len p + 1) * 4)"
proof -
  let ?ws = "take (n_len p) (n_buf p)"
  have len: "n_len p \<le> length (n_buf p)" and zero: "\<forall>i < length (n_buf p). n_len p \<le> i \<longrightarrow> n_buf p ! i = 0"
    using assms by (auto simp: num_ok_def)
  then have lw: "length (?ws @ [0]) = n_len p + 1" by simp
  have val: "num_val p = val ?ws" using assms by (rule num_val_take)
  consider (new) "length (n_buf p) < n_len p + 1" | (old) "n_len p + 1 \<le> length (n_buf p)" by linarith
  then show ?thesis
  proof cases
    case new
    let ?m = "round_units (n_len p + 1)"
    have m: "n_len p + 1 \<le> ?m" by (simp add: round_units_def)
    show ?thesis
    proof (cases "alloc True (?m * 4)")
      case True
      have "multiply_loop (Some (n_buf p)) (n_len p) n (length (?ws @ [0])) 0 0 0
          ([] @ replicate (n_len p + 1) 0 @ replicate (?m - (n_len p + 1)) 0) =
        Some (mul_last n 0 0 0 (?ws @ [0]), [] @ mul_digits n 0 (?ws @ [0]) @ replicate (?m - (n_len p + 1)) 0)"
        by (rule multiply_loop_digits) (use len in \<open>auto simp: nth_append\<close>)
      moreover have "[] @ replicate (n_len p + 1) 0 @ replicate (?m - (n_len p + 1)) 0 = replicate ?m (0 :: u32)"
        using m by (simp only: append_Nil flip: replicate_add) simp
      ultimately have "number_multiply alloc p n = Some (0, p\<lparr>n_len := mul_last n 0 0 0 (?ws @ [0]) + 1,
          n_buf := mul_digits n 0 (?ws @ [0]) @ replicate (?m - (n_len p + 1)) 0\<rparr>)"
        using new True by (simp only: number_multiply_def Let_def lw) simp
      then show ?thesis using product_ok [of "replicate (?m - (n_len p + 1)) 0" n ?ws p] val new m len by auto
    next
      case False
      then show ?thesis using new by (simp add: number_multiply_def Let_def)
    qed
  next
    case old
    let ?ys = "drop (n_len p + 1) (n_buf p)"
    have zs: "\<forall>w \<in> set ?ys. w = 0" using zero by (auto simp: in_set_conv_nth)
    have "multiply_loop None (n_len p) n (length (?ws @ [0])) 0 0 0 ([] @ take (n_len p + 1) (n_buf p) @ ?ys) =
        Some (mul_last n 0 0 0 (?ws @ [0]), [] @ mul_digits n 0 (?ws @ [0]) @ ?ys)"
      by (rule multiply_loop_digits) (use len old in \<open>auto simp: nth_append\<close>)
    then have "number_multiply alloc p n = Some (0, p\<lparr>n_len := mul_last n 0 0 0 (?ws @ [0]) + 1,
        n_buf := mul_digits n 0 (?ws @ [0]) @ ?ys\<rparr>)"
      using old by (simp only: number_multiply_def Let_def lw append_Nil append_take_drop_id) simp
    then show ?thesis using product_ok [OF zs, of n ?ws p] val old by auto
  qed
qed

subsection \<open>Division by ten\<close>

lemma unat_halves:
  fixes a b :: u32
  assumes "unat a < 2 ^ 16" "unat b < 2 ^ 16"
  shows "unat (push_bit 16 a OR b) = unat a * 2 ^ 16 + unat b"
proof -
  have b: "take_bit 16 b = b" using assms(2) by (simp only: word_unat_eq_iff unsigned_take_bit_eq take_bit_nat_eq_self)
  have "\<not> bit (push_bit 16 a) n \<or> \<not> bit b n" for n
    using b by (metis bit_push_bit_iff bit_take_bit_iff not_less)
  then have "push_bit 16 a OR b = push_bit 16 a + b" by (metis disjunctive_add)
  moreover have "unat (push_bit 16 a) = unat a * 2 ^ 16"
    using assms(1) by (simp add: push_bit_eq_mult unat_word_ariths)
  ultimately show ?thesis using assms by (simp add: unat_word_ariths)
qed

lemma scale_ten: "a * c = 10 * (a div 10 * c) + a mod 10 * c" for a c :: nat
proof -
  have "a * c = (a div 10 * 10 + a mod 10) * c" by simp
  then show ?thesis by (simp only: add_mult_distrib add_mult_distrib2 ac_simps)
qed

definition div_step :: "u32 \<Rightarrow> u32 \<Rightarrow> u32 \<times> u32" where
  "div_step r w =
    (let x = push_bit 16 r OR drop_bit 16 w; y = push_bit 16 (x mod 10) OR (w AND 0xffff)
     in (push_bit 16 (x div 10) OR (y div 10), y mod 10))"

lemma div_step_value:
  assumes "unat r < 10"
  shows "unat r * 2 ^ 32 + unat w = 10 * unat (fst (div_step r w)) + unat (snd (div_step r w))"
    "unat (snd (div_step r w)) < 10"
proof -
  define x where "x = push_bit 16 r OR drop_bit 16 w"
  define y where "y = push_bit 16 (x mod 10) OR (w AND 0xffff)"
  have hi: "unat (drop_bit 16 w) = unat w div 2 ^ 16" by (simp add: drop_bit_eq_div unat_div)
  have lo: "unat (w AND 0xffff) = unat w mod 2 ^ 16"
  proof -
    have "w AND 0xffff = take_bit 16 w" by (simp add: take_bit_eq_mask mask_eq_exp_minus_1)
    then show ?thesis by (simp add: unsigned_take_bit_eq take_bit_nat_def)
  qed
  have "unat w div 2 ^ 16 < 2 ^ 16" using unat_u32_le [of w] by simp
  then have x: "unat x = unat r * 2 ^ 16 + unat w div 2 ^ 16"
    unfolding x_def using unat_halves [of r "drop_bit 16 w"] assms by (simp add: hi)
  have r10: "unat (x mod 10) = unat x mod 10" "unat (y mod 10) = unat y mod 10"
    "unat (x div 10) = unat x div 10" "unat (y div 10) = unat y div 10" by (simp_all add: unat_mod unat_div)
  have y: "unat y = unat x mod 10 * 2 ^ 16 + unat w mod 2 ^ 16"
    unfolding y_def using unat_halves [of "x mod 10" "w AND 0xffff"] by (simp add: lo r10)
  have "unat x div 10 < 2 ^ 16" "unat y div 10 < 2 ^ 16"
    using x y assms \<open>unat w div 2 ^ 16 < 2 ^ 16\<close> by simp_all
  then have q: "unat (push_bit 16 (x div 10) OR (y div 10)) = unat x div 10 * 2 ^ 16 + unat y div 10"
    using unat_halves [of "x div 10" "y div 10"] by (simp add: r10)
  have s: "div_step r w = (push_bit 16 (x div 10) OR (y div 10), y mod 10)"
    by (simp add: div_step_def Let_def x_def y_def)
  have "unat r * 2 ^ 32 + unat w = unat x * 2 ^ 16 + unat w mod 2 ^ 16"
    unfolding x using div_mult_mod_eq [of "unat w" "2 ^ 16"] by (simp add: algebra_simps)
  also have "\<dots> = 10 * (unat x div 10 * 2 ^ 16) + unat y"
    unfolding y scale_ten [of "unat x"] by (simp only: add.assoc)
  also have "\<dots> = 10 * (unat x div 10 * 2 ^ 16 + unat y div 10) + unat y mod 10" by simp
  finally show "unat r * 2 ^ 32 + unat w = 10 * unat (fst (div_step r w)) + unat (snd (div_step r w))"
    unfolding s fst_conv snd_conv q r10 .
  show "unat (snd (div_step r w)) < 10" by (simp add: s r10)
qed

lemma divide_loop_Suc:
  "divide_loop (Suc (length ws)) r lst (ws @ w # ys) =
    divide_loop (length ws) (snd (div_step r w)) (if lst = 0 \<and> fst (div_step r w) \<noteq> 0 then length ws else lst)
      (ws @ fst (div_step r w) # ys)"
  by (simp add: div_step_def Let_def)

lemma divide_loop_correct:
  assumes "unat r < 10"
  shows "\<exists>r' lst' qs. divide_loop (length ws) r lst (ws @ ys) = Some (r', lst', qs @ ys) \<and> length qs = length ws \<and>
    val ws + 2 ^ (32 * length ws) * unat r = 10 * val qs + unat r' \<and> unat r' < 10 \<and>
    (lst = 0 \<longrightarrow> (\<forall>j < length qs. lst' < j \<longrightarrow> qs ! j = 0) \<and> (lst' = 0 \<or> lst' < length qs \<and> qs ! lst' \<noteq> 0)) \<and>
    (lst \<noteq> 0 \<longrightarrow> lst' = lst)"
  using assms
proof (induction ws arbitrary: r lst ys rule: rev_induct)
  case (snoc w ws)
  let ?q = "fst (div_step r w)" and ?r = "snd (div_step r w)"
  define l where "l = (if lst = 0 \<and> ?q \<noteq> 0 then length ws else lst)"
  have r: "unat ?r < 10" using div_step_value snoc.prems by blast
  from snoc.IH [OF r, of l "?q # ys"] obtain r' lst' qs where
    qs: "divide_loop (length ws) ?r l (ws @ ?q # ys) = Some (r', lst', qs @ ?q # ys)" "length qs = length ws"
      "val ws + 2 ^ (32 * length ws) * unat ?r = 10 * val qs + unat r'" "unat r' < 10"
    and l0: "l = 0 \<longrightarrow> (\<forall>j < length qs. lst' < j \<longrightarrow> qs ! j = 0) \<and> (lst' = 0 \<or> lst' < length qs \<and> qs ! lst' \<noteq> 0)"
    and l1: "l \<noteq> 0 \<longrightarrow> lst' = l" by blast
  have "divide_loop (length (ws @ [w])) r lst ((ws @ [w]) @ ys) = Some (r', lst', (qs @ [?q]) @ ys)"
    using divide_loop_Suc [of ws r lst w ys] qs(1) by (simp add: l_def)
  moreover have "val (ws @ [w]) + 2 ^ (32 * length (ws @ [w])) * unat r = 10 * val (qs @ [?q]) + unat r'"
  proof -
    have "val (ws @ [w]) + 2 ^ (32 * length (ws @ [w])) * unat r =
        val ws + 2 ^ (32 * length ws) * (unat r * 2 ^ 32 + unat w)"
      by (simp add: val_append power_add algebra_simps)
    also have "\<dots> = val ws + 2 ^ (32 * length ws) * unat ?r + 10 * (2 ^ (32 * length ws) * unat ?q)"
      unfolding div_step_value(1) [OF snoc.prems] by (simp add: algebra_simps)
    also have "\<dots> = 10 * val (qs @ [?q]) + unat r'" unfolding qs(3) by (simp add: val_append qs(2))
    finally show ?thesis .
  qed
  moreover have "(\<forall>j < length (qs @ [?q]). lst' < j \<longrightarrow> (qs @ [?q]) ! j = 0) \<and>
      (lst' = 0 \<or> lst' < length (qs @ [?q]) \<and> (qs @ [?q]) ! lst' \<noteq> 0)" if "lst = 0"
  proof (cases "?q = 0")
    case True
    then have "l = 0" using that by (simp add: l_def)
    then have "(\<forall>j < length qs. lst' < j \<longrightarrow> qs ! j = 0)" "lst' = 0 \<or> lst' < length qs \<and> qs ! lst' \<noteq> 0"
      using l0 by blast+
    then show ?thesis using True by (auto simp: nth_append less_Suc_eq)
  next
    case False
    then have l: "l = length ws" using that by (simp add: l_def)
    show ?thesis
    proof (cases "length ws = 0")
      case True
      then have "lst' = 0" using l l0 qs(2) by auto
      then show ?thesis using True qs(2) by simp
    next
      case f: False
      then have "lst' = length ws" using l l1 by simp
      then show ?thesis using False qs(2) by (auto simp: nth_append less_Suc_eq)
    qed
  qed
  moreover have "lst \<noteq> 0 \<longrightarrow> lst' = lst" using l1 by (auto simp: l_def)
  ultimately show ?case using qs(2,4)
    by - (rule exI [of _ r'], rule exI [of _ lst'], rule exI [of _ "qs @ [?q]"], simp)
qed simp

lemma number_divide_10_correct:
  assumes "num_ok p"
  shows "\<exists>p'. number_divide_10 p = Some (word_of_nat (num_val p mod 10), p') \<and> num_ok p' \<and>
    num_val p' = num_val p div 10"
proof -
  let ?ws = "take (n_len p) (n_buf p)" and ?ys = "drop (n_len p) (n_buf p)"
  have len: "n_len p \<le> length (n_buf p)" "0 < n_len p" and zero: "\<forall>i < length (n_buf p). n_len p \<le> i \<longrightarrow> n_buf p ! i = 0"
    using assms by (auto simp: num_ok_def)
  then have lw: "length ?ws = n_len p" by simp
  have zs: "\<forall>w \<in> set ?ys. w = 0" using zero by (auto simp: in_set_conv_nth)
  from divide_loop_correct [of 0 ?ws 0 ?ys] lw obtain r lst qs where
    q: "divide_loop (n_len p) 0 0 (n_buf p) = Some (r, lst, qs @ ?ys)" "length qs = n_len p" "val ?ws = 10 * val qs + unat r"
      "unat r < 10" "\<forall>j < length qs. lst < j \<longrightarrow> qs ! j = 0" "lst = 0 \<or> lst < length qs \<and> qs ! lst \<noteq> 0"
    by auto
  let ?p = "p\<lparr>n_len := lst + 1, n_buf := qs @ ?ys\<rparr>"
  have v: "num_val p = 10 * val qs + unat r" using q(3) num_val_take [OF assms] by simp
  have "number_divide_10 p = Some (r, ?p)" by (simp add: number_divide_10_def q(1))
  moreover have "r = word_of_nat (num_val p mod 10)" using v q(4) by (simp add: word_unat_eq_iff mod_less)
  moreover have "num_val ?p = num_val p div 10"
    using v q(4) zs by (simp add: num_val_def val_append val_zero [THEN iffD2])
  moreover have "(qs @ ?ys) ! i = 0" if "i < length (qs @ ?ys)" "lst + 1 \<le> i" for i
  proof (cases "i < length qs")
    case True
    then show ?thesis using q(5) that by (simp add: nth_append)
  next
    case False
    then have "(qs @ ?ys) ! i \<in> set ?ys" using that unfolding nth_append by (simp del: nth_drop)
    then show ?thesis using zs by blast
  qed
  then have "num_ok ?p" using q(2,6) len by (auto simp: num_ok_def nth_append)
  ultimately show ?thesis by blast
qed

subsection \<open>Decimal digits\<close>

fun dec_digits :: "nat \<Rightarrow> nat list" where
  "dec_digits v = (if v = 0 then [] else dec_digits (v div 10) @ [v mod 10])"

declare dec_digits.simps [simp del]

lemma dec_digits_0 [simp]: "dec_digits 0 = []"
  by (simp add: dec_digits.simps)

definition digit_char :: "nat \<Rightarrow> u8" where
  "digit_char d = word_of_nat (d + 48)"

lemma length_dec_digits: "v < 10 ^ i \<Longrightarrow> length (dec_digits v) \<le> i"
proof (induction i arbitrary: v)
  case (Suc i)
  then have "v div 10 < 10 ^ i" by (simp add: less_mult_imp_div_less mult.commute)
  then have "length (dec_digits (v div 10)) \<le> i" by (rule Suc.IH)
  then show ?case by (subst dec_digits.simps) simp
qed simp

lemma num_zero:
  assumes "num_ok p"
  shows "\<exists>b. rd (n_buf p) 0 = Some b \<and> (n_len p > 1 \<or> b \<noteq> 0 \<longleftrightarrow> num_val p \<noteq> 0)"
proof -
  have ok: "0 < n_len p" "n_len p \<le> length (n_buf p)" "\<forall>i < length (n_buf p). n_len p \<le> i \<longrightarrow> n_buf p ! i = 0"
    "1 < n_len p \<Longrightarrow> n_buf p ! (n_len p - 1) \<noteq> 0" using assms by (auto simp: num_ok_def)
  have r: "rd (n_buf p) 0 = Some (n_buf p ! 0)" using ok(1,2) by (auto simp: rd_def)
  have "num_val p \<noteq> 0" if "n_len p > 1 \<or> n_buf p ! 0 \<noteq> 0"
  proof -
    have "n_buf p ! (n_len p - 1) \<noteq> 0" using that ok(1,4) by (cases "n_len p = 1") auto
    moreover have "n_buf p ! (n_len p - 1) \<in> set (n_buf p)" using ok(1,2) by simp
    ultimately show ?thesis by (metis num_val_def val_zero)
  qed
  moreover have "num_val p = 0" if "n_len p \<le> 1" "n_buf p ! 0 = 0"
  proof -
    have "n_buf p ! i = 0" if "i < length (n_buf p)" for i
      using that ok(1,3) \<open>n_len p \<le> 1\<close> \<open>n_buf p ! 0 = 0\<close> by (cases "i = 0") auto
    then show ?thesis unfolding num_val_def val_zero by (auto simp: in_set_conv_nth)
  qed
  ultimately show ?thesis using r by (meson not_less)
qed

lemma number_to_decimal_correct:
  assumes "num_ok p" "num_val p < 10 ^ i"
  shows "number_to_decimal i p cs =
    Some (i - length (dec_digits (num_val p)), map digit_char (dec_digits (num_val p)) @ cs)"
  using assms
proof (induction i arbitrary: p cs)
  case 0
  then have "num_val p = 0" by simp
  then show ?case using num_zero [OF 0(1)] by (subst number_to_decimal.simps) auto
next
  case (Suc i)
  from num_zero [OF Suc.prems(1)] obtain b where
    b: "rd (n_buf p) 0 = Some b" "n_len p > 1 \<or> b \<noteq> 0 \<longleftrightarrow> num_val p \<noteq> 0" by blast
  show ?case
  proof (cases "num_val p = 0")
    case True
    then show ?thesis using b by (subst number_to_decimal.simps) simp
  next
    case False
    from number_divide_10_correct [OF Suc.prems(1)] obtain p' where
      p': "number_divide_10 p = Some (word_of_nat (num_val p mod 10), p')" "num_ok p'" "num_val p' = num_val p div 10"
      by blast
    have "num_val p' < 10 ^ i" using Suc.prems(2) by (simp add: p'(3) less_mult_imp_div_less mult.commute)
    note Suc.IH [OF p'(2) this]
    moreover have "ucast (word_of_nat (num_val p mod 10) + 48 :: u32) = digit_char (num_val p mod 10)"
    proof -
      have "unat (word_of_nat (num_val p mod 10) :: u32) = num_val p mod 10"
        by (simp add: unat_of_nat take_bit_nat_eq_self)
      then have "unat (word_of_nat (num_val p mod 10) + 48 :: u32) = num_val p mod 10 + 48" by (simp add: unat_word_ariths)
      moreover have "num_val p mod 10 + 48 < 2 ^ 8" using mod_less_divisor [of 10 "num_val p"] by simp
      ultimately show ?thesis unfolding digit_char_def
        by (simp only: word_unat_eq_iff unsigned_ucast_eq unsigned_take_bit_eq unat_of_nat) (simp add: take_bit_nat_eq_self)
    qed
    moreover have "dec_digits (num_val p) = dec_digits (num_val p div 10) @ [num_val p mod 10]"
      using False by (subst dec_digits.simps) simp
    ultimately show ?thesis using b False p'
      by (subst number_to_decimal.simps) simp
  qed
qed

subsection \<open>Shift\<close>

lemma move_loop_nth:
  assumes "f + k + q \<le> length buf"
  shows "\<exists>buf'. move_loop q k (f + k) buf = Some buf' \<and> length buf' = length buf \<and>
    (\<forall>j < length buf. buf' ! j = (if f + q \<le> j \<and> j < f + q + k then buf ! (j - q) else buf ! j))"
  using assms
proof (induction k arbitrary: buf)
  case (Suc k)
  let ?b = "buf[f + k + q := buf ! (f + k)]"
  from Suc.IH [of ?b] Suc.prems obtain buf' where
    b: "move_loop q k (f + k) ?b = Some buf'" "length buf' = length buf"
      "\<forall>j < length buf. buf' ! j = (if f + q \<le> j \<and> j < f + q + k then ?b ! (j - q) else ?b ! j)" by auto
  have "move_loop q (Suc k) (f + Suc k) buf = Some buf'"
    using b(1) Suc.prems by (simp add: rd_def wr_def)
  moreover have "buf' ! j = (if f + q \<le> j \<and> j < f + q + Suc k then buf ! (j - q) else buf ! j)" if "j < length buf" for j
  proof (cases "j = f + k + q")
    case True
    then show ?thesis using b(3) that by (simp add: add.commute)
  next
    case False
    then show ?thesis using b(3) that by (auto simp: nth_list_update)
  qed
  ultimately show ?case using b(2) by blast
qed auto

lemma shift_loop_nth:
  assumes "f + k + q < length buf"
  shows "\<exists>buf'. shift_loop q r k (f + k) rest buf = Some (if k = 0 then rest else push_bit r (buf ! f), buf') \<and>
    length buf' = length buf \<and>
    (\<forall>j < length buf. buf' ! j =
      (if f + q < j \<and> j \<le> f + q + k
       then (if j = f + q + k then rest else push_bit r (buf ! (j - q))) OR drop_bit (32 - r) (buf ! (j - q - 1))
       else buf ! j))"
  using assms
proof (induction k arbitrary: buf rest)
  case (Suc k)
  let ?w = "buf ! (f + k)"
  let ?b = "buf[f + k + q + 1 := rest OR drop_bit (32 - r) ?w]"
  from Suc.IH [of ?b "push_bit r ?w"] Suc.prems obtain buf' where
    b: "shift_loop q r k (f + k) (push_bit r ?w) ?b = Some (if k = 0 then push_bit r ?w else push_bit r (?b ! f), buf')"
      "length buf' = length buf"
    and nth: "\<forall>j < length buf. buf' ! j =
      (if f + q < j \<and> j \<le> f + q + k
       then (if j = f + q + k then push_bit r ?w else push_bit r (?b ! (j - q))) OR drop_bit (32 - r) (?b ! (j - q - 1))
       else ?b ! j)" by auto
  have "shift_loop q r (Suc k) (f + Suc k) rest buf = Some (push_bit r (buf ! f), buf')"
    using b(1) Suc.prems by (simp add: rd_def wr_def split: if_splits)
  moreover have "buf' ! j =
      (if f + q < j \<and> j \<le> f + q + Suc k
       then (if j = f + q + Suc k then rest else push_bit r (buf ! (j - q))) OR drop_bit (32 - r) (buf ! (j - q - 1))
       else buf ! j)" if "j < length buf" for j
  proof -
    consider "j \<le> f + q" | "f + q < j" "j < f + q + k" | "f + q < j" "j = f + q + k" | "j = f + q + Suc k" | "f + q + Suc k < j"
      by linarith
    then show ?thesis
      by cases (use nth that in \<open>auto simp: nth_list_update\<close>)
  qed
  ultimately show ?case using b(2) by auto
qed auto

lemma clear_words_nth:
  "length (clear_words a b buf) = length buf"
  "j < length buf \<Longrightarrow> clear_words a b buf ! j = (if a \<le> j \<and> j < b then 0 else buf ! j)"
proof -
  have "length (fold (\<lambda>i buf. buf[i := 0]) is buf) = length buf \<and>
      (j < length buf \<longrightarrow> fold (\<lambda>i buf. buf[i := 0]) is buf ! j = (if j \<in> set is then 0 else buf ! j))"
    for "is" and buf :: "u32 list"
    by (induction "is" arbitrary: buf) (auto simp: nth_list_update)
  then show "length (clear_words a b buf) = length buf"
    "j < length buf \<Longrightarrow> clear_words a b buf ! j = (if a \<le> j \<and> j < b then 0 else buf ! j)"
    by (auto simp: clear_words_def)
qed

fun shl :: "nat \<Rightarrow> u32 \<Rightarrow> u32 list \<Rightarrow> u32 list" where
  "shl r c [] = [c]"
| "shl r c (w # ws) = (push_bit r w OR c) # shl r (drop_bit (32 - r) w) ws"

lemma length_shl [simp]: "length (shl r c ws) = Suc (length ws)"
  by (induction r c ws rule: shl.induct) auto

lemma shl_nth:
  "j \<le> length ws \<Longrightarrow> shl r c ws ! j =
    (if j < length ws then push_bit r (ws ! j) else 0) OR (if j = 0 then c else drop_bit (32 - r) (ws ! (j - 1)))"
proof (induction r c ws arbitrary: j rule: shl.induct)
  case (2 r c w ws)
  then show ?case by (cases j) (auto simp: nth_Cons split: nat.splits)
qed simp

lemma unat_drop: "unat (drop_bit n w) = unat w div 2 ^ n" for w :: u32
  by (simp only: unsigned_drop_bit_eq) (simp add: drop_bit_eq_div take_bit_nat_eq_self)

lemma unat_shl:
  fixes w c :: u32
  assumes "r < 32" "unat c < 2 ^ r"
  shows "unat (push_bit r w OR c) + 2 ^ 32 * unat (drop_bit (32 - r) w) = unat w * 2 ^ r + unat c"
proof -
  have c: "take_bit r c = c" using assms by (simp add: word_unat_eq_iff unsigned_take_bit_eq take_bit_nat_eq_self)
  have "\<not> bit (push_bit r w) n \<or> \<not> bit c n" for n
    using c by (metis bit_push_bit_iff bit_take_bit_iff not_less)
  then have "push_bit r w OR c = push_bit r w + c" by (metis disjunctive_add)
  moreover have p: "unat (push_bit r w) = (unat w mod 2 ^ (32 - r)) * 2 ^ r"
  proof -
    have "unat (push_bit r w) = (unat w * 2 ^ r) mod (2 ^ (32 - r) * 2 ^ r)"
      using assms(1) by (simp only: unsigned_push_bit_eq) (simp add: take_bit_eq_mod push_bit_eq_mult flip: power_add)
    then show ?thesis by (simp add: mult_mod_left)
  qed
  moreover have "(unat w mod 2 ^ (32 - r)) * 2 ^ r + unat c < 2 ^ 32"
  proof -
    have "unat w mod 2 ^ (32 - r) + 1 \<le> 2 ^ (32 - r)" by (simp add: Suc_leI)
    then have "(unat w mod 2 ^ (32 - r) + 1) * 2 ^ r \<le> 2 ^ (32 - r) * 2 ^ r" by (rule mult_right_mono) simp
    then show ?thesis using assms by (simp flip: power_add)
  qed
  ultimately have s: "unat (push_bit r w OR c) = (unat w mod 2 ^ (32 - r)) * 2 ^ r + unat c"
    by (simp add: unat_word_ariths)
  have e: "(2 :: nat) ^ 32 = 2 ^ (32 - r) * 2 ^ r" using assms(1) by (simp flip: power_add)
  have "unat w * 2 ^ r = (unat w div 2 ^ (32 - r) * 2 ^ (32 - r) + unat w mod 2 ^ (32 - r)) * 2 ^ r"
    by (simp only: div_mult_mod_eq)
  then show ?thesis unfolding s unat_drop e by (simp only: add_mult_distrib add_mult_distrib2 ac_simps)
qed

lemma val_shl: "0 < r \<Longrightarrow> r < 32 \<Longrightarrow> unat c < 2 ^ r \<Longrightarrow> val (shl r c ws) = val ws * 2 ^ r + unat c"
proof (induction r c ws rule: shl.induct)
  case (2 r c w ws)
  have "unat w < 2 ^ r * 2 ^ (32 - r)" using unat_u32_less [of w] 2 by (simp flip: power_add)
  then have "unat (drop_bit (32 - r) w) < 2 ^ r" by (simp add: unat_drop less_mult_imp_div_less)
  then have "val (shl r c (w # ws)) =
      unat (push_bit r w OR c) + 2 ^ 32 * unat (drop_bit (32 - r) w) + 2 ^ 32 * (val ws * 2 ^ r)"
    using 2 by (simp add: algebra_simps)
  then show ?case unfolding unat_shl [OF 2(3,4)] by (simp add: algebra_simps)
qed simp

lemma shift_zero: "w = 0" if "drop_bit (32 - r) w = 0" "push_bit r w = 0" "r < 32" for w :: u32
proof (rule bit_word_eqI)
  fix n
  assume "n < LENGTH(32)"
  then have n: "n < 32" by simp
  show "bit w n \<longleftrightarrow> bit (0 :: u32) n"
  proof (cases "n < 32 - r")
    case True
    then have "n + r < 32" by linarith
    then have "bit (push_bit r w) (n + r) = bit w n" by (simp add: bit_push_bit_iff)
    then show ?thesis using that(2) by simp
  next
    case False
    then have "bit (drop_bit (32 - r) w) (n - (32 - r)) = bit w n" by (simp add: bit_drop_bit_eq)
    then show ?thesis using that(1) by simp
  qed
qed

text \<open>An array with \<open>k\<close> used words from index \<open>f\<close> on and zeros elsewhere.\<close>

definition seg :: "nat \<Rightarrow> u32 list \<Rightarrow> u32 list \<Rightarrow> bool" where
  "seg f us buf \<longleftrightarrow> f + length us \<le> length buf \<and>
    (\<forall>j < length buf. buf ! j = (if f \<le> j \<and> j < f + length us then us ! (j - f) else 0))"

lemma val_seg:
  assumes "seg f us buf"
  shows "val buf = 2 ^ (32 * f) * val us"
proof -
  have "buf = replicate f 0 @ us @ replicate (length buf - f - length us) 0"
    using assms by (intro nth_equalityI) (auto simp: seg_def nth_append)
  moreover have "val (replicate n 0) = 0" for n by (simp add: val_zero)
  ultimately show ?thesis using val_append by (metis add.right_neutral add_0 length_replicate mult_0_right)
qed

lemma seg_ok:
  assumes "seg f us buf" "us \<noteq> []" "last us \<noteq> 0"
  shows "num_ok (p\<lparr>n_len := f + length us, n_buf := buf\<rparr>)"
proof -
  have "buf ! (f + length us - 1) = us ! (length us - 1)"
    using assms(1,2) by (cases us) (auto simp: seg_def)
  then show ?thesis using assms by (auto simp: num_ok_def seg_def last_conv_nth)
qed

lemma seg_butlast:
  assumes "seg f us buf" "us \<noteq> []" "last us = 0"
  shows "seg f (butlast us) buf"
proof -
  have "us ! (length us - 1) = 0" using assms(2,3) by (simp add: last_conv_nth)
  moreover have "j - f = length us - 1" if "f \<le> j" "j < f + length us" "\<not> j < f + (length us - 1)" for j
    using that by linarith
  ultimately show ?thesis using assms(1) unfolding seg_def by (auto simp: nth_butlast)
qed

lemma num_seg:
  assumes "num_ok p" "List.find (\<lambda>i. n_buf p ! i \<noteq> 0) [0..<n_len p] = Some f"
  shows "\<exists>us. seg f us (n_buf p) \<and> us \<noteq> [] \<and> last us \<noteq> 0 \<and> n_len p = f + length us"
proof -
  let ?us = "drop f (take (n_len p) (n_buf p))"
  from assms(2) obtain i where "i < length [0..<n_len p]" "n_buf p ! ([0..<n_len p] ! i) \<noteq> 0" "f = [0..<n_len p] ! i"
    "\<forall>j < i. \<not> n_buf p ! ([0..<n_len p] ! j) \<noteq> 0"
    unfolding find_Some_iff by blast
  then have f: "f < n_len p" "n_buf p ! f \<noteq> 0" "\<forall>j < f. n_buf p ! j = 0" by auto
  have ok: "n_len p \<le> length (n_buf p)" "\<forall>i < length (n_buf p). n_len p \<le> i \<longrightarrow> n_buf p ! i = 0"
    "1 < n_len p \<longrightarrow> n_buf p ! (n_len p - 1) \<noteq> 0" using assms(1) by (auto simp: num_ok_def)
  have len: "length ?us = n_len p - f" using f ok by simp
  have "seg f ?us (n_buf p)" using f ok by (auto simp: seg_def)
  moreover have "last ?us \<noteq> 0"
  proof -
    have "last ?us = n_buf p ! (n_len p - 1)" using f ok by (simp add: last_drop last_conv_nth)
    moreover have "n_len p = 1 \<longrightarrow> f = 0" using f by simp
    ultimately show ?thesis using ok(3) f by (cases "n_len p = 1") auto
  qed
  ultimately show ?thesis using len f by (intro exI [of _ ?us]) auto
qed

lemma seg_move:
  assumes "seg f us buf" "us \<noteq> []" "f + length us + q \<le> length buf"
  shows "\<exists>buf'. move_loop q (length us) (f + length us) buf = Some buf' \<and>
    seg (f + q) us (clear_words f (if f + q < f + length us then f + q else f + length us) buf')"
proof -
  from move_loop_nth [of f "length us" q buf] assms(3) obtain buf' where
    b: "move_loop q (length us) (f + length us) buf = Some buf'" "length buf' = length buf"
      "\<forall>j < length buf. buf' ! j = (if f + q \<le> j \<and> j < f + q + length us then buf ! (j - q) else buf ! j)" by auto
  have "seg (f + q) us (clear_words f (if f + q < f + length us then f + q else f + length us) buf')"
    unfolding seg_def
  proof (intro conjI allI impI)
    fix j
    assume "j < length (clear_words f (if f + q < f + length us then f + q else f + length us) buf')"
    then have j: "j < length buf" by (simp add: clear_words_nth b(2))
    have s: "buf ! i = (if f \<le> i \<and> i < f + length us then us ! (i - f) else 0)" if "i < length buf" for i
      using assms(1) that by (simp add: seg_def)
    consider (low) "j < f + q" | (mid) "f + q \<le> j" "j < f + q + length us" | (high) "f + q + length us \<le> j" by linarith
    then show "clear_words f (if f + q < f + length us then f + q else f + length us) buf' ! j =
        (if f + q \<le> j \<and> j < f + q + length us then us ! (j - (f + q)) else 0)"
    proof cases
      case mid
      then have "f \<le> j - q" "j - q < f + length us" "j - q - f = j - (f + q)" by linarith+
      then have "buf ! (j - q) = us ! (j - (f + q))" using s [of "j - q"] j by simp
      then show ?thesis using mid b j by (simp add: clear_words_nth)
    qed (use b j s [of j] in \<open>auto simp: clear_words_nth\<close>)
  qed (use assms(3) b(2) in \<open>simp add: clear_words_nth\<close>)
  then show ?thesis using b(1) by blast
qed

lemma seg_shift:
  assumes "seg f us buf" "us \<noteq> []" "f + length us + q < length buf"
  shows "\<exists>buf'. shift_loop q r (length us) (f + length us) 0 buf = Some (push_bit r (us ! 0), buf') \<and>
    f + length us + q < length buf' \<and>
    seg (f + q) (shl r 0 us)
      (clear_words f (if f + q < f + length us then f + q else f + length us) (buf'[f + q := push_bit r (us ! 0)])) \<and>
    buf'[f + q := push_bit r (us ! 0)] ! (f + length us + q) = last (shl r 0 us)"
proof -
  have s: "buf ! i = (if f \<le> i \<and> i < f + length us then us ! (i - f) else 0)" if "i < length buf" for i
    using assms(1) that by (simp add: seg_def)
  have u0: "buf ! f = us ! 0" using s [of f] assms(2,3) by simp
  from shift_loop_nth [of f "length us" q buf r 0] assms(2,3) u0 obtain buf' where
    b: "shift_loop q r (length us) (f + length us) 0 buf = Some (push_bit r (us ! 0), buf')" "length buf' = length buf"
    and nth: "\<And>j. j < length buf \<Longrightarrow> buf' ! j =
      (if f + q < j \<and> j \<le> f + q + length us
       then (if j = f + q + length us then 0 else push_bit r (buf ! (j - q))) OR drop_bit (32 - r) (buf ! (j - q - 1))
       else buf ! j)" by auto
  let ?b = "buf'[f + q := push_bit r (us ! 0)]"
  have digit: "?b ! j = shl r 0 us ! (j - (f + q))" if "f + q \<le> j" "j \<le> f + q + length us" for j
  proof (cases "j = f + q")
    case True
    then show ?thesis using assms(2,3) b(2) by (simp add: shl_nth)
  next
    case False
    then have "?b ! j = buf' ! j" by simp
    moreover have "buf ! (j - q - 1) = us ! (j - (f + q) - 1)" using s [of "j - q - 1"] that False assms(3) by (auto simp: algebra_simps)
    moreover have "j < f + q + length us \<Longrightarrow> buf ! (j - q) = us ! (j - (f + q))"
      using s [of "j - q"] that False assms(3) by (auto simp: algebra_simps)
    ultimately show ?thesis using nth [of j] that False assms(3) by (auto simp: shl_nth)
  qed
  have "seg (f + q) (shl r 0 us) (clear_words f (if f + q < f + length us then f + q else f + length us) ?b)"
    unfolding seg_def
  proof (intro conjI allI impI)
    fix j
    assume "j < length (clear_words f (if f + q < f + length us then f + q else f + length us) ?b)"
    then have j: "j < length buf" by (simp add: clear_words_nth b(2))
    consider (low) "j < f + q" | (mid) "f + q \<le> j" "j \<le> f + q + length us" | (high) "f + q + length us < j" by linarith
    then show "clear_words f (if f + q < f + length us then f + q else f + length us) ?b ! j =
        (if f + q \<le> j \<and> j < f + q + length (shl r 0 us) then shl r 0 us ! (j - (f + q)) else 0)"
    proof cases
      case mid
      then show ?thesis using digit [of j] b(2) j by (simp add: clear_words_nth)
    qed (use b(2) j s [of j] nth [of j] in \<open>auto simp: clear_words_nth nth_list_update\<close>)
  qed (use assms(3) b(2) in \<open>simp add: clear_words_nth\<close>)
  moreover have "?b ! (f + length us + q) = last (shl r 0 us)"
  proof -
    have "shl r 0 us \<noteq> []" by (cases us) auto
    then show ?thesis using digit [of "f + length us + q"] by (simp add: last_conv_nth)
  qed
  ultimately show ?thesis using b assms(3) by auto
qed

lemma shift_words_correct:
  assumes buf: "seg f us buf" "us \<noteq> []" "last us \<noteq> 0" and p: "n_len p = f + length us"
    and n: "n_len p + (n + 31) div 32 \<le> length buf"
  shows "\<exists>p'. shift_words p n f buf = Some (0, p') \<and> num_ok p' \<and> num_val p' = val buf * 2 ^ n"
proof -
  define q where "q = n div 32"
  define r where "r = n - q * 32"
  have w: "shift_words p n f buf =
      (do {
         (len', buf) \<leftarrow>
           (if r = 0 then do { buf \<leftarrow> move_loop q (length us) (f + length us) buf; Some (f + length us + q, buf) }
            else do {
              (rest, buf) \<leftarrow> shift_loop q r (length us) (f + length us) 0 buf;
              buf \<leftarrow> wr buf (f + q) rest;
              w \<leftarrow> rd buf (f + length us + q);
              Some (if w \<noteq> 0 then f + length us + q + 1 else f + length us + q, buf)
            });
         Some (0, p\<lparr>n_len := len', n_buf := clear_words f (if f + q < f + length us then f + q else f + length us) buf\<rparr>)
       })"
    unfolding shift_words_def Let_def q_def [symmetric] r_def [symmetric] p by simp
  let ?c = "clear_words f (if f + q < f + length us then f + q else f + length us)"
  have pw: "(2 :: nat) ^ (32 * (f + q)) * 2 ^ r = 2 ^ (32 * f) * 2 ^ n" by (simp add: q_def r_def flip: power_add)
  show ?thesis
  proof (cases "r = 0")
    case True
    then have "f + length us + q \<le> length buf" using n p by (simp add: q_def r_def)
    from seg_move [OF buf(1,2) this] obtain buf' where
      b: "move_loop q (length us) (f + length us) buf = Some buf'" "seg (f + q) us (?c buf')" by blast
    let ?p = "p\<lparr>n_len := f + q + length us, n_buf := ?c buf'\<rparr>"
    have "shift_words p n f buf = Some (0, ?p)" using True b(1) by (simp add: w add_ac)
    moreover have "num_ok ?p" using b(2) buf(2,3) by (rule seg_ok)
    moreover have "num_val ?p = val buf * 2 ^ n"
      using val_seg [OF b(2)] val_seg [OF buf(1)] pw True by (simp add: num_val_def)
    ultimately show ?thesis by blast
  next
    case False
    then have r: "0 < r" "r < 32" by (auto simp: q_def r_def)
    have "f + length us + q < length buf" using n p False unfolding q_def r_def by linarith
    from seg_shift [OF buf(1,2) this, of r] obtain buf' where
      b: "shift_loop q r (length us) (f + length us) 0 buf = Some (push_bit r (us ! 0), buf')"
        "f + length us + q < length buf'" "seg (f + q) (shl r 0 us) (?c (buf'[f + q := push_bit r (us ! 0)]))"
        "buf'[f + q := push_bit r (us ! 0)] ! (f + length us + q) = last (shl r 0 us)" by blast
    let ?s = "shl r 0 us" and ?b = "?c (buf'[f + q := push_bit r (us ! 0)])"
    let ?p = "\<lambda>ss. p\<lparr>n_len := f + q + length ss, n_buf := ?b\<rparr>"
    have ne: "?s \<noteq> []" by (cases us) auto
    have v: "num_val (?p ss) = val buf * 2 ^ n" for ss
      using val_seg [OF b(3)] val_seg [OF buf(1)] val_shl [of r 0 us] r pw by (simp add: num_val_def)
    show ?thesis
    proof (cases "last ?s = 0")
      case True
      have "shift_words p n f buf = Some (0, ?p (butlast ?s))"
        using False b(1,2,4) True by (simp add: w wr_def rd_def add_ac)
      moreover have "num_ok (?p (butlast ?s))"
      proof (rule seg_ok)
        show "seg (f + q) (butlast ?s) ?b" using b(3) ne True by (rule seg_butlast)
        show "butlast ?s \<noteq> []" by (metis buf(2) diff_Suc_1 length_0_conv length_butlast length_shl)
        have "last us = us ! (length us - 1)" using buf(2) by (rule last_conv_nth)
        then have "drop_bit (32 - r) (last us) = 0"
          using True ne buf(2) by (simp add: last_conv_nth shl_nth)
        then have "push_bit r (last us) \<noteq> 0" using shift_zero r(2) buf(3) by blast
        moreover have "last (butlast ?s) = ?s ! (length us - 1)"
          using buf(2) by (simp add: last_conv_nth nth_butlast \<open>butlast ?s \<noteq> []\<close>)
        ultimately show "last (butlast ?s) \<noteq> 0"
          using buf(2) \<open>last us = _\<close> by (simp add: shl_nth or_eq_0_iff)
      qed
      ultimately show ?thesis using v by blast
    next
      case f: False
      have "shift_words p n f buf = Some (0, ?p ?s)"
        using False b(1,2,4) f by (simp add: w wr_def rd_def add_ac)
      moreover have "num_ok (?p ?s)" using b(3) ne f by (rule seg_ok)
      ultimately show ?thesis using v by blast
    qed
  qed
qed

lemma number_shift_correct:
  assumes "num_ok p" "0 \<le> n"
  shows "(\<exists>p'. number_shift alloc p n = Some (0, p') \<and> num_ok p' \<and> num_val p' = num_val p * 2 ^ nat n) \<or>
    number_shift alloc p n = Some (- 1, p) \<and> length (n_buf p) < n_len p + (nat n + 31) div 32 \<and>
      \<not> alloc True (round_units (n_len p + (nat n + 31) div 32) * 4)"
proof -
  let ?f = "List.find (\<lambda>i. n_buf p ! i \<noteq> 0) [0..<n_len p]" and ?len = "n_len p + (nat n + 31) div 32"
  consider (zero) "n = 0" | (none) "0 < n" "?f = None" | (some) f where "0 < n" "?f = Some f"
    using assms(2) by (cases "n = 0"; cases ?f) auto
  then show ?thesis
  proof cases
    case zero
    then show ?thesis using assms by (simp add: number_shift_def)
  next
    case none
    then have "\<forall>i < n_len p. n_buf p ! i = 0" by (auto simp: find_None_iff)
    then have "num_val p = 0"
      unfolding num_val_take [OF assms(1)] val_zero by (auto simp: in_set_conv_nth)
    then show ?thesis using none assms(1) by (simp add: number_shift_def)
  next
    case some
    from num_seg [OF assms(1) some(2)] obtain us where
      us: "seg f us (n_buf p)" "us \<noteq> []" "last us \<noteq> 0" "n_len p = f + length us" by blast
    show ?thesis
    proof (cases "length (n_buf p) < ?len")
      case True
      let ?b = "take (n_len p) (n_buf p) @ replicate (round_units ?len - n_len p) 0"
      have len: "n_len p \<le> length (n_buf p)" using assms(1) by (simp add: num_ok_def)
      have m: "?len \<le> round_units ?len" by (simp add: round_units_def)
      have "?b ! j = (if j < n_len p then n_buf p ! j else 0)" if "j < length ?b" for j
        using that len by (simp add: nth_append)
      then have "seg f us ?b" using us(1,4) len m by (auto simp: seg_def)
      moreover have "n_len p + (nat n + 31) div 32 \<le> length ?b" using len m by simp
      moreover have "val ?b = num_val p" using num_val_take [OF assms(1)] by (simp add: val_append val_zero [THEN iffD2])
      ultimately show ?thesis
        using shift_words_correct [of f us ?b p "nat n"] us some True by (auto simp: number_shift_def Let_def)
    next
      case False
      then show ?thesis
        using shift_words_correct [of f us "n_buf p" p "nat n"] us some by (auto simp: number_shift_def Let_def num_val_def)
    qed
  qed
qed

subsection \<open>Well-formed numbers\<close>

lemma number_create_correct:
  assumes "number_create alloc x neg = Some p"
  shows "num_ok p \<and> num_val p = unat x \<and> n_minus p = neg"
proof -
  let ?hi = "ucast (drop_bit 32 x) :: u32"
  have p: "p = \<lparr>n_minus = neg, n_len = (if ?hi \<noteq> 0 then 1 else 0) + 1, n_buf = [ucast x, ?hi, 0, 0]\<rparr>"
    using assms by (simp add: number_create_def Let_def split: if_splits)
  have "unat x = unat x mod 2 ^ 32 + 2 ^ 32 * (unat x div 2 ^ 32)" by simp
  moreover have "num_val p = unat (ucast x :: u32) + 2 ^ 32 * unat ?hi" by (simp add: p num_val_def)
  ultimately have "num_val p = unat x" unfolding unat_high unfolding unat_down by simp
  moreover have "num_ok p" by (auto simp: p num_ok_def less_Suc_eq numeral_eq_Suc)
  ultimately show ?thesis by (simp add: p)
qed

text \<open>
  C36. Every operation on a large number keeps its type: the length counts the words up to the
  highest one that is not zero, and the words above it are zero. This holds whether or not
  memory is granted, and no operation leaves its array.
\<close>

theorem number_type:
  assumes "number_create alloc x neg = Some a" and "num_ok p"
  shows "num_ok a \<and>
    (\<exists>e p'. number_multiply alloc p n = Some (e, p') \<and> num_ok p') \<and>
    (\<exists>e p'. number_shift alloc p k = Some (e, p') \<and> num_ok p') \<and>
    (\<exists>d p'. number_divide_10 p = Some (d, p') \<and> num_ok p')"
proof (intro conjI)
  show "num_ok a" using number_create_correct assms(1) by blast
  show "\<exists>e p'. number_multiply alloc p n = Some (e, p') \<and> num_ok p'"
    using number_multiply_correct [OF assms(2), of alloc n] assms(2) by blast
  show "\<exists>e p'. number_shift alloc p k = Some (e, p') \<and> num_ok p'"
  proof (cases "k < 0")
    case True
    then show ?thesis using assms(2) by (simp add: number_shift_def)
  next
    case False
    then show ?thesis using number_shift_correct [OF assms(2), of k alloc] assms(2) by auto
  qed
  show "\<exists>d p'. number_divide_10 p = Some (d, p') \<and> num_ok p'"
    using number_divide_10_correct [OF assms(2)] by blast
qed

theorem number_type_witness:
  "\<exists>e p'. number_shift (\<lambda>_ _. True) \<lparr>n_minus = False, n_len = 2, n_buf = [0, 5, 0, 0]\<rparr> 70 = Some (e, p') \<and> num_ok p'"
proof -
  let ?p = "\<lparr>n_minus = False, n_len = 2, n_buf = [0, 5, 0, 0]\<rparr>"
  have "number_create (\<lambda>_ _. True) 7 False = Some \<lparr>n_minus = False, n_len = 1, n_buf = [7, 0, 0, 0]\<rparr>"
    by (simp add: number_create_def)
  moreover have "num_ok ?p" by (auto simp: num_ok_def nth_Cons')
  ultimately show ?thesis using number_type [of "\<lambda>_ _. True" 7 False _ ?p] by blast
qed

end
