(* ===== verification/Nc_Printf.thy ===== *)
theory Nc_Printf
  imports Nc_Bignum Std_Number
begin

section \<open>Formatted output\<close>

text \<open>
  \<^verbatim>\<open>vnprintf2\<close> of \<^verbatim>\<open>src/lib/libnc/stdio/vnprintf2.c\<close>, as the C library builds it (with
  \<^verbatim>\<open>USE_FLOAT\<close>, on a 32-bit machine), and the functions of \<^verbatim>\<open>src/lib/libc/stdio\<close> that print
  into a string. The output function is the argument \<open>out\<close>: it takes a byte and the
  environment and yields its result and the new environment. A string is the list of the bytes
  from the pointer on; reading past its end is \<^const>\<open>None\<close>, as is a store outside of a local
  array. The argument list holds what the caller passed: an integer or address, the bits of a
  double, or a string; taking an argument of another kind is \<^const>\<open>None\<close>.
\<close>

subsection \<open>The state and the output of characters\<close>

datatype arg = A_int u32 | A_double u64 | A_str "u8 list"

datatype handler = H_immediate | H_format | H_escape

record 'e State =
  s_handler :: handler
  s_format :: "u8 list"
  s_ap :: "arg list"
  s_env :: 'e
  s_len :: u32
  s_has_error :: bool

type_synonym 'e out = "u8 \<Rightarrow> 'e \<Rightarrow> int \<times> 'e"

abbreviation (input) MAX_INT_COLUMN :: nat where "MAX_INT_COLUMN \<equiv> 10"
abbreviation (input) B64_EXPONENT_MAX_R10 :: nat where "B64_EXPONENT_MAX_R10 \<equiv> 1074"
abbreviation (input) B64_SIGNIFICANT_MASK :: u64 where "B64_SIGNIFICANT_MASK \<equiv> 0xfffffffffffff"
abbreviation (input) B64_EXPONENT_BIAS :: int where "B64_EXPONENT_BIAS \<equiv> 1023"
abbreviation (input) B64_EXPONENT_SPECIAL :: int where "B64_EXPONENT_SPECIAL \<equiv> 2047"

definition putchar :: "'e out \<Rightarrow> 'e State \<Rightarrow> u8 \<Rightarrow> 'e State" where
  "putchar out s c =
    (case out c (s_env s) of
       (r, e) \<Rightarrow> (let s = s\<lparr>s_env := e\<rparr> in if r \<ge> 0 then s\<lparr>s_len := s_len s + 1\<rparr> else s))"

fun puts :: "'e out \<Rightarrow> 'e State \<Rightarrow> u8 list \<Rightarrow> 'e State option" where
  "puts out s [] = None"
| "puts out s (c # str) = (if c = 0 then Some s else puts out (putchar out s c) str)"

subsection \<open>Integers\<close>

text \<open>
  The loop of \<^verbatim>\<open>_putd\<close>: \<open>p\<close> is the index in \<^verbatim>\<open>buf\<close> of the character written last and
  \<open>cs\<close> the characters from there on. There is no index below 0.
\<close>

fun putd_loop :: "u32 \<Rightarrow> nat \<Rightarrow> u32 \<Rightarrow> u8 list \<Rightarrow> u8 list option" where
  "putd_loop radix 0 u cs = None"
| "putd_loop radix (Suc p) u cs =
    (let cs = ucast (u mod radix + 48) # cs; u = u div radix
     in if u \<noteq> 0 then putd_loop radix p u cs else Some cs)"

definition putd :: "'e out \<Rightarrow> 'e State \<Rightarrow> u32 \<Rightarrow> u32 \<Rightarrow> 'e State option" where
  "putd out s v radix =
    (let (s, u) = (if radix = 10 \<and> sint v < 0 then (putchar out s 45, - v) else (s, v))
     in do { cs \<leftarrow> putd_loop radix MAX_INT_COLUMN u [0]; puts out s cs })"

text \<open>\<^verbatim>\<open>count_nlz\<close> of \<^verbatim>\<open>src/include/i686/bits.h\<close>: the index of the highest set bit, 32 for zero.\<close>

fun bsrl :: "u32 \<Rightarrow> nat \<Rightarrow> nat" where
  "bsrl d 0 = 0"
| "bsrl d (Suc k) = (if bit d k then k else bsrl d k)"

definition count_nlz :: "u32 \<Rightarrow> nat" where
  "count_nlz d = (if d = 0 then 32 else bsrl d 32)"

definition hex_char :: "u32 \<Rightarrow> u8" where
  "hex_char c = ucast (c + (if c \<ge> 10 then 97 - 10 else 48))"

text \<open>The loop of \<^verbatim>\<open>_putx\<close>; the shift is \<open>4 * k\<close>.\<close>

fun putx_loop :: "'e out \<Rightarrow> u32 \<Rightarrow> nat \<Rightarrow> 'e State \<Rightarrow> 'e State" where
  "putx_loop out u 0 s = putchar out s (hex_char (u AND 0xf))"
| "putx_loop out u (Suc k) s = putx_loop out u k (putchar out s (hex_char (drop_bit (4 * Suc k) u AND 0xf)))"

definition putx :: "'e out \<Rightarrow> 'e State \<Rightarrow> u32 \<Rightarrow> 'e State" where
  "putx out s u =
    (let shift = count_nlz u
     in if shift < 32 then putx_loop out u (shift div 4) s else putchar out s 48)"

subsection \<open>Floating-point values\<close>

definition power5 :: "u32 list" where
  "power5 = [5, 25, 125, 625, 3125, 15625, 78125, 390625, 1953125, 9765625, 48828125, 244140625, 1220703125]"

text \<open>The loop that moves the significand behind the hidden bit, with a bound on the number of rounds.\<close>

fun sig_loop :: "nat \<Rightarrow> int \<Rightarrow> u64 \<Rightarrow> u64 \<Rightarrow> (int \<times> u64) option" where
  "sig_loop 0 i x sig = None"
| "sig_loop (Suc k) i x sig =
    (if sig \<noteq> 0
     then sig_loop k (i + 1) (push_bit 1 x OR drop_bit 51 sig) (push_bit 1 sig AND B64_SIGNIFICANT_MASK)
     else Some (i, x))"

text \<open>The results of \<^verbatim>\<open>number_multiply\<close> and \<^verbatim>\<open>number_shift\<close> are not looked at.\<close>

function multiply_5 :: "(bool \<Rightarrow> nat \<Rightarrow> bool) \<Rightarrow> nat \<Rightarrow> number_t \<Rightarrow> number_t option" where
  "multiply_5 alloc i num =
    (if i \<ge> length power5 then do {
       (_, num) \<leftarrow> number_multiply alloc num (power5 ! (length power5 - 1));
       multiply_5 alloc (i - length power5) num
     } else if i > 0 then do {
       (_, num) \<leftarrow> number_multiply alloc num (power5 ! (i - 1));
       Some num
     } else Some num)"
  by auto
termination by (relation "measure (\<lambda>(alloc, i, num). i)") (auto simp: power5_def)

declare multiply_5.simps [simp del]

definition putdouble :: "(bool \<Rightarrow> nat \<Rightarrow> bool) \<Rightarrow> 'e out \<Rightarrow> 'e State \<Rightarrow> u64 \<Rightarrow> int \<Rightarrow> (int \<times> 'e State) option" where
  "putdouble alloc out s sig ex = do {
     (decimal_shift, x) \<leftarrow>
       (if ex = - B64_EXPONENT_BIAS then Some (52 + B64_EXPONENT_BIAS - 1, sig)
        else do { (i, x) \<leftarrow> sig_loop 53 0 1 sig; Some (i - ex, x) });
     case number_create alloc x False of
       None \<Rightarrow> Some (- 1, s\<lparr>s_has_error := True\<rparr>)
     | Some num \<Rightarrow> do {
         (num, decimal_shift) \<leftarrow>
           (if decimal_shift > 0
            then do { num \<leftarrow> multiply_5 alloc (nat decimal_shift) num; Some (num, decimal_shift) }
            else do { (_, num) \<leftarrow> number_shift alloc num (- decimal_shift); Some (num, 0) });
         (head, cs) \<leftarrow> number_to_decimal B64_EXPONENT_MAX_R10 num [0];
         let integer_len = int B64_EXPONENT_MAX_R10 - int head - decimal_shift;
         s \<leftarrow>
           (if integer_len \<le> 0
            then do { s \<leftarrow> puts out s [48, 46, 0]; puts out (foldl (putchar out) s (replicate (nat (- integer_len)) 48)) cs }
            else
              (let s = foldl (putchar out) s (take (nat integer_len) cs);
                   s = putchar out s 46;
                   s = (if decimal_shift = 0 then putchar out s 48 else s)
               in puts out s (drop (nat integer_len) cs)));
         Some (0, s)
       }
   }"

definition putf :: "(bool \<Rightarrow> nat \<Rightarrow> bool) \<Rightarrow> 'e out \<Rightarrow> 'e State \<Rightarrow> u64 \<Rightarrow> (int \<times> 'e State) option" where
  "putf alloc out s x =
    (let sig = x AND B64_SIGNIFICANT_MASK;
         hi = ucast (drop_bit 32 x) :: u32;
         ex = uint (drop_bit 20 hi AND 0x7ff)
     in if sig \<noteq> 0 \<and> ex = B64_EXPONENT_SPECIAL
        then do { s \<leftarrow> puts out s [110, 97, 110, 0]; Some (0, s) }
        else
          (let s = (if sint hi < 0 then putchar out s 45 else s)
           in if ex = B64_EXPONENT_SPECIAL then do { s \<leftarrow> puts out s [105, 110, 102, 0]; Some (0, s) }
              else if ex = 0 \<and> sig = 0 then do { s \<leftarrow> puts out s [48, 46, 48, 0]; Some (0, s) }
              else putdouble alloc out s sig (ex - B64_EXPONENT_BIAS)))"

subsection \<open>The handlers\<close>

definition next_char :: "'e State \<Rightarrow> (u8 \<times> 'e State) option" where
  "next_char s = (case s_format s of [] \<Rightarrow> None | c # f \<Rightarrow> Some (c, s\<lparr>s_format := f\<rparr>))"

definition arg_int :: "'e State \<Rightarrow> (u32 \<times> 'e State) option" where
  "arg_int s = (case s_ap s of A_int v # ap \<Rightarrow> Some (v, s\<lparr>s_ap := ap\<rparr>) | _ \<Rightarrow> None)"

definition arg_double :: "'e State \<Rightarrow> (u64 \<times> 'e State) option" where
  "arg_double s = (case s_ap s of A_double v # ap \<Rightarrow> Some (v, s\<lparr>s_ap := ap\<rparr>) | _ \<Rightarrow> None)"

definition arg_str :: "'e State \<Rightarrow> (u8 list \<times> 'e State) option" where
  "arg_str s = (case s_ap s of A_str v # ap \<Rightarrow> Some (v, s\<lparr>s_ap := ap\<rparr>) | _ \<Rightarrow> None)"

definition immediate :: "'e out \<Rightarrow> 'e State \<Rightarrow> (bool \<times> 'e State) option" where
  "immediate out s = do {
     (c, s) \<leftarrow> next_char s;
     if c = 0 then Some (False, s)
     else if c = 37 then Some (True, s\<lparr>s_handler := H_format\<rparr>)
     else if c = 92 then Some (True, s\<lparr>s_handler := H_escape\<rparr>)
     else Some (True, putchar out s c)
   }"

definition format_long :: "'e out \<Rightarrow> 'e State \<Rightarrow> 'e State option" where
  "format_long out s = do {
     (c2, s) \<leftarrow> next_char s;
     if c2 = 100 then do { (v, s) \<leftarrow> arg_int s; putd out s v 10 }
     else if c2 = 111 then do { (v, s) \<leftarrow> arg_int s; putd out s v 8 }
     else if c2 = 120 then do { (v, s) \<leftarrow> arg_int s; Some (putx out s v) }
     else Some (putchar out (putchar out (putchar out s 37) 108) c2)
   }"

definition format_c :: "(bool \<Rightarrow> nat \<Rightarrow> bool) \<Rightarrow> 'e out \<Rightarrow> 'e State \<Rightarrow> (bool \<times> 'e State) option" where
  "format_c alloc out s = do {
     (c, s) \<leftarrow> next_char s;
     if c = 0 then Some (False, putchar out s 37)
     else do {
       (more, s) \<leftarrow>
         (if c = 99 then do { (v, s) \<leftarrow> arg_int s; Some (True, putchar out s (ucast (v AND 0xff))) }
          else if c = 100 then do { (v, s) \<leftarrow> arg_int s; s \<leftarrow> putd out s v 10; Some (True, s) }
          else if c = 102 then do { (v, s) \<leftarrow> arg_double s; (e, s) \<leftarrow> putf alloc out s v; Some (e = 0, s) }
          else if c = 108 then do { s \<leftarrow> format_long out s; Some (True, s) }
          else if c = 111 then do { (v, s) \<leftarrow> arg_int s; s \<leftarrow> putd out s v 8; Some (True, s) }
          else if c = 112 then do { let s = putchar out (putchar out s 48) 120; (v, s) \<leftarrow> arg_int s; Some (True, putx out s v) }
          else if c = 120 then do { (v, s) \<leftarrow> arg_int s; Some (True, putx out s v) }
          else if c = 115 then do { (v, s) \<leftarrow> arg_str s; s \<leftarrow> puts out s v; Some (True, s) }
          else Some (True, putchar out (putchar out s 37) c));
       if more then Some (True, s\<lparr>s_handler := H_immediate\<rparr>) else Some (False, s)
     }
   }"

definition escape :: "'e out \<Rightarrow> 'e State \<Rightarrow> (bool \<times> 'e State) option" where
  "escape out s = do {
     (c, s) \<leftarrow> next_char s;
     if c = 0 then Some (False, putchar out s 92)
     else
       (let c = (if c = 110 then 10 else if c = 114 then 13 else if c = 116 then 9 else c)
        in Some (True, (putchar out s c)\<lparr>s_handler := H_immediate\<rparr>))
   }"

definition handle :: "(bool \<Rightarrow> nat \<Rightarrow> bool) \<Rightarrow> 'e out \<Rightarrow> 'e State \<Rightarrow> (bool \<times> 'e State) option" where
  "handle alloc out s =
    (case s_handler s of
       H_immediate \<Rightarrow> immediate out s
     | H_format \<Rightarrow> format_c alloc out s
     | H_escape \<Rightarrow> escape out s)"

partial_function (option) handler_loop :: "(bool \<Rightarrow> nat \<Rightarrow> bool) \<Rightarrow> 'e out \<Rightarrow> 'e State \<Rightarrow> 'e State option" where
  "handler_loop alloc out s = do {
     (more, s) \<leftarrow> handle alloc out s;
     if more then handler_loop alloc out s else Some s
   }"

definition vnprintf2 :: "(bool \<Rightarrow> nat \<Rightarrow> bool) \<Rightarrow> 'e out \<Rightarrow> 'e \<Rightarrow> u8 list \<Rightarrow> arg list \<Rightarrow> (u32 \<times> 'e) option" where
  "vnprintf2 alloc out env fmt ap = do {
     s \<leftarrow> handler_loop alloc out
       \<lparr>s_handler = H_immediate, s_format = fmt, s_ap = ap, s_env = env, s_len = 0, s_has_error = False\<rparr>;
     Some (if s_has_error s then - 1 else s_len s, s_env s)
   }"

subsection \<open>Printing into a string\<close>

record CharBuffer =
  cb_len :: u32
  cb_max :: u32
  cb_buf :: "u8 list"

text \<open>A store outside of the caller's array makes the environment \<^const>\<open>None\<close>.\<close>

definition putc_buf :: "CharBuffer option out" where
  "putc_buf ch b =
    (0, do {
       b \<leftarrow> b;
       if cb_len b < cb_max b
       then do { a \<leftarrow> wr (cb_buf b) (unat (cb_len b)) ch; Some (b\<lparr>cb_buf := a, cb_len := cb_len b + 1\<rparr>) }
       else Some b
     })"

definition sprintf :: "(bool \<Rightarrow> nat \<Rightarrow> bool) \<Rightarrow> u8 list \<Rightarrow> u8 list \<Rightarrow> arg list \<Rightarrow> (u32 \<times> u8 list) option" where
  "sprintf alloc str fmt ap = do {
     (len, b) \<leftarrow> vnprintf2 alloc putc_buf (Some \<lparr>cb_len = 0, cb_max = 0xffffffff, cb_buf = str\<rparr>) fmt ap;
     b \<leftarrow> b;
     str \<leftarrow> wr (cb_buf b) (unat (cb_len b)) 0;
     Some (len, str)
   }"

definition snprintf :: "(bool \<Rightarrow> nat \<Rightarrow> bool) \<Rightarrow> u8 list \<Rightarrow> u32 \<Rightarrow> u8 list \<Rightarrow> arg list \<Rightarrow> (u32 \<times> u8 list) option" where
  "snprintf alloc str sz fmt ap = do {
     (len, b) \<leftarrow> vnprintf2 alloc putc_buf
       (Some \<lparr>cb_len = 0, cb_max = (if sz \<noteq> 0 then sz - 1 else 0), cb_buf = str\<rparr>) fmt ap;
     b \<leftarrow> b;
     str \<leftarrow> (if sz \<noteq> 0 then wr (cb_buf b) (unat (cb_len b)) 0 else Some (cb_buf b));
     Some (len, str)
   }"

text \<open>\<^verbatim>\<open>vsprintf\<close> and \<^verbatim>\<open>vsnprintf\<close> get the argument list from their caller.\<close>

definition vsprintf :: "(bool \<Rightarrow> nat \<Rightarrow> bool) \<Rightarrow> u8 list \<Rightarrow> u8 list \<Rightarrow> arg list \<Rightarrow> (u32 \<times> u8 list) option" where
  "vsprintf alloc str fmt ap = do {
     (len, b) \<leftarrow> vnprintf2 alloc putc_buf (Some \<lparr>cb_len = 0, cb_max = 0xffffffff, cb_buf = str\<rparr>) fmt ap;
     b \<leftarrow> b;
     str \<leftarrow> wr (cb_buf b) (unat (cb_len b)) 0;
     Some (len, str)
   }"

definition vsnprintf :: "(bool \<Rightarrow> nat \<Rightarrow> bool) \<Rightarrow> u8 list \<Rightarrow> u32 \<Rightarrow> u8 list \<Rightarrow> arg list \<Rightarrow> (u32 \<times> u8 list) option" where
  "vsnprintf alloc str sz fmt ap = do {
     (len, b) \<leftarrow> vnprintf2 alloc putc_buf
       (Some \<lparr>cb_len = 0, cb_max = (if sz \<noteq> 0 then sz - 1 else 0), cb_buf = str\<rparr>) fmt ap;
     b \<leftarrow> b;
     str \<leftarrow> (if sz \<noteq> 0 then wr (cb_buf b) (unat (cb_len b)) 0 else Some (cb_buf b));
     Some (len, str)
   }"

subsection \<open>Characters\<close>

definition emits :: "'e out \<Rightarrow> 'e State \<Rightarrow> u8 list \<Rightarrow> 'e State" where
  "emits out s cs = foldl (putchar out) s cs"

lemma emits_simps [simp]:
  "emits out s [] = s"
  "emits out s (c # cs) = emits out (putchar out s c) cs"
  "emits out s (cs @ ds) = emits out (emits out s cs) ds"
  by (simp_all add: emits_def)

lemma putchar_simps [simp]:
  "s_handler (putchar out s c) = s_handler s" "s_format (putchar out s c) = s_format s"
  "s_ap (putchar out s c) = s_ap s" "s_has_error (putchar out s c) = s_has_error s"
  by (auto simp: putchar_def Let_def split: prod.splits)

lemma emits_fields [simp]:
  "s_handler (emits out s cs) = s_handler s" "s_format (emits out s cs) = s_format s"
  "s_ap (emits out s cs) = s_ap s" "s_has_error (emits out s cs) = s_has_error s"
  by (induction cs arbitrary: s) simp_all

lemma putchar_updates [simp]:
  "putchar out (s\<lparr>s_handler := h\<rparr>) c = (putchar out s c)\<lparr>s_handler := h\<rparr>"
  "putchar out (s\<lparr>s_format := f\<rparr>) c = (putchar out s c)\<lparr>s_format := f\<rparr>"
  "putchar out (s\<lparr>s_ap := a\<rparr>) c = (putchar out s c)\<lparr>s_ap := a\<rparr>"
  by (auto simp: putchar_def Let_def split: prod.splits)

lemma emits_updates [simp]:
  "emits out (s\<lparr>s_handler := h\<rparr>) cs = (emits out s cs)\<lparr>s_handler := h\<rparr>"
  "emits out (s\<lparr>s_format := f\<rparr>) cs = (emits out s cs)\<lparr>s_format := f\<rparr>"
  "emits out (s\<lparr>s_ap := a\<rparr>) cs = (emits out s cs)\<lparr>s_ap := a\<rparr>"
  by (induction cs arbitrary: s) simp_all

lemma puts_emits: "0 \<notin> set cs \<Longrightarrow> puts out s (cs @ 0 # r) = Some (emits out s cs)"
  by (induction cs arbitrary: s) auto

subsection \<open>Digits\<close>

text \<open>The digits of a number in a radix, the highest first; at least one.\<close>

fun rdigits :: "nat \<Rightarrow> nat \<Rightarrow> nat list" where
  "rdigits r v = (if r < 2 \<or> v < r then [v] else rdigits r (v div r) @ [v mod r])"

declare rdigits.simps [simp del]

lemma rdigits_small: "v < r \<Longrightarrow> rdigits r v = [v]"
  by (simp add: rdigits.simps)

lemma rdigits_step: "2 \<le> r \<Longrightarrow> r \<le> v \<Longrightarrow> rdigits r v = rdigits r (v div r) @ [v mod r]"
  by (subst rdigits.simps) auto

lemma rdigits_less: "2 \<le> r \<Longrightarrow> d \<in> set (rdigits r v) \<Longrightarrow> d < r"
proof (induction v rule: less_induct)
  case (less v)
  show ?case
  proof (cases "v < r")
    case True
    then show ?thesis using less.prems by (simp add: rdigits_small)
  next
    case False
    then have "v div r < v" "d \<in> set (rdigits r (v div r)) \<or> d = v mod r" using less.prems by (auto simp: rdigits_step)
    then show ?thesis using less.IH [of "v div r"] less.prems(1) by auto
  qed
qed

lemma rdigits_not_Nil [simp]: "rdigits r v \<noteq> []"
  by (subst rdigits.simps) simp

definition dval :: "nat \<Rightarrow> nat list \<Rightarrow> nat" where
  "dval r ds = foldl (\<lambda>v d. v * r + d) 0 ds"

lemma dval_snoc [simp]: "dval r (ds @ [d]) = dval r ds * r + d"
  by (simp add: dval_def)

lemma dval_Nil [simp]: "dval r [] = 0"
  by (simp add: dval_def)

lemma dval_append: "dval r (ds @ es) = dval r ds * r ^ length es + dval r es"
proof (induction es rule: rev_induct)
  case (snoc e es)
  have "dval r (ds @ es @ [e]) = dval r (ds @ es) * r + e" using dval_snoc [of r "ds @ es" e] by simp
  then show ?case by (simp add: snoc algebra_simps)
qed simp

lemma dval_rdigits: "2 \<le> r \<Longrightarrow> dval r (rdigits r v) = v"
proof (induction v rule: less_induct)
  case (less v)
  show ?case
  proof (cases "v < r")
    case True
    then show ?thesis using dval_snoc [of r "[]" v] by (simp add: rdigits_small)
  next
    case False
    then show ?thesis using less by (simp add: rdigits_step)
  qed
qed

lemma digit_char_value: "d < 10 \<Longrightarrow> uint (digit_char d) = int d + 48"
proof -
  assume "d < 10"
  then have "unat (digit_char d) = d + 48" by (simp only: digit_char_def unat_of_nat) (simp add: take_bit_nat_eq_self)
  moreover have "uint (digit_char d) = int (unat (digit_char d))" by simp
  ultimately show ?thesis by (simp only: of_nat_add of_nat_numeral)
qed

lemma digit_char_nonzero: "d < 10 \<Longrightarrow> digit_char d \<noteq> 0"
  using digit_char_value [of d] by auto

lemma putd_loop_digits:
  assumes r: "2 \<le> unat radix" "unat radix \<le> 10" and u: "unat u < unat radix ^ p" "0 < p"
  shows "putd_loop radix p u cs = Some (map digit_char (rdigits (unat radix) (unat u)) @ cs)"
  using u
proof (induction p arbitrary: u cs)
  case (Suc p)
  have m: "unat (u mod radix) = unat u mod unat radix" and d: "unat (u div radix) = unat u div unat radix"
    by (simp_all add: unat_mod unat_div)
  have c: "ucast (u mod radix + 48) = digit_char (unat u mod unat radix)"
  proof -
    have "unat u mod unat radix < unat radix" using r(1) by (intro mod_less_divisor) simp
    then have "unat u mod unat radix < 10" using r(2) by linarith
    then have "unat (u mod radix + 48) = unat u mod unat radix + 48" by (simp add: unat_word_ariths m)
    then show ?thesis using \<open>unat u mod unat radix < 10\<close>
      by (simp only: word_unat_eq_iff digit_char_def unat_of_nat unsigned_ucast_eq unsigned_take_bit_eq) (simp add: take_bit_nat_eq_self)
  qed
  have z: "u div radix = 0 \<longleftrightarrow> unat u < unat radix"
    using r(1) by (simp add: word_unat_eq_iff d div_eq_0_iff)
  show ?case
  proof (cases "unat u < unat radix")
    case True
    then show ?thesis using z c by (simp add: rdigits_small)
  next
    case False
    have "unat u div unat radix < unat radix ^ p" using Suc.prems(1) by (simp add: less_mult_imp_div_less mult.commute)
    moreover have "0 < p" using False Suc.prems(1) by (cases p) auto
    ultimately have "putd_loop radix p (u div radix) (digit_char (unat u mod unat radix) # cs) =
        Some (map digit_char (rdigits (unat radix) (unat u div unat radix)) @ digit_char (unat u mod unat radix) # cs)"
      using Suc.IH [of "u div radix"] by (simp add: d)
    then show ?thesis using False z c r(1) by (simp add: rdigits_step)
  qed
qed simp

lemma putd_loop_overruns:
  assumes "2 \<le> unat radix" "unat radix ^ p \<le> unat u"
  shows "putd_loop radix p u cs = None"
  using assms(2)
proof (induction p arbitrary: u cs)
  case (Suc p)
  have d: "unat (u div radix) = unat u div unat radix" by (simp add: unat_div)
  have "unat radix ^ p * unat radix \<le> unat u" using Suc.prems by (simp add: mult.commute)
  then have "unat radix ^ p \<le> unat u div unat radix" using assms(1) by (simp add: less_eq_div_iff_mult_less_eq)
  moreover have "0 < unat radix ^ p" using assms(1) by simp
  ultimately have "0 < unat u div unat radix" by linarith
  with \<open>unat radix ^ p \<le> unat u div unat radix\<close> have "u div radix \<noteq> 0" "putd_loop radix p (u div radix) cs = None" for cs
    using Suc.IH [of "u div radix"] by (auto simp: word_unat_eq_iff d)
  then show ?case by simp
qed simp

subsection \<open>The text of an integer\<close>

definition dec_text :: "u32 \<Rightarrow> u8 list" where
  "dec_text v = (if sint v < 0 then [45] else []) @ map digit_char (rdigits 10 (nat \<bar>sint v\<bar>))"

definition oct_text :: "u32 \<Rightarrow> u8 list" where
  "oct_text v = map digit_char (rdigits 8 (unat v))"

definition hex_text :: "u32 \<Rightarrow> u8 list" where
  "hex_text v = map (\<lambda>d. hex_char (word_of_nat d)) (rdigits 16 (unat v))"

lemma unat_abs: "unat (if sint v < 0 then - v else v) = nat \<bar>sint v\<bar>" for v :: u32
proof -
  have r: "sint v < 2 ^ 31" "- (2 ^ 31) \<le> sint v" using sint_lt [of v] sint_ge [of v] by simp_all
  have "(if sint v < 0 then - v else v) = word_of_int \<bar>sint v\<bar>"
    by (simp add: abs_if)
  moreover have "uint (word_of_int \<bar>sint v\<bar> :: u32) = \<bar>sint v\<bar>" using r by (intro uint_below_2_32) auto
  ultimately show ?thesis by (simp only: nat_uint_eq [symmetric])
qed

lemma digits_nonzero: "2 \<le> r \<Longrightarrow> r \<le> 10 \<Longrightarrow> 0 \<notin> set (map digit_char (rdigits r v))"
  using rdigits_less [of r _ v] digit_char_nonzero by (fastforce dest: less_le_trans)

lemma putd_10: "putd out s v 10 = Some (emits out s (dec_text v))"
proof -
  let ?u = "if sint v < 0 then - v else v" and ?s = "if sint v < 0 then putchar out s 45 else s"
  have "unat ?u < 10 ^ 10" using unat_u32_le [of ?u] by (rule le_less_trans) simp
  then have l: "putd_loop 10 MAX_INT_COLUMN ?u [0] = Some (map digit_char (rdigits 10 (unat ?u)) @ 0 # [])"
    using putd_loop_digits [of 10 ?u 10 "[0]"] by simp
  have p: "puts out ?s (map digit_char (rdigits 10 (unat ?u)) @ 0 # []) =
      Some (emits out ?s (map digit_char (rdigits 10 (unat ?u))))"
    by (rule puts_emits, rule digits_nonzero) simp_all
  have "putd out s v 10 = do { cs \<leftarrow> putd_loop 10 MAX_INT_COLUMN ?u [0]; puts out ?s cs }"
    by (simp add: putd_def)
  also have "\<dots> = Some (emits out ?s (map digit_char (rdigits 10 (unat ?u))))" unfolding l bind.simps p ..
  also have "\<dots> = Some (emits out s (dec_text v))" unfolding unat_abs by (simp add: dec_text_def)
  finally show ?thesis .
qed

lemma putd_8:
  assumes "unat v < 2 ^ 30"
  shows "putd out s v 8 = Some (emits out s (oct_text v))"
proof -
  have "unat v < 8 ^ 10" using assms by simp
  then have l: "putd_loop 8 MAX_INT_COLUMN v [0] = Some (map digit_char (rdigits 8 (unat v)) @ 0 # [])"
    using putd_loop_digits [of 8 v 10 "[0]"] by simp
  have p: "puts out s (map digit_char (rdigits 8 (unat v)) @ 0 # []) = Some (emits out s (oct_text v))"
    unfolding oct_text_def by (rule puts_emits, rule digits_nonzero) simp_all
  have "putd out s v 8 = do { cs \<leftarrow> putd_loop 8 MAX_INT_COLUMN v [0]; puts out s cs }" by (simp add: putd_def)
  then show ?thesis unfolding l bind.simps p .
qed

fun wdigits :: "nat \<Rightarrow> nat \<Rightarrow> nat \<Rightarrow> nat list" where
  "wdigits r 0 v = []"
| "wdigits r (Suc k) v = wdigits r k (v div r) @ [v mod r]"

lemma wdigits_top: "wdigits r (Suc k) v = (v div r ^ k mod r) # wdigits r k v"
  by (induction k arbitrary: v) (simp_all add: div_mult2_eq)

lemma rdigits_wdigits:
  assumes "2 \<le> r" "v < r ^ Suc k" "k = 0 \<or> r ^ k \<le> v"
  shows "rdigits r v = wdigits r (Suc k) v"
  using assms(2,3)
proof (induction k arbitrary: v)
  case 0
  then show ?case by (simp add: rdigits_small)
next
  case (Suc k)
  have "r ^ k * r \<le> v" using Suc.prems(2) by (simp add: mult.commute)
  then have "r ^ k \<le> v div r" using assms(1) by (simp add: less_eq_div_iff_mult_less_eq)
  moreover have "v div r < r ^ Suc k" using Suc.prems(1) by (simp add: less_mult_imp_div_less mult.commute)
  moreover have "r \<le> v"
  proof -
    have "r * 1 \<le> r * r ^ k" using assms(1) by (intro mult_left_mono) auto
    moreover have "r * r ^ k \<le> v" using Suc.prems(2) by simp
    ultimately show ?thesis by linarith
  qed
  ultimately show ?case using Suc.IH [of "v div r"] assms(1) by (simp add: rdigits_step)
qed

lemma putx_loop_digits:
  "putx_loop out u k s = emits out s (map (\<lambda>d. hex_char (word_of_nat d)) (wdigits 16 (Suc k) (unat u)))"
proof -
  have m: "w AND 0xf = word_of_nat (unat w mod 16)" for w :: u32
  proof -
    have "w AND 0xf = take_bit 4 w" by (simp add: take_bit_eq_mask mask_eq_exp_minus_1)
    then have "unat (w AND 0xf) = unat w mod 16" by (simp add: unsigned_take_bit_eq take_bit_nat_def)
    then show ?thesis by (metis of_nat_unat ucast_id)
  qed
  have d: "unat (drop_bit (4 * k) u) = unat u div 16 ^ k" for k by (simp add: unat_drop power_mult)
  show ?thesis
  proof (induction k arbitrary: s)
    case 0
    then show ?case by (simp add: m)
  next
    case (Suc k)
    have "putx_loop out u (Suc k) s = putx_loop out u k (putchar out s (hex_char (word_of_nat (unat u div 16 ^ Suc k mod 16))))"
      by (simp only: putx_loop.simps m d)
    then show ?case unfolding Suc wdigits_top [of 16 "Suc k"] by simp
  qed
qed

lemma bsrl_correct:
  "take_bit k (unat d) \<noteq> 0 \<Longrightarrow> bsrl d k < k \<and> 2 ^ bsrl d k \<le> take_bit k (unat d) \<and> take_bit k (unat d) < 2 ^ Suc (bsrl d k)"
proof (induction k)
  case (Suc k)
  have b: "bit (unat d) k \<longleftrightarrow> bit d k" by (simp add: bit_unsigned_iff)
  have t: "take_bit (Suc k) (unat d) = 2 ^ k * of_bool (bit d k) + take_bit k (unat d)"
    unfolding take_bit_Suc_from_most b ..
  show ?case
  proof (cases "bit d k")
    case True
    then show ?thesis using take_bit_nat_less_exp [of k "unat d"] unfolding t by simp
  next
    case False
    then show ?thesis using Suc unfolding t by simp
  qed
qed simp

lemma four_above: "Suc b \<le> 4 * Suc (b div 4)" for b :: nat
  by presburger

lemma putx_text: "putx out s v = emits out s (hex_text v)"
proof (cases "v = 0")
  case True
  then show ?thesis by (simp add: putx_def count_nlz_def hex_text_def rdigits_small hex_char_def)
next
  case False
  let ?b = "bsrl v 32"
  have t: "take_bit 32 (unat v) = unat v" by (simp add: take_bit_nat_eq_self)
  have b: "?b < 32" "2 ^ ?b \<le> unat v" "unat v < 2 ^ Suc ?b"
    using bsrl_correct [of 32 v] False unfolding t by (auto simp: unat_eq_zero)
  have "(16 :: nat) ^ (?b div 4) = 2 ^ (4 * (?b div 4))" by (simp add: power_mult)
  also have "\<dots> \<le> 2 ^ ?b" by (rule power_increasing) auto
  finally have lo: "16 ^ (?b div 4) \<le> unat v" using b(2) by linarith
  have "(2 :: nat) ^ Suc ?b \<le> 2 ^ (4 * Suc (?b div 4))"
    by (rule power_increasing, rule four_above) simp
  also have "\<dots> = 16 ^ Suc (?b div 4)" by (subst power_mult) simp
  finally have hi: "unat v < 16 ^ Suc (?b div 4)" using b(3) by linarith
  have "rdigits 16 (unat v) = wdigits 16 (Suc (?b div 4)) (unat v)" using lo hi by (intro rdigits_wdigits) auto
  then show ?thesis using False b(1) by (simp add: putx_def count_nlz_def hex_text_def putx_loop_digits)
qed

subsection \<open>The text of a double\<close>

definition dbl_sig :: "u64 \<Rightarrow> u64" where
  "dbl_sig x = x AND B64_SIGNIFICANT_MASK"

definition dbl_exp :: "u64 \<Rightarrow> int" where
  "dbl_exp x = uint (drop_bit 20 (ucast (drop_bit 32 x) :: u32) AND 0x7ff)"

definition dbl_neg :: "u64 \<Rightarrow> bool" where
  "dbl_neg x \<longleftrightarrow> sint (ucast (drop_bit 32 x) :: u32) < 0"

text \<open>A finite double is this number of units of \<open>2 ^ - 1074\<close>.\<close>

definition dbl_units :: "u64 \<Rightarrow> nat" where
  "dbl_units x =
    (if dbl_exp x = 0 then unat (dbl_sig x) else (2 ^ 52 + unat (dbl_sig x)) * 2 ^ (nat (dbl_exp x) - 1))"

lemma dbl_sig_less: "unat (dbl_sig x) < 2 ^ 52"
proof -
  have "dbl_sig x = take_bit 52 x" by (simp add: dbl_sig_def take_bit_eq_mask mask_eq_exp_minus_1)
  then show ?thesis using take_bit_nat_less_exp [of 52 "unat x"] by (simp only: unsigned_take_bit_eq)
qed

lemma dbl_exp_range: "0 \<le> dbl_exp x" "dbl_exp x < 2048"
proof -
  have "w AND 0x7ff = take_bit 11 w" for w :: u32 by (simp add: take_bit_eq_mask mask_eq_exp_minus_1)
  then have "dbl_exp x = take_bit 11 (uint (drop_bit 20 (ucast (drop_bit 32 x) :: u32)))"
    by (simp only: dbl_exp_def unsigned_take_bit_eq)
  then show "0 \<le> dbl_exp x" "dbl_exp x < 2048" using take_bit_int_less_exp [of 11] by auto
qed

lemma sig_step:
  fixes x sig :: u64
  assumes "unat x < 2 ^ 53" "unat sig < 2 ^ 52"
  shows "unat (push_bit 1 x OR drop_bit 51 sig) * 2 ^ 52 + unat (push_bit 1 sig AND B64_SIGNIFICANT_MASK) =
      2 * (unat x * 2 ^ 52 + unat sig)"
    "unat (push_bit 1 x OR drop_bit 51 sig) \<le> 2 * unat x + 1"
    "unat (push_bit 1 sig AND B64_SIGNIFICANT_MASK) = 2 * unat sig mod 2 ^ 52"
proof -
  have "unat sig < 2 ^ 64" using assms(2) by simp
  then have d: "unat (drop_bit 51 sig) = unat sig div 2 ^ 51"
    by (simp only: unsigned_drop_bit_eq) (simp add: drop_bit_eq_div take_bit_nat_eq_self)
  have "unat sig div 2 ^ 51 < 2" using assms(2) by simp
  then have d2: "unat (drop_bit 51 sig) < 2" by (simp add: d)
  have t: "take_bit 1 (drop_bit 51 sig) = drop_bit 51 sig"
    using d2 by (simp only: word_unat_eq_iff unsigned_take_bit_eq take_bit_nat_def) simp
  have "\<not> bit (push_bit 1 x) n \<or> \<not> bit (drop_bit 51 sig) n" for n
    using t by (metis bit_push_bit_iff bit_take_bit_iff not_less)
  then have "push_bit 1 x OR drop_bit 51 sig = push_bit 1 x + drop_bit 51 sig" by (metis disjunctive_add)
  moreover have "unat (push_bit 1 x) = 2 * unat x"
    using assms(1) by (simp only: unsigned_push_bit_eq) (simp add: take_bit_nat_eq_self push_bit_eq_mult)
  ultimately have x: "unat (push_bit 1 x OR drop_bit 51 sig) = 2 * unat x + unat sig div 2 ^ 51"
    using assms(1) d2 d by (simp add: unat_word_ariths)
  have "push_bit 1 sig AND B64_SIGNIFICANT_MASK = take_bit 52 (push_bit 1 sig)"
    by (simp add: take_bit_eq_mask mask_eq_exp_minus_1)
  moreover have "unat (push_bit 1 sig) = 2 * unat sig"
    using assms(2) by (simp only: unsigned_push_bit_eq) (simp add: take_bit_nat_eq_self push_bit_eq_mult)
  ultimately show s: "unat (push_bit 1 sig AND B64_SIGNIFICANT_MASK) = 2 * unat sig mod 2 ^ 52"
    by (simp only: unsigned_take_bit_eq take_bit_nat_def)
  show "unat (push_bit 1 x OR drop_bit 51 sig) \<le> 2 * unat x + 1" using x d2 d by simp
  have "2 * unat sig = 2 * unat sig div 2 ^ 52 * 2 ^ 52 + 2 * unat sig mod 2 ^ 52" by (simp only: div_mult_mod_eq)
  moreover have "2 * unat sig div 2 ^ 52 = unat sig div 2 ^ 51" by simp
  ultimately show "unat (push_bit 1 x OR drop_bit 51 sig) * 2 ^ 52 + unat (push_bit 1 sig AND B64_SIGNIFICANT_MASK) =
      2 * (unat x * 2 ^ 52 + unat sig)" unfolding x s by simp
qed

lemma sig_loop_correct:
  assumes "unat sig < 2 ^ 52" "2 ^ i dvd unat sig" "unat x < 2 ^ Suc i" "i + k = 53" "0 < k"
  shows "\<exists>n x'. sig_loop k (int i) x sig = Some (int (i + n), x') \<and> i + n \<le> 52 \<and> unat x' < 2 ^ 53 \<and>
    unat x' * 2 ^ 52 = (unat x * 2 ^ 52 + unat sig) * 2 ^ n"
  using assms
proof (induction k arbitrary: i x sig)
  case (Suc k)
  have i: "i \<le> 52" using Suc.prems(4) by simp
  have x53: "unat x < 2 ^ 53" using Suc.prems(3) i power_increasing [of "Suc i" 53 "2 :: nat"] by (simp add: less_le_trans)
  show ?case
  proof (cases "sig = 0")
    case True
    then show ?thesis using i x53 by - (rule exI [of _ 0], rule exI [of _ x], simp)
  next
    case False
    then have "2 ^ i \<le> unat sig" using Suc.prems(2) by (intro dvd_imp_le) (auto simp: unat_gt_0)
    then have "(2 :: nat) ^ i < 2 ^ 52" using Suc.prems(1) by (rule le_less_trans)
    then have i: "i < 52" by (rule power_less_imp_less_exp [rotated]) simp
    let ?x = "push_bit 1 x OR drop_bit 51 sig" and ?s = "push_bit 1 sig AND B64_SIGNIFICANT_MASK"
    note st = sig_step [OF x53 Suc.prems(1)]
    have "\<exists>n x'. sig_loop k (int (Suc i)) ?x ?s = Some (int (Suc i + n), x') \<and> Suc i + n \<le> 52 \<and> unat x' < 2 ^ 53 \<and>
        unat x' * 2 ^ 52 = (unat ?x * 2 ^ 52 + unat ?s) * 2 ^ n"
    proof (rule Suc.IH)
      show "unat ?s < 2 ^ 52" unfolding st(3) by simp
      have "2 ^ Suc i dvd 2 * unat sig" using Suc.prems(2) by simp
      moreover have "(2 :: nat) ^ Suc i dvd 2 ^ 52" using i by (intro le_imp_power_dvd) simp
      ultimately show "2 ^ Suc i dvd unat ?s" unfolding st(3) by (simp only: dvd_mod_iff)
      show "unat ?x < 2 ^ Suc (Suc i)" using st(2) Suc.prems(3) by simp
    qed (use i Suc.prems in auto)
    then obtain n x' where "sig_loop k (int (Suc i)) ?x ?s = Some (int (Suc i + n), x')" "Suc i + n \<le> 52" "unat x' < 2 ^ 53"
        "unat x' * 2 ^ 52 = (unat ?x * 2 ^ 52 + unat ?s) * 2 ^ n" by blast
    then show ?thesis using False unfolding st(1)
      by - (rule exI [of _ "Suc n"], rule exI [of _ x'], simp add: add.commute)
  qed
qed simp

lemma dec_digits_spec: "dval 10 (dec_digits v) = v \<and> (\<forall>d \<in> set (dec_digits v). d < 10)"
proof (induction v rule: less_induct)
  case (less v)
  show ?case
  proof (cases "v = 0")
    case False
    then have "dec_digits v = dec_digits (v div 10) @ [v mod 10]" by (subst dec_digits.simps) simp
    moreover have "dval 10 (dec_digits (v div 10)) = v div 10 \<and> (\<forall>d \<in> set (dec_digits (v div 10)). d < 10)"
      using False by (intro less) simp
    ultimately show ?thesis by auto
  qed simp
qed

lemma dec_digits_Nil: "dec_digits v = [] \<longleftrightarrow> v = 0"
  by (cases "v = 0") (simp_all add: dec_digits.simps [of v])

text \<open>The digits before and behind the point of \<open>v / 10 ^ ds\<close>.\<close>

definition split_digits :: "nat \<Rightarrow> nat \<Rightarrow> nat list \<times> nat list" where
  "split_digits v ds =
    (let D = dec_digits v; L = length D
     in if L \<le> ds then ([0], replicate (ds - L) 0 @ D)
        else (take (L - ds) D, if ds = 0 then [0] else drop (L - ds) D))"

definition point_text :: "nat list \<times> nat list \<Rightarrow> u8 list" where
  "point_text p = map digit_char (fst p) @ [46] @ map digit_char (snd p)"

lemma dval_zeros: "dval r (replicate n 0) = 0"
proof (induction n)
  case (Suc n)
  have "replicate (Suc n) (0 :: nat) = replicate n 0 @ [0]" by (simp add: replicate_append_same)
  then show ?case using Suc by (simp only: dval_snoc)
qed simp

lemma split_digits_spec:
  assumes "0 < v" "split_digits v ds = (I, F)"
  shows "I \<noteq> []" "F \<noteq> []" "\<forall>d \<in> set (I @ F). d < 10" "dval 10 (I @ F) * 10 ^ ds = v * 10 ^ length F"
proof -
  let ?D = "dec_digits v"
  have D: "dval 10 ?D = v" "\<forall>d \<in> set ?D. d < 10" "?D \<noteq> []"
    using dec_digits_spec [of v] assms(1) by (auto simp: dec_digits_Nil)
  have "I \<noteq> [] \<and> F \<noteq> [] \<and> (\<forall>d \<in> set (I @ F). d < 10) \<and> dval 10 (I @ F) * 10 ^ ds = v * 10 ^ length F"
  proof (cases "length ?D \<le> ds")
    case True
    then have IF: "I = [0]" "F = replicate (ds - length ?D) 0 @ ?D" using assms(2) by (auto simp: split_digits_def Let_def)
    then have "I @ F = replicate (Suc (ds - length ?D)) 0 @ ?D" by simp
    then have "dval 10 (I @ F) = v" using D(1) dval_zeros by (simp only: dval_append)
    then show ?thesis using IF D True by auto
  next
    case False
    then have IF: "I = take (length ?D - ds) ?D" "F = (if ds = 0 then [0] else drop (length ?D - ds) ?D)"
      using assms(2) by (auto simp: split_digits_def Let_def)
    have d: "\<forall>d \<in> set (I @ F). d < 10" using D(2) by (auto simp: IF dest: in_set_takeD in_set_dropD)
    show ?thesis
    proof (cases "ds = 0")
      case True
      then show ?thesis using IF D d by simp
    next
      case f: False
      then have "I @ F = ?D" "length F = ds" using IF False by simp_all
      then show ?thesis using IF D d f False by auto
    qed
  qed
  then show "I \<noteq> []" "F \<noteq> []" "\<forall>d \<in> set (I @ F). d < 10" "dval 10 (I @ F) * 10 ^ ds = v * 10 ^ length F" by auto
qed

lemma power5_nth: "0 < i \<Longrightarrow> i \<le> 13 \<Longrightarrow> unat (power5 ! (i - 1)) = 5 ^ i"
proof -
  assume "0 < i" "i \<le> 13"
  then have i: "i - 1 < 13" "i = Suc (i - 1)" by auto
  have e: "map unat power5 = map (\<lambda>j. 5 ^ Suc j) [0..<13]" by (simp add: power5_def upt_rec)
  have "length power5 = 13" by (simp add: power5_def)
  then have "unat (power5 ! (i - 1)) = map unat power5 ! (i - 1)" using i(1) by simp
  also have "\<dots> = 5 ^ Suc (i - 1)" unfolding e using i(1) by simp
  finally show ?thesis using i(2) by (simp only:)
qed

lemma multiply_5_correct:
  assumes "\<And>b n. alloc b n"
  shows "num_ok num \<Longrightarrow> \<exists>num'. multiply_5 alloc i num = Some num' \<and> num_ok num' \<and> num_val num' = num_val num * 5 ^ i"
proof (induction i arbitrary: num rule: less_induct)
  case (less i)
  have l: "length power5 = 13" by (simp add: power5_def)
  have mul: "\<exists>p'. number_multiply alloc num n = Some (0, p') \<and> num_ok p' \<and> num_val p' = num_val num * unat n" for n
    using number_multiply_correct [OF less.prems, of alloc n] assms by blast
  consider (big) "13 \<le> i" | (small) "0 < i" "i < 13" | (zero) "i = 0" by linarith
  then show ?case
  proof cases
    case big
    from mul [of "power5 ! (13 - 1)"] obtain p' where
      p: "number_multiply alloc num (power5 ! (13 - 1)) = Some (0, p')" "num_ok p'" "num_val p' = num_val num * 5 ^ 13"
      by (metis power5_nth le_refl zero_less_numeral)
    from less.IH [of "i - 13", OF _ p(2)] big obtain q where
      q: "multiply_5 alloc (i - 13) p' = Some q" "num_ok q" "num_val q = num_val p' * 5 ^ (i - 13)" by auto
    have "(5 :: nat) ^ 13 * 5 ^ (i - 13) = 5 ^ i" using big by (metis le_add_diff_inverse power_add)
    then have "num_val q = num_val num * 5 ^ i" unfolding q(3) p(3) mult.assoc by (simp only:)
    moreover have "multiply_5 alloc i num = Some q"
      using big p(1) q(1) by (subst multiply_5.simps) (simp add: l)
    ultimately show ?thesis using q(2) by blast
  next
    case small
    from mul [of "power5 ! (i - 1)"] obtain p' where
      "number_multiply alloc num (power5 ! (i - 1)) = Some (0, p')" "num_ok p'" "num_val p' = num_val num * 5 ^ i"
      using small power5_nth [of i] by auto
    then show ?thesis using small by (subst multiply_5.simps) (simp add: l)
  next
    case zero
    then show ?thesis using less.prems by (subst multiply_5.simps) (simp add: l)
  qed
qed

lemma digits_text:
  assumes "\<forall>d \<in> set ds. d < 10"
  shows "0 \<notin> set (map digit_char ds)"
  using assms digit_char_nonzero by fastforce

lemma power_bounds:
  "53 < a \<Longrightarrow> (2 :: nat) ^ 53 * 5 ^ a < 10 ^ a"
  "0 < a \<Longrightarrow> b \<le> 3 * a \<Longrightarrow> (2 :: nat) ^ b < 10 ^ a"
proof -
  assume "53 < a"
  then have "(2 :: nat) ^ 53 < 2 ^ a" by (rule power_strict_increasing) simp
  then have "(2 :: nat) ^ 53 * 5 ^ a < 2 ^ a * 5 ^ a" by (rule mult_strict_right_mono) simp
  also have "\<dots> = 10 ^ a" by (simp flip: power_mult_distrib)
  finally show "(2 :: nat) ^ 53 * 5 ^ a < 10 ^ a" .
next
  assume a: "0 < a" "b \<le> 3 * a"
  then have "(2 :: nat) ^ b \<le> 2 ^ (3 * a)" by (intro power_increasing) simp_all
  also have "\<dots> = 8 ^ a" by (simp add: power_mult)
  also have "\<dots> < 10 ^ a" using a(1) by (intro power_strict_mono) simp_all
  finally show "(2 :: nat) ^ b < 10 ^ a" .
qed

lemma point_out:
  fixes v k :: nat
  defines "cs \<equiv> map digit_char (dec_digits v) @ [0]" and "il \<equiv> int (length (dec_digits v)) - int k"
  shows "(if il \<le> 0
          then do { s \<leftarrow> puts out s [48, 46, 0]; puts out (foldl (putchar out) s (replicate (nat (- il)) 48)) cs }
          else
            (let s = foldl (putchar out) s (take (nat il) cs);
                 s = putchar out s 46;
                 s = (if k = 0 then putchar out s 48 else s)
             in puts out s (drop (nat il) cs))) = Some (emits out s (point_text (split_digits v k)))"
proof -
  let ?D = "dec_digits v"
  have d: "\<forall>d \<in> set ?D. d < 10" using dec_digits_spec by blast
  have c0: "digit_char 0 = 48" by (simp add: digit_char_def)
  show ?thesis
  proof (cases "length ?D \<le> k")
    case True
    then have "nat (- il) = k - length ?D" "il \<le> 0" by (auto simp: il_def)
    moreover have "puts out t cs = Some (emits out t (map digit_char ?D))" for t :: "'a State"
      unfolding cs_def using digits_text [OF d] by (rule puts_emits)
    ultimately show ?thesis using True
      by (simp add: split_digits_def point_text_def Let_def c0 map_replicate flip: emits_def)
  next
    case False
    then have il: "nat il = length ?D - k" "\<not> il \<le> 0" by (auto simp: il_def)
    have t: "take (nat il) cs = map digit_char (take (length ?D - k) ?D)"
      "drop (nat il) cs = map digit_char (drop (length ?D - k) ?D) @ [0]"
      by (simp_all add: il(1) cs_def take_map drop_map)
    have "\<forall>d \<in> set (drop (length ?D - k) ?D). d < 10" using d by (auto dest: in_set_dropD)
    note p = puts_emits [OF digits_text [OF this]]
    show ?thesis using False il(2)
      by (simp add: t p split_digits_def point_text_def Let_def c0 flip: emits_def)
  qed
qed

lemma digits_bound:
  assumes "unat (x :: u64) < 2 ^ 53" "- 1023 \<le> ds" "ds \<le> int m" "359 \<le> m"
  shows "unat x * (if 0 < ds then 5 ^ nat ds else 2 ^ nat (- ds)) < 10 ^ m"
proof (cases "0 < ds")
  case True
  have "(5 :: nat) ^ nat ds \<le> 5 ^ m" using assms(3) by (intro power_increasing) auto
  then have "unat x * 5 ^ nat ds \<le> 2 ^ 53 * 5 ^ m" using assms(1) by (intro mult_mono) simp_all
  also have "\<dots> < 10 ^ m" using assms(4) by (intro power_bounds(1)) simp
  finally show ?thesis using True by simp
next
  case False
  have "unat x * 2 ^ nat (- ds) \<le> 2 ^ 53 * 2 ^ nat (- ds)" using assms(1) by (intro mult_right_mono) simp_all
  also have "\<dots> = 2 ^ (53 + nat (- ds))" by (simp only: power_add)
  also have "\<dots> < 10 ^ m" using assms(2,4) by (intro power_bounds(2)) auto
  finally show ?thesis using False by simp
qed

lemma putdouble_digits:
  assumes alloc: "\<And>b n. alloc b n" and x: "0 < unat x" "unat x < 2 ^ 53" and ds: "- 1023 \<le> ds" "ds \<le> 1074"
    and start: "(if ex = - B64_EXPONENT_BIAS then Some (52 + B64_EXPONENT_BIAS - 1, sig)
        else do { (i, x) \<leftarrow> sig_loop 53 0 1 sig; Some (i - ex, x) }) = Some (ds, x)"
  shows "putdouble alloc out s sig ex =
    Some (0, emits out s (point_text (split_digits (unat x * (if 0 < ds then 5 ^ nat ds else 2 ^ nat (- ds))) (nat ds))))"
proof -
  let ?v = "unat x * (if 0 < ds then 5 ^ nat ds else 2 ^ nat (- ds))"
  obtain num where num: "number_create alloc x False = Some num" using alloc by (simp add: number_create_def Let_def)
  have ok: "num_ok num" "num_val num = unat x" using number_create_correct [OF num] by auto
  have "\<exists>num'. (if ds > 0
            then do { num \<leftarrow> multiply_5 alloc (nat ds) num; Some (num, ds) }
            else do { (_, num) \<leftarrow> number_shift alloc num (- ds); Some (num, 0) }) = Some (num', int (nat ds)) \<and>
       num_ok num' \<and> num_val num' = ?v"
  proof (cases "0 < ds")
    case True
    then show ?thesis using multiply_5_correct [of alloc num "nat ds", OF alloc ok(1)] ok(2) by auto
  next
    case False
    then show ?thesis using number_shift_correct [OF ok(1), of "- ds" alloc] alloc ok(2) by auto
  qed
  then obtain num' where num': "(if ds > 0
            then do { num \<leftarrow> multiply_5 alloc (nat ds) num; Some (num, ds) }
            else do { (_, num) \<leftarrow> number_shift alloc num (- ds); Some (num, 0) }) = Some (num', int (nat ds))"
     "num_ok num'" "num_val num' = ?v" by blast
  define m where "m = B64_EXPONENT_MAX_R10"
  have v: "?v < 10 ^ m" using x ds by (intro digits_bound) (auto simp: m_def)
  have dec: "number_to_decimal m num' [0] = Some (m - length (dec_digits ?v), map digit_char (dec_digits ?v) @ [0])"
    using number_to_decimal_correct [OF num'(2), of m "[0]"] v unfolding num'(3) by blast
  have "length (dec_digits ?v) \<le> m" using v by (rule length_dec_digits)
  then have il: "int m - int (m - length (dec_digits ?v)) - int (nat ds) = int (length (dec_digits ?v)) - int (nat ds)" by simp
  show ?thesis
    unfolding putdouble_def start bind.simps prod.case num option.case num'(1) m_def [symmetric] dec Let_def il
    using point_out [of ?v "nat ds" out s] by (simp only: Let_def of_nat_eq_0_iff bind.simps)
qed

lemma scaled_value:
  fixes y N :: nat
  assumes "y * 2 ^ nat (int m - D) = N" "D \<le> int m"
  shows "y * (if 0 < D then 5 ^ nat D else 2 ^ nat (- D)) * 2 ^ m = N * 10 ^ nat D"
proof (cases "0 < D")
  case True
  then have "m = nat D + nat (int m - D)" using assms(2) by simp
  then have "(2 :: nat) ^ m = 2 ^ nat D * 2 ^ nat (int m - D)" by (metis power_add)
  then have "y * 5 ^ nat D * 2 ^ m = y * 2 ^ nat (int m - D) * (5 ^ nat D * 2 ^ nat D)" by (simp only: ac_simps)
  moreover have "(5 :: nat) ^ nat D * 2 ^ nat D = 10 ^ nat D" by (simp flip: power_mult_distrib)
  ultimately show ?thesis using True assms(1) by simp
next
  case False
  then have "nat (int m - D) = nat (- D) + m" by simp
  then have "y * 2 ^ nat (- D) * 2 ^ m = N" using assms(1) by (simp only: power_add mult.assoc)
  then show ?thesis using False by simp
qed

text \<open>
  The significand without its trailing zeros and its number of binary places, and the text of a double; \<open>dbl_text_exact\<close>
  says what the text of a finite double denotes.
\<close>

definition dbl_scale :: "u64 \<Rightarrow> (int \<times> u64) option" where
  "dbl_scale x =
    (if dbl_exp x - B64_EXPONENT_BIAS = - B64_EXPONENT_BIAS then Some (52 + B64_EXPONENT_BIAS - 1, dbl_sig x)
     else do { (i, y) \<leftarrow> sig_loop 53 0 1 (dbl_sig x); Some (i - (dbl_exp x - B64_EXPONENT_BIAS), y) })"

definition dbl_point :: "u64 \<Rightarrow> nat list \<times> nat list" where
  "dbl_point x =
    (if dbl_exp x = 0 \<and> dbl_sig x = 0 then ([0], [0])
     else
       (case the (dbl_scale x) of
          (D, y) \<Rightarrow> split_digits (unat y * (if 0 < D then 5 ^ nat D else 2 ^ nat (- D))) (nat D)))"

definition dbl_text :: "u64 \<Rightarrow> u8 list" where
  "dbl_text x =
    (if dbl_exp x = B64_EXPONENT_SPECIAL \<and> dbl_sig x \<noteq> 0 then [110, 97, 110]
     else (if dbl_neg x then [45] else []) @
       (if dbl_exp x = B64_EXPONENT_SPECIAL then [105, 110, 102] else point_text (dbl_point x)))"

lemma dbl_scale_correct:
  assumes fin: "dbl_exp x < B64_EXPONENT_SPECIAL" "dbl_exp x \<noteq> 0 \<or> dbl_sig x \<noteq> 0" and m: "m = 1074"
  shows "\<exists>D y. dbl_scale x = Some (D, y) \<and>
      0 < unat y \<and> unat y < 2 ^ 53 \<and> - 1023 \<le> D \<and> D \<le> int m \<and> unat y * 2 ^ nat (int m - D) = dbl_units x"
proof -
  let ?sig = "dbl_sig x" and ?ex = "dbl_exp x - B64_EXPONENT_BIAS"
  have e: "0 \<le> dbl_exp x" by (rule dbl_exp_range)
  show ?thesis
  proof (cases "dbl_exp x = 0")
    case True
    then have "0 < unat ?sig" "unat ?sig < 2 ^ 53" using fin(2) dbl_sig_less [of x] by (auto simp: unat_gt_0)
    then show ?thesis using True by - (rule exI [of _ "1074"], rule exI [of _ ?sig], simp add: dbl_scale_def dbl_units_def m)
  next
    case False
    from sig_loop_correct [of ?sig 0 1 53] dbl_sig_less [of x] obtain n y where
      y: "sig_loop 53 0 1 ?sig = Some (int n, y)" "n \<le> 52" "unat y < 2 ^ 53"
        "unat y * 2 ^ 52 = (2 ^ 52 + unat ?sig) * 2 ^ n" by auto
    let ?D = "int n - ?ex"
    have k: "n + nat (int m - ?D) = (nat (dbl_exp x) - 1) + 52" using y(2) e False fin(1) by (simp add: m)
    have "unat y * 2 ^ nat (int m - ?D) * 2 ^ 52 = unat y * 2 ^ 52 * 2 ^ nat (int m - ?D)" by (simp only: ac_simps)
    also have "\<dots> = (2 ^ 52 + unat ?sig) * 2 ^ (n + nat (int m - ?D))" unfolding y(4) by (simp only: power_add mult.assoc)
    also have "\<dots> = dbl_units x * 2 ^ 52" unfolding k dbl_units_def using False by (simp only: power_add mult.assoc if_False)
    finally have u: "unat y * 2 ^ nat (int m - ?D) = dbl_units x" by (simp only: mult_cancel2) simp
    have "0 < unat y"
    proof (rule ccontr)
      assume "\<not> 0 < unat y"
      then have "unat y = 0" by blast
      then have "(2 ^ 52 + unat ?sig) * 2 ^ n = 0" using y(4) by (simp only: mult_0)
      then show False by simp
    qed
    then show ?thesis using y u False e fin(1)
      by - (rule exI [of _ ?D], rule exI [of _ y], simp add: dbl_scale_def m)
  qed
qed

lemma putdouble_text:
  assumes alloc: "\<And>b n. alloc b n" and fin: "dbl_exp x < B64_EXPONENT_SPECIAL" "dbl_exp x \<noteq> 0 \<or> dbl_sig x \<noteq> 0"
  shows "putdouble alloc out s (dbl_sig x) (dbl_exp x - B64_EXPONENT_BIAS) = Some (0, emits out s (point_text (dbl_point x)))"
proof -
  obtain D y where y: "dbl_scale x = Some (D, y)" "0 < unat y" "unat y < 2 ^ 53" "- 1023 \<le> D" "D \<le> 1074"
    using dbl_scale_correct [OF fin refl] by auto
  have "dbl_point x = split_digits (unat y * (if 0 < D then 5 ^ nat D else 2 ^ nat (- D))) (nat D)"
    using fin(2) by (auto simp: dbl_point_def y(1))
  then show ?thesis using putdouble_digits [of alloc, OF alloc y(2-5) y(1) [unfolded dbl_scale_def], of out s] by simp
qed

lemma putf_text:
  assumes "\<And>b n. alloc b n"
  shows "putf alloc out s x = Some (0, emits out s (dbl_text x))"
proof -
  have e: "dbl_exp x < 2048" by (rule dbl_exp_range)
  note d = putf_def Let_def dbl_exp_def [symmetric] dbl_sig_def [symmetric] dbl_neg_def [symmetric]
  consider "dbl_exp x = B64_EXPONENT_SPECIAL" | "dbl_exp x = 0" "dbl_sig x = 0" | "dbl_exp x < B64_EXPONENT_SPECIAL" "dbl_exp x \<noteq> 0 \<or> dbl_sig x \<noteq> 0"
    using e by fastforce
  then show ?thesis
  proof cases
    case 3
    note p = putdouble_text [of alloc x, OF assms 3]
    show ?thesis using 3 unfolding d dbl_text_def by (auto simp: p)
  qed (simp_all add: d dbl_text_def dbl_point_def point_text_def digit_char_def)
qed

lemma dbl_text_exact:
  assumes "dbl_exp x < B64_EXPONENT_SPECIAL"
  shows "\<exists>I F. dbl_text x = (if dbl_neg x then [45] else []) @ map digit_char I @ [46] @ map digit_char F \<and>
    I \<noteq> [] \<and> F \<noteq> [] \<and> (\<forall>d \<in> set (I @ F). d < 10) \<and> dval 10 (I @ F) * 2 ^ 1074 = dbl_units x * 10 ^ length F"
proof -
  obtain I F where IF: "dbl_point x = (I, F)" by fastforce
  then have t: "dbl_text x = (if dbl_neg x then [45] else []) @ map digit_char I @ [46] @ map digit_char F"
    using assms by (simp add: dbl_text_def point_text_def)
  show ?thesis
  proof (cases "dbl_exp x = 0 \<and> dbl_sig x = 0")
    case True
    then have IF: "I = [0]" "F = [0]" "dbl_units x = 0" using IF by (auto simp: dbl_point_def dbl_units_def)
    show ?thesis by (rule exI [of _ "[0]"], rule exI [of _ "[0]"]) (simp add: t IF dval_def)
  next
    case False
    define m :: nat where "m = 1074"
    have "dbl_exp x \<noteq> 0 \<or> dbl_sig x \<noteq> 0" using False by blast
    from dbl_scale_correct [OF assms this m_def] obtain D y where y: "dbl_scale x = Some (D, y)" "0 < unat y" "D \<le> int m"
      "unat y * 2 ^ nat (int m - D) = dbl_units x" by blast
    let ?v = "unat y * (if 0 < D then 5 ^ nat D else 2 ^ nat (- D))"
    have s: "split_digits ?v (nat D) = (I, F)" using IF False by (simp add: dbl_point_def y(1))
    have v: "?v * 2 ^ m = dbl_units x * 10 ^ nat D" by (rule scaled_value [OF y(4,3)])
    have "0 < ?v" using y(2) by simp
    note sp = split_digits_spec [OF this s]
    have "dval 10 (I @ F) * 2 ^ m * 10 ^ nat D = dval 10 (I @ F) * 10 ^ nat D * 2 ^ m" by (simp only: ac_simps)
    also have "\<dots> = ?v * 2 ^ m * 10 ^ length F" unfolding sp(4) by (simp only: ac_simps)
    also have "\<dots> = dbl_units x * 10 ^ length F * 10 ^ nat D" unfolding v by (simp only: ac_simps)
    finally have "dval 10 (I @ F) * 2 ^ m = dbl_units x * 10 ^ length F" by simp
    then show ?thesis using sp(1-3) unfolding t m_def by blast
  qed
qed

subsection \<open>Formats\<close>

text \<open>
  What a format is made of: a plain character, an escaped character, a conversion with its
  argument, or a percent sign before a character that is no conversion.
\<close>

datatype piece =
    Lit u8 | Esc u8 | Conv_c u32 | Conv_d u32 | Conv_o u32 | Conv_x u32 | Conv_p u32 | Conv_s "u8 list"
  | Conv_f u64 | Conv_ld u32 | Conv_lo u32 | Conv_lx u32 | Conv_l_other u8 | Conv_other u8

fun piece_bytes :: "piece \<Rightarrow> u8 list" where
  "piece_bytes (Lit c) = [c]"
| "piece_bytes (Esc c) = [92, c]"
| "piece_bytes (Conv_c v) = [37, 99]"
| "piece_bytes (Conv_d v) = [37, 100]"
| "piece_bytes (Conv_o v) = [37, 111]"
| "piece_bytes (Conv_x v) = [37, 120]"
| "piece_bytes (Conv_p v) = [37, 112]"
| "piece_bytes (Conv_s t) = [37, 115]"
| "piece_bytes (Conv_f x) = [37, 102]"
| "piece_bytes (Conv_ld v) = [37, 108, 100]"
| "piece_bytes (Conv_lo v) = [37, 108, 111]"
| "piece_bytes (Conv_lx v) = [37, 108, 120]"
| "piece_bytes (Conv_l_other c) = [37, 108, c]"
| "piece_bytes (Conv_other c) = [37, c]"

fun piece_args :: "piece \<Rightarrow> arg list" where
  "piece_args (Lit c) = []"
| "piece_args (Esc c) = []"
| "piece_args (Conv_c v) = [A_int v]"
| "piece_args (Conv_d v) = [A_int v]"
| "piece_args (Conv_o v) = [A_int v]"
| "piece_args (Conv_x v) = [A_int v]"
| "piece_args (Conv_p v) = [A_int v]"
| "piece_args (Conv_s t) = [A_str (t @ [0])]"
| "piece_args (Conv_f x) = [A_double x]"
| "piece_args (Conv_ld v) = [A_int v]"
| "piece_args (Conv_lo v) = [A_int v]"
| "piece_args (Conv_lx v) = [A_int v]"
| "piece_args (Conv_l_other c) = []"
| "piece_args (Conv_other c) = []"

fun piece_text :: "piece \<Rightarrow> u8 list" where
  "piece_text (Lit c) = [c]"
| "piece_text (Esc c) = [if c = 110 then 10 else if c = 114 then 13 else if c = 116 then 9 else c]"
| "piece_text (Conv_c v) = [ucast (v AND 0xff)]"
| "piece_text (Conv_d v) = dec_text v"
| "piece_text (Conv_o v) = oct_text v"
| "piece_text (Conv_x v) = hex_text v"
| "piece_text (Conv_p v) = [48, 120] @ hex_text v"
| "piece_text (Conv_s t) = t"
| "piece_text (Conv_f x) = dbl_text x"
| "piece_text (Conv_ld v) = dec_text v"
| "piece_text (Conv_lo v) = oct_text v"
| "piece_text (Conv_lx v) = hex_text v"
| "piece_text (Conv_l_other c) = [37, 108, c]"
| "piece_text (Conv_other c) = [37, c]"

text \<open>
  A double needs memory. An octal number has at most ten digits.
\<close>

fun piece_ok :: "(bool \<Rightarrow> nat \<Rightarrow> bool) \<Rightarrow> piece \<Rightarrow> bool" where
  "piece_ok alloc (Lit c) \<longleftrightarrow> c \<notin> {0, 37, 92}"
| "piece_ok alloc (Esc c) \<longleftrightarrow> c \<noteq> 0"
| "piece_ok alloc (Conv_o v) \<longleftrightarrow> unat v < 2 ^ 30"
| "piece_ok alloc (Conv_lo v) \<longleftrightarrow> unat v < 2 ^ 30"
| "piece_ok alloc (Conv_s t) \<longleftrightarrow> 0 \<notin> set t"
| "piece_ok alloc (Conv_f x) \<longleftrightarrow> (\<forall>b n. alloc b n)"
| "piece_ok alloc (Conv_l_other c) \<longleftrightarrow> c \<notin> {0, 100, 111, 120}"
| "piece_ok alloc (Conv_other c) \<longleftrightarrow> c \<notin> {0, 99, 100, 102, 108, 111, 112, 115, 120}"
| "piece_ok alloc _ \<longleftrightarrow> True"

text \<open>A format may end with a percent sign or a backslash, which is printed.\<close>

definition fmt_bytes :: "piece list \<Rightarrow> u8 list \<Rightarrow> u8 list" where
  "fmt_bytes ps e = concat (map piece_bytes ps) @ e @ [0]"

definition fmt_args :: "piece list \<Rightarrow> arg list" where
  "fmt_args ps = concat (map piece_args ps)"

definition fmt_text :: "piece list \<Rightarrow> u8 list \<Rightarrow> u8 list" where
  "fmt_text ps e = concat (map piece_text ps) @ e"

definition fmt_end :: "u8 list \<Rightarrow> bool" where
  "fmt_end e \<longleftrightarrow> e = [] \<or> e = [37] \<or> e = [92]"

lemma same_fields [simp]:
  "s_handler s = h \<Longrightarrow> s\<lparr>s_handler := h\<rparr> = s" "s_format s = f \<Longrightarrow> s\<lparr>s_format := f\<rparr> = s" "s_ap s = a \<Longrightarrow> s\<lparr>s_ap := a\<rparr> = s"
  by auto

lemma handler_step:
  "handle alloc out s = Some (True, s') \<Longrightarrow> handler_loop alloc out s = handler_loop alloc out s'"
  by (subst handler_loop.simps) simp

lemma immediate_steps:
  assumes "s_handler s = H_immediate"
  shows "s_format s = 37 # f \<Longrightarrow> handler_loop alloc out s = handler_loop alloc out (s\<lparr>s_format := f, s_handler := H_format\<rparr>)"
    "s_format s = 92 # f \<Longrightarrow> handler_loop alloc out s = handler_loop alloc out (s\<lparr>s_format := f, s_handler := H_escape\<rparr>)"
    "s_format s = c # f \<Longrightarrow> c \<notin> {0, 37, 92} \<Longrightarrow>
      handler_loop alloc out s = handler_loop alloc out ((putchar out s c)\<lparr>s_format := f\<rparr>)"
    "s_format s = 0 # f \<Longrightarrow> handler_loop alloc out s = Some (s\<lparr>s_format := f\<rparr>)"
     apply (rule handler_step, simp add: handle_def assms immediate_def next_char_def)
    apply (rule handler_step, simp add: handle_def assms immediate_def next_char_def)
   apply (rule handler_step, simp add: handle_def assms immediate_def next_char_def)
  apply (subst handler_loop.simps, simp add: handle_def assms immediate_def next_char_def)
  done

lemmas conversions = format_c_def format_long_def next_char_def arg_int_def arg_str_def arg_double_def putd_10 putd_8 putx_text putf_text
  puts_emits [where r = "[]"]

lemma piece_step:
  assumes ok: "piece_ok alloc p" and s: "s_handler s = H_immediate" "s_format s = piece_bytes p @ f" "s_ap s = piece_args p @ ap"
  shows "handler_loop alloc out s = handler_loop alloc out ((emits out s (piece_text p))\<lparr>s_format := f, s_ap := ap\<rparr>)"
proof -
  let ?t = "(emits out s (piece_text p))\<lparr>s_format := f, s_ap := ap\<rparr>"
  have conv: ?thesis
    if g: "s_format s = 37 # g" "format_c alloc out (s\<lparr>s_format := g, s_handler := H_format\<rparr>) = Some (True, ?t)" for g
  proof -
    have "handle alloc out (s\<lparr>s_format := g, s_handler := H_format\<rparr>) = Some (True, ?t)"
      using g(2) by (simp add: handle_def)
    then show ?thesis using immediate_steps(1) [OF s(1) g(1), of alloc out] handler_step by metis
  qed
  show ?thesis
  proof (cases p)
    case (Lit c)
    then show ?thesis using immediate_steps(3) [OF s(1), of c f alloc out] ok s by simp
  next
    case (Esc c)
    then have "s_format s = 92 # c # f" using s(2) by simp
    then have "handler_loop alloc out s = handler_loop alloc out (s\<lparr>s_format := c # f, s_handler := H_escape\<rparr>)"
      by (rule immediate_steps(2) [OF s(1)])
    also have "\<dots> = handler_loop alloc out ?t"
      by (rule handler_step) (use Esc ok s in \<open>simp add: handle_def escape_def next_char_def Let_def\<close>)
    finally show ?thesis .
  qed (rule conv [of "tl (piece_bytes p) @ f"], use s in simp, use ok s in \<open>simp add: conversions Let_def\<close>)+
qed

lemma handler_loop_end:
  assumes "fmt_end e" "s_handler s = H_immediate" "s_format s = e @ [0]"
  shows "\<exists>h. handler_loop alloc out s = Some ((emits out s e)\<lparr>s_handler := h, s_format := []\<rparr>)"
proof -
  have stop: "handler_loop alloc out t = Some t'" if "handle alloc out t = Some (False, t')" for t t'
    using that by (subst handler_loop.simps) simp
  consider "e = []" | "e = [37]" | "e = [92]" using assms(1) by (auto simp: fmt_end_def)
  then show ?thesis
  proof cases
    case 1
    then show ?thesis using immediate_steps(4) [of s "[]" alloc out] assms(2,3) by (auto intro!: exI [of _ H_immediate])
  next
    case 2
    then have "handler_loop alloc out s = handler_loop alloc out (s\<lparr>s_format := [0], s_handler := H_format\<rparr>)"
      using immediate_steps(1) [OF assms(2), of "[0]"] assms(3) by simp
    also have "\<dots> = Some ((emits out s e)\<lparr>s_handler := H_format, s_format := []\<rparr>)"
      by (rule stop) (simp add: handle_def format_c_def next_char_def 2)
    finally show ?thesis by blast
  next
    case 3
    then have "handler_loop alloc out s = handler_loop alloc out (s\<lparr>s_format := [0], s_handler := H_escape\<rparr>)"
      using immediate_steps(2) [OF assms(2), of "[0]"] assms(3) by simp
    also have "\<dots> = Some ((emits out s e)\<lparr>s_handler := H_escape, s_format := []\<rparr>)"
      by (rule stop) (simp add: handle_def escape_def next_char_def 3)
    finally show ?thesis by blast
  qed
qed

lemma handler_loop_text:
  assumes "\<forall>p \<in> set ps. piece_ok alloc p" "fmt_end e"
    "s_handler s = H_immediate" "s_format s = fmt_bytes ps e" "s_ap s = fmt_args ps"
  shows "\<exists>h. handler_loop alloc out s = Some ((emits out s (fmt_text ps e))\<lparr>s_handler := h, s_format := [], s_ap := []\<rparr>)"
  using assms
proof (induction ps arbitrary: s)
  case Nil
  then show ?case using handler_loop_end [of e s alloc out] by (auto simp: fmt_bytes_def fmt_args_def fmt_text_def)
next
  case (Cons p ps)
  let ?s = "(emits out s (piece_text p))\<lparr>s_format := fmt_bytes ps e, s_ap := fmt_args ps\<rparr>"
  have "handler_loop alloc out s = handler_loop alloc out ?s"
    using Cons.prems by (intro piece_step) (simp_all add: fmt_bytes_def fmt_args_def)
  moreover have "\<exists>h. handler_loop alloc out ?s = Some ((emits out ?s (fmt_text ps e))\<lparr>s_handler := h, s_format := [], s_ap := []\<rparr>)"
    using Cons.prems by (intro Cons.IH) simp_all
  ultimately show ?case by (auto simp: fmt_text_def)
qed

lemma vnprintf2_text:
  fixes env :: 'e
  assumes "\<forall>p \<in> set ps. piece_ok alloc p" "fmt_end e"
  defines "s \<equiv> \<lparr>s_handler = H_immediate, s_format = fmt_bytes ps e, s_ap = fmt_args ps, s_env = env, s_len = 0, s_has_error = False\<rparr>"
  shows "vnprintf2 alloc out env (fmt_bytes ps e) (fmt_args ps) =
    Some (s_len (emits out s (fmt_text ps e)), s_env (emits out s (fmt_text ps e)))"
  using handler_loop_text [of ps alloc e s out] assms(1,2) by (auto simp: vnprintf2_def s_def)

subsection \<open>Strings as output\<close>

lemma emits_buf:
  assumes "s_env s = Some \<lparr>cb_len = word_of_nat (length pre), cb_max = word_of_nat m, cb_buf = pre @ post\<rparr>"
    "length pre \<le> m" "m < 2 ^ 32" "min (length cs) (m - length pre) \<le> length post"
  defines "k \<equiv> min (length cs) (m - length pre)"
  shows "s_env (emits putc_buf s cs) =
      Some \<lparr>cb_len = word_of_nat (length pre + k), cb_max = word_of_nat m, cb_buf = pre @ take k cs @ drop k post\<rparr> \<and>
    s_len (emits putc_buf s cs) = s_len s + word_of_nat (length cs)"
  using assms(1,2,4) unfolding k_def
proof (induction cs arbitrary: s pre post)
  case (Cons c cs)
  let ?s = "putchar putc_buf s c"
  have u: "unat (word_of_nat n :: u32) = n" if "n \<le> m" for n
    using that assms(3) by (simp only: unat_of_nat) (simp add: take_bit_nat_eq_self)
  have less: "(word_of_nat (length pre) :: u32) < word_of_nat m \<longleftrightarrow> length pre < m"
    using u [of "length pre"] u [of m] Cons.prems(2) by (simp only: word_less_nat_alt) 
  have len: "s_len ?s = s_len s + 1" by (simp add: putchar_def putc_buf_def Let_def)
  show ?case
  proof (cases "length pre < m")
    case True
    then obtain x post' where post: "post = x # post'" using Cons.prems(3) by (cases post) auto
    have "s_env ?s = Some \<lparr>cb_len = word_of_nat (length (pre @ [c])), cb_max = word_of_nat m, cb_buf = (pre @ [c]) @ post'\<rparr>"
      using Cons.prems(1) True less u [OF Cons.prems(2)]
      by (simp add: putchar_def putc_buf_def Let_def post add.commute)
    moreover have k: "min (length (c # cs)) (m - length pre) = Suc (min (length cs) (m - length (pre @ [c])))"
    proof -
      have "m - length pre = Suc (m - Suc (length pre))" using True by simp
      then show ?thesis by simp
    qed
    moreover have "min (length cs) (m - length (pre @ [c])) \<le> length post'" using Cons.prems(3) unfolding k post by simp
    ultimately have "s_env (emits putc_buf ?s cs) = Some \<lparr>cb_len = word_of_nat (length (pre @ [c]) + min (length cs) (m - length (pre @ [c]))),
        cb_max = word_of_nat m, cb_buf = (pre @ [c]) @ take (min (length cs) (m - length (pre @ [c]))) cs @
          drop (min (length cs) (m - length (pre @ [c]))) post'\<rparr> \<and>
      s_len (emits putc_buf ?s cs) = s_len ?s + word_of_nat (length cs)"
      using True by (intro Cons.IH) simp_all
    then show ?thesis unfolding k post len by (simp add: add_ac)
  next
    case False
    then have "s_env ?s = s_env s" using Cons.prems(1) less by (simp add: putchar_def putc_buf_def Let_def)
    then show ?thesis using Cons.IH [of ?s pre post] Cons.prems False len by (simp add: add_ac)
  qed
qed simp

lemma putc_buf_result:
  fixes ps :: "piece list"
  assumes "\<forall>p \<in> set ps. piece_ok alloc p" "fmt_end e" "unat m = n" "min (length (fmt_text ps e)) n \<le> length str"
  defines "k \<equiv> min (length (fmt_text ps e)) n"
  shows "vnprintf2 alloc putc_buf (Some \<lparr>cb_len = 0, cb_max = m, cb_buf = str\<rparr>) (fmt_bytes ps e) (fmt_args ps) =
    Some (word_of_nat (length (fmt_text ps e)),
      Some \<lparr>cb_len = word_of_nat k, cb_max = m, cb_buf = take k (fmt_text ps e) @ drop k str\<rparr>)"
proof -
  have m: "m = word_of_nat n" using assms(3) by (metis of_nat_unat ucast_id)
  have n: "n < 2 ^ 32" using assms(3) unat_u32_less [of m] by simp
  let ?s = "\<lparr>s_handler = H_immediate, s_format = fmt_bytes ps e, s_ap = fmt_args ps,
    s_env = Some \<lparr>cb_len = 0, cb_max = m, cb_buf = str\<rparr>, s_len = 0, s_has_error = False\<rparr>"
  from emits_buf [of ?s "[]" n str "fmt_text ps e"] assms(4) n m
  have "s_env (emits putc_buf ?s (fmt_text ps e)) =
      Some \<lparr>cb_len = word_of_nat k, cb_max = m, cb_buf = take k (fmt_text ps e) @ drop k str\<rparr>"
    "s_len (emits putc_buf ?s (fmt_text ps e)) = word_of_nat (length (fmt_text ps e))" by (simp_all add: k_def)
  then show ?thesis unfolding vnprintf2_text [OF assms(1,2)] by simp
qed

text \<open>
  C10. \<^verbatim>\<open>snprintf\<close> writes the text of the format, cut off so that it fits with its terminator into
  the size given, touches nothing behind the terminator, and returns the length of the whole
  text; with the size 0 it writes nothing at all. The text is that of the conversions: integers in decimal, hexadecimal and (below \<open>2 ^ 30\<close>) octal, doubles as
  the exact decimal fraction (if memory can be had), strings and characters as they are, and what is no conversion unchanged. A format
  that ends in the middle of a long conversion (percent sign and \<^verbatim>\<open>l\<close>) is left out.
\<close>

theorem snprintf_contract:
  assumes "\<forall>p \<in> set ps. piece_ok alloc p" and "fmt_end e" and "unat sz \<le> length str"
    and "k = min (length (fmt_text ps e)) (unat sz - 1)"
  shows "snprintf alloc str sz (fmt_bytes ps e) (fmt_args ps) =
    Some (word_of_nat (length (fmt_text ps e)), if sz = 0 then str else take k (fmt_text ps e) @ 0 # drop (Suc k) str)"
proof (cases "sz = 0")
  case True
  have "vnprintf2 alloc putc_buf (Some \<lparr>cb_len = 0, cb_max = 0, cb_buf = str\<rparr>) (fmt_bytes ps e) (fmt_args ps) =
      Some (word_of_nat (length (fmt_text ps e)), Some \<lparr>cb_len = word_of_nat (min (length (fmt_text ps e)) 0), cb_max = 0,
        cb_buf = take (min (length (fmt_text ps e)) 0) (fmt_text ps e) @ drop (min (length (fmt_text ps e)) 0) str\<rparr>)"
    by (rule putc_buf_result [OF assms(1,2)]) simp_all
  then show ?thesis using True by (simp add: snprintf_def)
next
  case False
  then have sz: "unat (sz - 1) = unat sz - 1" "sz \<noteq> 0" "0 < unat sz" by (auto simp: unat_minus_one unat_gt_0)
  have "unat sz - 1 < 2 ^ 32" using unat_u32_le [of sz] by simp
  then have k: "k \<le> length (fmt_text ps e)" "k < length str" "k < 2 ^ 32" using assms(3,4) sz(3) by auto
  let ?b = "take k (fmt_text ps e) @ drop k str"
  have "vnprintf2 alloc putc_buf (Some \<lparr>cb_len = 0, cb_max = sz - 1, cb_buf = str\<rparr>) (fmt_bytes ps e) (fmt_args ps) =
      Some (word_of_nat (length (fmt_text ps e)), Some \<lparr>cb_len = word_of_nat k, cb_max = sz - 1, cb_buf = ?b\<rparr>)"
    unfolding assms(4) using assms(1-3) sz by (intro putc_buf_result) auto
  moreover have "unat (word_of_nat k :: u32) = k" using k(3) by (simp only: unat_of_nat) (simp add: take_bit_nat_eq_self)
  moreover have "wr ?b k 0 = Some (take k (fmt_text ps e) @ 0 # drop (Suc k) str)"
  proof -
    have "drop k str = str ! k # drop (Suc k) str" using k(2) by (simp add: Cons_nth_drop_Suc)
    then show ?thesis using wr_append [of "take k (fmt_text ps e)" "str ! k" "drop (Suc k) str" 0] k(1) by simp
  qed
  ultimately show ?thesis using sz(2) by (simp add: snprintf_def)
qed

text \<open>The format \<open>%d%\<close> with the argument 42, printed into five bytes of which three may be used.\<close>

theorem snprintf_contract_witness:
  "snprintf (\<lambda>_ _. True) [1, 2, 3, 4, 5] 3 (fmt_bytes [Conv_d 42] [37]) (fmt_args [Conv_d 42]) =
    Some (3, [52, 50, 0, 4, 5])"
proof -
  have "rdigits 10 42 = [4, 2]" by (simp add: rdigits_step rdigits_small)
  then have t: "fmt_text [Conv_d 42] [37] = [52, 50, 37]" by (simp add: fmt_text_def dec_text_def digit_char_def)
  have ok: "\<forall>p \<in> set [Conv_d 42]. piece_ok (\<lambda>_ _. True) p" "fmt_end [37]" by (simp_all add: fmt_end_def)
  have "snprintf (\<lambda>_ _. True) [1, 2, 3, 4, 5] 3 (fmt_bytes [Conv_d 42] [37]) (fmt_args [Conv_d 42]) =
      Some (word_of_nat (length (fmt_text [Conv_d 42] [37])),
        if (3 :: u32) = 0 then [1, 2, 3, 4, 5] else take 2 (fmt_text [Conv_d 42] [37]) @ 0 # drop (Suc 2) [1, 2, 3, 4, 5])"
    by (rule snprintf_contract [OF ok]) (simp_all add: t)
  then show ?thesis unfolding t by simp
qed

lemma dec_text_value:
  "\<exists>sg ds. dec_text v = sg @ ds \<and> (sg = [] \<or> sg = [45]) \<and> ds \<noteq> [] \<and> length ds \<le> 10 \<and>
    (\<forall>d \<in> set ds. figure d < 10) \<and> (if sg = [45] then - int (positional 10 ds) else int (positional 10 ds)) = sint v"
proof -
  let ?n = "nat \<bar>sint v\<bar>"
  let ?r = "rdigits 10 ?n" and ?sg = "if sint v < 0 then [45 :: u8] else []"
  have d: "\<forall>d \<in> set ?r. d < 10" using rdigits_less by auto
  have g: "figure (digit_char d) = d" if "d < 10" for d
    using that get_num_figure [of 10 "digit_char d"] by (auto simp: digit_char_value get_num_def split: if_splits)
  have num: "positional 10 (map digit_char ds) = dval 10 ds" if "\<forall>d \<in> set ds. d < 10" for ds
  proof -
    have "number 10 0 (map digit_char ds) = int (dval 10 ds)"
      using that by (induction ds rule: rev_induct) (simp_all add: number_def get_num_figure g)
    then show ?thesis using number_positional [of 10 "map digit_char ds"] that g by simp
  qed
  have "?n < 10 ^ Suc 9" using sint_lt [of v] sint_ge [of v] by simp
  have len: "length (rdigits 10 u) \<le> Suc k" if "u < 10 ^ Suc k" for u k :: nat
    using that
  proof (induction k arbitrary: u)
    case (Suc k)
    show ?case
    proof (cases "u < 10")
      case False
      have "u div 10 < 10 ^ Suc k" using Suc.prems by (simp add: less_mult_imp_div_less mult.commute)
      then show ?thesis using Suc.IH [of "u div 10"] False by (simp add: rdigits_step)
    qed (simp add: rdigits_small)
  qed (simp add: rdigits_small)
  have "int (positional 10 (map digit_char ?r)) = \<bar>sint v\<bar>" unfolding num [OF d] by (simp add: dval_rdigits)
  then show ?thesis using d g len [OF \<open>?n < 10 ^ Suc 9\<close>]
    by - (rule exI [of _ ?sg], rule exI [of _ "map digit_char ?r"], auto simp: dec_text_def)
qed

text \<open>
  C11. What \<^verbatim>\<open>sprintf\<close> prints for \<^verbatim>\<open>%d\<close>, \<^verbatim>\<open>strtol\<close> reads back: for every integer, the value
  returned is the one printed, there is no error, and the text ends where the conversion stops.
  An array of twelve bytes is enough.
\<close>

theorem sprintf_strtol_round_trip:
  assumes "12 \<le> length str"
  shows "\<exists>len str' rest. sprintf alloc str [37, 100, 0] [A_int v] = Some (len, str') \<and> length str' = length str \<and>
    strtol str' 10 = Some (v, 0, 0 # rest)"
proof -
  obtain sg ds where t: "dec_text v = sg @ ds" "sg = [] \<or> sg = [45]" "ds \<noteq> []" "length ds \<le> 10"
      "\<forall>d \<in> set ds. figure d < 10" "(if sg = [45] then - int (positional 10 ds) else int (positional 10 ds)) = sint v"
    using dec_text_value by blast
  let ?n = "length (dec_text v)"
  have n: "?n \<le> 11" using t(1,2,4) by auto
  have "vnprintf2 alloc putc_buf (Some \<lparr>cb_len = 0, cb_max = 0xffffffff, cb_buf = str\<rparr>) (fmt_bytes [Conv_d v] []) (fmt_args [Conv_d v]) =
      Some (word_of_nat (length (fmt_text [Conv_d v] [])), Some \<lparr>cb_len = word_of_nat (min (length (fmt_text [Conv_d v] [])) 4294967295),
        cb_max = 0xffffffff, cb_buf = take (min (length (fmt_text [Conv_d v] [])) 4294967295) (fmt_text [Conv_d v] []) @
          drop (min (length (fmt_text [Conv_d v] [])) 4294967295) str\<rparr>)"
    using n assms by (intro putc_buf_result) (auto simp: fmt_text_def fmt_end_def)
  moreover have "unat (word_of_nat ?n :: u32) = ?n" using n by (simp only: unat_of_nat) (simp add: take_bit_nat_eq_self)
  moreover have "wr (dec_text v @ drop ?n str) ?n 0 = Some (dec_text v @ 0 # drop (Suc ?n) str)"
  proof -
    have "drop ?n str = str ! ?n # drop (Suc ?n) str" using n assms by (simp add: Cons_nth_drop_Suc)
    then show ?thesis by simp
  qed
  ultimately have "sprintf alloc str [37, 100, 0] [A_int v] = Some (word_of_nat ?n, dec_text v @ 0 # drop (Suc ?n) str)"
    using n by (simp add: sprintf_def fmt_bytes_def fmt_args_def fmt_text_def)
  moreover have "strtol (dec_text v @ 0 # drop (Suc ?n) str) 10 = Some (v, 0, 0 # drop (Suc ?n) str)"
  proof -
    let ?p = "sg @ ds @ 0 # drop (Suc ?n) str"
    have r: "sint v < 2 ^ 31" "- (2 ^ 31) \<le> sint v" using sint_lt [of v] sint_ge [of v] by simp_all
    have "denoted ?p 10 = Some (sint v, 0 # drop (Suc ?n) str)" using denoted_decimal [OF t(2,3,5)] t(6) by auto
    then have "\<exists>w. strtol ?p 10 = Some (w, 0, 0 # drop (Suc ?n) str) \<and> sint w = sint v"
      using strtol_text [of ?p 10] r by auto
    then show ?thesis using t(1) by (auto simp: signed_word_eqI)
  qed
  ultimately show ?thesis using n assms by (intro exI conjI) auto
qed

theorem sprintf_strtol_round_trip_witness:
  "\<exists>len str' rest. sprintf (\<lambda>_ _. True) (replicate 12 0) [37, 100, 0] [A_int (- 2147483648)] = Some (len, str') \<and>
    length str' = 12 \<and> strtol str' 10 = Some (- 2147483648, 0, 0 # rest)"
  using sprintf_strtol_round_trip [of "replicate 12 0" "\<lambda>_ _. True" "- 2147483648"] by simp

lemma emits_list:
  "s_env (emits (\<lambda>c e. (0, e @ [c])) s cs) = s_env s @ cs \<and>
    s_len (emits (\<lambda>c e. (0, e @ [c])) s cs) = s_len s + word_of_nat (length cs)"
  by (induction cs arbitrary: s) (simp_all add: putchar_def Let_def add_ac)

lemma vnprintf2_f:
  assumes "putf alloc out \<lparr>s_handler = H_format, s_format = [0], s_ap = [], s_env = env, s_len = 0, s_has_error = False\<rparr> x =
    Some (0, emits out \<lparr>s_handler = H_format, s_format = [0], s_ap = [], s_env = env, s_len = 0, s_has_error = False\<rparr> t)"
    (is "putf alloc out ?s x = _")
  shows "vnprintf2 alloc out env [37, 102, 0] [A_double x] = Some (s_len (emits out ?s t), s_env (emits out ?s t))"
proof -
  let ?i = "\<lparr>s_handler = H_immediate, s_format = [37, 102, 0], s_ap = [A_double x], s_env = env, s_len = 0, s_has_error = False\<rparr>"
  let ?f = "\<lparr>s_handler = H_format, s_format = [102, 0], s_ap = [A_double x], s_env = env, s_len = 0, s_has_error = False\<rparr>"
  let ?t = "(emits out ?s t)\<lparr>s_handler := H_immediate\<rparr>"
  have "handler_loop alloc out ?i = handler_loop alloc out ?f"
    using immediate_steps(1) [of ?i "[102, 0]" alloc out] by simp
  also have "\<dots> = handler_loop alloc out ?t"
    by (rule handler_step) (simp add: handle_def format_c_def next_char_def arg_double_def assms)
  also have "\<dots> = Some (?t\<lparr>s_format := []\<rparr>)" by (rule immediate_steps(4)) simp_all
  finally show ?thesis by (simp add: vnprintf2_def)
qed

text \<open>
  C8. \<^verbatim>\<open>%f\<close> prints a finite double exactly, provided memory can be had: the digits before and behind the point are a decimal
  expansion of the very value of the double, which is a number of units of \<open>2 ^ - 1074\<close>; there
  is at least one digit on each side, nothing is rounded or cut off, and zeros keep their sign. What is no finite number is printed as \<^verbatim>\<open>inf\<close>, with its sign, or \<^verbatim>\<open>nan\<close>.
\<close>

theorem printf_double_exact:
  assumes "\<forall>b n. alloc b n"
  shows "\<exists>t. vnprintf2 alloc (\<lambda>c e. (0, e @ [c])) [] [37, 102, 0] [A_double x] = Some (word_of_nat (length t), t) \<and>
    (if dbl_exp x = 2047 then t = (if dbl_sig x \<noteq> 0 then [110, 97, 110] else (if dbl_neg x then [45] else []) @ [105, 110, 102])
     else \<exists>I F. t = (if dbl_neg x then [45] else []) @ map digit_char I @ [46] @ map digit_char F \<and>
       I \<noteq> [] \<and> F \<noteq> [] \<and> (\<forall>d \<in> set (I @ F). d < 10) \<and> dval 10 (I @ F) * 2 ^ 1074 = dbl_units x * 10 ^ length F)"
proof -
  have p: "vnprintf2 alloc (\<lambda>c e. (0, e @ [c])) [] [37, 102, 0] [A_double x] = Some (word_of_nat (length (dbl_text x)), dbl_text x)"
    using vnprintf2_f [OF putf_text [of alloc], where out = "\<lambda>c e. (0, e @ [c])" and env = "[]" and x = x] assms
    unfolding conjunct1 [OF emits_list] conjunct2 [OF emits_list] by simp
  show ?thesis
  proof (cases "dbl_exp x = 2047")
    case True
    then show ?thesis using p by (auto simp: dbl_text_def)
  next
    case False
    then have "dbl_exp x < B64_EXPONENT_SPECIAL" using dbl_exp_range(2) [of x] by simp
    from dbl_text_exact [OF this] p False show ?thesis by auto
  qed
qed

text \<open>The smallest double, a single unit: printed with 1074 digits behind the point.\<close>

theorem printf_double_exact_witness:
  "\<exists>I F. vnprintf2 (\<lambda>_ _. True) (\<lambda>c e. (0, e @ [c])) [] [37, 102, 0] [A_double 1] =
      Some (word_of_nat (length (map digit_char I @ [46] @ map digit_char F)), map digit_char I @ [46] @ map digit_char F) \<and>
    dval 10 (I @ F) * 2 ^ 1074 = 10 ^ length F"
proof -
  have x: "dbl_sig 1 = 1" "dbl_exp 1 = 0" "\<not> dbl_neg 1"
    by (simp_all add: dbl_sig_def dbl_exp_def dbl_neg_def drop_bit_eq_div)
  then have "dbl_units 1 = 1" by (simp add: dbl_units_def)
  then show ?thesis using printf_double_exact [of "\<lambda>_ _. True" 1] x by (simp only:) auto
qed

subsection \<open>Defects\<close>

lemma handler_stuck: "handle alloc out s = None \<Longrightarrow> handler_loop alloc out s = None"
  by (subst handler_loop.simps) simp

lemma vnprintf2_percent:
  "vnprintf2 alloc out env (37 # f) ap =
    map_option (\<lambda>s. (if s_has_error s then - 1 else s_len s, s_env s))
      (handler_loop alloc out \<lparr>s_handler = H_format, s_format = f, s_ap = ap, s_env = env, s_len = 0, s_has_error = False\<rparr>)"
  using immediate_steps(1) [of "\<lparr>s_handler = H_immediate, s_format = 37 # f, s_ap = ap, s_env = env, s_len = 0, s_has_error = False\<rparr>" f alloc out]
  by (simp add: vnprintf2_def map_conv_bind_option o_def)

text \<open>
  C37. \<^verbatim>\<open>_putd\<close> has room for ten digits and the terminator. Every integer fits in decimal, but an
  octal number from \<open>2 ^ 30\<close> on has eleven digits: \<^verbatim>\<open>%o\<close> then writes the first of them before
  its array. Every smaller number is printed.
\<close>

theorem printf_octal_bounds:
  "vnprintf2 alloc (\<lambda>c e. (0, e @ [c])) [] [37, 111, 0] [A_int v] =
    (if unat v < 2 ^ 30 then Some (word_of_nat (length (oct_text v)), oct_text v) else None)"
proof (cases "unat v < 2 ^ 30")
  case True
  then show ?thesis using vnprintf2_text [of "[Conv_o v]" alloc "[]" "\<lambda>c e. (0, e @ [c])" "[]"]
    unfolding conjunct1 [OF emits_list] conjunct2 [OF emits_list] by (simp add: fmt_end_def fmt_bytes_def fmt_args_def fmt_text_def)
next
  case False
  then have "putd_loop 8 MAX_INT_COLUMN v cs = None" for cs using putd_loop_overruns [of 8 10 v cs] by simp
  then have p: "putd out s v 8 = None" for out :: "u8 list out" and s by (simp add: putd_def)
  show ?thesis using False unfolding vnprintf2_percent
    by (subst handler_stuck) (simp_all add: handle_def format_c_def next_char_def arg_int_def p)
qed

text \<open>
  A percent sign with an \<^verbatim>\<open>l\<close> at the end of the format makes \<^verbatim>\<open>_format\<close> step over the
  terminator: it prints the terminator and goes on reading behind the string.
\<close>

theorem printf_reads_behind: "vnprintf2 alloc out env [37, 108, 0] [] = None"
proof -
  let ?s = "\<lparr>s_handler = H_format, s_format = [108, 0], s_ap = [], s_env = env, s_len = 0, s_has_error = False\<rparr>"
  let ?t = "(emits out (?s\<lparr>s_format := []\<rparr>) [37, 108, 0])\<lparr>s_handler := H_immediate\<rparr>"
  have "handler_loop alloc out ?s = handler_loop alloc out ?t"
    by (rule handler_step) (simp add: handle_def format_c_def format_long_def next_char_def del: putchar_updates)
  also have "\<dots> = None" by (rule handler_stuck) (simp add: handle_def immediate_def next_char_def)
  finally show ?thesis unfolding vnprintf2_percent by simp
qed

text \<open>
  \<^verbatim>\<open>putdouble\<close> does not look at the result of \<^verbatim>\<open>number_shift\<close>: when no memory is left for a larger
  array, \<^verbatim>\<open>%f\<close> prints \<open>2 ^ 200\<close> as 1.0 and reports success.
\<close>

theorem printf_double_no_memory:
  "vnprintf2 (\<lambda>_ n. n \<le> 16) (\<lambda>c e. (0, e @ [c])) [] [37, 102, 0] [A_double 0x4c70000000000000] = Some (3, [49, 46, 48])"
proof -
  let ?a = "\<lambda>_ n. n \<le> (16 :: nat)" and ?o = "\<lambda>c e. (0 :: int, e @ [c])"
  let ?n = "\<lparr>n_minus = False, n_len = Suc 0, n_buf = [1, 0, 0, 0]\<rparr>"
  have c: "number_create ?a 1 False = Some ?n" by (simp add: number_create_def)
  have sh: "number_shift ?a ?n 200 = Some (- 1, ?n)" by (simp add: number_shift_def round_units_def)
  have ok: "num_ok ?n" "num_val ?n = 1" using number_create_correct [OF c] by auto
  have "dec_digits 1 = [1]" by (subst dec_digits.simps) simp
  then have "number_to_decimal m ?n [0] = Some (m - 1, [49, 0])" if "0 < m" for m
    using number_to_decimal_correct [OF ok(1), of m "[0]"] that one_less_power [of "10 :: nat" m] unfolding ok(2) by (simp add: digit_char_def)
  from this [of 1074] have d: "number_to_decimal B64_EXPONENT_MAX_R10 ?n [0] = Some (1073, [49, 0])" by simp
  have sg: "sig_loop 53 0 1 0 = Some (0, 1)" by (subst numeral_eq_Suc, subst sig_loop.simps) simp
  have p: "putdouble ?a ?o s 0 200 = Some (0, emits ?o s [49, 46, 48])" for s
    unfolding putdouble_def sg by (simp add: c sh d)
  have "putf ?a ?o s 0x4c70000000000000 = Some (0, emits ?o s [49, 46, 48])" for s
    unfolding putf_def Let_def by (simp add: p drop_bit_eq_div)
  from vnprintf2_f [OF this] show ?thesis unfolding conjunct1 [OF emits_list] conjunct2 [OF emits_list] by simp
qed

end
