(* ===== verification/Nc_Time.thy ===== *)
theory Nc_Time
  imports Eo_Prelude
begin

section \<open>Points in time\<close>

text \<open>
  \<^verbatim>\<open>src/lib/libnc/time96.c\<close> and the inline functions of \<^verbatim>\<open>src/include/sys/time.h\<close>. A point in
  time has 64-bit seconds and 32-bit nanoseconds, both signed. The nanoseconds are kept with an
  offset that makes the sign bit the carry of an addition; the operand that is added has
  no offset.
\<close>

type_synonym s64 = "64 word"

record timespec =
  tv_sec :: s64
  tv_nsec :: u32

abbreviation (input) TIMESPEC_OFFSET_NSEC :: u32 where "TIMESPEC_OFFSET_NSEC \<equiv> 0x7fffffff - 1000 * 1000 * 1000 + 1"

definition timespec_set :: "s64 \<Rightarrow> u32 \<Rightarrow> timespec" where
  "timespec_set sec nsec = \<lparr>tv_sec = sec, tv_nsec = nsec + TIMESPEC_OFFSET_NSEC\<rparr>"

definition timespec_get_sec :: "timespec \<Rightarrow> s64" where
  "timespec_get_sec t = tv_sec t"

definition timespec_get_nsec :: "timespec \<Rightarrow> u32" where
  "timespec_get_nsec t = tv_nsec t - TIMESPEC_OFFSET_NSEC"

definition timespec_equals :: "timespec \<Rightarrow> timespec \<Rightarrow> bool" where
  "timespec_equals t1 t2 \<longleftrightarrow> tv_sec t1 = tv_sec t2 \<and> tv_nsec t1 = tv_nsec t2"

definition timespec_add :: "timespec \<Rightarrow> timespec \<Rightarrow> timespec" where
  "timespec_add dest operand =
    (let dest = dest\<lparr>tv_sec := tv_sec dest + tv_sec operand\<rparr>;
         dest = dest\<lparr>tv_nsec := tv_nsec dest + tv_nsec operand\<rparr>
     in if sint (tv_nsec dest) < 0
        then (let dest = dest\<lparr>tv_sec := tv_sec dest + 1\<rparr>
              in dest\<lparr>tv_nsec := (tv_nsec dest AND 0x7fffffff) + TIMESPEC_OFFSET_NSEC\<rparr>)
        else dest)"

definition timespec_compare :: "timespec \<Rightarrow> timespec \<Rightarrow> int" where
  "timespec_compare t1 t2 =
    (let diff = tv_sec t1 - tv_sec t2
     in if sint diff < 0 then - 1
        else if sint diff > 0 then 1
        else sint (tv_nsec t1 - tv_nsec t2))"

subsection \<open>Nanoseconds\<close>

definition giga :: int where
  "giga = 1000000000"

definition ns_offset :: int where
  "ns_offset = 1147483648"

lemma ns_consts: "giga = 1000000000" "ns_offset = 1147483648" "ns_offset + giga = 2 ^ 31"
  by (simp_all add: giga_def ns_offset_def)

text \<open>A point in time as it is stored, and the operand of an addition.\<close>

definition stored :: "timespec \<Rightarrow> bool" where
  "stored t \<longleftrightarrow> 0 \<le> sint (tv_sec t) \<and> ns_offset \<le> uint (tv_nsec t) \<and> uint (tv_nsec t) < ns_offset + giga"

definition plain :: "timespec \<Rightarrow> bool" where
  "plain t \<longleftrightarrow> 0 \<le> sint (tv_sec t) \<and> uint (tv_nsec t) < giga"

definition ns :: "timespec \<Rightarrow> int" where
  "ns t = sint (tv_sec t) * giga + uint (tv_nsec t) - ns_offset"

definition plain_ns :: "timespec \<Rightarrow> int" where
  "plain_ns t = sint (tv_sec t) * giga + uint (tv_nsec t)"

lemma sint_plus64: "0 \<le> sint a \<Longrightarrow> 0 \<le> b \<Longrightarrow> sint a + b < 2 ^ 63 \<Longrightarrow> sint (a + word_of_int b) = sint a + b" for a :: s64
proof -
  assume r: "0 \<le> sint a" "0 \<le> b" "sint a + b < 2 ^ 63"
  have "a + word_of_int b = word_of_int (sint a + b)" by simp
  moreover have "sint (word_of_int (sint a + b) :: s64) = sint a + b"
    by (subst signed_of_int) (use r in \<open>simp add: signed_take_bit_int_eq_self\<close>)
  ultimately show ?thesis by (simp only:)
qed

lemma sint_sign: "sint w = (if uint w < 2 ^ 31 then uint w else uint w - 2 ^ 32)" for w :: u32
proof -
  have u: "uint w = sint w mod 2 ^ 32" by (simp add: uint_sint take_bit_eq_mod)
  have r: "sint w < 2 ^ 31" "- (2 ^ 31) \<le> sint w" using sint_lt [of w] sint_ge [of w] by simp_all
  show ?thesis
  proof (cases "0 \<le> sint w")
    case True
    then have "uint w = sint w" using u r by simp
    then show ?thesis using r by simp
  next
    case False
    have "(sint w + 2 ^ 32) mod 2 ^ 32 = sint w + 2 ^ 32" using False r by (intro mod_pos_pos_trivial) auto
    moreover have "(sint w + 2 ^ 32) mod 2 ^ 32 = uint w" using u by simp
    ultimately have "uint w = sint w + 2 ^ 32" by simp
    then show ?thesis using r by simp
  qed
qed

lemma sint_neg32: "sint w < 0 \<longleftrightarrow> 2 ^ 31 \<le> uint w" for w :: u32
  using sint_sign [of w] unsigned_less [of w, where ?'a = int] by auto

lemma uint_low31: "uint (w AND 0x7fffffff) = uint w mod 2 ^ 31" for w :: u32
proof -
  have "w AND 0x7fffffff = take_bit 31 w" by (simp add: take_bit_eq_mask mask_eq_exp_minus_1)
  then show ?thesis by (simp add: unsigned_take_bit_eq take_bit_int_def)
qed

lemma uint_plus32: "uint a + uint b < 2 ^ 32 \<Longrightarrow> uint (a + b) = uint a + uint b" for a b :: u32
  by (simp add: uint_word_ariths)

lemma sint_minus64: "0 \<le> sint a \<Longrightarrow> 0 \<le> sint b \<Longrightarrow> sint (a - b) = sint a - sint b" for a b :: s64
proof -
  assume "0 \<le> sint a" "0 \<le> sint b"
  moreover have "sint a < 2 ^ 63" "sint b < 2 ^ 63" using sint_lt [of a] sint_lt [of b] by simp_all
  moreover have "a - b = word_of_int (sint a - sint b)" by simp
  moreover have "sint (word_of_int (sint a - sint b) :: s64) = sint a - sint b"
    by (subst signed_of_int) (use calculation in \<open>simp add: signed_take_bit_int_eq_self\<close>)
  ultimately show ?thesis by (simp only:)
qed

lemma sint_minus32: "uint a < 2 ^ 31 \<Longrightarrow> uint b < 2 ^ 31 \<Longrightarrow> sint (a - b) = uint a - uint b" for a b :: u32
proof -
  assume "uint a < 2 ^ 31" "uint b < 2 ^ 31"
  moreover have "a - b = word_of_int (uint a - uint b)" by simp
  moreover have "- (2 ^ 31) \<le> uint a - uint b" "uint a - uint b < 2 ^ 31"
    using calculation unsigned_greater_eq [of a, where ?'a = int] unsigned_greater_eq [of b, where ?'a = int] by linarith+
  then have "sint (word_of_int (uint a - uint b) :: u32) = uint a - uint b"
    by (subst signed_of_int) (simp add: signed_take_bit_int_eq_self)
  ultimately show ?thesis by (simp only:)
qed

lemma add_correct:
  assumes t: "stored t" and d: "plain d" and s: "sint (tv_sec t) + sint (tv_sec d) < 2 ^ 63 - 1"
  shows "stored (timespec_add t d) \<and> ns (timespec_add t d) = ns t + plain_ns d"
proof -
  let ?a = "uint (tv_nsec t)" and ?b = "uint (tv_nsec d)"
  have sec: "sint (tv_sec t + tv_sec d) = sint (tv_sec t) + sint (tv_sec d)"
    "sint (tv_sec t + tv_sec d + 1) = sint (tv_sec t) + sint (tv_sec d) + 1"
    using sint_plus64 [of "tv_sec t" "sint (tv_sec d)"] sint_plus64 [of "tv_sec t" "sint (tv_sec d) + 1"] s t d
    by (simp_all add: stored_def plain_def algebra_simps)
  have r: "1147483648 \<le> ?a" "?a < 2147483648" "0 \<le> ?b" "?b < 1000000000"
    using t d by (simp_all add: stored_def plain_def ns_consts)
  have ge: "1147483648 \<le> ?a + ?b" using r by linarith
  have n: "uint (tv_nsec t + tv_nsec d) = ?a + ?b" using r by (intro uint_plus32) simp
  show ?thesis
  proof (cases "?a + ?b < 2 ^ 31")
    case True
    then have "\<not> sint (tv_nsec t + tv_nsec d) < 0" unfolding sint_neg32 n by simp
    then have "timespec_add t d = \<lparr>tv_sec = tv_sec t + tv_sec d, tv_nsec = tv_nsec t + tv_nsec d\<rparr>"
      by (simp add: timespec_add_def Let_def)
    then show ?thesis using True r t d by (simp add: stored_def plain_def ns_def plain_ns_def ns_consts sec n) (rule ge)
  next
    case False
    then have "sint (tv_nsec t + tv_nsec d) < 0" unfolding sint_neg32 n by simp
    then have e: "timespec_add t d = \<lparr>tv_sec = tv_sec t + tv_sec d + 1,
        tv_nsec = ((tv_nsec t + tv_nsec d) AND 0x7fffffff) + TIMESPEC_OFFSET_NSEC\<rparr>"
      by (simp add: timespec_add_def Let_def)
    have l: "uint ((tv_nsec t + tv_nsec d) AND 0x7fffffff) = ?a + ?b - 2147483648"
    proof -
      have "(?a + ?b - 2 ^ 31) mod 2 ^ 31 = ?a + ?b - 2 ^ 31" using False r by (intro mod_pos_pos_trivial) auto
      moreover have "(?a + ?b - 2 ^ 31) mod 2 ^ 31 = (?a + ?b) mod 2 ^ 31" by simp
      ultimately show ?thesis unfolding uint_low31 n by simp
    qed
    have "uint (((tv_nsec t + tv_nsec d) AND 0x7fffffff) + TIMESPEC_OFFSET_NSEC) = ?a + ?b - 2147483648 + 1147483648"
      using uint_plus32 [of "(tv_nsec t + tv_nsec d) AND 0x7fffffff" TIMESPEC_OFFSET_NSEC] r unfolding l by simp
    then show ?thesis unfolding e using False r t d by (simp add: stored_def plain_def ns_def plain_ns_def ns_consts sec)
  qed
qed

lemma compare_correct:
  assumes t: "stored t" and u: "stored u"
  shows "timespec_compare t u < 0 \<longleftrightarrow> ns t < ns u" "timespec_compare t u = 0 \<longleftrightarrow> t = u" "timespec_compare t u > 0 \<longleftrightarrow> ns u < ns t"
    "ns t = ns u \<longleftrightarrow> t = u"
proof -
  have r: "1147483648 \<le> uint (tv_nsec t)" "uint (tv_nsec t) < 2147483648" "1147483648 \<le> uint (tv_nsec u)" "uint (tv_nsec u) < 2147483648"
    using t u by (simp_all add: stored_def ns_consts)
  have s: "sint (tv_sec t - tv_sec u) = sint (tv_sec t) - sint (tv_sec u)"
    using t u by (intro sint_minus64) (simp_all add: stored_def)
  have n: "sint (tv_nsec t - tv_nsec u) = uint (tv_nsec t) - uint (tv_nsec u)" using r by (intro sint_minus32) simp_all
  have e: "t = u \<longleftrightarrow> sint (tv_sec t) = sint (tv_sec u) \<and> uint (tv_nsec t) = uint (tv_nsec u)"
    by (cases t; cases u) (auto intro: signed_word_eqI unsigned_word_eqI)
  have ns: "ns t < ns u \<longleftrightarrow> sint (tv_sec t) < sint (tv_sec u) \<or> sint (tv_sec t) = sint (tv_sec u) \<and> uint (tv_nsec t) < uint (tv_nsec u)"
    if "1147483648 \<le> uint (tv_nsec t)" "uint (tv_nsec t) < 2147483648" "1147483648 \<le> uint (tv_nsec u)" "uint (tv_nsec u) < 2147483648"
    for t u using that unfolding ns_def ns_consts(1,2) by arith
  show "timespec_compare t u < 0 \<longleftrightarrow> ns t < ns u" "timespec_compare t u = 0 \<longleftrightarrow> t = u" "timespec_compare t u > 0 \<longleftrightarrow> ns u < ns t"
    using ns [OF r] ns [OF r(3,4,1,2)] e unfolding timespec_compare_def Let_def s n by auto
  show "ns t = ns u \<longleftrightarrow> t = u" using ns [OF r] ns [OF r(3,4,1,2)] e by (metis less_irrefl linorder_neqE)
qed

text \<open>
  C38. Adding a duration to a stored point in time adds the nanoseconds, with the carry into the seconds
  taken from the sign bit, and yields a stored point in time again, as long as the seconds stay
  in 63 bits. Two stored points in time compare as their nanoseconds.
\<close>

theorem timespec_add_compare:
  assumes "stored t" "plain d" "sint (tv_sec t) + sint (tv_sec d) < 2 ^ 63 - 1" "stored u"
  shows "stored (timespec_add t d) \<and> ns (timespec_add t d) = ns t + plain_ns d \<and>
    (timespec_compare t u < 0 \<longleftrightarrow> ns t < ns u) \<and> (timespec_compare t u = 0 \<longleftrightarrow> t = u) \<and> (timespec_compare t u > 0 \<longleftrightarrow> ns u < ns t)"
  using add_correct [OF assms(1-3)] compare_correct [OF assms(1,4)] by simp

theorem timespec_add_compare_witness:
  "ns (timespec_add (timespec_set 1 999999999) \<lparr>tv_sec = 0, tv_nsec = 2\<rparr>) = 2000000001"
proof -
  let ?t = "timespec_set 1 999999999" and ?d = "\<lparr>tv_sec = 0, tv_nsec = 2\<rparr>"
  have "stored ?t" "plain ?d" "sint (tv_sec ?t) + sint (tv_sec ?d) < 2 ^ 63 - 1"
    by (simp_all add: stored_def plain_def timespec_set_def ns_consts)
  moreover have "ns ?t = 1999999999" "plain_ns ?d = 2" by (simp_all add: ns_def plain_ns_def timespec_set_def ns_consts)
  ultimately show ?thesis using timespec_add_compare [of ?t ?d ?t] by simp
qed

end
