(* ===== verification/Srv_Timer.thy ===== *)
theory Srv_Timer
  imports Nc_Time Set_Map Kernel_Sched
begin

section \<open>The timer server\<close>

text \<open>
  \<^verbatim>\<open>src/servers/timer/main.c\<close>: threads that sleep until a point in time. The timers are the nodes of
  an AA tree (\<open>Set_Tree\<close>) whose keys are pointers to timers, compared by the points in time stored there; \<open>timer_ts\<close> is
  this part of the memory. The ring of sleepers of a timer is the list of their tags. \<open>timer_slab\<close> has the free
  timer objects and \<open>sleeper_slab\<close> is the number of sleeper objects that can still be had. A tick of the clock hands the rings of the
  sleepers that are due to the queue of delayed calls of the kernel (\<open>Kernel_State\<close>).
\<close>

record timer_state =
  system_time :: timespec
  timer_ts :: "int \<Rightarrow> timespec"
  timer_waiting :: "int \<Rightarrow> int list"
  timer_tree :: "int tree_t"
  timer_slab :: "int list"
  sleeper_slab :: nat

definition TICK :: u32 where
  "TICK = 1000 * 1000 * 1000 div 100"

definition time_initialize :: "s64 \<Rightarrow> timer_state \<Rightarrow> timer_state" where
  "time_initialize seconds st = st\<lparr>system_time := timespec_set seconds 0\<rparr>"

definition time_tick :: "timer_state \<Rightarrow> timer_state" where
  "time_tick st = st\<lparr>system_time := timespec_add (system_time st) \<lparr>tv_sec = 0, tv_nsec = TICK\<rparr>\<rparr>"

definition timer_compare :: "(int \<Rightarrow> timespec) \<Rightarrow> int \<Rightarrow> int \<Rightarrow> int" where
  "timer_compare ts a b = timespec_compare (ts a) (ts b)"

text \<open>The tree with the comparison as it reads the memory \<open>ts\<close>, and the store to the key of a node.\<close>

definition at_times :: "(int \<Rightarrow> timespec) \<Rightarrow> int tree_t \<Rightarrow> int tree_t" where
  "at_times ts t = t\<lparr>compare := timer_compare ts\<rparr>"

fun set_key :: "int \<Rightarrow> int \<Rightarrow> int node_t \<Rightarrow> int node_t" where
  "set_key a k nil_node = nil_node"
| "set_key a k (Node b kb v l r) = Node b (if b = a then k else kb) v (set_key a k l) (set_key a k r)"

text \<open>\<open>here\<close> is the address of the variable \<^verbatim>\<open>entry\<close> on the stack.\<close>

definition add_timer :: "int \<Rightarrow> timespec \<Rightarrow> int \<Rightarrow> timer_state \<Rightarrow> (int \<times> timer_state) option" where
  "add_timer here ts tag st =
    (if sint (tv_sec ts) < 0 \<or> sint (tv_nsec ts) < 0 then Some (E_PAR, st)
     else if tv_sec ts = 0 \<and> tv_nsec ts = 0 then Some (E_TMOUT, st)
     else
       (let entry = timespec_add (system_time st) ts;
            mem = (timer_ts st)(here := entry)
        in
        if sleeper_slab st = 0 then Some (E_NOMEM, st)
        else
          (let st1 = st\<lparr>sleeper_slab := sleeper_slab st - 1\<rparr> in
           case tree_get (at_times mem (timer_tree st1)) here of
             Some t \<Rightarrow> Some (E_OK, st1\<lparr>timer_waiting := (timer_waiting st1)(t := timer_waiting st1 t @ [tag])\<rparr>)
           | None \<Rightarrow>
               (case timer_slab st1 of
                  [] \<Rightarrow> Some (E_NOMEM, st1\<lparr>sleeper_slab := sleeper_slab st1 + 1\<rparr>)
                | p # free \<Rightarrow> do {
                    (ok, t) \<leftarrow> tree_put (at_times mem (timer_tree st1)) here p;
                    if \<not> ok then Some (E_SYS, st1\<lparr>sleeper_slab := sleeper_slab st1 + 1\<rparr>)
                    else
                      (let st2 = st1\<lparr>timer_slab := free, timer_tree := t\<lparr>roots := map (set_key p p) (roots t)\<rparr>,
                             timer_ts := (timer_ts st1)(p := entry), timer_waiting := (timer_waiting st1)(p := [])\<rparr>
                       in Some (E_OK, st2\<lparr>timer_waiting := (timer_waiting st2)(p := timer_waiting st2 p @ [tag])\<rparr>))
                  }))))"

text \<open>The loop of \<^verbatim>\<open>timer_service\<close>; the result of \<^verbatim>\<open>icall->handle\<close> is not looked at.\<close>

partial_function (option) expire :: "timespec \<Rightarrow> 'm kernel \<Rightarrow> timer_state \<Rightarrow> ('m kernel \<times> timer_state) option" where
  "expire now k st = do {
     first \<leftarrow> tree_first (timer_tree st);
     case first of
       None \<Rightarrow> Some (k, st)
     | Some p \<Rightarrow>
         if timespec_compare now (timer_ts st p) < 0 then Some (k, st)
         else do {
           (q, t) \<leftarrow> tree_remove (at_times (timer_ts st) (timer_tree st)) p;
           expire now
             (if timer_waiting st p \<noteq> [] then snd (kq_enqueue (Wakeup (timer_waiting st p)) k) else k)
             (st\<lparr>timer_waiting := (timer_waiting st)(p := []), timer_tree := t,
                timer_slab := (case q of None \<Rightarrow> timer_slab st | Some q \<Rightarrow> q # timer_slab st)\<rparr>)
         }
   }"

definition timer_service :: "'m kernel \<Rightarrow> timer_state \<Rightarrow> ('m kernel \<times> timer_state) option" where
  "timer_service k st = (let st = time_tick st; k = tick k in expire (system_time st) k st)"

definition wakeup :: "int list \<Rightarrow> timer_state \<Rightarrow> int list \<times> timer_state" where
  "wakeup w st = (w, st\<lparr>sleeper_slab := sleeper_slab st + length w\<rparr>)"

text \<open>
  What the loop \<^verbatim>\<open>doit\<close> does with a message of \<open>sz\<close> bytes: the reply it sends, if any, and the state.
  The size of \<^verbatim>\<open>struct timespec\<close> is 12.
\<close>

definition timer_request :: "int \<Rightarrow> int \<Rightarrow> timespec \<Rightarrow> int \<Rightarrow> timer_state \<Rightarrow> ((int \<times> int) option \<times> timer_state) option" where
  "timer_request here sz arg tag st = do {
     (reply, st) \<leftarrow> (if sz = 12 then add_timer here arg tag st else Some (E_PAR, st));
     Some (if reply \<noteq> E_OK then Some (tag, reply) else None, st)
   }"

subsection \<open>Trees under two comparisons\<close>

definition agree :: "(int \<Rightarrow> int \<Rightarrow> int) \<Rightarrow> (int \<Rightarrow> int \<Rightarrow> int) \<Rightarrow> int \<Rightarrow> int set \<Rightarrow> bool" where
  "agree c d key K \<longleftrightarrow> (\<forall>k \<in> K. (c key k = 0 \<longleftrightarrow> d key k = 0) \<and> (c key k < 0 \<longleftrightarrow> d key k < 0))"

abbreviation keys :: "'n node_t \<Rightarrow> int set" where
  "keys p \<equiv> fst ` set (contents (\<lambda>k. k) p)"

lemma agree_Un [simp]: "agree c d key (K \<union> L) \<longleftrightarrow> agree c d key K \<and> agree c d key L"
  "agree c d key (insert k K) \<longleftrightarrow> agree c d key {k} \<and> agree c d key K"
  by (auto simp: agree_def)

lemma node_get_agree: "agree c d key (keys p) \<Longrightarrow> node_get c p key = node_get d p key"
  by (induction p) (auto simp: image_Un Let_def agree_def)

lemma node_put_agree: "agree c d (key_of child) (keys p) \<Longrightarrow> node_put c p child = node_put d p child"
  by (induction p) (auto simp: image_Un Let_def agree_def)

lemma node_remove_swap_compare:
  "node_remove_swap (t\<lparr>compare := d\<rparr>) p to = map_option (\<lambda>(q, to, u). (q, to, u\<lparr>compare := d\<rparr>)) (node_remove_swap t p to)"
proof (induction t p to rule: node_remove_swap.induct)
  case (2 t a k v l r to)
  have "node_destroy (t\<lparr>compare := d\<rparr>) to = (node_destroy t to)\<lparr>compare := d\<rparr>" by (cases to) auto
  then show ?case using 2 by (cases "node_remove_swap t l to") (auto simp: is_nil_def split: bind_splits)
qed simp

lemma node_destroy_compare: "node_destroy (t\<lparr>compare := d\<rparr>) p = (node_destroy t p)\<lparr>compare := d\<rparr>"
  by (cases p) auto

lemma node_remove_agree:
  "agree (compare t) d key (keys p) \<Longrightarrow>
    node_remove (t\<lparr>compare := d\<rparr>) p key = map_option (\<lambda>(q, u). (q, u\<lparr>compare := d\<rparr>)) (node_remove t p key)"
proof (induction p)
  case (Node a k v l r)
  have k: "compare t key k = 0 \<longleftrightarrow> d key k = 0" "compare t key k < 0 \<longleftrightarrow> d key k < 0"
    and lr: "agree (compare t) d key (keys l)" "agree (compare t) d key (keys r)"
    using Node.prems by (auto simp: image_Un agree_def)
  have mo: "map_option f (x \<bind> g) = x \<bind> (\<lambda>y. map_option f (g y))" for f x and g :: "'x \<Rightarrow> 'y option"
    by (cases x) auto
  show ?case
  proof (cases "d key k = 0")
    case True
    then show ?thesis using k(1)
      by (auto simp: node_remove_swap_compare node_destroy_compare mo case_prod_beta bind_map_option comp_def
          simp del: node_rebalance.simps)
  next
    case False
    then show ?thesis using Node.IH(1) [OF lr(1)] Node.IH(2) [OF lr(2)] k
      by (auto simp: mo case_prod_beta bind_map_option comp_def simp del: node_rebalance.simps)
  qed
qed simp

subsection \<open>The nodes of a tree\<close>

text \<open>Which nodes a tree has, whatever the order of their keys.\<close>

lemma node_put_nodes:
  "node_put c p child = Some (Some q) \<Longrightarrow> child = Node a k 1 nil_node nil_node \<Longrightarrow>
    set (contents g q) = insert (g k, a) (set (contents g p))"
proof (induction p arbitrary: q)
  case (Node b kb v l r)
  from Node.prems obtain x y where x:
    "c k kb < 0 \<and> node_put c l child = Some (Some x) \<and> node_skew (Node b kb v x r) = Some y \<or>
     \<not> c k kb < 0 \<and> node_put c r child = Some (Some x) \<and> node_skew (Node b kb v l x) = Some y"
    "node_split y = Some q"
    by (auto simp: Let_def bind_eq_Some_conv split: if_splits option.splits simp del: node_skew.simps)
  have "contents g q = contents g y" by (rule contents_split [OF x(2)])
  then show ?case using x(1) Node.IH [OF _ Node.prems(2)] contents_skew [of _ y g] by fastforce
qed auto

lemma node_remove_swap_nodes:
  "node_remove_swap t p to = Some (q, to', t') \<Longrightarrow> set (contents g q) \<subseteq> set (contents g p) \<and>
    (\<exists>a k r. to' = Node a k (level to) (left to) r \<and> (g k, a) \<in> set (contents g p))"
proof (induction t p to arbitrary: q to' t' rule: node_remove_swap.induct)
  case (2 t a k v l r to)
  show ?case
  proof (cases "is_nil l")
    case True
    then show ?thesis using "2.prems" by auto
  next
    case False
    then obtain l' where l: "node_remove_swap t l to = Some (l', to', t')" "node_rebalance (Node a k v l' r) = Some q"
      using "2.prems" by (auto simp: bind_eq_Some_conv simp del: node_rebalance.simps)
    then show ?thesis using "2.IH" [OF False l(1)] contents_rebalance [OF l(2), of g] by auto
  qed
qed simp

lemma node_remove_nodes:
  "node_remove t p key = Some (q, t') \<Longrightarrow> set (contents g q) \<subseteq> set (contents g p)"
proof (induction p arbitrary: q t')
  case (Node a k v l r)
  consider "compare t key k = 0" "is_nil l" | "compare t key k = 0" "\<not> is_nil l" "is_nil r"
    | "compare t key k = 0" "\<not> is_nil l" "\<not> is_nil r" | "compare t key k < 0" | "compare t key k > 0" by linarith
  then show ?case
  proof cases
    case 3
    then obtain r' x y where x: "node_remove_swap t r (Node a k v l r) = Some (r', x, t')" "set_right r' x = Some y"
      "node_rebalance y = Some q"
      using Node.prems by (auto simp: bind_eq_Some_conv simp del: node_rebalance.simps)
    obtain b kb rb where b: "set (contents g r') \<subseteq> set (contents g r)" "x = Node b kb v l rb" "(g kb, b) \<in> set (contents g r)"
      using node_remove_swap_nodes [OF x(1), of g] by auto
    then show ?thesis using contents_rebalance [OF x(3), of g] x(2) by auto
  next
    case 4
    then obtain l' where l: "node_remove t l key = Some (l', t')" "node_rebalance (Node a k v l' r) = Some q"
      using Node.prems by (auto simp: bind_eq_Some_conv simp del: node_rebalance.simps)
    then show ?thesis using Node.IH(1) [OF l(1)] contents_rebalance [OF l(2), of g] by auto
  next
    case 5
    then obtain r' where r: "node_remove t r key = Some (r', t')" "node_rebalance (Node a k v l r') = Some q"
      using Node.prems by (auto simp: bind_eq_Some_conv simp del: node_rebalance.simps)
    then show ?thesis using Node.IH(2) [OF r(1)] contents_rebalance [OF r(2), of g] by auto
  qed (use Node.prems in auto)
qed simp

definition addrs :: "'n node_t \<Rightarrow> 'n list" where
  "addrs p = map snd (contents (\<lambda>k. k) p)"

lemma contents_map: "contents f p = map (\<lambda>(k, a). (f k, a)) (contents (\<lambda>k. k) p)"
  by (induction p) auto

lemma addrs_contents: "map snd (contents f p) = addrs p"
  by (simp add: contents_map [of f] addrs_def comp_def case_prod_beta)

text \<open>The key of every node is its own address.\<close>

definition own_keys :: "int node_t \<Rightarrow> bool" where
  "own_keys p \<longleftrightarrow> (\<forall>(k, a) \<in> set (contents (\<lambda>k. k) p). k = a)"

lemma own_keys_contents: "own_keys p \<Longrightarrow> contents f p = map (\<lambda>a. (f a, a)) (addrs p)"
  unfolding contents_map [of f] own_keys_def addrs_def by (auto simp: case_prod_beta)

lemma own_keys_keys: "own_keys p \<Longrightarrow> keys p = set (addrs p)"
  by (simp add: own_keys_contents image_image)

lemma set_key_simps [simp]:
  "aa (set_key a k p) = aa p" "addrs (set_key a k p) = addrs p" "node_count (set_key a k p) = node_count p"
proof -
  have l: "level (set_key a k p) = level p" for p by (cases p) auto
  have "level (right (set_key a k p)) = level (right p)" for p using l by (cases p) auto
  then show "aa (set_key a k p) = aa p" using l by (induction p) auto
  show "addrs (set_key a k p) = addrs p" by (induction p) (auto simp: addrs_def)
  show "node_count (set_key a k p) = node_count p" by (induction p) auto
qed

lemma set_key_nodes:
  "(x, b) \<in> set (contents (\<lambda>k. k) (set_key a k p)) \<Longrightarrow> b = a \<and> x = k \<or> b \<noteq> a \<and> (x, b) \<in> set (contents (\<lambda>k. k) p)"
  by (induction p) (auto split: if_splits)

subsection \<open>Sleepers in the order of their deadlines\<close>

text \<open>The timers in the order of the tree, and the sleepers with their deadlines in the order of waking.\<close>

definition timers :: "timer_state \<Rightarrow> int list" where
  "timers st = addrs (roots (timer_tree st) ! 0)"

definition pend :: "(int \<Rightarrow> timespec) \<Rightarrow> (int \<Rightarrow> int list) \<Rightarrow> int list \<Rightarrow> (int \<times> int) list" where
  "pend ts w l = concat (map (\<lambda>a. map (Pair (ns (ts a))) (w a)) l)"

definition pending :: "timer_state \<Rightarrow> (int \<times> int) list" where
  "pending st = pend (timer_ts st) (timer_waiting st) (timers st)"

definition tree_ok :: "(int \<Rightarrow> timespec) \<Rightarrow> int tree_t \<Rightarrow> bool" where
  "tree_ok ts t \<longleftrightarrow> \<not> has_table t \<and> (\<forall>k. select_root t k = 0) \<and>
    (\<exists>p. roots t = [p] \<and> aa p \<and> own_keys p \<and> sorted_wrt (\<lambda>a b. ns (ts a) < ns (ts b)) (addrs p) \<and> (\<forall>a \<in> set (addrs p). stored (ts a)))"

text \<open>\<open>here\<close> is a place on the stack of the server, where no timer is.\<close>

definition timers_ok :: "int \<Rightarrow> timer_state \<Rightarrow> bool" where
  "timers_ok here st \<longleftrightarrow> stored (system_time st) \<and> tree_ok (timer_ts st) (timer_tree st) \<and>
    (\<forall>a \<in> set (timers st). timer_waiting st a \<noteq> []) \<and> distinct (timer_slab st) \<and>
    set (timer_slab st) \<inter> set (timers st) = {} \<and> here \<notin> set (timer_slab st) \<union> set (timers st)"

definition add_pending :: "int \<Rightarrow> int \<Rightarrow> (int \<times> int) list \<Rightarrow> (int \<times> int) list" where
  "add_pending d tag P = filter (\<lambda>x. fst x \<le> d) P @ (d, tag) # filter (\<lambda>x. d < fst x) P"

lemma pend_simps [simp]:
  "pend ts w [] = []" "pend ts w (a # l) = map (Pair (ns (ts a))) (w a) @ pend ts w l"
  "pend ts w (l @ l') = pend ts w l @ pend ts w l'"
  by (simp_all add: pend_def)

lemma pend_cong: "(\<And>a. a \<in> set l \<Longrightarrow> ts a = ts' a \<and> w a = w' a) \<Longrightarrow> pend ts w l = pend ts' w' l"
  by (induction l) auto

lemma filter_ring [simp]:
  "filter (\<lambda>x. fst x \<le> d) (map (Pair a) w) = (if a \<le> d then map (Pair a) w else [])"
  "filter (\<lambda>x. d < fst x) (map (Pair a) w) = (if d < a then map (Pair a) w else [])"
  by (induction w) auto

lemma pend_above:
  "\<forall>a \<in> set l. d < ns (ts a) \<Longrightarrow> filter (\<lambda>x. fst x \<le> d) (pend ts w l) = [] \<and> filter (\<lambda>x. d < fst x) (pend ts w l) = pend ts w l"
  by (induction l) auto

lemma pend_below:
  "\<forall>a \<in> set l. ns (ts a) \<le> d \<Longrightarrow> filter (\<lambda>x. fst x \<le> d) (pend ts w l) = pend ts w l \<and> filter (\<lambda>x. d < fst x) (pend ts w l) = []"
  by (induction l) auto

lemma times_agree:
  assumes "stored (m key)" and "\<And>a. a \<in> K \<Longrightarrow> stored (m a)"
  shows "agree (timer_compare m) (\<lambda>a b. compare_int (ns (m a)) (ns (m b))) key K"
  unfolding agree_def timer_compare_def compare_int_def
proof (intro ballI)
  fix k
  assume "k \<in> K"
  note c = compare_correct [OF assms(1) assms(2) [OF this]]
  have "ns (m key) < ns (m k) \<or> ns (m key) = ns (m k) \<or> ns (m k) < ns (m key)" by linarith
  then show "(timespec_compare (m key) (m k) = 0 \<longleftrightarrow> (if ns (m key) > ns (m k) then 1 else if ns (m key) = ns (m k) then 0 else - 1) = (0 :: int)) \<and>
    (timespec_compare (m key) (m k) < 0 \<longleftrightarrow> (if ns (m key) > ns (m k) then 1 else if ns (m key) = ns (m k) then 0 else - 1) < (0 :: int))"
    using c by auto
qed

interpretation times: comparator "\<lambda>a b. compare_int (f a) (f b)" f for f
  by unfold_locales (auto simp: compare_int_def)

lemma own_keys_bst:
  assumes "own_keys p" and "sorted_wrt (\<lambda>a b. f a < f b) (addrs p)"
  shows "bst f p"
  using assms(2) unfolding bst_def own_keys_contents [OF assms(1)] by (simp add: sorted_wrt_map comp_def)

lemma timer_tree_get:
  assumes "tree_ok ts t" and "stored e" and "here \<notin> set (addrs (roots t ! 0))"
  shows "tree_get (at_times (ts(here := e)) t) here =
    map_of (map (\<lambda>a. (ns (ts a), a)) (addrs (roots t ! 0))) (ns e)"
proof -
  let ?m = "ts(here := e)" and ?p = "roots t ! 0"
  let ?f = "\<lambda>a. ns (?m a)"
  have p: "own_keys ?p" "sorted_wrt (\<lambda>a b. ns (ts a) < ns (ts b)) (addrs ?p)" "\<forall>a \<in> set (addrs ?p). stored (ts a)"
    "select_root t here = 0" using assms(1) by (auto simp: tree_ok_def)
  have s: "sorted_wrt (\<lambda>a b. ?f a < ?f b) (addrs ?p)"
    using p(2) by (rule sorted_wrt_mono_rel [rotated]) (use assms(3) in auto)
  have "agree (timer_compare ?m) (\<lambda>a b. compare_int (?f a) (?f b)) here (keys ?p)"
    by (rule times_agree) (use assms(2,3) p(3) own_keys_keys [OF p(1)] in auto)
  then have "node_get (timer_compare ?m) ?p here = map_of (contents ?f ?p) (?f here)"
    using times.node_get_contents [OF own_keys_bst [OF p(1) s]] node_get_agree by metis
  moreover have "contents ?f ?p = map (\<lambda>a. (ns (ts a), a)) (addrs ?p)"
    unfolding own_keys_contents [OF p(1)] using assms(3) by auto
  ultimately show ?thesis using p(4) by (simp add: tree_get_def at_times_def)
qed

lemma timer_tree_put:
  assumes "tree_ok ts t" and "stored e" and "here \<notin> set (addrs (roots t ! 0))" and "here \<noteq> c" and "c \<notin> set (addrs (roots t ! 0))"
    and "ns e \<notin> (\<lambda>a. ns (ts a)) ` set (addrs (roots t ! 0))"
  shows "\<exists>t' xs ys. tree_put (at_times (ts(here := e)) t) here c = Some (True, t') \<and> addrs (roots t ! 0) = xs @ ys \<and>
    addrs (map (set_key c c) (roots t') ! 0) = xs @ c # ys \<and> tree_ok (ts(c := e)) (t'\<lparr>roots := map (set_key c c) (roots t')\<rparr>)"
proof -
  let ?m = "ts(here := e)"
  let ?f = "\<lambda>a. ns (?m a)"
  obtain p where r: "roots t = [p]" and p: "own_keys p" "sorted_wrt (\<lambda>a b. ns (ts a) < ns (ts b)) (addrs p)"
    "\<forall>a \<in> set (addrs p). stored (ts a)" "aa p" "select_root t here = 0" "\<not> has_table t" "\<And>k. select_root t k = 0"
    using assms(1) by (auto simp: tree_ok_def)
  have a: "here \<notin> set (addrs p)" "c \<notin> set (addrs p)" "ns e \<notin> (\<lambda>a. ns (ts a)) ` set (addrs p)"
    using assms(3,5,6) by (simp_all add: r)
  have s: "sorted_wrt (\<lambda>a b. ?f a < ?f b) (addrs p)"
    using p(2) by (rule sorted_wrt_mono_rel [rotated]) (use a(1) in auto)
  have cf: "contents ?f p = map (\<lambda>a. (ns (ts a), a)) (addrs p)"
    unfolding own_keys_contents [OF p(1)] using a(1) by auto
  then have ab: "?f here \<notin> fst ` set (contents ?f p)" using a(3) by (simp add: image_image)
  from times.node_put_absent [OF own_keys_bst [OF p(1) s] p(4) ab, of c] obtain q xs ys where
    q: "node_put (\<lambda>a b. compare_int (?f a) (?f b)) p (Node c here 1 nil_node nil_node) = Some (Some q)" "grown p q" "bst ?f q"
      "contents ?f p = xs @ ys" "contents ?f q = xs @ (?f here, c) # ys" by blast
  have "agree (timer_compare ?m) (\<lambda>a b. compare_int (?f a) (?f b)) here (keys p)"
    by (rule times_agree) (use assms(2) a(1) p(3) own_keys_keys [OF p(1)] in auto)
  then have put: "node_put (timer_compare ?m) p (Node c here 1 nil_node nil_node) = Some (Some q)"
    using q(1) node_put_agree [of _ _ "Node c here 1 nil_node nil_node"] by simp
  let ?t' = "(at_times ?m t)\<lparr>roots := [q], node_num := node_num t + 1\<rparr>"
  have tp: "tree_put (at_times ?m t) here c = Some (True, ?t')"
    using put p(5) r by (simp add: tree_put_def at_times_def)
  define X Y where "X = map snd xs" and "Y = map snd ys"
  have A: "addrs p = X @ Y" "addrs q = X @ c # Y"
    using arg_cong [OF q(4), of "map snd"] arg_cong [OF q(5), of "map snd"] by (simp_all add: addrs_contents X_def Y_def)
  have "xs @ ys = map (\<lambda>a. (ns (ts a), a)) (X @ Y)" using q(4) cf A(1) by simp
  then have xy: "xs = map (\<lambda>a. (ns (ts a), a)) X" "ys = map (\<lambda>a. (ns (ts a), a)) Y"
    unfolding X_def Y_def by (auto simp: append_eq_append_conv)
  have "sorted_wrt (<) (map fst (contents ?f q))" using q(3) by (simp add: bst_def)
  then have so: "sorted_wrt (\<lambda>a b. ns ((ts(c := e)) a) < ns ((ts(c := e)) b)) (X @ c # Y)"
    unfolding q(5) xy using A(1) a(2) by (auto simp: sorted_wrt_append sorted_wrt_map split: if_splits elim!: sorted_wrt_mono_rel [rotated])
  have ok: "own_keys (set_key c c q)"
  proof -
    have "x = b" if "(x, b) \<in> set (contents (\<lambda>k. k) (set_key c c q))" for x b
      using set_key_nodes [OF that] node_put_nodes [OF put refl, of "\<lambda>k. k"] p(1) by (auto simp: own_keys_def)
    then show ?thesis by (auto simp: own_keys_def)
  qed
  have "tree_ok (ts(c := e)) (?t'\<lparr>roots := map (set_key c c) (roots ?t')\<rparr>)"
    using so ok q(2) p(3,6,7) assms(2) A by (auto simp: tree_ok_def grown_def at_times_def)
  then show ?thesis using tp A r by auto
qed

lemma add_pending_split:
  assumes "\<forall>a \<in> set xs. ns (ts a) \<le> d" and "\<forall>a \<in> set ys. d < ns (ts a)"
  shows "add_pending d tag (pend ts w (xs @ ys)) = pend ts w xs @ (d, tag) # pend ts w ys"
  using pend_below [OF assms(1), of w] pend_above [OF assms(2), of w] by (simp add: add_pending_def)

lemma timer_enqueue:
  assumes ok: "timers_ok here st" and e: "stored e"
    and g: "tree_get (at_times ((timer_ts st)(here := e)) (timer_tree st)) here = Some t"
  shows "timers_ok here (st\<lparr>sleeper_slab := n, timer_waiting := (timer_waiting st)(t := timer_waiting st t @ [tag])\<rparr>) \<and>
    pending (st\<lparr>sleeper_slab := n, timer_waiting := (timer_waiting st)(t := timer_waiting st t @ [tag])\<rparr>) =
      add_pending (ns e) tag (pending st)"
proof -
  let ?A = "timers st" and ?ts = "timer_ts st" and ?w = "timer_waiting st"
  have tk: "tree_ok ?ts (timer_tree st)" "here \<notin> set (addrs (roots (timer_tree st) ! 0))"
    using ok by (auto simp: timers_ok_def timers_def)
  have "map_of (map (\<lambda>a. (ns (?ts a), a)) ?A) (ns e) = Some t"
    using g timer_tree_get [OF tk(1) e tk(2)] by (simp add: timers_def)
  then have t: "t \<in> set ?A" "ns (?ts t) = ns e" by (auto dest!: map_of_SomeD)
  obtain xs ys where A: "?A = xs @ t # ys" using t(1) by (meson split_list)
  have so: "sorted_wrt (\<lambda>a b. ns (?ts a) < ns (?ts b)) ?A" using tk(1) by (auto simp: tree_ok_def timers_def)
  then have o: "\<forall>a \<in> set (xs @ [t]). ns (?ts a) \<le> ns e" "\<forall>a \<in> set ys. ns e < ns (?ts a)" "t \<notin> set xs" "t \<notin> set ys"
    unfolding A using t(2) by (auto simp: sorted_wrt_append)
  have f: "pend ?ts (?w(t := x)) xs = pend ?ts ?w xs" "pend ?ts (?w(t := x)) ys = pend ?ts ?w ys" for x
    using o(3,4) by (auto intro!: pend_cong)
  have "pend ?ts (?w(t := ?w t @ [tag])) ?A = add_pending (ns e) tag (pend ?ts ?w ((xs @ [t]) @ ys))"
    unfolding add_pending_split [OF o(1,2)] A using t(2) by (simp add: f)
  then show ?thesis using ok A by (auto simp: pending_def timers_ok_def timers_def)
qed

lemma timer_insert:
  assumes ok: "timers_ok here st" and e: "stored e" and sl: "timer_slab st = c # free"
    and g: "tree_get (at_times ((timer_ts st)(here := e)) (timer_tree st)) here = None"
  shows "\<exists>t. tree_put (at_times ((timer_ts st)(here := e)) (timer_tree st)) here c = Some (True, t) \<and>
    timers_ok here (st\<lparr>sleeper_slab := n, timer_slab := free, timer_tree := t\<lparr>roots := map (set_key c c) (roots t)\<rparr>,
      timer_ts := (timer_ts st)(c := e), timer_waiting := (timer_waiting st)(c := [tag])\<rparr>) \<and>
    pending (st\<lparr>sleeper_slab := n, timer_slab := free, timer_tree := t\<lparr>roots := map (set_key c c) (roots t)\<rparr>,
      timer_ts := (timer_ts st)(c := e), timer_waiting := (timer_waiting st)(c := [tag])\<rparr>) = add_pending (ns e) tag (pending st)"
proof -
  let ?A = "timers st" and ?ts = "timer_ts st" and ?w = "timer_waiting st"
  have tk: "tree_ok ?ts (timer_tree st)" "here \<notin> set (addrs (roots (timer_tree st) ! 0))" "here \<noteq> c"
    "c \<notin> set (addrs (roots (timer_tree st) ! 0))" "c \<notin> set free"
    using ok sl by (auto simp: timers_ok_def timers_def)
  have "ns e \<notin> (\<lambda>a. ns (?ts a)) ` set (addrs (roots (timer_tree st) ! 0))"
    using g timer_tree_get [OF tk(1) e tk(2)] by (auto simp: map_of_eq_None_iff image_image)
  from timer_tree_put [OF tk(1) e tk(2-4) this] obtain t xs ys where
    t: "tree_put (at_times (?ts(here := e)) (timer_tree st)) here c = Some (True, t)" "?A = xs @ ys"
      "addrs (map (set_key c c) (roots t) ! 0) = xs @ c # ys" "tree_ok (?ts(c := e)) (t\<lparr>roots := map (set_key c c) (roots t)\<rparr>)"
    by (auto simp: timers_def)
  define g where "g = (\<lambda>a. ns ((?ts(c := e)) a))"
  have so: "sorted_wrt (\<lambda>a b. g a < g b) (xs @ c # ys)"
  proof -
    obtain z where z: "roots (t\<lparr>roots := map (set_key c c) (roots t)\<rparr>) = [z]" "sorted_wrt (\<lambda>a b. g a < g b) (addrs z)"
      using t(4) unfolding tree_ok_def g_def by blast
    have "map (set_key c c) (roots t) ! 0 = z" using z(1) by auto
    then show ?thesis using t(3) z(2) by simp
  qed
  have nc: "c \<notin> set xs" "c \<notin> set ys" using tk(4) t(2) by (auto simp: timers_def)
  then have "g c = ns e" "\<And>a. a \<in> set xs \<Longrightarrow> g a = ns (?ts a)" "\<And>a. a \<in> set ys \<Longrightarrow> g a = ns (?ts a)" by (auto simp: g_def)
  then have o: "\<forall>a \<in> set xs. ns (?ts a) \<le> ns e" "\<forall>a \<in> set ys. ns e < ns (?ts a)"
    using so by (auto simp: sorted_wrt_append intro: less_imp_le)
  have f: "pend (?ts(c := e)) (?w(c := [tag])) xs = pend ?ts ?w xs" "pend (?ts(c := e)) (?w(c := [tag])) ys = pend ?ts ?w ys"
    using nc by (auto intro!: pend_cong)
  have "pend (?ts(c := e)) (?w(c := [tag])) (xs @ c # ys) = add_pending (ns e) tag (pend ?ts ?w (xs @ ys))"
    unfolding add_pending_split [OF o] by (simp add: f)
  then show ?thesis using t ok sl tk(3,5) nc by (auto simp: pending_def timers_ok_def timers_def)
qed

text \<open>
  C39. \<^verbatim>\<open>add_timer\<close> answers a parameter error for a negative duration and a time-out for a duration of zero, and changes nothing then.
  It answers that there is no memory, and changes nothing, only if one of the slabs is exhausted. Otherwise it
  queues the sleeper for the time now plus the duration, behind all sleepers that are due no
  later and before those due later. (The nanoseconds of the duration are less than a second, which the code does not check, and
  the seconds do not overflow.)
\<close>

theorem add_timer_in_order:
  assumes "timers_ok here st"
    and "0 \<le> sint (tv_nsec ts) \<Longrightarrow> sint (tv_nsec ts) < giga"
    and "sint (tv_sec (system_time st)) + sint (tv_sec ts) < 2 ^ 63 - 1"
  shows "\<exists>r st'. add_timer here ts tag st = Some (r, st') \<and> timers_ok here st' \<and> system_time st' = system_time st \<and>
    (if sint (tv_sec ts) < 0 \<or> sint (tv_nsec ts) < 0 then r = E_PAR \<and> st' = st
     else if tv_sec ts = 0 \<and> tv_nsec ts = 0 then r = E_TMOUT \<and> st' = st
     else r = E_NOMEM \<and> st' = st \<and> (sleeper_slab st = 0 \<or> timer_slab st = []) \<or>
       r = E_OK \<and> pending st' = add_pending (ns (system_time st) + plain_ns ts) tag (pending st))"
proof (cases "sint (tv_sec ts) < 0 \<or> sint (tv_nsec ts) < 0 \<or> tv_sec ts = 0 \<and> tv_nsec ts = 0 \<or> sleeper_slab st = 0")
  case True
  then show ?thesis using assms(1) by (auto simp: add_timer_def)
next
  case False
  let ?e = "timespec_add (system_time st) ts"
  let ?g = "tree_get (at_times ((timer_ts st)(here := ?e)) (timer_tree st)) here"
  have ok: "stored (system_time st)" using assms(1) by (simp add: timers_ok_def)
  have "uint (tv_nsec ts) = sint (tv_nsec ts)" using False sint_sign [of "tv_nsec ts"] sint_neg32 [of "tv_nsec ts"] by auto
  then have "plain ts" using False assms(2) by (simp add: plain_def)
  then have e: "stored ?e" "ns ?e = ns (system_time st) + plain_ns ts" using add_correct [OF ok _ assms(3)] by auto
  consider t where "?g = Some t" | "?g = None" "timer_slab st = []" | c free where "?g = None" "timer_slab st = c # free"
    by (cases ?g; cases "timer_slab st") auto
  then show ?thesis
  proof cases
    case 1
    then show ?thesis using assms(1) False timer_enqueue [OF assms(1) e(1) 1, of tag "sleeper_slab st - 1"] e(2)
      by (simp add: add_timer_def Let_def)
  next
    case 2
    then show ?thesis using False assms(1) by (simp add: add_timer_def Let_def)
  next
    case 3
    obtain t where t: "tree_put (at_times ((timer_ts st)(here := ?e)) (timer_tree st)) here c = Some (True, t)"
      "timers_ok here (st\<lparr>sleeper_slab := sleeper_slab st - 1, timer_slab := free, timer_tree := t\<lparr>roots := map (set_key c c) (roots t)\<rparr>,
        timer_ts := (timer_ts st)(c := ?e), timer_waiting := (timer_waiting st)(c := [tag])\<rparr>)"
      "pending (st\<lparr>sleeper_slab := sleeper_slab st - 1, timer_slab := free, timer_tree := t\<lparr>roots := map (set_key c c) (roots t)\<rparr>,
        timer_ts := (timer_ts st)(c := ?e), timer_waiting := (timer_waiting st)(c := [tag])\<rparr>) = add_pending (ns ?e) tag (pending st)"
      using timer_insert [OF assms(1) e(1) 3(2,1), where n = "sleeper_slab st - 1" and tag = tag] by blast
    then show ?thesis using assms(1) False 3 e(2) by (simp add: add_timer_def Let_def)
  qed
qed

subsection \<open>The tick of the clock\<close>

lemma timer_first: "tree_ok ts t \<Longrightarrow> tree_first t = Some (case addrs (roots t ! 0) of [] \<Rightarrow> None | a # _ \<Rightarrow> Some a)"
  using node_first_contents [of "roots t ! 0" "\<lambda>k. k"]
  by (auto simp: tree_ok_def tree_first_def addrs_def split: list.splits)

lemma timer_remove:
  assumes "tree_ok ts t" and "addrs (roots t ! 0) = a # l"
  shows "\<exists>t'. tree_remove (at_times ts t) a = Some (Some a, t') \<and> addrs (roots t' ! 0) = l \<and> tree_ok ts t'"
proof -
  let ?f = "\<lambda>a. ns (ts a)"
  let ?c = "\<lambda>a b. compare_int (?f a) (?f b)"
  let ?u = "t\<lparr>compare := ?c, removed := None\<rparr>"
  obtain p where r: "roots t = [p]" and p: "own_keys p" "sorted_wrt (\<lambda>a b. ?f a < ?f b) (addrs p)"
    "\<forall>a \<in> set (addrs p). stored (ts a)" "aa p" "select_root t a = 0" "\<not> has_table t" "\<And>k. select_root t k = 0"
    using assms(1) by (auto simp: tree_ok_def)
  have A: "addrs p = a # l" using assms(2) r by simp
  have cf: "contents ?f p = (?f a, a) # map (\<lambda>a. (?f a, a)) l" unfolding own_keys_contents [OF p(1)] A by simp
  from times.node_remove_ok [OF p(4) own_keys_bst [OF p(1,2)], of ?u a] obtain q where
    q: "node_remove ?u p a = Some (q, unlinked (map_of (contents ?f p) (?f a)) ?u)" "shrunk p q"
      "contents ?f q = filter (\<lambda>e. fst e \<noteq> ?f a) (contents ?f p)" by auto
  have un: "unlinked (map_of (contents ?f p) (?f a)) ?u = ?u\<lparr>removed := Some a, node_num := node_num t - 1\<rparr>"
    by (simp add: cf unlinked_def)
  have "agree ?c (timer_compare ts) a (keys p)"
    using times_agree [of ts a "keys p"] p(3) A unfolding own_keys_keys [OF p(1)] by (auto simp: agree_def)
  then have rm: "node_remove ((at_times ts t)\<lparr>removed := None\<rparr>) p a =
      Some (q, (at_times ts t)\<lparr>removed := Some a, node_num := node_num t - 1\<rparr>)"
    using node_remove_agree [of ?u "timer_compare ts" a p] q(1) unfolding un by (cases t) (simp add: at_times_def)
  have "filter (\<lambda>x. ?f x \<noteq> ?f a) l = l" using p(2) A by (auto simp: filter_id_conv)
  then have "addrs q = l" using arg_cong [OF q(3), of "map snd"] by (simp add: addrs_contents cf filter_map comp_def)
  moreover have "own_keys q" using node_remove_nodes [OF rm, of "\<lambda>k. k"] p(1) by (auto simp: own_keys_def)
  ultimately have "tree_ok ts ((at_times ts t)\<lparr>removed := Some a, node_num := node_num t - 1, roots := [q]\<rparr>)"
    using p A q(2) by (auto simp: tree_ok_def at_times_def shrunk_def)
  then show ?thesis using rm p(5) r \<open>addrs q = l\<close> by (simp add: tree_remove_def at_times_def)
qed

text \<open>
  The sleepers that are due by the time \<open>d\<close>, one ring for each deadline, and what becomes of the kernel when it is
  handed one ring after the other.
\<close>

definition due_rings :: "int \<Rightarrow> (int \<times> int) list \<Rightarrow> int list list" where
  "due_rings d P = map (\<lambda>t. map snd (filter (\<lambda>x. fst x = t) P)) (remdups_adj (map fst (filter (\<lambda>x. fst x \<le> d) P)))"

definition hand_over :: "int list list \<Rightarrow> 'm kernel \<Rightarrow> 'm kernel" where
  "hand_over rs k = fold (\<lambda>r k. snd (kq_enqueue (Wakeup r) k)) rs k"

lemma hand_over_queue:
  "kqueue (hand_over rs k) = kqueue k @ map Wakeup (take (KQUEUE_SIZE - 1 - length (kqueue k)) rs)"
proof (induction rs arbitrary: k)
  case (Cons r rs)
  let ?n = "KQUEUE_SIZE - 1 - length (kqueue k)"
  show ?case
  proof (cases ?n)
    case 0
    then have "snd (kq_enqueue (Wakeup r) k) = k" by (simp add: kq_enqueue_def)
    then show ?thesis using Cons.IH [of k] 0 by (simp add: hand_over_def)
  next
    case (Suc n)
    then have "kqueue (snd (kq_enqueue (Wakeup r) k)) = kqueue k @ [Wakeup r]" "KQUEUE_SIZE - 1 - (length (kqueue k) + 1) = n"
      by (auto simp: kq_enqueue_def)
    then show ?thesis using Cons.IH [of "snd (kq_enqueue (Wakeup r) k)"] Suc by (simp add: hand_over_def)
  qed
qed (simp add: hand_over_def)

lemma remdups_adj_ring: "x \<notin> set R \<Longrightarrow> w \<noteq> [] \<Longrightarrow> remdups_adj (map (\<lambda>_. x) w @ R) = x # remdups_adj R"
proof (induction w)
  case (Cons y w)
  then show ?case by (cases w; cases R) auto
qed simp

lemma due_rings_Cons:
  assumes "w a \<noteq> []" and "\<forall>b \<in> set l. ns (ts a) < ns (ts b)"
  shows "due_rings d (pend ts w (a # l)) = (if ns (ts a) \<le> d then w a # due_rings d (pend ts w l) else [])"
proof (cases "ns (ts a) \<le> d")
  case True
  let ?R = "map fst (filter (\<lambda>x. fst x \<le> d) (pend ts w l))"
  have in_l: "ns (ts a) < fst x" if "x \<in> set (pend ts w l)" for x
    using that assms(2) by (auto simp: pend_def)
  have nin: "ns (ts a) \<notin> set ?R" using in_l by fastforce
  have "remdups_adj (map fst (filter (\<lambda>x. fst x \<le> d) (pend ts w (a # l)))) = ns (ts a) # remdups_adj ?R"
    using remdups_adj_ring [OF nin assms(1)] True by (simp add: comp_def)
  moreover have "filter (\<lambda>x. fst x = ns (ts a)) (pend ts w l) = []" using in_l by (fastforce simp: filter_empty_conv)
  moreover have "filter (\<lambda>x. fst x = t) (map (Pair (ns (ts a))) (w a)) = []" if "t \<in> set ?R" for t
    using that nin by (auto simp: filter_empty_conv)
  ultimately show ?thesis using True by (auto simp: due_rings_def filter_map comp_def)
next
  case False
  then show ?thesis using pend_above [of "a # l" d ts w] assms(2) by (fastforce simp: due_rings_def)
qed

lemma expire_pending:
  assumes "timers_ok here st" and "stored now"
  shows "\<exists>st'. expire now k st = Some (hand_over (due_rings (ns now) (pending st)) k, st') \<and> timers_ok here st' \<and>
    system_time st' = system_time st \<and> pending st' = filter (\<lambda>x. ns now < fst x) (pending st) \<and>
    set (timer_slab st') \<union> set (timers st') = set (timer_slab st) \<union> set (timers st)"
  using assms(1)
proof (induction "timers st" arbitrary: st k)
  case Nil
  then have "tree_first (timer_tree st) = Some None" using timer_first by (auto simp: timers_ok_def timers_def)
  then show ?case using Nil by (auto simp: expire.simps [of now k st] pending_def due_rings_def hand_over_def)
next
  case (Cons a l)
  let ?ts = "timer_ts st" and ?w = "timer_waiting st"
  have tk: "tree_ok ?ts (timer_tree st)" and A: "addrs (roots (timer_tree st) ! 0) = a # l"
    using Cons.prems Cons.hyps(2) by (auto simp: timers_ok_def timers_def)
  have first: "tree_first (timer_tree st) = Some (Some a)" using timer_first [OF tk] A by simp
  have so: "\<forall>b \<in> set l. ns (?ts a) < ns (?ts b)" "a \<notin> set l" "stored (?ts a)"
    using tk A by (auto simp: tree_ok_def)
  have w: "?w a \<noteq> []" using Cons.prems Cons.hyps(2) [symmetric] by (auto simp: timers_ok_def)
  have P: "pending st = pend ?ts ?w (a # l)" by (simp add: pending_def Cons.hyps(2))
  note c = compare_correct(1) [OF assms(2) so(3)]
  show ?case
  proof (cases "ns now < ns (?ts a)")
    case True
    then have "due_rings (ns now) (pending st) = []" "filter (\<lambda>x. ns now < fst x) (pending st) = pending st"
      using due_rings_Cons [of ?w a l ?ts "ns now"] w pend_above [of "a # l" "ns now" ?ts ?w] so(1) unfolding P by fastforce+
    then show ?thesis using first c True Cons.prems by (simp add: expire.simps [of now k st] hand_over_def)
  next
    case False
    obtain t where t: "tree_remove (at_times ?ts (timer_tree st)) a = Some (Some a, t)" "addrs (roots t ! 0) = l" "tree_ok ?ts t"
      using timer_remove [OF tk A] by blast
    define st1 where "st1 = st\<lparr>timer_waiting := ?w(a := []), timer_tree := t, timer_slab := a # timer_slab st\<rparr>"
    let ?k = "snd (kq_enqueue (Wakeup (?w a)) k)"
    have st1: "timers st1 = l" "pending st1 = pend ?ts ?w l" "system_time st1 = system_time st"
      "timer_slab st1 = a # timer_slab st"
      using t(2) so(2) by (auto simp: st1_def timers_def pending_def intro!: pend_cong)
    have "timers_ok here st1"
      using Cons.prems t(2,3) so(2) unfolding timers_ok_def timers_def A by (auto simp: st1_def)
    from Cons.hyps(1) [OF st1(1) [symmetric] this, of ?k] obtain st' where
      st': "expire now ?k st1 = Some (hand_over (due_rings (ns now) (pending st1)) ?k, st')" "timers_ok here st'"
        "system_time st' = system_time st" "pending st' = filter (\<lambda>x. ns now < fst x) (pending st1)"
        "set (timer_slab st') \<union> set (timers st') = set (timer_slab st1) \<union> set (timers st1)" using st1(3) by auto
    have "expire now k st = expire now ?k st1"
      using first c False t(1) w by (simp add: expire.simps [of now k st] st1_def)
    moreover have "due_rings (ns now) (pending st) = ?w a # due_rings (ns now) (pending st1)"
      using due_rings_Cons [of ?w a l ?ts "ns now"] w so(1) False unfolding P st1(2) by simp
    moreover have "filter (\<lambda>x. ns now < fst x) (pending st) = filter (\<lambda>x. ns now < fst x) (pending st1)"
      using False by (simp add: P st1(2))
    ultimately show ?thesis using st' Cons.hyps(2) [symmetric] by (auto simp: hand_over_def st1)
  qed
qed

text \<open>
  C12. A tick of the clock always comes to an end. It advances the time by ten milliseconds, after which exactly the sleepers whose
  time has not come are pending; the timers that are done go back to their slab. The sleepers whose time has come are handed to the kernel to be woken, in the
  order of their times, one ring for all sleepers of the same time, in the order they came; the kernel's queue takes as many
  rings as it has room for.
\<close>

theorem timer_service_wakes_due:
  assumes "timers_ok here st" and "sint (tv_sec (system_time st)) < 2 ^ 63 - 1"
  shows "\<exists>k' st'. timer_service k st = Some (k', st') \<and> timers_ok here st' \<and>
    ns (system_time st') = ns (system_time st) + 10000000 \<and>
    pending st' = filter (\<lambda>x. ns (system_time st') < fst x) (pending st) \<and>
    set (timer_slab st') \<union> set (timers st') = set (timer_slab st) \<union> set (timers st) \<and>
    kqueue k' = kqueue (tick k) @ map Wakeup (take (KQUEUE_SIZE - 1 - length (kqueue (tick k)))
      (due_rings (ns (system_time st')) (pending st)))"
proof -
  let ?d = "\<lparr>tv_sec = 0, tv_nsec = TICK\<rparr>"
  have tick: "uint TICK = 10000000" by (simp add: TICK_def)
  have d: "plain ?d" "plain_ns ?d = 10000000" by (simp_all add: plain_def plain_ns_def tick ns_consts)
  have ok: "stored (system_time st)" using assms(1) by (auto simp: timers_ok_def)
  have n: "stored (system_time (time_tick st))" "ns (system_time (time_tick st)) = ns (system_time st) + 10000000"
    using add_correct [OF ok(1) d(1)] assms(2) d(2) by (simp_all add: time_tick_def)
  have t: "timers_ok here (time_tick st)" "pending (time_tick st) = pending st" "timers (time_tick st) = timers st"
    "timer_slab (time_tick st) = timer_slab st"
    using assms(1) n(1) by (simp_all add: timers_ok_def time_tick_def timers_def pending_def)
  from expire_pending [OF t(1) n(1), of "tick k"] show ?thesis
    using n(2) hand_over_queue [of _ "tick k"] by (auto simp: timer_service_def Let_def t(2-4))
qed

text \<open>Two rings of sleepers that the next tick wakes and a sleeper that is due a second later.\<close>

definition timer_example :: timer_state where
  "timer_example = \<lparr>system_time = timespec_set 1 0,
    timer_ts = (\<lambda>_. timespec_set 0 0)(16 := timespec_set 1 5000000, 32 := timespec_set 1 10000000, 48 := timespec_set 2 0),
    timer_waiting = (\<lambda>_. [])(16 := [7], 32 := [5, 6], 48 := [8]),
    timer_tree = \<lparr>compare = compare_int, select_root = select_root_direct,
      roots = [Node 32 32 2 (Node 16 16 1 nil_node nil_node) (Node 48 48 1 nil_node nil_node)],
      has_table = False, node_num = 3, removed = None\<rparr>,
    timer_slab = [64, 80], sleeper_slab = 3\<rparr>"

lemma timer_example_simps:
  "timers timer_example = [16, 32, 48]" "pending timer_example = [(1005000000, 7), (1010000000, 5), (1010000000, 6), (2000000000, 8)]"
  "sint (tv_sec (system_time timer_example)) = 1" "ns (system_time timer_example) = 1000000000"
  "timer_slab timer_example = [64, 80]" "sleeper_slab timer_example = 3"
  by (simp_all add: timers_def pending_def timer_example_def addrs_def timespec_set_def ns_def ns_consts)

lemma timer_example_ok: "timers_ok 8 timer_example"
proof -
  have "tree_ok (timer_ts timer_example) (timer_tree timer_example)"
    by (simp add: tree_ok_def timer_example_def addrs_def own_keys_def stored_def timespec_set_def ns_consts ns_def select_root_direct_def)
  moreover have "stored (system_time timer_example)" "\<forall>a \<in> {16, 32, 48}. timer_waiting timer_example a \<noteq> []"
    by (simp_all add: timer_example_def stored_def timespec_set_def ns_consts)
  ultimately show ?thesis by (simp add: timers_ok_def timer_example_simps)
qed

theorem add_timer_in_order_witness:
  "\<exists>st'. add_timer 8 \<lparr>tv_sec = 0, tv_nsec = 500000000\<rparr> 4 timer_example = Some (E_OK, st') \<and>
    pending st' = [(1005000000, 7), (1010000000, 5), (1010000000, 6), (1500000000, 4), (2000000000, 8)]"
proof -
  let ?d = "\<lparr>tv_sec = 0, tv_nsec = 500000000\<rparr>"
  have d: "sint (tv_sec ?d) = 0" "sint (tv_nsec ?d) = 500000000" "plain_ns ?d = 500000000" "tv_nsec ?d \<noteq> 0"
    by (simp_all add: plain_ns_def ns_consts)
  show ?thesis
    using add_timer_in_order [OF timer_example_ok, of ?d 4] d by (auto simp: timer_example_simps add_pending_def ns_consts)
qed

theorem timer_service_wakes_due_witness:
  "\<exists>k' st'. timer_service kernel_demo timer_example = Some (k', st') \<and> pending st' = [(2000000000, 8)] \<and>
    kqueue k' = [Rotate 3 10, Wakeup [7], Wakeup [5, 6]]"
proof -
  have "kqueue (tick kernel_demo) = [Rotate 3 10]"
    by (simp add: kq_enqueue_def KQUEUE_SIZE_def tick_def kernel_demo_def thread_demo_def update_thread_def is_kthread_def)
  then show ?thesis
    using timer_service_wakes_due [OF timer_example_ok, of kernel_demo]
    by (auto simp: timer_example_simps due_rings_def KQUEUE_SIZE_def)
qed

end
