(* ===== verification/Std_Time.thy ===== *)
theory Std_Time
  imports Nc_Printf "HOL-Library.Signed_Division"
begin

section \<open>Calendar time\<close>

text \<open>
  \<^verbatim>\<open>gmtime_r.c\<close> and \<^verbatim>\<open>strftime.c\<close> of \<^verbatim>\<open>src/lib/libc/others\<close>. The integers of a \<^verbatim>\<open>struct tm\<close> are
  \<open>int\<close>; division and remainder are those of C, which cut off towards zero. A string is
  the list of its bytes without the terminator, an index outside of a table or of the array of the caller is
  \<^const>\<open>None\<close>.
\<close>

record tm =
  tm_sec :: int
  tm_min :: int
  tm_hour :: int
  tm_mday :: int
  tm_mon :: int
  tm_year :: int
  tm_wday :: int
  tm_yday :: int
  tm_isdst :: int

subsection \<open>Seconds to a date\<close>

abbreviation (input) EPOCH_DAYS :: int where "EPOCH_DAYS \<equiv> 719162"
abbreviation (input) DAYS_PER_YEAR :: int where "DAYS_PER_YEAR \<equiv> 365"
abbreviation (input) DAYS_PER_4YEARS :: int where "DAYS_PER_4YEARS \<equiv> 1461"
abbreviation (input) DAYS_PER_100YEARS :: int where "DAYS_PER_100YEARS \<equiv> 36524"
abbreviation (input) DAYS_PER_400YEARS :: int where "DAYS_PER_400YEARS \<equiv> 146097"
abbreviation (input) SECONDS_PER_MINUTE :: int where "SECONDS_PER_MINUTE \<equiv> 60"
abbreviation (input) SECONDS_PER_HOUR :: int where "SECONDS_PER_HOUR \<equiv> 3600"
abbreviation (input) SECONDS_PER_DAY :: int where "SECONDS_PER_DAY \<equiv> 86400"

definition days_of_month :: "int list list" where
  "days_of_month =
    [[31, 28, 31, 30, 31, 30, 31, 31, 30, 31, 30, 31],
     [31, 29, 31, 30, 31, 30, 31, 31, 30, 31, 30, 31]]"

definition get_days_of_month :: "int \<Rightarrow> int list" where
  "get_days_of_month year =
    days_of_month !
      (if year smod 4 \<noteq> 0 then 0 else if year smod 100 \<noteq> 0 then 1 else if year smod 400 \<noteq> 0 then 0 else 1)"

fun month_loop :: "int list \<Rightarrow> int \<Rightarrow> int \<Rightarrow> int \<times> int" where
  "month_loop [] m d = (m, d)"
| "month_loop (n # months) m d = (if d \<ge> n then month_loop months (m + 1) (d - n) else (m, d))"

definition gmtime_r :: "64 word \<Rightarrow> tm" where
  "gmtime_r timep =
    (let t = sint (ucast timep :: u32);
         days = t sdiv SECONDS_PER_DAY + EPOCH_DAYS;
         wday = (days + 1) smod 7;
         q = days sdiv DAYS_PER_400YEARS; d = days smod DAYS_PER_400YEARS; y = q * 400;
         q = d sdiv DAYS_PER_100YEARS; d = d smod DAYS_PER_100YEARS; y = y + q * 100;
         q = d sdiv DAYS_PER_4YEARS; d = d smod DAYS_PER_4YEARS; y = y + q * 4;
         q = d sdiv DAYS_PER_YEAR; d = d smod DAYS_PER_YEAR; y = y + q + 1;
         yday = d;
         (m, d) = month_loop (get_days_of_month y) 0 d;
         s = t smod SECONDS_PER_DAY; hour = s sdiv SECONDS_PER_HOUR; s = s smod SECONDS_PER_HOUR;
         mnt = s sdiv SECONDS_PER_MINUTE; s = s smod SECONDS_PER_MINUTE
     in \<lparr>tm_sec = s, tm_min = mnt, tm_hour = hour, tm_mday = d + 1, tm_mon = m, tm_year = y - 1900,
         tm_wday = wday, tm_yday = yday, tm_isdst = 0\<rparr>)"

subsection \<open>A date as text\<close>

text \<open>
  The result of the printing functions is the value the code returns and the buffer. A
  \<^verbatim>\<open>char\<close> is signed, so \<^verbatim>\<open>_putc\<close> returns -1, the mark of an error, for the byte 255.
\<close>

record strbuf_t =
  sb_pos :: nat
  sb_size :: nat
  sb_buf :: "u8 list"

definition ascii :: "string \<Rightarrow> u8 list" where
  "ascii s = map of_char s"

definition month_names :: "string list" where
  "month_names = [''January'', ''February'', ''March'', ''April'', ''May'', ''June'', ''July'', ''August'', ''September'',
    ''October'', ''November'', ''December'']"

definition month_abbrevs :: "string list" where
  "month_abbrevs = [''Jan'', ''Feb'', ''Mar'', ''Apr'', ''May'', ''Jun'', ''Jul'', ''Aug'', ''Sep'', ''Oct'', ''Nov'', ''Dec'']"

definition wday_names :: "string list" where
  "wday_names = [''Sunday'', ''Monday'', ''Tuesday'', ''Wednesday'', ''Thursday'', ''Friday'', ''Saturday'']"

definition wday_abbrevs :: "string list" where
  "wday_abbrevs = [''Sun'', ''Mon'', ''Tue'', ''Wed'', ''Thu'', ''Fri'', ''Sat'']"

definition am_pm :: "string list" where
  "am_pm = [''AM'', ''PM'']"

definition time_putc :: "u8 \<Rightarrow> strbuf_t \<Rightarrow> (int \<times> strbuf_t) option" where
  "time_putc c s =
    (if sb_pos s \<ge> sb_size s then Some (- 1, s)
     else do { b \<leftarrow> wr (sb_buf s) (sb_pos s) c; Some (sint c, s\<lparr>sb_buf := b, sb_pos := sb_pos s + 1\<rparr>) })"

fun time_puts :: "u8 list \<Rightarrow> strbuf_t \<Rightarrow> (int \<times> strbuf_t) option" where
  "time_puts [] s = Some (0, s)"
| "time_puts (c # str) s = do { (e, s) \<leftarrow> time_putc c s; if e = - 1 then Some (- 1, s) else time_puts str s }"

fun putzd_loop :: "nat \<Rightarrow> int \<Rightarrow> u8 list \<Rightarrow> u8 list" where
  "putzd_loop 0 n cs = cs"
| "putzd_loop (Suc rest) n cs = putzd_loop rest (n sdiv 10) (word_of_int (n smod 10 + 48) # cs)"

definition putzd :: "int \<Rightarrow> nat \<Rightarrow> strbuf_t \<Rightarrow> (int \<times> strbuf_t) option" where
  "putzd num column s = (if column \<le> 20 then time_puts (putzd_loop column num []) s else None)"

fun time_putd_loop :: "nat \<Rightarrow> int \<Rightarrow> u8 list \<Rightarrow> u8 list option" where
  "time_putd_loop 0 n cs = None"
| "time_putd_loop (Suc p) n cs =
    (let cs = word_of_int (n smod 10 + 48) # cs; n = n sdiv 10
     in if n = 0 then Some cs else time_putd_loop p n cs)"

definition time_putd :: "int \<Rightarrow> strbuf_t \<Rightarrow> (int \<times> strbuf_t) option" where
  "time_putd num s = do { cs \<leftarrow> time_putd_loop 20 num []; time_puts cs s }"

definition calc_weeks :: "tm \<Rightarrow> int \<Rightarrow> int" where
  "calc_weeks t offset = (tm_yday t + (7 - (tm_yday t + (7 - tm_wday t) + offset) smod 7)) sdiv 7"

definition table_puts :: "string list \<Rightarrow> int \<Rightarrow> strbuf_t \<Rightarrow> (int \<times> strbuf_t) option" where
  "table_puts tab i s = (if 0 \<le> i \<and> i < int (length tab) then time_puts (ascii (tab ! nat i)) s else None)"

definition time_conv :: "tm \<Rightarrow> u8 \<Rightarrow> strbuf_t \<Rightarrow> (int \<times> strbuf_t) option" where
  "time_conv t c s =
    (if c = 97 then table_puts wday_abbrevs (tm_wday t) s
     else if c = 65 then table_puts wday_names (tm_wday t) s
     else if c = 98 then table_puts month_abbrevs (tm_mon t) s
     else if c = 66 then table_puts month_names (tm_mon t) s
     else if c = 100 then putzd (tm_mday t) 2 s
     else if c = 72 then putzd (tm_hour t) 2 s
     else if c = 73 then putzd (tm_hour t smod 12) 2 s
     else if c = 106 then putzd (tm_yday t + 1) 3 s
     else if c = 109 then putzd (tm_mon t + 1) 2 s
     else if c = 77 then putzd (tm_min t) 2 s
     else if c = 112 then table_puts am_pm (tm_hour t sdiv 12) s
     else if c = 83 then putzd (tm_sec t) 2 s
     else if c = 85 then putzd (calc_weeks t 0) 2 s
     else if c = 87 then putzd (calc_weeks t 1) 2 s
     else if c = 121 then putzd (tm_year t smod 100) 2 s
     else if c = 89 then time_putd (tm_year t + 1900) s
     else if c = 90 then time_puts (ascii ''GMT'') s
     else if c = 37 then time_puts [37] s
     else Some (- 1, s))"

text \<open>The conversions that stand for a format of their own.\<close>

definition time_nested :: "u8 \<Rightarrow> u8 list option" where
  "time_nested c =
    (if c = 99 then Some (ascii ''%a %b %d %H:%M:%S %Y'')
     else if c = 70 then Some (ascii ''%Y-%m-%d'')
     else if c = 120 then Some (ascii ''%m/%d/%y'')
     else if c = 88 then Some (ascii ''%H:%M:%S'')
     else None)"

text \<open>The depth of the recursion through these formats is bounded by \<open>k\<close>.\<close>

function time_printf :: "nat \<Rightarrow> tm \<Rightarrow> bool \<Rightarrow> u8 list \<Rightarrow> strbuf_t \<Rightarrow> (int \<times> strbuf_t) option" where
  "time_printf k t conversion [] s = Some (0, s)"
| "time_printf k t conversion (c # r) s =
    (if conversion then do {
       (e, s) \<leftarrow>
         (case time_nested c of
            Some f \<Rightarrow> (if k = 0 then None else time_printf (k - 1) t False f s)
          | None \<Rightarrow> time_conv t c s);
       if e \<noteq> 0 then Some (- 1, s) else time_printf k t False r s
     } else if c = 37 then time_printf k t True r s
     else do {
       (e, s) \<leftarrow> time_putc c s;
       if e = - 1 then Some (- 1, s) else time_printf k t False r s
     })"
  by pat_completeness auto
termination by (relation "measures [\<lambda>(k, t, conversion, f, s). k, \<lambda>(k, t, conversion, f, s). length f]") auto

definition strftime :: "u8 list \<Rightarrow> nat \<Rightarrow> u8 list \<Rightarrow> tm \<Rightarrow> (nat \<times> u8 list) option" where
  "strftime buf maxsize fmt timeptr = do {
     (e, s) \<leftarrow> time_printf 1 timeptr False fmt \<lparr>sb_pos = 0, sb_size = maxsize, sb_buf = buf\<rparr>;
     if e = - 1 then Some (0, sb_buf s)
     else if sb_pos s \<ge> sb_size s then Some (0, sb_buf s)
     else do { b \<leftarrow> wr (sb_buf s) (sb_pos s) 0; Some (sb_pos s, b) }
   }"

subsection \<open>The calendar\<close>

text \<open>Days before a year, counted from the first of January of the year 1, and days before a month.\<close>

definition leap :: "int \<Rightarrow> bool" where
  "leap y \<longleftrightarrow> y mod 4 = 0 \<and> (y mod 100 \<noteq> 0 \<or> y mod 400 = 0)"

definition days_before :: "int \<Rightarrow> int" where
  "days_before y = 365 * (y - 1) + (y - 1) div 4 - (y - 1) div 100 + (y - 1) div 400"

definition month_days :: "bool \<Rightarrow> int list" where
  "month_days l = [31, if l then 29 else 28, 31, 30, 31, 30, 31, 31, 30, 31, 30, 31]"

definition day_number :: "int \<Rightarrow> int \<Rightarrow> int \<Rightarrow> int" where
  "day_number y m d = days_before y + sum_list (take (nat m) (month_days (leap y))) + d - 1"

lemma c_div: "0 \<le> a \<Longrightarrow> 0 < b \<Longrightarrow> a sdiv b = a div b" "0 \<le> a \<Longrightarrow> 0 < b \<Longrightarrow> a smod b = a mod b" for a b :: int
  by (cases "a = 0"; simp add: signed_divide_int_def signed_modulo_int_def)+

lemma month_table: "0 \<le> y \<Longrightarrow> get_days_of_month y = month_days (leap y)"
  by (simp add: get_days_of_month_def days_of_month_def month_days_def leap_def c_div)

lemma month_loop_date:
  "k < length xs \<Longrightarrow> 0 \<le> d \<Longrightarrow> d < xs ! k \<Longrightarrow> \<forall>x \<in> set xs. 0 \<le> x \<Longrightarrow>
    month_loop xs m (sum_list (take k xs) + d) = (m + int k, d)"
proof (induction xs arbitrary: k m)
  case (Cons x xs)
  show ?case
  proof (cases k)
    case (Suc j)
    have "0 \<le> sum_list (take j xs)" using Cons.prems(4) by (intro sum_list_nonneg) (auto dest: in_set_takeD)
    then show ?thesis using Cons Suc by (simp add: algebra_simps)
  qed (use Cons.prems in simp)
qed simp

text \<open>A year as centuries, groups of four years and years.\<close>

lemma year_parts:
  fixes y :: int
  obtains a b c e where "y = 400 * a + 100 * b + 4 * c + e + 1" "0 \<le> b" "b < 4" "0 \<le> c" "c < 25" "0 \<le> e" "e < 4"
proof -
  define n where "n = y - 1"
  define r where "r = n mod 400"
  define s where "s = r mod 100"
  have n: "n = 400 * (n div 400) + r" by (simp add: r_def)
  have r: "r = 100 * (r div 100) + s" "0 \<le> r" "r < 400" by (simp_all add: r_def s_def)
  have s: "s = 4 * (s div 4) + s mod 4" "0 \<le> s" "s < 100" by (simp_all add: s_def)
  have "y = 400 * (n div 400) + 100 * (r div 100) + 4 * (s div 4) + s mod 4 + 1" using n r(1) s(1) by (simp add: n_def)
  moreover have "0 \<le> r div 100" "r div 100 < 4" "0 \<le> s div 4" "s div 4 < 25" "0 \<le> s mod 4" "s mod 4 < 4" using r s by simp_all
  ultimately show ?thesis using that by blast
qed

lemma div_parts:
  fixes q r m :: int
  assumes "0 \<le> r" "r < m"
  shows "(m * q + r) div m = q" "(m * q + r) mod m = r"
  using assms by simp_all

lemma days_before_parts:
  assumes "0 \<le> b" "b < 4" "0 \<le> c" "c < 25" "0 \<le> e" "e < (4 :: int)"
  shows "days_before (400 * a + 100 * b + 4 * c + e + 1) = 146097 * a + 36524 * b + 1461 * c + 365 * e"
    "leap (400 * a + 100 * b + 4 * c + e + 1) \<longleftrightarrow> e = 3 \<and> (c = 24 \<longrightarrow> b = 3)"
proof -
  let ?n = "400 * a + 100 * b + 4 * c + e"
  have n: "?n = 4 * (100 * a + 25 * b + c) + e" "?n = 100 * (4 * a + b) + (4 * c + e)" "?n = 400 * a + (100 * b + 4 * c + e)" by simp_all
  have "?n div 4 = 100 * a + 25 * b + c" unfolding n(1) using assms by (intro div_parts(1)) simp_all
  moreover have "?n div 100 = 4 * a + b" unfolding n(2) using assms by (intro div_parts(1)) simp_all
  moreover have "?n div 400 = a" unfolding n(3) using assms by (intro div_parts(1)) simp_all
  ultimately show "days_before (?n + 1) = 146097 * a + 36524 * b + 1461 * c + 365 * e" by (simp add: days_before_def)
  have 4: "(?n + 1) mod 4 = 0 \<longleftrightarrow> e = 3"
  proof -
    have "(?n + 1) mod 4 = (e + 1) mod 4"
      using mod_mult_self2 [of "e + 1" 4 "100 * a + 25 * b + c"] by (simp add: algebra_simps)
    moreover have "(e + 1) mod 4 = 0 \<longleftrightarrow> e = 3"
    proof (cases "e = 3")
      case False
      then have "e + 1 < 4" using assms(6) by simp
      then show ?thesis using False assms(5) by simp
    qed simp
    ultimately show ?thesis by simp
  qed
  show "leap (?n + 1) \<longleftrightarrow> e = 3 \<and> (c = 24 \<longrightarrow> b = 3)"
  proof (cases "e = 3")
    case True
    have "(?n + 1) mod 100 = (4 * c + 4) mod 100"
      using mod_mult_self2 [of "4 * c + 4" 100 "4 * a + b"] True by (simp add: algebra_simps)
    moreover have "(4 * c + 4) mod 100 = 0 \<longleftrightarrow> c = 24"
    proof (cases "c = 24")
      case False
      then have "4 * c + 4 < 100" using assms(4) by simp
      then show ?thesis using False assms(3) by simp
    qed simp
    moreover have "(?n + 1) mod 400 = 0 \<longleftrightarrow> b = 3" if "c = 24"
    proof -
      have "(?n + 1) mod 400 = (100 * b + 100) mod 400"
        using mod_mult_self2 [of "100 * b + 100" 400 a] True that by (simp add: algebra_simps)
      moreover have "(100 * b + 100) mod 400 = 0 \<longleftrightarrow> b = 3"
      proof (cases "b = 3")
        case False
        then have "100 * b + 100 < 400" using assms(2) by simp
        then show ?thesis using False assms(1) by simp
      qed simp
      ultimately show ?thesis by simp
    qed
    ultimately show ?thesis using 4 True by (auto simp: leap_def)
  next
    case False
    then show ?thesis using 4 by (simp add: leap_def)
  qed
qed

text \<open>The year and the day of the year as the code computes them.\<close>

definition year_day :: "int \<Rightarrow> int \<times> int" where
  "year_day days =
    (let q4 = days div 146097; d4 = days mod 146097;
         q1 = d4 div 36524; d1 = d4 mod 36524;
         q = d1 div 1461; d = d1 mod 1461
     in (q4 * 400 + q1 * 100 + q * 4 + d div 365 + 1, d mod 365))"

lemma year_day_parts:
  assumes "0 \<le> b" "b < 4" "0 \<le> c" "c < 25" "0 \<le> e" "e < (4 :: int)" "0 \<le> f" "f < 365"
  shows "year_day (146097 * a + 36524 * b + 1461 * c + 365 * e + f) = (400 * a + 100 * b + 4 * c + e + 1, f)"
proof -
  let ?d1 = "365 * e + f"
  let ?d2 = "1461 * c + ?d1"
  let ?d3 = "36524 * b + ?d2"
  have r: "0 \<le> ?d1" "?d1 < 1460" "0 \<le> ?d2" "?d2 < 36524" "0 \<le> ?d3" "?d3 < 146097" using assms by simp_all
  have n: "146097 * a + 36524 * b + 1461 * c + 365 * e + f = 146097 * a + ?d3" by simp
  show ?thesis
    unfolding n year_day_def Let_def div_parts [OF r(5,6)] div_parts [OF r(3,4)] 
    using div_parts [of ?d1 1461 c] div_parts [of f 365 e] r assms by simp
qed

lemma year_day_last:
  assumes "0 \<le> b" "b < 4" "0 \<le> c" "c < 25" "c = 24 \<longrightarrow> b = (3 :: int)"
  shows "year_day (146097 * a + 36524 * b + 1461 * c + 365 * 3 + 365) = (400 * a + 100 * b + 4 * c + 3 + 2, 0)"
proof (cases "c = 24")
  case True
  then have n: "146097 * a + 36524 * b + 1461 * c + 365 * 3 + 365 = 146097 * a + 146096" using assms by simp
  have y: "year_day (146097 * a + 146096) = (400 * a + 401, 0)"
    unfolding year_day_def Let_def by (subst div_parts; simp)+
  show ?thesis unfolding n y using True assms by simp
next
  case False
  let ?d2 = "1461 * c + 1460"
  let ?d3 = "36524 * b + ?d2"
  have r: "0 \<le> ?d2" "?d2 < 36524" "0 \<le> ?d3" "?d3 < 146097" using assms False by simp_all
  have n: "146097 * a + 36524 * b + 1461 * c + 365 * 3 + 365 = 146097 * a + ?d3" by simp
  show ?thesis
    unfolding n year_day_def Let_def div_parts [OF r(3,4)] div_parts [OF r(1,2)]
    using div_parts [of 1460 1461 c] by simp
qed

lemma gmtime_fields:
  assumes t: "t = sint (ucast timep :: u32)" "0 \<le> t"
    and days: "days = t div 86400 + EPOCH_DAYS" and y: "year_day days = (y, f)" "0 \<le> y" and m: "month_loop (month_days (leap y)) 0 f = (m, d)"
  shows "gmtime_r timep = \<lparr>tm_sec = t mod 86400 mod 3600 mod 60, tm_min = t mod 86400 mod 3600 div 60,
    tm_hour = t mod 86400 div 3600, tm_mday = d + 1, tm_mon = m, tm_year = y - 1900,
    tm_wday = (days + 1) mod 7, tm_yday = f, tm_isdst = 0\<rparr>"
proof -
  have d: "0 \<le> days" using t(2) days by (simp add: pos_imp_zdiv_nonneg_iff)
  have yf: "y = days div 146097 * 400 + days mod 146097 div 36524 * 100 + days mod 146097 mod 36524 div 1461 * 4 +
      days mod 146097 mod 36524 mod 1461 div 365 + 1" "f = days mod 146097 mod 36524 mod 1461 mod 365"
    using y(1) by (simp_all add: year_day_def Let_def)
  have m': "month_loop (get_days_of_month y) 0 f = (m, d)" using m month_table [OF y(2)] by simp
  show ?thesis
    unfolding gmtime_r_def t(1) [symmetric]
    using t(2) d m' by (simp add: c_div days [symmetric] yf [symmetric] Let_def) (intro conjI, simp add: yf(1), simp add: days)
qed

lemma month_days_nonneg: "x \<in> set (month_days l) \<Longrightarrow> 0 \<le> x"
  by (auto simp: month_days_def split: if_splits)

lemma sum_months: "k \<le> 12 \<Longrightarrow> sum_list (take k (month_days l)) \<le> (if l then 366 else 365)"
  "k < 12 \<Longrightarrow> d \<le> month_days l ! k \<Longrightarrow> sum_list (take k (month_days l)) + d \<le> (if l then 366 else 365)"
proof -
  have nn: "\<forall>x \<in> set (month_days l). 0 \<le> x" by (simp add: month_days_def)
  have total: "sum_list (month_days l) = (if l then 366 else 365)" by (simp add: month_days_def)
  have rest: "0 \<le> sum_list (drop k (month_days l))" for k
    using nn by (intro sum_list_nonneg) (auto dest: in_set_dropD)
  have split: "sum_list (month_days l) = sum_list (take k (month_days l)) + sum_list (drop k (month_days l))" for k
    by (metis append_take_drop_id sum_list_append)
  show "k \<le> 12 \<Longrightarrow> sum_list (take k (month_days l)) \<le> (if l then 366 else 365)"
    using total rest [of k] split [of k] by linarith
  assume k: "k < 12" "d \<le> month_days l ! k"
  then have "take (Suc k) (month_days l) = take k (month_days l) @ [month_days l ! k]"
    by (intro take_Suc_conv_app_nth) (simp add: month_days_def)
  then have "sum_list (take (Suc k) (month_days l)) = sum_list (take k (month_days l)) + month_days l ! k" by simp
  then show "sum_list (take k (month_days l)) + d \<le> (if l then 366 else 365)"
    using total rest [of "Suc k"] split [of "Suc k"] k(2) by linarith
qed

lemma gmtime_date:
  assumes t: "t = sint (ucast timep :: u32)" "0 \<le> t"
    and date: "0 \<le> m" "m < 12" "1 \<le> d" "d \<le> month_days (leap y) ! nat m" "day_number y m d = t div 86400 + EPOCH_DAYS"
  shows "(tm_year (gmtime_r timep) + 1900, tm_mon (gmtime_r timep), tm_mday (gmtime_r timep)) =
      (if leap y \<and> m = 11 \<and> d = 31 then (y + 1, 0, 1) else (y, m, d)) \<and>
    tm_yday (gmtime_r timep) = (if leap y \<and> m = 11 \<and> d = 31 then 0 else day_number y m d - days_before y)"
proof -
  obtain a b c e where y: "y = 400 * a + 100 * b + 4 * c + e + 1" and r: "0 \<le> b" "b < 4" "0 \<le> c" "c < 25" "0 \<le> e" "e < 4"
    using year_parts [of y] by blast
  define f where "f = sum_list (take (nat m) (month_days (leap y))) + (d - 1)"
  define days where "days = t div 86400 + EPOCH_DAYS"
  note p = days_before_parts [OF r, of a, folded y]
  have days: "days = 146097 * a + 36524 * b + 1461 * c + 365 * e + f"
    using date(5) by (simp add: day_number_def p(1) f_def days_def)
  have nn: "0 \<le> sum_list (take (nat m) (month_days (leap y)))"
    by (intro sum_list_nonneg) (auto intro: month_days_nonneg dest: in_set_takeD)
  have nm: "nat m < 12" using date(1,2) by simp
  have f: "0 \<le> f" "f \<le> (if leap y then 365 else 364)" "day_number y m d - days_before y = f"
    using nn date sum_months(2) [OF nm, of d "leap y"] by (auto simp: f_def day_number_def)
  have ml: "month_loop (month_days (leap y)) 0 f = (m, d - 1)"
    using month_loop_date [of "nat m" "month_days (leap y)" "d - 1" 0] date by (simp add: f_def month_days_def)
  have d0: "0 \<le> days" using t(2) by (simp add: days_def pos_imp_zdiv_nonneg_iff)
  have edge: "leap y \<and> m = 11 \<and> d = 31 \<longleftrightarrow> f = 365"
  proof -
    have "m = 0 \<or> m = 1 \<or> m = 2 \<or> m = 3 \<or> m = 4 \<or> m = 5 \<or> m = 6 \<or> m = 7 \<or> m = 8 \<or> m = 9 \<or> m = 10 \<or> m = 11"
      using date(1,2) by arith
    then show ?thesis using date(3,4) by (elim disjE) (auto simp: f_def month_days_def split: if_splits)
  qed
  have y0: "0 \<le> y"
  proof (rule ccontr)
    assume "\<not> 0 \<le> y"
    then have "a \<le> - 1" using y r by linarith
    moreover have "f \<le> 365" using f(2) by (auto split: if_splits)
    ultimately have "days < 0" using days r by linarith
    then show False using d0 by simp
  qed
  show ?thesis
  proof (cases "f = 365")
    case False
    then have "f < 365" using f(2) by (auto split: if_splits)
    then have "year_day days = (y, f)" unfolding days y using f(1) r by (intro year_day_parts) simp_all
    note g = gmtime_fields [OF t days_def this y0 ml]
    then show ?thesis using False edge f(3) by (auto simp: g)
  next
    case True
    then have "leap y" using f(2) by (auto split: if_splits)
    then have e: "e = 3" "c = 24 \<longrightarrow> b = 3" using p(2) by auto
    have "year_day days = (y + 1, 0)"
      unfolding days True e(1) using year_day_last [OF r(1-4) e(2), of a] by (simp add: y e(1))
    moreover have "month_loop (month_days (leap (y + 1))) 0 0 = (0, 0)" by (simp add: month_days_def)
    ultimately have g: "gmtime_r timep = \<lparr>tm_sec = t mod 86400 mod 3600 mod 60, tm_min = t mod 86400 mod 3600 div 60,
        tm_hour = t mod 86400 div 3600, tm_mday = 0 + 1, tm_mon = 0, tm_year = y + 1 - 1900,
        tm_wday = (days + 1) mod 7, tm_yday = 0, tm_isdst = 0\<rparr>"
      using y0 by (intro gmtime_fields [OF t days_def]) auto
    then show ?thesis using True edge by (simp add: g)
  qed
qed

lemma gmtime_clock:
  assumes "t = sint (ucast timep :: u32)" "0 \<le> t"
  shows "tm_sec (gmtime_r timep) = t mod 86400 mod 3600 mod 60" "tm_min (gmtime_r timep) = t mod 86400 mod 3600 div 60"
    "tm_hour (gmtime_r timep) = t mod 86400 div 3600" "tm_wday (gmtime_r timep) = (t div 86400 + EPOCH_DAYS + 1) mod 7"
proof -
  define days where "days = t div 86400 + EPOCH_DAYS"
  have "0 \<le> days" using assms(2) by (simp add: days_def pos_imp_zdiv_nonneg_iff)
  then have pos: "0 \<le> days div 146097" by (simp add: pos_imp_zdiv_nonneg_iff)
  obtain y f where y: "year_day days = (y, f)" by fastforce
  obtain m d where m: "month_loop (month_days (leap y)) 0 f = (m, d)" by fastforce
  have nn: "0 \<le> a mod n div k" if "0 < n" "0 < k" for a n k :: int using that by (simp add: pos_imp_zdiv_nonneg_iff)
  have "y = days div 146097 * 400 + days mod 146097 div 36524 * 100 + days mod 146097 mod 36524 div 1461 * 4 +
      days mod 146097 mod 36524 mod 1461 div 365 + 1" using y by (simp add: year_day_def Let_def)
  also have "\<dots> \<ge> 0" by (intro add_nonneg_nonneg mult_nonneg_nonneg pos nn) (simp_all only: zero_less_numeral zero_le_numeral zero_le_one)
  finally have "0 \<le> y" .
  note g = gmtime_fields [OF assms days_def y this m]
  show "tm_sec (gmtime_r timep) = t mod 86400 mod 3600 mod 60" "tm_min (gmtime_r timep) = t mod 86400 mod 3600 div 60"
    "tm_hour (gmtime_r timep) = t mod 86400 div 3600" "tm_wday (gmtime_r timep) = (t div 86400 + EPOCH_DAYS + 1) mod 7"
    unfolding g days_def by (simp_all only: tm.simps)
qed

text \<open>
  C16. For every second up to the year 2038, \<^verbatim>\<open>gmtime_r\<close> returns the date of the calendar whose day it
  is, the day of the week and the time of the day - except on the last day of a leap year, which it
  takes for the first day of the next year.
\<close>

theorem gmtime_calendar:
  assumes "t = sint (ucast timep :: u32)" and "0 \<le> t"
    and "0 \<le> m" "m < 12" "1 \<le> d" "d \<le> month_days (leap y) ! nat m" "day_number y m d = t div 86400 + 719162"
  shows "(tm_year (gmtime_r timep) + 1900, tm_mon (gmtime_r timep), tm_mday (gmtime_r timep)) =
      (if leap y \<and> m = 11 \<and> d = 31 then (y + 1, 0, 1) else (y, m, d)) \<and>
    tm_wday (gmtime_r timep) = (day_number y m d + 1) mod 7 \<and>
    tm_hour (gmtime_r timep) * 3600 + tm_min (gmtime_r timep) * 60 + tm_sec (gmtime_r timep) = t mod 86400 \<and>
    tm_hour (gmtime_r timep) \<in> {0..<24} \<and> tm_min (gmtime_r timep) \<in> {0..<60} \<and> tm_sec (gmtime_r timep) \<in> {0..<60}"
proof -
  let ?s = "t mod 86400"
  have s: "?s div 3600 * 3600 + ?s mod 3600 div 60 * 60 + ?s mod 3600 mod 60 = ?s"
    using div_mult_mod_eq [of ?s 3600] div_mult_mod_eq [of "?s mod 3600" 60] by linarith
  have "0 \<le> ?s" "?s < 86400" by simp_all
  then have h: "0 \<le> ?s div 3600" "?s div 3600 < 24" by (simp_all add: pos_imp_zdiv_nonneg_iff)
  have "0 \<le> ?s mod 3600" "?s mod 3600 < 3600" by simp_all
  then have n: "0 \<le> ?s mod 3600 div 60" "?s mod 3600 div 60 < 60" by (simp_all add: pos_imp_zdiv_nonneg_iff)
  have c: "0 \<le> ?s mod 3600 mod 60" "?s mod 3600 mod 60 < 60" by simp_all
  show ?thesis unfolding gmtime_clock [OF assms(1,2)] assms(7)
    using gmtime_date [OF assms] s h n c unfolding atLeastLessThan_iff by blast
qed

text \<open>The 29th of February 2000, one minute past noon, and the last day of the year 1972.\<close>

theorem gmtime_calendar_witness:
  "(tm_year (gmtime_r 951825660) + 1900, tm_mon (gmtime_r 951825660), tm_mday (gmtime_r 951825660)) = (2000, 1, 29) \<and>
    (tm_year (gmtime_r 94608000) + 1900, tm_mon (gmtime_r 94608000), tm_mday (gmtime_r 94608000)) = (1973, 0, 1)"
proof -
  have d: "leap 2000" "leap 1972" "day_number 2000 1 29 = 951825660 div 86400 + 719162"
    "day_number 1972 11 31 = 94608000 div 86400 + 719162"
    by (simp_all add: leap_def day_number_def days_before_def month_days_def)
  have "(951825660 :: int) = sint (ucast (951825660 :: 64 word) :: u32)" "(94608000 :: int) = sint (ucast (94608000 :: 64 word) :: u32)"
    by simp_all
  from gmtime_calendar [OF this(1), of 1 29 2000] gmtime_calendar [OF this(2), of 11 31 1972] d
  show ?thesis by (simp add: month_days_def)
qed

subsection \<open>The text of a format\<close>

definition tm_ok :: "tm \<Rightarrow> bool" where
  "tm_ok t \<longleftrightarrow> 0 \<le> tm_sec t \<and> 0 \<le> tm_min t \<and> 0 \<le> tm_hour t \<and> tm_hour t < 24 \<and> 0 \<le> tm_mday t \<and>
    0 \<le> tm_mon t \<and> tm_mon t < 12 \<and> 0 \<le> tm_wday t \<and> tm_wday t < 7 \<and> 0 \<le> tm_yday t \<and> 0 \<le> tm_year t \<and> tm_year t < 1000000"

definition field :: "nat \<Rightarrow> int \<Rightarrow> u8 list" where
  "field k n = map digit_char (wdigits 10 k (nat n))"

text \<open>The number of Sundays, or of Mondays, of the year up to the day.\<close>

definition sundays :: "tm \<Rightarrow> int" where
  "sundays t = (tm_yday t + 7 - tm_wday t) div 7"

definition mondays :: "tm \<Rightarrow> int" where
  "mondays t = (tm_yday t + 7 - (tm_wday t + 6) mod 7) div 7"

definition conv_text :: "tm \<Rightarrow> u8 \<Rightarrow> u8 list option" where
  "conv_text t c =
    (if c = 97 then Some (ascii (wday_abbrevs ! nat (tm_wday t)))
     else if c = 65 then Some (ascii (wday_names ! nat (tm_wday t)))
     else if c = 98 then Some (ascii (month_abbrevs ! nat (tm_mon t)))
     else if c = 66 then Some (ascii (month_names ! nat (tm_mon t)))
     else if c = 100 then Some (field 2 (tm_mday t))
     else if c = 72 then Some (field 2 (tm_hour t))
     else if c = 73 then Some (field 2 (tm_hour t mod 12))
     else if c = 106 then Some (field 3 (tm_yday t + 1))
     else if c = 109 then Some (field 2 (tm_mon t + 1))
     else if c = 77 then Some (field 2 (tm_min t))
     else if c = 112 then Some (ascii (am_pm ! nat (tm_hour t div 12)))
     else if c = 83 then Some (field 2 (tm_sec t))
     else if c = 85 then Some (field 2 (sundays t))
     else if c = 87 then Some (field 2 (mondays t))
     else if c = 121 then Some (field 2 (tm_year t mod 100))
     else if c = 89 then Some (map digit_char (rdigits 10 (nat (tm_year t + 1900))))
     else if c = 90 then Some (ascii ''GMT'')
     else if c = 37 then Some [37]
     else None)"

definition both :: "u8 list option \<Rightarrow> u8 list option \<Rightarrow> u8 list option" where
  "both a b = do { x \<leftarrow> a; y \<leftarrow> b; Some (x @ y) }"

fun plain_text :: "tm \<Rightarrow> bool \<Rightarrow> u8 list \<Rightarrow> u8 list option" where
  "plain_text t conversion [] = Some []"
| "plain_text t conversion (c # r) =
    (if conversion then both (conv_text t c) (plain_text t False r)
     else if c = 37 then plain_text t True r
     else both (if c = 255 then None else Some [c]) (plain_text t False r))"

text \<open>A conversion that stands for a format has the text of that format.\<close>

fun time_text :: "tm \<Rightarrow> bool \<Rightarrow> u8 list \<Rightarrow> u8 list option" where
  "time_text t conversion [] = Some []"
| "time_text t conversion (c # r) =
    (if conversion
     then both (case time_nested c of Some f \<Rightarrow> plain_text t False f | None \<Rightarrow> conv_text t c) (time_text t False r)
     else if c = 37 then time_text t True r
     else both (if c = 255 then None else Some [c]) (time_text t False r))"

subsection \<open>Printing into the buffer\<close>

definition sb_ok :: "strbuf_t \<Rightarrow> bool" where
  "sb_ok s \<longleftrightarrow> sb_size s \<le> length (sb_buf s) \<and> sb_pos s \<le> sb_size s"

definition app :: "u8 list \<Rightarrow> strbuf_t \<Rightarrow> strbuf_t" where
  "app t s = s\<lparr>sb_pos := sb_pos s + length t, sb_buf := take (sb_pos s) (sb_buf s) @ t @ drop (sb_pos s + length t) (sb_buf s)\<rparr>"

text \<open>A printing function that appends a text when it fits, and fails without leaving the buffer otherwise.\<close>

definition failed :: "strbuf_t \<Rightarrow> (int \<times> strbuf_t) option \<Rightarrow> bool" where
  "failed s r \<longleftrightarrow> (\<exists>s'. r = Some (- 1, s') \<and> sb_ok s' \<and> sb_size s' = sb_size s \<and> length (sb_buf s') = length (sb_buf s) \<and>
    drop (sb_size s) (sb_buf s') = drop (sb_size s) (sb_buf s))"

definition prints :: "(strbuf_t \<Rightarrow> (int \<times> strbuf_t) option) \<Rightarrow> u8 list option \<Rightarrow> bool" where
  "prints f x \<longleftrightarrow> (\<forall>s. sb_ok s \<longrightarrow>
    (case x of
       Some t \<Rightarrow> if sb_pos s + length t \<le> sb_size s then f s = Some (0, app t s) else failed s (f s)
     | None \<Rightarrow> failed s (f s)))"

lemma app_Nil [simp]: "app [] s = s"
  by (simp add: app_def)

lemma app_ok: "sb_ok s \<Longrightarrow> sb_pos s + length t \<le> sb_size s \<Longrightarrow> sb_ok (app t s)"
  by (simp add: sb_ok_def app_def)

lemma app_fields [simp]: "sb_pos (app t s) = sb_pos s + length t" "sb_size (app t s) = sb_size s"
  by (simp_all add: app_def)

lemma app_app: "sb_ok s \<Longrightarrow> sb_pos s + length t + length u \<le> sb_size s \<Longrightarrow> app u (app t s) = app (t @ u) s"
proof -
  assume "sb_ok s" "sb_pos s + length t + length u \<le> sb_size s"
  then have "min (length (sb_buf s)) (sb_pos s) = sb_pos s" by (simp add: sb_ok_def)
  then show ?thesis by (simp add: app_def add_ac)
qed

lemma app_tail:
  "sb_ok s \<Longrightarrow> sb_pos s + length t \<le> sb_size s \<Longrightarrow>
    length (sb_buf (app t s)) = length (sb_buf s) \<and> drop (sb_size s) (sb_buf (app t s)) = drop (sb_size s) (sb_buf s)"
  by (simp add: sb_ok_def app_def)

lemma failed_after:
  assumes "sb_ok s" "sb_pos s + length t \<le> sb_size s" "failed (app t s) r"
  shows "failed s r"
  using assms app_tail [OF assms(1,2)] by (auto simp: failed_def)

lemma prints_seq:
  assumes f: "prints f x" and g: "prints g y"
  shows "prints (\<lambda>s. do { (e, s) \<leftarrow> f s; if e \<noteq> 0 then Some (- 1, s) else g s }) (both x y)"
  unfolding prints_def
proof (intro allI impI)
  fix s
  assume s: "sb_ok s"
  let ?h = "do { (e, s) \<leftarrow> f s; if e \<noteq> 0 then Some (- 1, s) else g s }"
  have stop: "failed s ?h" if "failed s (f s)" using that by (auto simp: failed_def)
  show "case both x y of Some t \<Rightarrow> if sb_pos s + length t \<le> sb_size s then ?h = Some (0, app t s) else failed s ?h | None \<Rightarrow> failed s ?h"
  proof (cases x)
    case None
    then show ?thesis using f s stop by (auto simp: prints_def both_def)
  next
    case (Some t)
    show ?thesis
    proof (cases "sb_pos s + length t \<le> sb_size s")
      case True
      then have h: "?h = g (app t s)" using f s Some by (auto simp: prints_def)
      have ok: "sb_ok (app t s)" using s True by (rule app_ok)
      show ?thesis
      proof (cases y)
        case None
        then show ?thesis using g ok failed_after [OF s True] unfolding h by (auto simp: prints_def both_def Some)
      next
        case y: (Some u)
        show ?thesis
        proof (cases "sb_pos s + length t + length u \<le> sb_size s")
          case True
          then show ?thesis using g ok app_app [OF s True] unfolding h by (auto simp: prints_def both_def Some y add.assoc)
        next
          case False
          then have "failed (app t s) (g (app t s))" using g ok y by (auto simp: prints_def add.assoc)
          then show ?thesis using failed_after [OF s \<open>sb_pos s + length t \<le> sb_size s\<close>] False unfolding h
            by (auto simp: both_def Some y add.assoc)
        qed
      qed
    next
      case False
      then have "failed s (f s)" using f s Some by (auto simp: prints_def)
      then show ?thesis using stop False by (cases y) (auto simp: both_def Some)
    qed
  qed
qed

lemma sint_255: "sint c = - 1 \<longleftrightarrow> c = 255" for c :: u8
proof -
  have "sint (255 :: u8) = - 1" by simp
  then show ?thesis by (metis signed_word_eqI)
qed

lemma time_putc_app:
  assumes "sb_ok s"
  shows "time_putc c s = (if sb_pos s + 1 \<le> sb_size s then Some (sint c, app [c] s) else Some (- 1, s))"
proof (cases "sb_pos s < sb_size s")
  case True
  then have "sb_pos s < length (sb_buf s)" using assms by (simp add: sb_ok_def)
  then show ?thesis using True by (simp add: time_putc_def app_def wr_def upd_conv_take_nth_drop)
qed (simp add: time_putc_def)

lemma prints_char:
  "prints (\<lambda>s. do { (e, s) \<leftarrow> time_putc c s; if e = - 1 then Some (- 1, s) else Some (0, s) })
    (if c = 255 then None else Some [c])"
proof -
  have "failed s (Some (- 1, app [c] s))" if "sb_ok s" "sb_pos s + 1 \<le> sb_size s" for s
    using that app_ok [of s "[c]"] app_tail [of s "[c]"] by (simp add: failed_def)
  moreover have "failed s (Some (- 1, s))" if "sb_ok s" for s using that by (simp add: failed_def)
  ultimately show ?thesis by (auto simp: prints_def time_putc_app sint_255)
qed

lemma prints_cong: "prints f x \<Longrightarrow> (\<And>s. g s = f s) \<Longrightarrow> prints g x"
  by presburger

lemma both_Some [simp]: "both (Some x) (Some y) = Some (x @ y)" "both None z = None"
  by (simp_all add: both_def)

lemma prints_Nil: "prints (\<lambda>s. Some (0, s)) (Some [])"
  by (simp add: prints_def sb_ok_def)

lemma time_puts_Cons:
  "time_puts (c # str) s = do {
     (e, s) \<leftarrow> (do { (e, s) \<leftarrow> time_putc c s; if e = - 1 then Some (- 1 :: int, s) else Some (0, s) });
     if e \<noteq> 0 then Some (- 1, s) else time_puts str s }"
  by (cases "time_putc c s") auto

lemma prints_puts: "255 \<notin> set str \<Longrightarrow> prints (time_puts str) (Some str)"
proof (induction str)
  case Nil
  show ?case using prints_Nil by (rule prints_cong) simp
next
  case (Cons c str)
  then have "prints (time_puts str) (Some str)" "c \<noteq> 255" by auto
  with prints_seq [OF prints_char [of c] this(1)] have
    "prints (\<lambda>s. do {
       (e, s) \<leftarrow> (do { (e, s) \<leftarrow> time_putc c s; if e = - 1 then Some (- 1 :: int, s) else Some (0, s) });
       if e \<noteq> 0 then Some (- 1, s) else time_puts str s }) (Some (c # str))" by simp
  then show ?case by (rule prints_cong) (rule time_puts_Cons)
qed

lemma digit_char_int: "0 \<le> n \<Longrightarrow> word_of_int (n smod 10) + 48 = digit_char (nat n mod 10)"
proof -
  assume n: "0 \<le> n"
  then have "int (nat n mod 10) = n mod 10" by (simp add: zmod_int)
  then have "n smod 10 + 48 = int (nat n mod 10 + 48)" using n by (simp add: c_div)
  then have "word_of_int (n smod 10 + 48) = (word_of_nat (nat n mod 10 + 48) :: u8)" by (simp only: of_int_of_nat_eq)
  then show ?thesis unfolding digit_char_def by (simp only: of_int_add of_int_numeral)
qed

lemma digits_not_255: "\<forall>d \<in> set ds. d < 10 \<Longrightarrow> 255 \<notin> set (map digit_char ds)"
  using digit_char_value by fastforce

lemma wdigits_less: "d \<in> set (wdigits 10 k v) \<Longrightarrow> d < 10"
  by (induction k arbitrary: v) auto

lemma putzd_loop_field: "0 \<le> n \<Longrightarrow> putzd_loop k n cs = field k n @ cs"
proof (induction k arbitrary: n cs)
  case (Suc k)
  then have "n sdiv 10 = n div 10" "0 \<le> n div 10" "nat (n div 10) = nat n div 10"
    by (simp_all add: c_div pos_imp_zdiv_nonneg_iff nat_div_distrib)
  then show ?case using Suc by (simp add: field_def digit_char_int)
qed (simp add: field_def)

lemma prints_putzd:
  assumes "0 \<le> n" "k \<le> 20"
  shows "prints (putzd n k) (Some (field k n))"
proof (rule prints_cong)
  show "prints (time_puts (field k n)) (Some (field k n))"
    unfolding field_def by (intro prints_puts digits_not_255) (auto dest: wdigits_less)
  show "putzd n k s = time_puts (field k n) s" for s using assms by (simp add: putzd_def putzd_loop_field)
qed

lemma time_putd_loop_digits:
  "0 \<le> n \<Longrightarrow> n < 10 ^ p \<Longrightarrow> 0 < p \<Longrightarrow> time_putd_loop p n cs = Some (map digit_char (rdigits 10 (nat n)) @ cs)"
proof (induction p arbitrary: n cs)
  case (Suc p)
  have d: "n sdiv 10 = n div 10" "0 \<le> n div 10" "nat (n div 10) = nat n div 10"
    using Suc.prems(1) by (simp_all add: c_div pos_imp_zdiv_nonneg_iff nat_div_distrib)
  show ?case
  proof (cases "n < 10")
    case True
    then have "n div 10 = 0" "nat n < 10" using Suc.prems(1) by simp_all
    then show ?thesis using d Suc.prems(1) by (simp add: rdigits_small digit_char_int)
  next
    case False
    have "n div 10 < 10 ^ p" using Suc.prems(2) by (simp add: int_div_less_self mult.commute div_less_iff_less_mult)
    moreover have "0 < p" using False Suc.prems(2) by (cases p) auto
    moreover have "n div 10 \<noteq> 0" "10 \<le> nat n" using False by simp_all
    ultimately show ?thesis using d Suc.prems(1) Suc.IH [of "n div 10"] by (simp add: rdigits_step digit_char_int)
  qed
qed simp

lemma prints_putd:
  assumes "0 \<le> n" "n < 10 ^ 20"
  shows "prints (time_putd n) (Some (map digit_char (rdigits 10 (nat n))))"
proof (rule prints_cong)
  show "prints (time_puts (map digit_char (rdigits 10 (nat n)))) (Some (map digit_char (rdigits 10 (nat n))))"
    by (intro prints_puts digits_not_255) (auto dest: rdigits_less [rotated])
  show "time_putd n s = time_puts (map digit_char (rdigits 10 (nat n))) s" for s
    using assms by (simp add: time_putd_def time_putd_loop_digits)
qed

lemma names_not_255: "x \<in> set (month_names @ month_abbrevs @ wday_names @ wday_abbrevs @ am_pm @ [''GMT'']) \<Longrightarrow> 255 \<notin> set (ascii x)"
  by (auto simp: month_names_def month_abbrevs_def wday_names_def wday_abbrevs_def am_pm_def ascii_def)

lemma prints_table:
  assumes "0 \<le> i" "i < int (length tab)" "set tab \<subseteq> set (month_names @ month_abbrevs @ wday_names @ wday_abbrevs @ am_pm @ [''GMT''])"
  shows "prints (table_puts tab i) (Some (ascii (tab ! nat i)))"
proof (rule prints_cong)
  have "nat i < length tab" using assms(1,2) by simp
  then have "tab ! nat i \<in> set tab" by simp
  then show "prints (time_puts (ascii (tab ! nat i))) (Some (ascii (tab ! nat i)))"
    using assms(3) names_not_255 by (intro prints_puts) blast
  show "table_puts tab i s = time_puts (ascii (tab ! nat i)) s" for s using assms by (simp add: table_puts_def)
qed

lemma week_numbers:
  assumes "0 \<le> tm_wday t" "tm_wday t < 7" "0 \<le> tm_yday t"
  shows "calc_weeks t 0 = sundays t" "calc_weeks t 1 = mondays t" "0 \<le> sundays t" "0 \<le> mondays t"
proof -
  have a: "(y + (7 - (y + (7 - w)) mod 7)) div 7 = (y + (7 - w)) div 7" if "0 \<le> w" "w < 7" for y w :: int
  proof -
    let ?z = "y + (7 - w)"
    have "y + (7 - ?z mod 7) = 7 * (?z div 7) + w" using div_mult_mod_eq [of ?z 7] by linarith
    then show ?thesis using div_parts(1) [OF that, of "?z div 7"] by simp
  qed
  have b: "(y + (7 - (y + (7 - w) + 1) mod 7)) div 7 = (y + 7 - (w + 6) mod 7) div 7" if "0 \<le> w" "w < 7" for y w :: int
  proof (cases "w = 0")
    case True
    have "(y + (7 - w) + 1) mod 7 = (y + (7 - 6)) mod 7" using mod_add_self2 [of "y + 1" 7] True by (simp add: algebra_simps)
    then show ?thesis using a [of 6 y] True by simp
  next
    case False
    then have "(w + 6) mod 7 = w - 1" using that mod_add_self2 [of "w - 1" 7] by (simp add: algebra_simps)
    then show ?thesis using a [of "w - 1" y] that False by (simp add: algebra_simps)
  qed
  have nn: "0 \<le> tm_yday t + (7 - z mod 7)" for z using assms(3) pos_mod_bound [of 7 z] by linarith
  show "0 \<le> sundays t" "0 \<le> mondays t"
    using assms by (simp_all add: sundays_def mondays_def pos_imp_zdiv_nonneg_iff)
  have z: "0 \<le> tm_yday t + (7 - tm_wday t) + c" if "0 \<le> c" for c using assms that by linarith
  have "calc_weeks t c = (tm_yday t + (7 - (tm_yday t + (7 - tm_wday t) + c) mod 7)) div 7" if "0 \<le> c" for c
    unfolding calc_weeks_def c_div(2) [OF z [OF that] zero_less_numeral] c_div(1) [OF nn zero_less_numeral] ..
  from this [of 0] this [of 1] show "calc_weeks t 0 = sundays t" "calc_weeks t 1 = mondays t"
    using a [OF assms(1,2), of "tm_yday t"] b [OF assms(1,2), of "tm_yday t"]
    by (simp_all only: sundays_def mondays_def add_0_right order_refl zero_le_one add_diff_eq)
qed

lemma prints_if: "prints f x \<Longrightarrow> prints g y \<Longrightarrow> prints (if P then f else g) (if P then x else y)"
  by simp

lemma prints_fail: "prints (\<lambda>s. Some (- 1, s)) None"
  by (auto simp: prints_def failed_def)

lemma time_conv_if:
  "time_conv t c =
    (if c = 97 then table_puts wday_abbrevs (tm_wday t)
     else if c = 65 then table_puts wday_names (tm_wday t)
     else if c = 98 then table_puts month_abbrevs (tm_mon t)
     else if c = 66 then table_puts month_names (tm_mon t)
     else if c = 100 then putzd (tm_mday t) 2
     else if c = 72 then putzd (tm_hour t) 2
     else if c = 73 then putzd (tm_hour t smod 12) 2
     else if c = 106 then putzd (tm_yday t + 1) 3
     else if c = 109 then putzd (tm_mon t + 1) 2
     else if c = 77 then putzd (tm_min t) 2
     else if c = 112 then table_puts am_pm (tm_hour t sdiv 12)
     else if c = 83 then putzd (tm_sec t) 2
     else if c = 85 then putzd (calc_weeks t 0) 2
     else if c = 87 then putzd (calc_weeks t 1) 2
     else if c = 121 then putzd (tm_year t smod 100) 2
     else if c = 89 then time_putd (tm_year t + 1900)
     else if c = 90 then time_puts (ascii ''GMT'')
     else if c = 37 then time_puts [37]
     else (\<lambda>s. Some (- 1, s)))"
  unfolding time_conv_def by (rule ext) (simp only: if_distribR)

lemma prints_conv:
  assumes "tm_ok t"
  shows "prints (time_conv t c) (conv_text t c)"
proof -
  have ok: "0 \<le> tm_sec t" "0 \<le> tm_min t" "0 \<le> tm_hour t" "tm_hour t < 24" "0 \<le> tm_mday t" "0 \<le> tm_mon t" "tm_mon t < 12"
    "0 \<le> tm_wday t" "tm_wday t < 7" "0 \<le> tm_yday t" "0 \<le> tm_year t" "tm_year t < 1000000" using assms by (auto simp: tm_ok_def)
  have "tm_hour t div 12 \<le> 23 div 12" using ok by (intro zdiv_mono1) simp_all
  then have h: "0 \<le> tm_hour t div 12" "tm_hour t div 12 < 2" using ok by (simp_all add: pos_imp_zdiv_nonneg_iff)
  have c: "tm_hour t sdiv 12 = tm_hour t div 12" "tm_hour t smod 12 = tm_hour t mod 12" "tm_year t smod 100 = tm_year t mod 100"
    using ok by (simp_all add: c_div)
  have w: "calc_weeks t 0 = sundays t" "calc_weeks t 1 = mondays t" "0 \<le> sundays t" "0 \<le> mondays t"
    using week_numbers [of t] ok by auto
  have l: "length wday_abbrevs = 7" "length wday_names = 7" "length month_abbrevs = 12" "length month_names = 12" "length am_pm = 2"
    by (simp_all add: wday_abbrevs_def wday_names_def month_abbrevs_def month_names_def am_pm_def)
  have tabs: "prints (table_puts wday_abbrevs (tm_wday t)) (Some (ascii (wday_abbrevs ! nat (tm_wday t))))"
    "prints (table_puts wday_names (tm_wday t)) (Some (ascii (wday_names ! nat (tm_wday t))))"
    "prints (table_puts month_abbrevs (tm_mon t)) (Some (ascii (month_abbrevs ! nat (tm_mon t))))"
    "prints (table_puts month_names (tm_mon t)) (Some (ascii (month_names ! nat (tm_mon t))))"
    "prints (table_puts am_pm (tm_hour t div 12)) (Some (ascii (am_pm ! nat (tm_hour t div 12))))"
    using ok h l by (auto intro!: prints_table)
  have "0 \<le> tm_hour t mod 12" "0 \<le> tm_year t mod 100" "0 \<le> tm_yday t + 1" "0 \<le> tm_mon t + 1" using ok by simp_all
  then have fields: "prints (putzd n 2) (Some (field 2 n))"
    if "n \<in> {tm_mday t, tm_hour t, tm_hour t mod 12, tm_mon t + 1, tm_min t, tm_sec t, sundays t, mondays t, tm_year t mod 100}" for n
    using that ok w(3,4) by (intro prints_putzd) auto
  have nums: "prints (putzd (tm_yday t + 1) 3) (Some (field 3 (tm_yday t + 1)))"
    "prints (time_putd (tm_year t + 1900)) (Some (map digit_char (rdigits 10 (nat (tm_year t + 1900)))))"
    using ok by (auto intro!: prints_putzd prints_putd)
  have strs: "prints (time_puts (ascii ''GMT'')) (Some (ascii ''GMT''))" "prints (time_puts [37]) (Some [37])"
    using names_not_255 [of "''GMT''"] by (auto intro!: prints_puts)
  show ?thesis unfolding time_conv_if conv_text_def c w(1,2)
    by (intro prints_if tabs nums strs prints_fail fields) (simp_all only: insert_iff simp_thms)
qed

lemma time_printf_Cons:
  "time_printf k t conversion (c # r) s =
    (if conversion then do {
       (e, s) \<leftarrow>
         (case time_nested c of
            Some f \<Rightarrow> (if k = 0 then None else time_printf (k - 1) t False f s)
          | None \<Rightarrow> time_conv t c s);
       if e \<noteq> 0 then Some (- 1, s) else time_printf k t False r s
     } else if c = 37 then time_printf k t True r s
     else do {
       (e, s) \<leftarrow> do { (e, s) \<leftarrow> time_putc c s; if e = - 1 then Some (- 1 :: int, s) else Some (0, s) };
       if e \<noteq> 0 then Some (- 1, s) else time_printf k t False r s
     })"
  by (cases "time_putc c s") auto

fun no_nested :: "bool \<Rightarrow> u8 list \<Rightarrow> bool" where
  "no_nested conversion [] = True"
| "no_nested conversion (c # r) \<longleftrightarrow>
    (if conversion then time_nested c = None \<and> no_nested False r else if c = 37 then no_nested True r else no_nested False r)"

lemma nested_plain: "time_nested c = Some f \<Longrightarrow> no_nested False f"
  by (auto simp: time_nested_def ascii_def split: if_splits)

declare time_printf.simps(2) [simp del]

lemma prints_step:
  assumes "\<And>b. b = (\<not> conversion \<and> c = 37) \<Longrightarrow> prints (time_printf k t b r) (x b)"
    and "conversion \<Longrightarrow> prints (\<lambda>s. case time_nested c of
            Some f \<Rightarrow> (if k = 0 then None else time_printf (k - 1) t False f s)
          | None \<Rightarrow> time_conv t c s) y"
  shows "prints (time_printf k t conversion (c # r))
    (if conversion then both y (x False) else if c = 37 then x True else both (if c = 255 then None else Some [c]) (x False))"
proof -
  consider (conv) "conversion" | (pct) "\<not> conversion" "c = 37" | (lit) "\<not> conversion" "c \<noteq> 37" by blast
  then show ?thesis
  proof cases
    case conv
    then have "prints (time_printf k t False r) (x False)" using assms(1) by blast
    from prints_seq [OF assms(2) [OF conv] this] show ?thesis
      using conv by (simp only: if_True) (erule prints_cong, simp only: time_printf_Cons if_True)
  next
    case pct
    then have "prints (time_printf k t True r) (x True)" using assms(1) by blast
    then have "prints (time_printf k t conversion (c # r)) (x True)"
      by (rule prints_cong) (simp only: pct time_printf_Cons if_False if_True simp_thms)
    then show ?thesis using pct by simp
  next
    case lit
    then have "prints (time_printf k t False r) (x False)" by (intro assms(1)) simp
    from prints_seq [OF prints_char [of c] this]
    have "prints (time_printf k t conversion (c # r)) (both (if c = 255 then None else Some [c]) (x False))"
      by (rule prints_cong) (simp only: lit time_printf_Cons if_False)
    then show ?thesis by (simp only: lit if_False)
  qed
qed

lemma prints_end: "prints (time_printf k t conversion []) (Some [])"
  using prints_Nil by (rule prints_cong) simp

lemma prints_plain:
  assumes "tm_ok t"
  shows "no_nested conversion f \<Longrightarrow> prints (time_printf k t conversion f) (plain_text t conversion f)"
proof (induction f arbitrary: conversion)
  case Nil
  then show ?case by (simp only: plain_text.simps prints_end)
next
  case (Cons c r)
  show ?case unfolding plain_text.simps
  proof (rule prints_step)
    show "prints (time_printf k t b r) (plain_text t b r)" if "b = (\<not> conversion \<and> c = 37)" for b
      using Cons that by (auto split: if_splits)
    show "prints (\<lambda>s. case time_nested c of
            Some f \<Rightarrow> (if k = 0 then None else time_printf (k - 1) t False f s)
          | None \<Rightarrow> time_conv t c s) (conv_text t c)" if conversion
      using Cons.prems that prints_conv [OF assms, of c] by simp
  qed
qed

lemma prints_time:
  assumes "tm_ok t"
  shows "prints (time_printf 1 t conversion f) (time_text t conversion f)"
proof (induction f arbitrary: conversion)
  case Nil
  then show ?case by (simp only: time_text.simps prints_end)
next
  case (Cons c r)
  have "prints (\<lambda>s. case time_nested c of
            Some f \<Rightarrow> (if (1 :: nat) = 0 then None else time_printf (1 - 1) t False f s)
          | None \<Rightarrow> time_conv t c s) (case time_nested c of Some f \<Rightarrow> plain_text t False f | None \<Rightarrow> conv_text t c)"
  proof (cases "time_nested c")
    case None
    then show ?thesis using prints_conv [OF assms, of c] by simp
  next
    case (Some f)
    then show ?thesis using prints_plain [OF assms nested_plain [OF Some], of 0] by simp
  qed
  then show ?case unfolding time_text.simps by (rule prints_step [OF Cons.IH])
qed

text \<open>
  C17. \<^verbatim>\<open>strftime\<close> writes the text of the format if it fits into the array with its terminator, and
  returns its length; if it does not fit, or if the format has an unknown conversion, it
  returns 0. It never writes behind the size it is given. The conversions give the names, the
  numbers with their leading zeros, and the weeks counted by Sundays or Mondays.
\<close>

theorem strftime_contract:
  assumes "tm_ok t" and "maxsize \<le> length buf"
  shows "\<exists>n buf'. strftime buf maxsize fmt t = Some (n, buf') \<and> drop maxsize buf' = drop maxsize buf \<and>
    (case time_text t False fmt of
       Some x \<Rightarrow> if length x < maxsize then n = length x \<and> buf' = x @ 0 # drop (Suc (length x)) buf else n = 0
     | None \<Rightarrow> n = 0)"
proof -
  let ?s = "\<lparr>sb_pos = 0, sb_size = maxsize, sb_buf = buf\<rparr>"
  have s: "sb_ok ?s" using assms(2) by (simp add: sb_ok_def)
  note p = prints_time [OF assms(1), of False fmt, unfolded prints_def, rule_format, OF s]
  have fail: ?thesis if "failed ?s (time_printf 1 t False fmt ?s)"
    "\<not> (\<exists>x. time_text t False fmt = Some x \<and> length x < maxsize)"
  proof -
    from that(1) obtain s' where "time_printf 1 t False fmt ?s = Some (- 1, s')" "drop maxsize (sb_buf s') = drop maxsize buf"
      by (auto simp: failed_def)
    then show ?thesis using that(2)
      by - (rule exI [of _ 0], rule exI [of _ "sb_buf s'"], auto simp: strftime_def split: option.splits)
  qed
  show ?thesis
  proof (cases "time_text t False fmt")
    case None
    then show ?thesis using p fail by simp
  next
    case (Some x)
    consider (fits) "length x < maxsize" | (full) "length x = maxsize" | (over) "maxsize < length x" by linarith
    then show ?thesis
    proof cases
      case fits
      let ?b = "x @ drop (length x) buf"
      have "drop (length x) buf = buf ! length x # drop (Suc (length x)) buf"
        using fits assms(2) by (simp add: Cons_nth_drop_Suc)
      then have "wr ?b (length x) 0 = Some (x @ 0 # drop (Suc (length x)) buf)" by simp
      moreover have "maxsize - length x = Suc (maxsize - Suc (length x))" using fits by simp
      ultimately show ?thesis using p Some fits by (simp add: strftime_def app_def)
    next
      case full
      then show ?thesis using p Some by (simp add: strftime_def app_def)
    next
      case over
      then show ?thesis using p Some fail by simp
    qed
  qed
qed

text \<open>The first day of the epoch.\<close>

theorem strftime_contract_witness:
  "\<exists>n buf'. strftime (replicate 12 1) 11 (ascii ''%F'')
      \<lparr>tm_sec = 0, tm_min = 0, tm_hour = 0, tm_mday = 1, tm_mon = 0, tm_year = 70, tm_wday = 4, tm_yday = 0, tm_isdst = 0\<rparr> =
    Some (n, buf') \<and> n = 10 \<and> drop 11 buf' = [1] \<and> take 10 buf' = ascii ''1970-01-01''"
proof -
  let ?t = "\<lparr>tm_sec = 0, tm_min = 0, tm_hour = 0, tm_mday = 1, tm_mon = 0, tm_year = 70, tm_wday = 4, tm_yday = 0, tm_isdst = 0\<rparr>"
  have "rdigits 10 1970 = [1, 9, 7, 0]" by (simp add: rdigits_step rdigits_small)
  moreover have "wdigits 10 2 (Suc 0) = [0, 1]" using wdigits.simps(2) [of 10 1] wdigits.simps(2) [of 10 0] by (simp add: numeral_2_eq_2)
  ultimately have x: "time_text ?t False (ascii ''%F'') = Some (ascii ''1970-01-01'')"
    by (simp add: ascii_def time_nested_def both_def conv_text_def field_def digit_char_def)
  have l: "length (ascii ''1970-01-01'') = 10" by (simp add: ascii_def)
  have "tm_ok ?t" by (simp add: tm_ok_def)
  from strftime_contract [OF this, of 11 "replicate 12 1" "ascii ''%F''"] obtain n buf' where
    "strftime (replicate 12 1) 11 (ascii ''%F'') ?t = Some (n, buf')" and b: "drop 11 buf' = drop 11 (replicate 12 1)"
      "n = 10 \<and> buf' = ascii ''1970-01-01'' @ 0 # drop 11 (replicate 12 1)"
    unfolding x by (auto simp: l)
  moreover have "drop 11 (replicate 12 1) = [1 :: u8]" by simp
  ultimately show ?thesis using l by auto
qed

end
