(* ===== verification/Std_Stream.thy ===== *)
theory Std_Stream
  imports Eo_Prelude "HOL-Library.Monad_Syntax"
begin

section \<open>Streams\<close>

text \<open>
  The buffered streams of \<^verbatim>\<open>src/lib/libc/stdio\<close>. A stream is the \<^verbatim>\<open>FILE\<close> of \<^verbatim>\<open>src/include/stdio.h\<close>; its
  flags are the bits of \<^verbatim>\<open>mode\<close>. The calls \<^verbatim>\<open>read\<close>, \<^verbatim>\<open>write\<close> and \<^verbatim>\<open>lseek\<close> are messages to the
  servers; they are the argument \<open>sys\<close>, functions on a state \<open>'w\<close> of what is outside of the
  process. A negative result is an error. The state of an operation is the stream, the outside
  and \<^verbatim>\<open>errno\<close>, without what a failed \<^verbatim>\<open>read\<close> or \<^verbatim>\<open>write\<close> stores there. An access outside of the buffer and a division by zero are \<^const>\<open>None\<close>.
\<close>

record FILE =
  f_mode :: u32
  f_pos :: nat
  f_len :: nat
  f_fd :: int
  f_buf_size :: nat
  f_seek_pos :: "64 word"
  f_buf :: "u8 list"

record 'w sys =
  sys_read :: "int \<Rightarrow> nat \<Rightarrow> 'w \<Rightarrow> int \<times> u8 list \<times> 'w"
  sys_write :: "int \<Rightarrow> u8 list \<Rightarrow> 'w \<Rightarrow> int \<times> 'w"
  sys_lseek :: "int \<Rightarrow> 64 word \<Rightarrow> int \<Rightarrow> 'w \<Rightarrow> 64 word \<times> int \<times> 'w"

record 'w st =
  st_f :: FILE
  st_w :: 'w
  st_errno :: int

abbreviation (input) BUFSIZ :: nat where "BUFSIZ \<equiv> 8192"
abbreviation (input) EOF_c :: int where "EOF_c \<equiv> - 1"
abbreviation (input) EBADF :: int where "EBADF \<equiv> 8"
abbreviation (input) SEEK_SET :: int where "SEEK_SET \<equiv> 0"
abbreviation (input) SEEK_CUR :: int where "SEEK_CUR \<equiv> 1"
abbreviation (input) SEEK_END :: int where "SEEK_END \<equiv> 2"
abbreviation (input) EINVAL_c :: int where "EINVAL_c \<equiv> 28"

text \<open>The flags of a stream by the number of their bit.\<close>

abbreviation (input) feof :: "FILE \<Rightarrow> bool" where "feof f \<equiv> bit (f_mode f) 0"
abbreviation (input) ferror :: "FILE \<Rightarrow> bool" where "ferror f \<equiv> bit (f_mode f) 1"
abbreviation (input) isReadable :: "FILE \<Rightarrow> bool" where "isReadable f \<equiv> bit (f_mode f) 2"
abbreviation (input) isWritable :: "FILE \<Rightarrow> bool" where "isWritable f \<equiv> bit (f_mode f) 3"
abbreviation (input) isDirty :: "FILE \<Rightarrow> bool" where "isDirty f \<equiv> bit (f_mode f) 7"

definition isOpen :: "FILE \<Rightarrow> bool" where
  "isOpen f \<longleftrightarrow> bit (f_mode f) 2 \<or> bit (f_mode f) 3"

definition isLineBuffered :: "FILE \<Rightarrow> bool" where
  "isLineBuffered f \<longleftrightarrow> bit (f_mode f) 6 \<and> \<not> bit (f_mode f) 5"

definition upd_f :: "(FILE \<Rightarrow> FILE) \<Rightarrow> 'w st \<Rightarrow> 'w st" where
  "upd_f g st = st\<lparr>st_f := g (st_f st)\<rparr>"

definition set_flag :: "nat \<Rightarrow> 'w st \<Rightarrow> 'w st" where
  "set_flag n = upd_f (\<lambda>f. f\<lparr>f_mode := set_bit n (f_mode f)\<rparr>)"

definition clear_flag :: "nat \<Rightarrow> 'w st \<Rightarrow> 'w st" where
  "clear_flag n = upd_f (\<lambda>f. f\<lparr>f_mode := unset_bit n (f_mode f)\<rparr>)"

definition store :: "u8 list \<Rightarrow> nat \<Rightarrow> u8 list \<Rightarrow> u8 list option" where
  "store buf pos bs = (if pos + length bs \<le> length buf then Some (take pos buf @ bs @ drop (pos + length bs) buf) else None)"

definition load :: "u8 list \<Rightarrow> nat \<Rightarrow> nat \<Rightarrow> u8 list option" where
  "load buf pos n = (if pos + n \<le> length buf then Some (take n (drop pos buf)) else None)"

subsection \<open>The buffer\<close>

definition sweep_end :: "'w st \<Rightarrow> 'w st" where
  "sweep_end st =
    (let st = (if f_len (st_f st) \<noteq> 0
               then upd_f (\<lambda>f. f\<lparr>f_seek_pos := f_seek_pos f + word_of_nat (f_len f), f_len := 0\<rparr>) st else st)
     in upd_f (\<lambda>f. f\<lparr>f_pos := 0\<rparr>) st)"

definition sweep_buffer :: "'w sys \<Rightarrow> 'w st \<Rightarrow> (int \<times> 'w st) option" where
  "sweep_buffer sys st =
    (if isDirty (st_f st) then do {
       bs \<leftarrow> load (f_buf (st_f st)) 0 (f_len (st_f st));
       case sys_write sys (f_fd (st_f st)) bs (st_w st) of
         (n, w) \<Rightarrow>
           (let st = st\<lparr>st_w := w\<rparr> in
            if n = int (f_len (st_f st)) then Some (0, sweep_end (clear_flag 7 st))
            else Some (- 1, set_flag 1 st))
     } else Some (0, sweep_end st))"

text \<open>The bytes read are a result: the caller puts them where \<^verbatim>\<open>ptr\<close> leads.\<close>

definition fill_buffer :: "'w sys \<Rightarrow> nat \<Rightarrow> 'w st \<Rightarrow> (int \<times> u8 list \<times> 'w st) option" where
  "fill_buffer sys n st = do {
     (e, st) \<leftarrow> sweep_buffer sys st;
     if e \<noteq> 0 then Some (- 1, [], st)
     else
       (case sys_read sys (f_fd (st_f st)) n (st_w st) of
          (len, bs, w) \<Rightarrow>
            (let st = st\<lparr>st_w := w\<rparr> in
             if len = 0 then Some (- 1, [], set_flag 0 st)
             else if len < 0 then Some (- 1, [], set_flag 1 st)
             else Some (0, bs, upd_f (\<lambda>f. f\<lparr>f_len := nat len\<rparr>) st)))
   }"

definition flush :: "'w sys \<Rightarrow> 'w st \<Rightarrow> (int \<times> 'w st) option" where
  "flush sys st =
    (if ferror (st_f st) then Some (EOF_c, st)
     else do { (e, st) \<leftarrow> sweep_buffer sys st; Some (if e \<noteq> 0 then EOF_c else 0, st) })"

subsection \<open>Characters\<close>

definition fgetc :: "'w sys \<Rightarrow> 'w st \<Rightarrow> (int \<times> 'w st) option" where
  "fgetc sys st =
    (if ferror (st_f st) \<or> feof (st_f st) then Some (EOF_c, st)
     else if \<not> isReadable (st_f st) then Some (EOF_c, st\<lparr>st_errno := EBADF\<rparr>)
     else do {
       (e, st) \<leftarrow>
         (if f_pos (st_f st) \<ge> f_len (st_f st) then do {
            (e, bs, st) \<leftarrow> fill_buffer sys (f_buf_size (st_f st)) st;
            b \<leftarrow> store (f_buf (st_f st)) 0 bs;
            Some (e, upd_f (\<lambda>f. f\<lparr>f_buf := b\<rparr>) st)
          } else Some (0, st));
       if e \<noteq> 0 then Some (EOF_c, st)
       else do {
         c \<leftarrow> rd (f_buf (st_f st)) (f_pos (st_f st));
         Some (uint c, upd_f (\<lambda>f. f\<lparr>f_pos := f_pos f + 1\<rparr>) st)
       }
     })"

definition fputc :: "'w sys \<Rightarrow> int \<Rightarrow> 'w st \<Rightarrow> (int \<times> 'w st) option" where
  "fputc sys c st =
    (if ferror (st_f st) then Some (EOF_c, st)
     else if \<not> isWritable (st_f st) then Some (EOF_c, st\<lparr>st_errno := EBADF\<rparr>)
     else do {
       (e, st) \<leftarrow> (if f_pos (st_f st) \<ge> f_buf_size (st_f st) then sweep_buffer sys st else Some (0, st));
       if e \<noteq> 0 then Some (EOF_c, st)
       else do {
         let st = set_flag 7 st;
         b \<leftarrow> wr (f_buf (st_f st)) (f_pos (st_f st)) (word_of_int c);
         let st = upd_f (\<lambda>f. f\<lparr>f_buf := b, f_pos := f_pos f + 1\<rparr>) st;
         let st = (if f_pos (st_f st) > f_len (st_f st) then upd_f (\<lambda>f. f\<lparr>f_len := f_pos f\<rparr>) st else st);
         (e, st) \<leftarrow> (if c = 10 \<and> isLineBuffered (st_f st) then sweep_buffer sys st else Some (0, st));
         Some (if e \<noteq> 0 then EOF_c else c, st)
       }
     })"

text \<open>The characters of a string are signed.\<close>

fun fputs :: "'w sys \<Rightarrow> u8 list \<Rightarrow> 'w st \<Rightarrow> (int \<times> 'w st) option" where
  "fputs sys [] st = None"
| "fputs sys (c # s) st =
    (if c = 0 then Some (0, st)
     else do {
       (e, st) \<leftarrow> fputc sys (sint c) st;
       if e = EOF_c then Some (EOF_c, st) else fputs sys s st
     })"

fun fgets_loop :: "'w sys \<Rightarrow> nat \<Rightarrow> u8 list \<Rightarrow> 'w st \<Rightarrow> (u8 list \<times> 'w st) option" where
  "fgets_loop sys 0 s st = Some (s, st)"
| "fgets_loop sys (Suc k) s st = do {
     (c, st) \<leftarrow> fgetc sys st;
     if c = EOF_c then Some (s, st)
     else if c = 10 then Some (s @ [word_of_int c], st)
     else fgets_loop sys k (s @ [word_of_int c]) st
   }"

text \<open>The result is the line without its terminator, or \<^const>\<open>None\<close> for a null pointer.\<close>

definition fgets :: "'w sys \<Rightarrow> int \<Rightarrow> 'w st \<Rightarrow> (u8 list option \<times> 'w st) option" where
  "fgets sys sz st =
    (if sz - 1 < 0 then Some (None, st)
     else do {
       (s, st) \<leftarrow> fgets_loop sys (nat (sz - 1)) [] st;
       Some (if s \<noteq> [] then Some s else None, st)
     })"

subsection \<open>Blocks\<close>

definition quot :: "nat \<Rightarrow> nat \<Rightarrow> nat option" where
  "quot a b = (if b = 0 then None else Some (a div b))"

definition fread :: "'w sys \<Rightarrow> nat \<Rightarrow> nat \<Rightarrow> 'w st \<Rightarrow> (nat \<times> u8 list \<times> 'w st) option" where
  "fread sys sz nmemb st =
    (if ferror (st_f st) \<or> feof (st_f st) then Some (0, [], st)
     else if \<not> isReadable (st_f st) then Some (0, [], st\<lparr>st_errno := EBADF\<rparr>)
     else if f_len (st_f st) < f_pos (st_f st) then None
     else
       (let bytes = sz * nmemb mod 2 ^ 32; len = min (f_len (st_f st) - f_pos (st_f st)) bytes in do {
          head \<leftarrow> load (f_buf (st_f st)) (f_pos (st_f st)) len;
          let rest = bytes - len;
          let st' = upd_f (\<lambda>f. f\<lparr>f_pos := f_pos f + len\<rparr>) st;
          if f_len (st_f st) - f_pos (st_f st) \<noteq> 0 \<and> rest = 0 then Some (nmemb, head, st')
          else if rest < f_buf_size (st_f st') then do {
            (e, bs, st) \<leftarrow> fill_buffer sys (f_buf_size (st_f st')) st';
            if e = 0 then do {
              b \<leftarrow> store (f_buf (st_f st)) 0 bs;
              let len = min (f_len (st_f st)) rest;
              tail \<leftarrow> load b 0 len;
              n \<leftarrow> quot (bytes - (rest - len)) sz;
              Some (n, head @ tail, upd_f (\<lambda>f. f\<lparr>f_buf := b, f_pos := f_pos f + len\<rparr>) st)
            } else do { n \<leftarrow> quot (bytes - rest) sz; Some (n, head, st) }
          } else do {
            (e, bs, st) \<leftarrow> fill_buffer sys rest st';
            if e = 0 then do {
              let len = f_len (st_f st);
              n \<leftarrow> quot (bytes - (rest - len)) sz;
              Some (n, head @ bs, upd_f (\<lambda>f. f\<lparr>f_len := 0, f_seek_pos := f_seek_pos f + word_of_nat len\<rparr>) st)
            } else do { n \<leftarrow> quot (bytes - rest) sz; Some (n, head, st) }
          }
        }))"

text \<open>The part of \<^verbatim>\<open>fwrite\<close> from the call of \<^verbatim>\<open>__sweep_buffer\<close> on.\<close>

definition fwrite_rest :: "'w sys \<Rightarrow> u8 list \<Rightarrow> nat \<Rightarrow> nat \<Rightarrow> nat \<Rightarrow> nat \<Rightarrow> 'w st \<Rightarrow> (nat \<times> 'w st) option" where
  "fwrite_rest sys ptr sz bytes len rest st = do {
     (e, st) \<leftarrow> sweep_buffer sys st;
     (rest, st) \<leftarrow>
       (if e \<noteq> 0 then Some (rest, st)
        else if rest < f_buf_size (st_f st) then do {
          let len = min len rest;
          b \<leftarrow> store (f_buf (st_f st)) 0 (take len ptr);
          Some (rest - len, upd_f (\<lambda>f. f\<lparr>f_buf := b, f_pos := f_pos f + len, f_len := f_pos f + len\<rparr>) (set_flag 7 st))
        } else
          (case sys_write sys (f_fd (st_f st)) (take rest ptr) (st_w st) of
             (k, w) \<Rightarrow>
               (let st = st\<lparr>st_w := w\<rparr> in
                if k < 0 then Some (rest, set_flag 1 st)
                else Some (rest - nat k, upd_f (\<lambda>f. f\<lparr>f_seek_pos := f_seek_pos f + word_of_int k\<rparr>) st))));
     n \<leftarrow> quot (bytes - rest) sz;
     Some (n, st)
   }"

definition fwrite :: "'w sys \<Rightarrow> u8 list \<Rightarrow> nat \<Rightarrow> nat \<Rightarrow> 'w st \<Rightarrow> (nat \<times> 'w st) option" where
  "fwrite sys ptr sz nmemb st =
    (if ferror (st_f st) then Some (0, st)
     else if \<not> isWritable (st_f st) then Some (0, st\<lparr>st_errno := EBADF\<rparr>)
     else if f_buf_size (st_f st) < f_pos (st_f st) then None
     else
       (let bytes = sz * nmemb mod 2 ^ 32; len = f_buf_size (st_f st) - f_pos (st_f st) in
        if len \<noteq> 0 then do {
          let len = min len bytes;
          b \<leftarrow> store (f_buf (st_f st)) (f_pos (st_f st)) (take len ptr);
          let st = upd_f (\<lambda>f. f\<lparr>f_buf := b, f_pos := f_pos f + len, f_len := max (f_len f) (f_pos f + len)\<rparr>) (set_flag 7 st);
          let rest = bytes - len;
          if rest = 0 then Some (nmemb, st) else fwrite_rest sys (drop len ptr) sz bytes len rest st
        } else fwrite_rest sys ptr sz bytes len bytes st))"

subsection \<open>The position\<close>

definition seek_to :: "'w sys \<Rightarrow> 64 word \<Rightarrow> 64 word \<Rightarrow> int \<Rightarrow> 'w st \<Rightarrow> (int \<times> 'w st) option" where
  "seek_to sys nxt param whence st =
    (if nxt < f_seek_pos (st_f st) \<or> f_seek_pos (st_f st) + word_of_nat (f_len (st_f st)) \<le> nxt then do {
       (e, st) \<leftarrow> flush sys st;
       if e \<noteq> 0 then Some (e, st)
       else
         (case sys_lseek sys (f_fd (st_f st)) param whence (st_w st) of
            (p, err, w) \<Rightarrow>
              (let st = st\<lparr>st_w := w\<rparr> in
               if p = - 1 then (let st = st\<lparr>st_errno := err\<rparr> in Some (- 1, if err = EBADF then set_flag 1 st else st))
               else Some (0, clear_flag 0 (upd_f (\<lambda>f. f\<lparr>f_seek_pos := p, f_len := 0, f_pos := 0\<rparr>) st))))
     } else Some (0, clear_flag 0 (upd_f (\<lambda>f. f\<lparr>f_pos := unat (nxt - f_seek_pos f)\<rparr>) st)))"

definition fseek :: "'w sys \<Rightarrow> 64 word \<Rightarrow> int \<Rightarrow> 'w st \<Rightarrow> (int \<times> 'w st) option" where
  "fseek sys offset whence st =
    (if ferror (st_f st) then Some (- 1, st)
     else if \<not> isOpen (st_f st) then Some (- 1, st\<lparr>st_errno := EBADF\<rparr>)
     else if whence = SEEK_SET then seek_to sys offset offset whence st
     else if whence = SEEK_CUR
       then seek_to sys (f_seek_pos (st_f st) + word_of_nat (f_pos (st_f st)) + offset)
         (offset + word_of_nat (f_pos (st_f st))) whence st
     else if whence = SEEK_END then seek_to sys (- 1) offset whence st
     else Some (- 1, st\<lparr>st_errno := EINVAL_c\<rparr>))"

definition fsetpos :: "'w sys \<Rightarrow> 64 word \<Rightarrow> 'w st \<Rightarrow> (int \<times> 'w st) option" where
  "fsetpos sys pos st =
    (if ferror (st_f st) then Some (- 1, st)
     else if \<not> isOpen (st_f st) then Some (- 1, st\<lparr>st_errno := EBADF\<rparr>)
     else seek_to sys pos pos SEEK_SET st)"

definition rewind :: "'w sys \<Rightarrow> 'w st \<Rightarrow> 'w st option" where
  "rewind sys st = do { (e, st) \<leftarrow> fsetpos sys 0 st; Some (clear_flag 1 (clear_flag 0 st)) }"

definition ftell :: "'w st \<Rightarrow> u32 \<times> 'w st" where
  "ftell st =
    (if ferror (st_f st) then (- 1, st)
     else if \<not> isOpen (st_f st) then (- 1, st\<lparr>st_errno := EBADF\<rparr>)
     else (ucast (f_seek_pos (st_f st) + word_of_nat (f_pos (st_f st))), st))"

definition fgetpos :: "'w st \<Rightarrow> (int \<times> 64 word) \<times> 'w st" where
  "fgetpos st =
    (if ferror (st_f st) then ((- 1, 0), st)
     else if \<not> isOpen (st_f st) then ((- 1, 0), st\<lparr>st_errno := EBADF\<rparr>)
     else ((0, f_seek_pos (st_f st) + word_of_nat (f_pos (st_f st))), st))"

subsection \<open>Opening and closing\<close>

abbreviation (input) O_RDONLY :: u32 where "O_RDONLY \<equiv> 0"
abbreviation (input) O_WRONLY :: u32 where "O_WRONLY \<equiv> 1"
abbreviation (input) O_RDWR :: u32 where "O_RDWR \<equiv> 2"
abbreviation (input) O_CREAT :: u32 where "O_CREAT \<equiv> 0x0200"
abbreviation (input) O_TRUNC :: u32 where "O_TRUNC \<equiv> 0x0400"

text \<open>The suffix of a mode: \<^const>\<open>None\<close> for an access behind the string, otherwise whether it is valid and whether it has a plus sign.\<close>

definition mode_plus :: "u8 list \<Rightarrow> nat \<Rightarrow> (bool \<times> bool) option" where
  "mode_plus s p = do {
     c \<leftarrow> rd s p;
     if c = 0 then Some (True, False)
     else if c \<noteq> 43 then Some (False, False)
     else do {
       c \<leftarrow> rd s (p + 1);
       if c = 0 then Some (True, True)
       else if c = 98 then do { c \<leftarrow> rd s (p + 2); Some (c = 0, True) }
       else Some (False, True)
     }
   }"

definition parse_file_mode :: "u8 list \<Rightarrow> (int + u32 \<times> u32) option" where
  "parse_file_mode s = do {
     m \<leftarrow> rd s 0;
     if m \<noteq> 114 \<and> m \<noteq> 119 then Some (Inl EINVAL_c)
     else do {
       c \<leftarrow> rd s 1;
       c2 \<leftarrow> (if c = 98 then rd s 2 else Some 0);
       if c = 98 \<and> c2 = 98 then Some (Inl EINVAL_c)
       else do {
         (valid, plus) \<leftarrow> mode_plus s (if c = 98 then 2 else 1);
         Some (if \<not> valid then Inl EINVAL_c
               else if plus then Inr (12, if m = 114 then O_RDWR else O_RDWR OR O_CREAT OR O_TRUNC)
               else if m = 114 then Inr (4, O_RDONLY)
               else Inr (8, O_WRONLY OR O_CREAT OR O_TRUNC))
       }
     }
   }"

text \<open>The buffer that is freed is empty afterwards; \<open>cl\<close> is the call \<^verbatim>\<open>close\<close>.\<close>

definition fclose :: "'w sys \<Rightarrow> (int \<Rightarrow> 'w \<Rightarrow> int \<times> int \<times> 'w) \<Rightarrow> 'w st \<Rightarrow> (int \<times> 'w st) option" where
  "fclose sys cl st =
    (if \<not> isOpen (st_f st) then Some (EOF_c, st\<lparr>st_errno := EBADF\<rparr>)
     else do {
       (e, st) \<leftarrow> flush sys st;
       let (r, st) =
         (case cl (f_fd (st_f st)) (st_w st) of
            (c, err, w) \<Rightarrow>
              if e \<noteq> 0 then (EOF_c, st\<lparr>st_w := w\<rparr>)
              else if c \<noteq> 0 then (EOF_c, st\<lparr>st_w := w, st_errno := err\<rparr>)
              else (0, st\<lparr>st_w := w\<rparr>));
       Some (r, upd_f (\<lambda>f. \<lparr>f_mode = 0, f_pos = 0, f_len = 0, f_fd = - 1, f_buf_size = 0, f_seek_pos = 0, f_buf = []\<rparr>) st)
     })"

subsection \<open>Output\<close>

text \<open>
  What the code relies on of \<^verbatim>\<open>write\<close>: all bytes are taken, behind those written before
  (\<open>view\<close> shows them).
\<close>

definition write_law :: "'w sys \<Rightarrow> int \<Rightarrow> ('w \<Rightarrow> u8 list) \<Rightarrow> bool" where
  "write_law sys fd view \<longleftrightarrow>
    (\<forall>bs w. \<exists>w'. sys_write sys fd bs w = (int (length bs), w') \<and> view w' = view w @ bs)"

definition out_ok :: "FILE \<Rightarrow> bool" where
  "out_ok f \<longleftrightarrow> \<not> ferror f \<and> isWritable f \<and> f_pos f = f_len f \<and> f_len f \<le> f_buf_size f \<and> f_buf_size f = length (f_buf f) \<and>
    f_buf f \<noteq> [] \<and> (f_len f \<noteq> 0 \<longrightarrow> isDirty f)"

definition outp :: "('w \<Rightarrow> u8 list) \<Rightarrow> 'w st \<Rightarrow> u8 list" where
  "outp view st = view (st_w st) @ take (f_len (st_f st)) (f_buf (st_f st))"

lemma flags [simp]:
  "st_f (upd_f g st) = g (st_f st)" "st_w (upd_f g st) = st_w st" "st_errno (upd_f g st) = st_errno st"
  "st_f (set_flag n st) = (st_f st)\<lparr>f_mode := set_bit n (f_mode (st_f st))\<rparr>" "st_w (set_flag n st) = st_w st"
  "st_f (clear_flag n st) = (st_f st)\<lparr>f_mode := unset_bit n (f_mode (st_f st))\<rparr>" "st_w (clear_flag n st) = st_w st"
  by (simp_all add: upd_f_def set_flag_def clear_flag_def)

lemma mode_bits [simp]:
  "n < 32 \<Longrightarrow> bit (set_bit k m) n \<longleftrightarrow> n = k \<or> bit m n" "bit (unset_bit k m) n \<longleftrightarrow> n \<noteq> k \<and> bit m n" for m :: u32
  by (auto simp: bit_set_bit_iff bit_unset_bit_iff)

lemma sweep_end_simps [simp]:
  "st_w (sweep_end st) = st_w st"
  "st_f (sweep_end st) = (st_f st)\<lparr>f_seek_pos := f_seek_pos (st_f st) + word_of_nat (f_len (st_f st)), f_len := 0, f_pos := 0\<rparr>"
  by (simp_all add: sweep_end_def Let_def)

lemma sweep_out:
  assumes "write_law sys (f_fd (st_f st)) view" "out_ok (st_f st)"
  shows "\<exists>st'. sweep_buffer sys st = Some (0, st') \<and> out_ok (st_f st') \<and> f_len (st_f st') = 0 \<and>
    f_fd (st_f st') = f_fd (st_f st) \<and> f_buf_size (st_f st') = f_buf_size (st_f st) \<and> f_buf (st_f st') = f_buf (st_f st) \<and>
    view (st_w st') = outp view st \<and>
    f_seek_pos (st_f st') = f_seek_pos (st_f st) + word_of_nat (f_len (st_f st)) \<and>
    (\<forall>n. n \<noteq> 7 \<longrightarrow> bit (f_mode (st_f st')) n = bit (f_mode (st_f st)) n)"
proof (cases "isDirty (st_f st)")
  case True
  let ?bs = "take (f_len (st_f st)) (f_buf (st_f st))"
  obtain w where w: "sys_write sys (f_fd (st_f st)) ?bs (st_w st) = (int (length ?bs), w)" "view w = view (st_w st) @ ?bs"
    using assms(1) unfolding write_law_def by blast
  have l: "length ?bs = f_len (st_f st)" using assms(2) by (simp add: out_ok_def)
  then have "sweep_buffer sys st = Some (0, sweep_end (clear_flag 7 (st\<lparr>st_w := w\<rparr>)))"
    using True w(1) assms(2) by (simp add: sweep_buffer_def load_def out_ok_def)
  then show ?thesis using assms(2) w(2) by (auto simp: out_ok_def outp_def)
next
  case False
  then have "f_len (st_f st) = 0" "sweep_buffer sys st = Some (0, sweep_end st)"
    using assms(2) by (auto simp: out_ok_def sweep_buffer_def)
  then show ?thesis using assms(2) by (auto simp: out_ok_def outp_def)
qed

lemma fputc_out:
  assumes "write_law sys (f_fd (st_f st)) view" "out_ok (st_f st)"
  shows "\<exists>st'. fputc sys c st = Some (c, st') \<and> out_ok (st_f st') \<and> f_fd (st_f st') = f_fd (st_f st) \<and>
    outp view st' = outp view st @ [word_of_int c]"
proof -
  note ok = assms(2) [unfolded out_ok_def]
  obtain s where s: "(if f_pos (st_f st) \<ge> f_buf_size (st_f st) then sweep_buffer sys st else Some (0, st)) = Some (0, s)"
    "out_ok (st_f s)" "f_fd (st_f s) = f_fd (st_f st)" "f_len (st_f s) < f_buf_size (st_f s)" "outp view s = outp view st"
  proof (cases "f_pos (st_f st) \<ge> f_buf_size (st_f st)")
    case True
    from sweep_out [OF assms] obtain s' where "sweep_buffer sys st = Some (0, s')" "out_ok (st_f s')" "f_len (st_f s') = 0"
      "f_fd (st_f s') = f_fd (st_f st)" "view (st_w s') = outp view st" by blast
    then show ?thesis using that [of s'] True by (simp add: out_ok_def outp_def)
  next
    case False
    then show ?thesis using that [of st] assms(2) by (simp add: out_ok_def)
  qed
  note so = s(2) [unfolded out_ok_def]
  let ?n = "f_len (st_f s)" and ?b = "f_buf (st_f s)"
  define x :: u8 where "x = word_of_int c"
  define t where "t = upd_f (\<lambda>f. f\<lparr>f_len := f_pos f\<rparr>)
    (upd_f (\<lambda>f. f\<lparr>f_buf := ?b[?n := x], f_pos := Suc (f_pos f)\<rparr>) (set_flag 7 s))"
  have t: "out_ok (st_f t)" "f_fd (st_f t) = f_fd (st_f st)" "outp view t = outp view st @ [x]"
  proof -
    have n: "?n < length ?b" using so s(4) by simp
    show "out_ok (st_f t)" "f_fd (st_f t) = f_fd (st_f st)" using so s(3) n by (auto simp: t_def out_ok_def)
    show "outp view t = outp view st @ [x]"
      using n s(5) so by (simp add: t_def outp_def take_Suc_conv_app_nth)
  qed
  obtain u where u: "(if c = 10 \<and> isLineBuffered (st_f t) then sweep_buffer sys t else Some (0, t)) = Some (0, u)"
    "out_ok (st_f u)" "f_fd (st_f u) = f_fd (st_f st)" "outp view u = outp view t"
  proof (cases "c = 10 \<and> isLineBuffered (st_f t)")
    case True
    from sweep_out [of sys t view] assms(1) t(1,2) obtain s' where "sweep_buffer sys t = Some (0, s')" "out_ok (st_f s')"
      "f_len (st_f s') = 0" "f_fd (st_f s') = f_fd (st_f t)" "view (st_w s') = outp view t" by auto
    then show ?thesis using that [of s'] True t(2) by (simp add: outp_def)
  next
    case False
    then show ?thesis by (intro that [of t]) (use t in auto)
  qed
  have "fputc sys c st = Some (c, u)"
  proof -
    have "fputc sys c st = do {
        (e, st) \<leftarrow> (if c = 10 \<and> isLineBuffered (st_f t) then sweep_buffer sys t else Some (0, t));
        Some (if e \<noteq> 0 then EOF_c else c, st) }"
      unfolding fputc_def s(1) x_def [symmetric] using ok so s(4)
      by (simp add: wr_def Let_def isLineBuffered_def t_def)
    then show ?thesis unfolding u(1) by simp
  qed
  then show ?thesis using u t(3) unfolding x_def by metis
qed

lemma sint_eof: "sint c = EOF_c \<longleftrightarrow> c = 255" for c :: u8
proof -
  have "sint (255 :: u8) = - 1" by simp
  then show ?thesis by (metis signed_word_eqI)
qed

lemma fputs_out:
  assumes "write_law sys (f_fd (st_f st)) view" "out_ok (st_f st)" "0 \<notin> set cs" "255 \<notin> set cs"
  shows "\<exists>st'. fputs sys (cs @ 0 # r) st = Some (0, st') \<and> out_ok (st_f st') \<and> f_fd (st_f st') = f_fd (st_f st) \<and>
    outp view st' = outp view st @ cs"
  using assms
proof (induction cs arbitrary: st)
  case (Cons c cs)
  from fputc_out [OF Cons.prems(1,2), of "sint c"] obtain s where
    s: "fputc sys (sint c) st = Some (sint c, s)" "out_ok (st_f s)" "f_fd (st_f s) = f_fd (st_f st)" "outp view s = outp view st @ [c]"
    by auto
  moreover obtain st' where "fputs sys (cs @ 0 # r) s = Some (0, st')" "out_ok (st_f st')" "f_fd (st_f st') = f_fd (st_f s)"
    "outp view st' = outp view s @ cs"
    using Cons.IH [of s] Cons.prems s by auto
  ultimately show ?case using Cons.prems(3,4) sint_eof [of c] by auto
qed simp

text \<open>
  What is put into a stream arrives, in order and completely: printing a string without the byte \<open>0xff\<close> and then
  flushing writes the bytes that were waiting in the buffer and then the string, however often the
  buffer fills up on the way, and whether or not the stream is flushed line by line.
\<close>

theorem fputs_flush_writes:
  assumes "write_law sys (f_fd (st_f st)) view" and "out_ok (st_f st)"
    and "0 \<notin> set cs" and "255 \<notin> set cs"
  shows "\<exists>st' st''. fputs sys (cs @ [0]) st = Some (0, st') \<and> flush sys st' = Some (0, st'') \<and>
    view (st_w st'') = outp view st @ cs \<and> f_len (st_f st'') = 0 \<and> out_ok (st_f st'')"
proof -
  from fputs_out [OF assms, of "[]"] obtain st' where
    p: "fputs sys (cs @ [0]) st = Some (0, st')" "out_ok (st_f st')" "f_fd (st_f st') = f_fd (st_f st)" "outp view st' = outp view st @ cs"
    by blast
  moreover from sweep_out [of sys st' view] p assms(1) obtain st'' where
    "sweep_buffer sys st' = Some (0, st'')" "out_ok (st_f st'')" "f_len (st_f st'') = 0" "view (st_w st'') = outp view st'" by auto
  moreover have "\<not> ferror (st_f st')" using p(2) by (simp add: out_ok_def)
  ultimately show ?thesis by (auto simp: flush_def)
qed

text \<open>A file that appends what is written to it, and a stream with an empty buffer.\<close>

definition list_sys :: "u8 list sys" where
  "list_sys = \<lparr>sys_read = (\<lambda>fd n w. (int (length (take n w)), take n w, drop n w)),
    sys_write = (\<lambda>fd bs w. (int (length bs), w @ bs)), sys_lseek = (\<lambda>fd off whence w. (off, 0, w))\<rparr>"

definition empty_stream :: "u32 \<Rightarrow> nat \<Rightarrow> FILE" where
  "empty_stream mode n = \<lparr>f_mode = mode, f_pos = 0, f_len = 0, f_fd = 3, f_buf_size = n, f_seek_pos = 0, f_buf = replicate n 0\<rparr>"

lemma list_sys_law: "write_law list_sys fd (\<lambda>w. w)"
  by (simp add: write_law_def list_sys_def)

theorem fputs_flush_writes_witness:
  "\<exists>st' st''. fputs list_sys ([72, 105, 33] @ [0]) \<lparr>st_f = empty_stream 8 2, st_w = [7], st_errno = 0\<rparr> = Some (0, st') \<and>
    flush list_sys st' = Some (0, st'') \<and> st_w st'' = [7, 72, 105, 33]"
proof -
  have m: "bit (8 :: u32) 3" "\<not> bit (8 :: u32) 1" by (simp_all add: bit_numeral_rec)
  let ?s = "\<lparr>st_f = empty_stream 8 2, st_w = [7], st_errno = 0\<rparr>"
  have "out_ok (st_f ?s)" using m by (simp add: out_ok_def empty_stream_def)
  from fputs_flush_writes [OF list_sys_law this, of "[72, 105, 33]"] show ?thesis
    by (auto simp: outp_def empty_stream_def)
qed

text \<open>
  The byte 255 is the character -1, which \<^verbatim>\<open>fputc\<close> returns and \<^verbatim>\<open>fputs\<close> takes for the end of the file: the rest of the
  string is not printed.
\<close>

theorem fputs_stops_at_255:
  assumes "write_law sys (f_fd (st_f st)) view" and "out_ok (st_f st)"
  shows "\<exists>st'. fputs sys (255 # s) st = Some (EOF_c, st') \<and> outp view st' = outp view st @ [255] \<and> \<not> ferror (st_f st')"
proof -
  have "sint (255 :: u8) = - 1" by simp
  then show ?thesis using fputc_out [OF assms, of "- 1"] by (auto simp: out_ok_def)
qed

definition put_chunk :: "u8 list \<Rightarrow> FILE \<Rightarrow> FILE" where
  "put_chunk bs f = f\<lparr>f_buf := take (f_len f) (f_buf f) @ bs @ drop (f_len f + length bs) (f_buf f),
     f_pos := f_len f + length bs, f_len := f_len f + length bs\<rparr>"

lemma put_chunk_out:
  assumes "out_ok (st_f st)" and "f_len (st_f st) + length bs \<le> f_buf_size (st_f st)"
  shows "out_ok (st_f (upd_f (put_chunk bs) (set_flag 7 st)))"
    and "outp view (upd_f (put_chunk bs) (set_flag 7 st)) = outp view st @ bs"
  using assms by (auto simp: out_ok_def outp_def put_chunk_def)

lemma put_chunk_simps [simp]:
  "f_fd (put_chunk bs f) = f_fd f" "f_buf_size (put_chunk bs f) = f_buf_size f"
  by (simp_all add: put_chunk_def)

text \<open>How many bytes \<^verbatim>\<open>fwrite\<close> takes of \<open>bytes\<close> when \<open>space\<close> are free in a buffer of \<open>n\<close>.\<close>

definition taken :: "nat \<Rightarrow> nat \<Rightarrow> nat \<Rightarrow> nat" where
  "taken n space bytes =
    (if space \<noteq> 0 \<and> bytes \<le> space then bytes
     else if n \<le> bytes - space then bytes
     else space + min space (bytes - space))"

lemma fwrite_put:
  assumes "out_ok (st_f st)" and "f_len (st_f st) + length bs \<le> f_buf_size (st_f st)"
  shows "store (f_buf (st_f st)) (f_pos (st_f st)) bs \<bind> (\<lambda>b. g (upd_f (\<lambda>f. f\<lparr>f_buf := b, f_pos := f_pos f + length bs,
      f_len := max (f_len f) (f_pos f + length bs)\<rparr>) (set_flag 7 st))) = g (upd_f (put_chunk bs) (set_flag 7 st))"
    and "f_len (st_f st) = 0 \<Longrightarrow> store (f_buf (st_f st)) 0 bs \<bind> (\<lambda>b. h (upd_f (\<lambda>f. f\<lparr>f_buf := b, f_pos := f_pos f + length bs,
      f_len := f_pos f + length bs\<rparr>) (set_flag 7 st))) = h (upd_f (put_chunk bs) (set_flag 7 st))"
  using assms by (simp_all add: store_def out_ok_def put_chunk_def upd_f_def set_flag_def max_def)

lemma fwrite_rest_takes:
  assumes "write_law sys (f_fd (st_f st)) view" and "out_ok (st_f st)" and "length ptr = rest" and "0 < sz" and "rest \<le> bytes"
    and "k = (if rest < f_buf_size (st_f st) then min len rest else rest)"
  shows "\<exists>st'. fwrite_rest sys ptr sz bytes len rest st = Some ((bytes - rest + k) div sz, st') \<and>
    outp view st' = outp view st @ take k ptr \<and> out_ok (st_f st')"
proof -
  obtain s where s: "sweep_buffer sys st = Some (0, s)" "out_ok (st_f s)" "f_len (st_f s) = 0"
    "f_fd (st_f s) = f_fd (st_f st)" "f_buf_size (st_f s) = f_buf_size (st_f st)" "view (st_w s) = outp view st"
    using sweep_out [OF assms(1,2)] by blast
  have o: "outp view s = outp view st" using s(3,6) by (simp add: outp_def)
  show ?thesis
  proof (cases "rest < f_buf_size (st_f st)")
    case True
    let ?bs = "take (min len rest) ptr"
    have l: "length ?bs = min len rest" "f_len (st_f s) + length ?bs \<le> f_buf_size (st_f s)" using assms(3) s(3,5) True by auto
    have "bytes - (rest - min len rest) = bytes - rest + k" using True assms(5,6) by simp
    then have "fwrite_rest sys ptr sz bytes len rest st = Some ((bytes - rest + k) div sz, upd_f (put_chunk ?bs) (set_flag 7 s))"
      using fwrite_put(2) [OF s(2) l(2) s(3), of "\<lambda>s. Some (rest - min len rest, s)"] True s(1,5) assms(4)
      unfolding l(1) by (simp add: fwrite_rest_def quot_def Let_def)
    then show ?thesis using put_chunk_out [OF s(2) l(2)] o True assms(6) by simp
  next
    case False
    obtain w where w: "sys_write sys (f_fd (st_f s)) ptr (st_w s) = (int rest, w)" "view w = view (st_w s) @ ptr"
      using assms(1,3) s(4) unfolding write_law_def by metis
    then have "fwrite_rest sys ptr sz bytes len rest st = Some (bytes div sz,
        upd_f (\<lambda>f. f\<lparr>f_seek_pos := f_seek_pos f + word_of_int (int rest)\<rparr>) (s\<lparr>st_w := w\<rparr>))"
      using False s(1,5) assms(3,4) by (simp add: fwrite_rest_def quot_def)
    then show ?thesis using False assms(3,5,6) s w(2) by (simp add: outp_def out_ok_def)
  qed
qed

text \<open>
  \<^verbatim>\<open>fwrite\<close> puts a prefix of the block into the stream and returns the number of whole elements
  in it. The block is taken completely if it fits into the free part of the buffer, or if
  what does not fit is at least a whole buffer. Otherwise only as much of the rest is taken as there was free
  space before: with a full buffer nothing at all, although there is no error.
\<close>

theorem fwrite_takes:
  assumes "write_law sys (f_fd (st_f st)) view" and "out_ok (st_f st)"
    and "length ptr = sz * nmemb" and "0 < sz" and "sz * nmemb < 2 ^ 32"
    and "k = taken (f_buf_size (st_f st)) (f_buf_size (st_f st) - f_len (st_f st)) (sz * nmemb)"
  shows "\<exists>st'. fwrite sys ptr sz nmemb st = Some (k div sz, st') \<and> outp view st' = outp view st @ take k ptr \<and>
    out_ok (st_f st')"
proof -
  let ?f = "st_f st" and ?bytes = "sz * nmemb"
  let ?space = "f_buf_size ?f - f_len ?f"
  have ok: "\<not> ferror ?f" "isWritable ?f" "f_pos ?f = f_len ?f" "f_len ?f \<le> f_buf_size ?f" "0 < f_buf_size ?f"
    using assms(2) by (auto simp: out_ok_def)
  show ?thesis
  proof (cases "?space = 0")
    case True
    then have "fwrite sys ptr sz nmemb st = fwrite_rest sys ptr sz ?bytes 0 ?bytes st"
      using ok assms(5) by (simp add: fwrite_def Let_def)
    moreover have "k = (if ?bytes < f_buf_size ?f then min 0 ?bytes else ?bytes)"
      unfolding assms(6) taken_def True by simp
    ultimately show ?thesis using fwrite_rest_takes [OF assms(1-4) order_refl] by simp
  next
    case False
    let ?len = "min ?space ?bytes"
    let ?bs = "take ?len ptr" and ?s = "upd_f (put_chunk (take ?len ptr)) (set_flag 7 st)"
    have l: "length ?bs = ?len" "f_len ?f + length ?bs \<le> f_buf_size ?f" using assms(3) ok(4) by auto
    note p = put_chunk_out [OF assms(2) l(2)]
    have "fwrite sys ptr sz nmemb st = (if ?bytes - ?len = 0 then Some (nmemb, ?s)
        else fwrite_rest sys (drop ?len ptr) sz ?bytes ?len (?bytes - ?len) ?s)"
      using fwrite_put(1) [OF assms(2) l(2), of "\<lambda>s. if ?bytes - ?len = 0 then Some (nmemb, s)
        else fwrite_rest sys (drop ?len ptr) sz ?bytes ?len (?bytes - ?len) s"] False ok assms(5)
      unfolding l(1) by (simp add: fwrite_def Let_def)
    moreover have "\<exists>st'. fwrite_rest sys (drop ?len ptr) sz ?bytes ?len (?bytes - ?len) ?s = Some (k div sz, st') \<and>
        outp view st' = outp view st @ take k ptr \<and> out_ok (st_f st')" if r: "\<not> ?bytes \<le> ?space"
    proof -
      let ?r = "?bytes - ?len"
      define q where "q = (if ?r < f_buf_size ?f then min ?len ?r else ?r)"
      have k: "?bytes - ?r + q = k" "k = ?len + q" using r False unfolding assms(6) taken_def q_def by auto
      have "\<exists>st'. fwrite_rest sys (drop ?len ptr) sz ?bytes ?len ?r ?s = Some ((?bytes - ?r + q) div sz, st') \<and>
          outp view st' = outp view ?s @ take q (drop ?len ptr) \<and> out_ok (st_f st')"
        by (rule fwrite_rest_takes) (use assms p(1) in \<open>auto simp: q_def\<close>)
      then show ?thesis unfolding k(1) p(2) append_assoc take_add [symmetric] k(2) [symmetric] .
    qed
    ultimately show ?thesis using p False assms(3,4,6) by (auto simp: taken_def)
  qed
qed

theorem fwrite_takes_witness:
  "\<exists>st'. fwrite list_sys [1, 2, 3, 4] 1 4 \<lparr>st_f = empty_stream 8 3, st_w = [7], st_errno = 0\<rparr> = Some (4, st') \<and>
    outp (\<lambda>w. w) st' = [7, 1, 2, 3, 4]"
proof -
  have m: "bit (8 :: u32) 3" "\<not> bit (8 :: u32) 1" by (simp_all add: bit_numeral_rec)
  let ?s = "\<lparr>st_f = empty_stream 8 3, st_w = [7], st_errno = 0\<rparr>"
  have "out_ok (st_f ?s)" using m by (simp add: out_ok_def empty_stream_def)
  from fwrite_takes [OF list_sys_law this, of "[1, 2, 3, 4]" 1 4 4] show ?thesis
    by (auto simp: outp_def empty_stream_def taken_def)
qed

subsection \<open>Input\<close>

text \<open>
  What the code relies on of \<^verbatim>\<open>read\<close>: it delivers a part of what is left, and nothing only at
  the end (\<open>view\<close> shows what is left).
\<close>

definition read_law :: "'w sys \<Rightarrow> int \<Rightarrow> ('w \<Rightarrow> u8 list) \<Rightarrow> bool" where
  "read_law sys fd view \<longleftrightarrow>
    (\<forall>n w. 0 < n \<longrightarrow> (\<exists>bs w'. sys_read sys fd n w = (int (length bs), bs, w') \<and> length bs \<le> n \<and> view w = bs @ view w' \<and>
      (bs = [] \<longrightarrow> view w = [])))"

definition in_ok :: "FILE \<Rightarrow> bool" where
  "in_ok f \<longleftrightarrow> \<not> ferror f \<and> isReadable f \<and> f_pos f \<le> f_len f \<and> f_len f \<le> f_buf_size f \<and> f_buf_size f = length (f_buf f) \<and>
    f_buf f \<noteq> [] \<and> \<not> isDirty f"

definition inp :: "('w \<Rightarrow> u8 list) \<Rightarrow> 'w st \<Rightarrow> u8 list" where
  "inp view st = (if feof (st_f st) then [] else drop (f_pos (st_f st)) (take (f_len (st_f st)) (f_buf (st_f st))) @ view (st_w st))"

lemma fgetc_next:
  assumes "in_ok (st_f st)" and "\<not> feof (st_f st)" and "f_pos (st_f st) < f_len (st_f st)"
  shows "\<exists>c st'. fgetc sys st = Some (uint c, st') \<and> inp view st = c # inp view st' \<and> in_ok (st_f st') \<and> f_fd (st_f st') = f_fd (st_f st)"
proof -
  let ?f = "st_f st"
  have l: "f_pos ?f < length (take (f_len ?f) (f_buf ?f))" "f_pos ?f < length (f_buf ?f)" using assms by (auto simp: in_ok_def)
  have "fgetc sys st = Some (uint (f_buf ?f ! f_pos ?f), upd_f (\<lambda>f. f\<lparr>f_pos := f_pos f + 1\<rparr>) st)"
    using assms l(2) by (simp add: fgetc_def in_ok_def rd_def)
  moreover have "inp view st = f_buf ?f ! f_pos ?f # inp view (upd_f (\<lambda>f. f\<lparr>f_pos := f_pos f + 1\<rparr>) st)"
    using Cons_nth_drop_Suc [OF l(1)] assms(2,3) by (simp add: inp_def)
  ultimately show ?thesis using assms by (auto simp: in_ok_def)
qed

lemma fgetc_in:
  assumes "read_law sys (f_fd (st_f st)) view" and "in_ok (st_f st)"
  shows "\<exists>st'. (case inp view st of [] \<Rightarrow> fgetc sys st = Some (EOF_c, st') \<and> inp view st' = []
      | c # r \<Rightarrow> fgetc sys st = Some (uint c, st') \<and> inp view st' = r) \<and> in_ok (st_f st') \<and> f_fd (st_f st') = f_fd (st_f st)"
proof -
  consider "feof (st_f st)" | "\<not> feof (st_f st)" "f_pos (st_f st) < f_len (st_f st)"
    | "\<not> feof (st_f st)" "f_len (st_f st) \<le> f_pos (st_f st)" by linarith
  then show ?thesis
  proof cases
    case 1
    then show ?thesis using assms(2) by (auto simp: fgetc_def inp_def)
  next
    case 2
    then show ?thesis using fgetc_next [OF assms(2), of sys view] by force
  next
    case 3
    let ?n = "f_buf_size (st_f st)" and ?s = "sweep_end st"
    have n: "0 < ?n" "f_pos (st_f st) = f_len (st_f st)" using 3 assms(2) by (auto simp: in_ok_def)
    have v: "inp view st = view (st_w st)" using 3(1) n(2) by (simp add: inp_def)
    obtain bs w where r: "sys_read sys (f_fd (st_f st)) ?n (st_w st) = (int (length bs), bs, w)" "length bs \<le> ?n"
      "view (st_w st) = bs @ view w" "bs = [] \<longrightarrow> view (st_w st) = []"
      using assms(1) n(1) unfolding read_law_def by meson
    show ?thesis
    proof (cases "bs = []")
      case True
      then show ?thesis using r v 3 n assms(2)
        by (auto simp: fgetc_def fill_buffer_def sweep_buffer_def in_ok_def store_def inp_def)
    next
      case False
      let ?t = "upd_f (\<lambda>f. f\<lparr>f_len := length bs, f_buf := bs @ drop (length bs) (f_buf f)\<rparr>) (?s\<lparr>st_w := w\<rparr>)"
      have t: "in_ok (st_f ?t)" "\<not> feof (st_f ?t)" "f_pos (st_f ?t) < f_len (st_f ?t)" "f_fd (st_f ?t) = f_fd (st_f st)"
        using assms(2) r(2) 3(1) False by (auto simp: in_ok_def)
      have "fgetc sys st = fgetc sys ?t"
        using r(1,2) 3 False n assms(2) t(2,3) by (simp add: fgetc_def fill_buffer_def sweep_buffer_def in_ok_def store_def upd_f_def)
      moreover have "inp view ?t = inp view st" using 3(1) r(3) v by (simp add: inp_def)
      moreover obtain c u where u: "fgetc sys ?t = Some (uint c, u)" "inp view ?t = c # inp view u" "in_ok (st_f u)"
        "f_fd (st_f u) = f_fd (st_f st)" using fgetc_next [OF t(1-3), of sys view] t(4) by metis
      ultimately have "fgetc sys st = Some (uint c, u)" "inp view st = c # inp view u" by (simp_all only:)
      then show ?thesis using u(3,4) by (intro exI [of _ u]) simp
    qed
  qed
qed

text \<open>The first line with its end, at most \<open>k\<close> characters of it.\<close>

fun line :: "nat \<Rightarrow> u8 list \<Rightarrow> u8 list" where
  "line (Suc k) (c # r) = (if c = 10 then [c] else c # line k r)"
| "line _ _ = []"

lemma line_spec: "line k xs = take k (takeWhile (\<lambda>c. c \<noteq> 10) xs @ take 1 (dropWhile (\<lambda>c. c \<noteq> 10) xs))"
  by (induction k xs rule: line.induct) auto

lemma line_prefix: "xs = line k xs @ drop (length (line k xs)) xs"
  by (induction k xs rule: line.induct) auto

lemma fgets_loop_in:
  assumes "read_law sys (f_fd (st_f st)) view" and "in_ok (st_f st)"
  shows "\<exists>st'. fgets_loop sys k s st = Some (s @ line k (inp view st), st') \<and>
    inp view st' = drop (length (line k (inp view st))) (inp view st) \<and> in_ok (st_f st')"
  using assms
proof (induction k arbitrary: s st)
  case (Suc k)
  show ?case
  proof (cases "inp view st")
    case Nil
    then show ?thesis using fgetc_in [OF Suc.prems] by auto
  next
    case (Cons c r)
    then obtain t where t: "fgetc sys st = Some (uint c, t)" "inp view t = r" "in_ok (st_f t)" "f_fd (st_f t) = f_fd (st_f st)"
      using fgetc_in [OF Suc.prems] by auto
    have u: "uint c \<noteq> - 1" "uint c = 10 \<longleftrightarrow> c = 10" using uint_ge_0 [of c] word_uint_eq_iff [of c 10] by (linarith, simp)
    then show ?thesis using Cons t Suc.IH [of t "s @ [c]"] Suc.prems(1) by auto
  qed
qed auto

text \<open>
  C40. \<^verbatim>\<open>fgets\<close> delivers the next line: what it stores is the input up to and with the first end of line,
  cut after \<open>sz - 1\<close> characters so that the terminator fits, and just these characters are consumed, however
  the reads divide the input. The null pointer is returned exactly if no character is delivered, at the end of the input or because
  there is only room for the terminator.
\<close>

theorem fgets_line:
  assumes "read_law sys (f_fd (st_f st)) view" and "in_ok (st_f st)" and "1 \<le> sz"
    and "xs = inp view st"
    and "l = take (nat sz - 1) (takeWhile (\<lambda>c. c \<noteq> 10) xs @ take 1 (dropWhile (\<lambda>c. c \<noteq> 10) xs))"
  shows "\<exists>st'. fgets sys sz st = Some (if l = [] then None else Some l, st') \<and> xs = l @ inp view st' \<and>
    int (length l) < sz \<and> in_ok (st_f st')"
proof -
  have n: "nat (sz - 1) = nat sz - 1" by simp
  have l: "l = line (nat (sz - 1)) (inp view st)" unfolding line_spec assms(4,5) n ..
  have p: "xs = l @ drop (length l) xs" unfolding l assms(4) by (rule line_prefix)
  have "length l \<le> nat sz - 1" using assms(5) by simp
  then have "int (length l) < sz" using assms(3) by linarith
  then show ?thesis using fgets_loop_in [OF assms(1,2), of "nat (sz - 1)" "[]"] assms(3,4) p unfolding l [symmetric]
    by (auto simp: fgets_def)
qed

text \<open>A file that delivers at most two bytes at a time.\<close>

definition slow_sys :: "u8 list sys" where
  "slow_sys = list_sys\<lparr>sys_read := (\<lambda>fd n w. (int (length (take (min n 2) w)), take (min n 2) w, drop (min n 2) w))\<rparr>"

lemma slow_sys_law: "read_law slow_sys fd (\<lambda>w. w)"
  by (auto simp: read_law_def slow_sys_def)

theorem fgets_line_witness:
  "\<exists>st'. fgets slow_sys 80 \<lparr>st_f = empty_stream 4 16, st_w = [72, 105, 33, 10, 65], st_errno = 0\<rparr> = Some (Some [72, 105, 33, 10], st') \<and>
    inp (\<lambda>w. w) st' = [65]"
proof -
  have m: "bit (4 :: u32) 2" "\<not> bit (4 :: u32) 1" "\<not> bit (4 :: u32) 7" "\<not> bit (4 :: u32) 0" by (simp_all add: bit_numeral_rec)
  let ?s = "\<lparr>st_f = empty_stream 4 16, st_w = [72, 105, 33, 10, 65], st_errno = 0\<rparr>"
  have "in_ok (st_f ?s)" using m by (simp add: in_ok_def empty_stream_def)
  moreover have "inp (\<lambda>w. w) ?s = [72, 105, 33, 10, 65]" using m by (simp add: inp_def empty_stream_def)
  ultimately show ?thesis using fgets_line [OF slow_sys_law, of ?s 80 "[72, 105, 33, 10, 65]" "[72, 105, 33, 10]"] by auto
qed

subsection \<open>Positions\<close>

text \<open>
  What the code relies on of \<^verbatim>\<open>lseek\<close>: \<open>off\<close> shows the offset of the file, which moves with what is
  written.
\<close>

definition offset_law :: "'w sys \<Rightarrow> int \<Rightarrow> ('w \<Rightarrow> 64 word) \<Rightarrow> bool" where
  "offset_law sys fd off \<longleftrightarrow>
    (\<forall>bs w. \<exists>w'. sys_write sys fd bs w = (int (length bs), w') \<and> off w' = off w + word_of_nat (length bs)) \<and>
    (\<forall>x w. x \<noteq> - 1 \<longrightarrow> (\<exists>w'. sys_lseek sys fd x SEEK_SET w = (x, 0, w') \<and> off w' = x)) \<and>
    (\<forall>x w. off w + x \<noteq> - 1 \<longrightarrow> (\<exists>w'. sys_lseek sys fd x SEEK_CUR w = (off w + x, 0, w') \<and> off w' = off w + x))"

definition seek_ok :: "FILE \<Rightarrow> bool" where
  "seek_ok f \<longleftrightarrow> \<not> ferror f \<and> isOpen f \<and> f_len f \<le> length (f_buf f)"

lemma flush_offset:
  assumes "offset_law sys (f_fd (st_f st)) off" and "seek_ok (st_f st)"
  shows "\<exists>st'. flush sys st = Some (0, st') \<and> f_fd (st_f st') = f_fd (st_f st) \<and> seek_ok (st_f st') \<and>
    off (st_w st') = off (st_w st) + (if isDirty (st_f st) then word_of_nat (f_len (st_f st)) else 0)"
proof (cases "isDirty (st_f st)")
  case True
  let ?bs = "take (f_len (st_f st)) (f_buf (st_f st))"
  obtain w where w: "sys_write sys (f_fd (st_f st)) ?bs (st_w st) = (int (length ?bs), w)"
    "off w = off (st_w st) + word_of_nat (length ?bs)"
    using assms(1) unfolding offset_law_def by meson
  then show ?thesis using True assms(2) by (auto simp: flush_def sweep_buffer_def load_def seek_ok_def isOpen_def)
next
  case False
  then show ?thesis using assms(2) by (auto simp: flush_def sweep_buffer_def seek_ok_def isOpen_def)
qed

text \<open>
  \<^verbatim>\<open>fsetpos\<close> and \<^verbatim>\<open>fgetpos\<close> agree: after a stream has been set to a position, whether inside of the
  buffer or elsewhere in the file, this is the position that is reported, and the end of the file is forgotten.
\<close>

theorem fsetpos_fgetpos:
  assumes "offset_law sys (f_fd (st_f st)) off" and "seek_ok (st_f st)" and "p \<noteq> - 1"
  shows "\<exists>st'. fsetpos sys p st = Some (0, st') \<and> fgetpos st' = ((0, p), st') \<and> \<not> feof (st_f st') \<and> seek_ok (st_f st')"
proof -
  obtain s where s: "flush sys st = Some (0, s)" "f_fd (st_f s) = f_fd (st_f st)" "seek_ok (st_f s)"
    using flush_offset [OF assms(1,2)] by blast
  moreover obtain w where w: "sys_lseek sys (f_fd (st_f st)) p SEEK_SET (st_w s) = (p, 0, w)"
    using assms(1,3) unfolding offset_law_def by meson
  ultimately show ?thesis using assms(2,3)
    by (auto simp: fsetpos_def seek_to_def fgetpos_def seek_ok_def isOpen_def)
qed

text \<open>
  \<^verbatim>\<open>fseek\<close> relative to the current position is wrong for a stream with output waiting: the buffer is written first,
  which moves the file, and the position in the buffer is then counted once more. \<^verbatim>\<open>fseek(f, 0, SEEK_CUR)\<close>, which
  should not move at all, leaves the stream as many bytes too far as there were in the buffer.
\<close>

theorem fseek_cur_moves:
  assumes "offset_law sys (f_fd (st_f st)) off" and "seek_ok (st_f st)" and "isDirty (st_f st)"
    and "f_pos (st_f st) = f_len (st_f st)" and "off (st_w st) = f_seek_pos (st_f st)"
    and "x = f_seek_pos (st_f st) + 2 * word_of_nat (f_len (st_f st))" and "x \<noteq> - 1"
  shows "fgetpos st = ((0, f_seek_pos (st_f st) + word_of_nat (f_len (st_f st))), st) \<and>
    (\<exists>st'. fseek sys 0 SEEK_CUR st = Some (0, st') \<and> fgetpos st' = ((0, x), st') \<and> off (st_w st') = x)"
proof -
  let ?n = "word_of_nat (f_len (st_f st)) :: 64 word"
  obtain s where s: "flush sys st = Some (0, s)" "f_fd (st_f s) = f_fd (st_f st)" "seek_ok (st_f s)"
    "off (st_w s) + ?n = x"
    using flush_offset [OF assms(1,2)] assms(3,5,6) by auto
  moreover obtain w where "sys_lseek sys (f_fd (st_f st)) ?n SEEK_CUR (st_w s) = (x, 0, w)" "off w = x"
    using assms(1,7) s(4) unfolding offset_law_def by metis
  ultimately show ?thesis using assms(2,4,7)
    by (auto simp: fseek_def seek_to_def fgetpos_def seek_ok_def isOpen_def)
qed

text \<open>A file of which only the offset is kept.\<close>

definition offset_sys :: "64 word sys" where
  "offset_sys = \<lparr>sys_read = (\<lambda>fd n w. (0, [], w)), sys_write = (\<lambda>fd bs w. (int (length bs), w + word_of_nat (length bs))),
     sys_lseek = (\<lambda>fd x whence w. let w' = (if whence = SEEK_SET then x else w + x) in (w', 0, w'))\<rparr>"

lemma offset_sys_law: "offset_law offset_sys fd (\<lambda>w. w)"
  by (simp add: offset_law_def offset_sys_def Let_def)

theorem fsetpos_fgetpos_witness:
  "\<exists>st'. fsetpos offset_sys 5 \<lparr>st_f = empty_stream 8 16, st_w = 0, st_errno = 0\<rparr> = Some (0, st') \<and> fgetpos st' = ((0, 5), st')"
proof -
  have m: "bit (8 :: u32) 3" "\<not> bit (8 :: u32) 1" by (simp_all add: bit_numeral_rec)
  let ?s = "\<lparr>st_f = empty_stream 8 16, st_w = 0, st_errno = 0\<rparr>"
  have "seek_ok (st_f ?s)" using m by (simp add: seek_ok_def isOpen_def empty_stream_def)
  from fsetpos_fgetpos [OF offset_sys_law this, of 5] show ?thesis by auto
qed

theorem fseek_cur_moves_witness:
  "\<exists>st'. fseek offset_sys 0 SEEK_CUR \<lparr>st_f = (empty_stream 136 16)\<lparr>f_pos := 3, f_len := 3\<rparr>, st_w = 0, st_errno = 0\<rparr> = Some (0, st') \<and>
    fgetpos st' = ((0, 6), st')"
proof -
  have m: "bit (136 :: u32) 3" "\<not> bit (136 :: u32) 1" "bit (136 :: u32) 7" by (simp_all add: bit_numeral_rec)
  let ?s = "\<lparr>st_f = (empty_stream 136 16)\<lparr>f_pos := 3, f_len := 3\<rparr>, st_w = 0, st_errno = 0\<rparr>"
  have "seek_ok (st_f ?s)" using m by (simp add: seek_ok_def isOpen_def empty_stream_def)
  from fseek_cur_moves [OF offset_sys_law this, of 6] m show ?thesis by (auto simp: empty_stream_def)
qed

subsection \<open>Modes\<close>

lemma mode_plus_spec:
  assumes "0 \<notin> set s" and "n = length p"
  shows "mode_plus (p @ s @ [0]) n =
    (if s = [] then Some (True, False) else if hd s \<noteq> 43 then Some (False, False)
     else if tl s = [] \<or> tl s = [98] then Some (True, True)
     else Some (False, True))"
  using assms by (cases s; cases "tl s"; cases "tl (tl s)") (auto simp: mode_plus_def rd_def nth_append)

lemma rd_cons: "rd (x # xs) 0 = Some x" "rd (x # y # xs) (Suc 0) = Some y" "rd (x # y # z # xs) 2 = Some z"
  by (simp_all add: rd_def)

text \<open>
  The modes that are accepted, with the access they give: \<^verbatim>\<open>r\<close> and \<^verbatim>\<open>w\<close>, with a \<^verbatim>\<open>b\<close> and a plus sign
  in either order, and also with a \<^verbatim>\<open>b\<close> on both sides of the plus sign.
\<close>

theorem parse_file_mode_accepts:
  assumes "0 \<notin> set s"
  shows "parse_file_mode ((m # s) @ [0]) =
    (let t = (if s \<noteq> [] \<and> hd s = 98 then tl s else s) in
     if m \<noteq> 114 \<and> m \<noteq> 119 \<or> t \<notin> {[], [43], [43, 98]} then Some (Inl EINVAL_c)
     else if t \<noteq> [] then Some (Inr (12, if m = 114 then O_RDWR else O_RDWR OR O_CREAT OR O_TRUNC))
     else if m = 114 then Some (Inr (4, O_RDONLY))
     else Some (Inr (8, O_WRONLY OR O_CREAT OR O_TRUNC)))"
proof (cases "s \<noteq> [] \<and> hd s = 98")
  case True
  then obtain t where t: "s = 98 # t" by (cases s) auto
  have mp: "mode_plus (m # 98 # t @ [0]) 2 =
    (if t = [] then Some (True, False) else if hd t \<noteq> 43 then Some (False, False)
     else if tl t = [] \<or> tl t = [98] then Some (True, True) else Some (False, True))"
    using mode_plus_spec [of t 2 "[m, 98]"] assms t by simp
  then show ?thesis unfolding t
    by (cases t; cases "tl t"; cases "tl (tl t)") (auto simp: parse_file_mode_def rd_cons)
next
  case False
  have mp: "mode_plus (m # s @ [0]) (Suc 0) =
    (if s = [] then Some (True, False) else if hd s \<noteq> 43 then Some (False, False)
     else if tl s = [] \<or> tl s = [98] then Some (True, True) else Some (False, True))"
    using mode_plus_spec [of s "Suc 0" "[m]"] assms by simp
  then show ?thesis using False
    by (cases s; cases "tl s"; cases "tl (tl s)") (auto simp: parse_file_mode_def rd_cons)
qed

end
