(* ===== verification/Spec2Isabelle.thy ===== *)
theory Spec2Isabelle
  imports Eo_Prelude Eo_Bitmap Set_Sequence Set_List Kernel_Palloc Set_Tree Set_Map Set_Ring Nc_String
    Kernel_State Kernel_Thread Kernel_Ipc Kernel_Sched Kernel_Rendezvous Rc_Zle Rc_Range Set_Heap Set_Slab Set_Hash Vfs_Cache Drv_Copy Set_Lockfree Drv_Interrupt Std_Sort Std_Multibyte Std_Malloc Nc_Ctype Std_Number Nc_Bignum Nc_Printf Nc_Time Srv_Timer Std_Time Std_Stream
begin

text \<open>
  A verification development for the operating system \<^bold>\<open>eotan\<close>: its micro-kernel, the C libraries the
  kernel, the servers and the applications are built on, and parts of its drivers, servers and file systems.
  File names are relative to \<^verbatim>\<open>src/\<close>.

  \<^bold>\<open>The program.\<close> The kernel (\<^verbatim>\<open>kernel\<close>) runs threads by priority, lets them exchange messages and
  hands out pages. Threads, ports and reply keys are kept in the containers of \<^verbatim>\<open>lib/libnc/set\<close>:
  intrusive lists, AA trees, slabs and sequences of numbers. The drivers of \<^verbatim>\<open>drivers/i686\<close> copy between
  address spaces for the kernel. The file systems (\<^verbatim>\<open>lib/libvfs\<close>) cache disk blocks in a hash table.
  \<^verbatim>\<open>lib/librc\<close> compresses the boot image. The timer server (\<^verbatim>\<open>servers/timer\<close>) keeps sleeping threads in an AA tree and
  wakes them through the queue of delayed calls of the kernel. The C library (\<^verbatim>\<open>lib/libc\<close>, \<^verbatim>\<open>lib/libnc\<close>) gives the
  applications strings, a heap, sorting, numbers, formatted output, streams and calendar time.

  \<^bold>\<open>Theories, from the bottom up.\<close>
  \<^item> \<open>Eo_Prelude\<close>: machine words, bit operations, \<^verbatim>\<open>count_ntz\<close> of \<^verbatim>\<open>include/i686/bits.h\<close>, error codes,
    and the lemmas on words and lists the other theories share.
  \<^item> \<open>Eo_Bitmap\<close>: bitmaps of 32-bit blocks and the interface \<open>number_pool\<close> of allocators of numbers.
  \<^item> \<open>Set_Sequence\<close>: \<^verbatim>\<open>lib/libnc/set/sequence.c\<close>. Numbers are handed out round robin, none twice.
  \<^item> \<open>Kernel_Palloc\<close>: \<^verbatim>\<open>kernel/palloc.c\<close>. The lowest free page is handed out, zeroed, none twice.
  \<^item> \<open>Set_List\<close>: \<^verbatim>\<open>lib/libnc/set/list.c\<close> on a store of next and previous pointers. The interface
    \<open>queue_family\<close> gives many disjoint lists at once as sequences; queues are first in, first out.
  \<^item> \<open>Set_Tree\<close>, \<open>Set_Map\<close>: the AA trees of \<^verbatim>\<open>lib/libnc/set/aatree*.c\<close>. The level invariant, that the
    shared sentinel is never changed, that a tree is a finite map, that it is visited in the order of the keys, and that a lookup makes a
    logarithmic number of comparisons.
  \<^item> \<open>Set_Ring\<close>: \<^verbatim>\<open>lib/libnc/set/ring.c\<close>. No byte is lost or reordered across the wrap.
  \<^item> \<open>Set_Heap\<close>: \<^verbatim>\<open>lib/libnc/set/heap.c\<close>. Both sift loops keep order and elements; a heap sorts.
  \<^item> \<open>Set_Slab\<close>: \<^verbatim>\<open>lib/libnc/set/slab.c\<close>. No object is handed out twice; freeing gives back one object.
  \<^item> \<open>Set_Hash\<close>: \<^verbatim>\<open>lib/libnc/set/hash.c\<close>. A table refines a finite map of bounded capacity.
  \<^item> \<open>Set_Lockfree\<close>: \<^verbatim>\<open>lib/libnc/set/lf_stack.c\<close> as a step relation of interleaved threads. Every
    interleaving is one of atomic operations, as long as no thread holds a value of the 32-bit counter while more than \<open>2 ^ 32\<close> operations
    complete, a bound shown to be exact; and a retry means that another operation completed.
  \<^item> \<open>Nc_String\<close>: the functions of \<^verbatim>\<open>lib/libnc/string\<close> on byte-addressed memory.
  \<^item> \<open>Kernel_State\<close>, \<open>Kernel_Thread\<close>, \<open>Kernel_Ipc\<close>: the state of the kernel as one record, and the
    functions of \<^verbatim>\<open>ready.c\<close>, \<^verbatim>\<open>sync.c\<close>, \<^verbatim>\<open>thread.c\<close>, \<^verbatim>\<open>ipc.c\<close> and \<^verbatim>\<open>api.c\<close> as functions on it. A service call that
    puts its caller to sleep has the outcome \<open>Blocked\<close>.
  \<^item> \<open>Kernel_Sched\<close>: the invariant of the ready queues, kept by dispatching; the best ready thread runs.
  \<^item> \<open>Kernel_Rendezvous\<close>: the invariant of the reply keys; a call takes a fresh key, a reply frees it.
  \<^item> \<open>Drv_Copy\<close>: copying between address spaces through the page tables.
  \<^item> \<open>Drv_Interrupt\<close>: the table of interrupt services of \<^verbatim>\<open>drivers/i686/interrupt.c\<close>; binding a routine
    appends it to those an interrupt calls.
  \<^item> \<open>Vfs_Cache\<close>: the block cache \<^verbatim>\<open>lib/libvfs/cache.c\<close> over \<open>Set_Hash\<close>; reading through it is transparent.
    The file device of \<^verbatim>\<open>app/tfs/block.c\<close> is the instance of its interface \<open>block_device\<close>.
  \<^item> \<open>Rc_Zle\<close>, \<open>Rc_Range\<close>: the zero-length encoding, shown to be a round trip, and the range coder of
    \<^verbatim>\<open>lib/librc\<close>, for which termination of the normalisation and the bound on decoded symbols are shown.
  \<^item> \<open>Nc_Ctype\<close>, \<open>Std_Number\<close>: the character classes of \<^verbatim>\<open>lib/libnc/ctype\<close>, and \<^verbatim>\<open>strtol.c\<close>, \<^verbatim>\<open>strtoul.c\<close>, \<^verbatim>\<open>atoi.c\<close> and \<^verbatim>\<open>atol.c\<close> of
    \<^verbatim>\<open>lib/libc/stdlib\<close>, shown to compute what a text denotes, on every string.
  \<^item> \<open>Nc_Bignum\<close>, \<open>Nc_Printf\<close>: \<^verbatim>\<open>lib/libnc/stdio/vnprintf2.c\<close> and the functions that print into a string. Doubles are
    printed exactly; \<^verbatim>\<open>snprintf\<close> keeps to its size; what \<^verbatim>\<open>%d\<close> prints \<^verbatim>\<open>strtol\<close> reads.
  \<^item> \<open>Std_Stream\<close>: the buffered streams of \<^verbatim>\<open>lib/libc/stdio\<close>. Lines are read and strings written completely and in order,
    however the transfers divide them; positions set are positions reported; what \<^verbatim>\<open>fwrite\<close> takes.
  \<^item> \<open>Std_Sort\<close>: \<^verbatim>\<open>qsort.c\<close> and \<^verbatim>\<open>bsearch.c\<close>; sorting is right up to 114 elements and overruns the array at 115.
  \<^item> \<open>Std_Multibyte\<close>: the conversions between wide and multibyte characters and strings, as round trips.
  \<^item> \<open>Std_Malloc\<close>: the heap of \<^verbatim>\<open>malloc.c\<close>, \<^verbatim>\<open>realloc.c\<close> and \<^verbatim>\<open>calloc.c\<close>. Blocks in use are disjoint after any history.
  \<^item> \<open>Nc_Time\<close>, \<open>Srv_Timer\<close>: points in time (\<^verbatim>\<open>include/sys/time.h\<close>, \<^verbatim>\<open>lib/libnc/time96.c\<close>) and \<^verbatim>\<open>servers/timer/main.c\<close> over
    \<open>Set_Tree\<close> and \<open>Kernel_State\<close>. Sleepers are kept in the order of their deadlines and those that are due are handed to the kernel.
  \<^item> \<open>Std_Time\<close>: \<^verbatim>\<open>gmtime_r.c\<close> and \<^verbatim>\<open>strftime.c\<close> of \<^verbatim>\<open>lib/libc/others\<close> against the calendar.

  \<^bold>\<open>State, errors and loops.\<close> A C structure is a record with its fields, a result code an integer.
  An operation takes the state and returns it updated. \<^const>\<open>None\<close> as the outcome of an operation is a
  run without a result: a fault, or a loop that does not end. Loops that may not end are partial
  functions; where a property says that an operation returns, that is part of its statement. Bounds on
  recursion: the depth of \<open>dispatch_at\<close>, the mutual recursion of \<^verbatim>\<open>dispatch\<close> and the wake-up of the
  interrupt thread, where 1 is enough, as \<open>Kernel_Sched\<close> shows; 53 rounds of \<open>sig_loop\<close>, which moves the 52 bits of
  a significand; the depth 1 of \<open>time_printf\<close>, since no format that \<^verbatim>\<open>strftime\<close> expands contains another such format. The index of \<open>putd_loop\<close> is that of
  its array of ten digits: to run below it is a fault of the code, not a bound of the model.

  \<^bold>\<open>Interfaces.\<close> \<open>number_pool\<close>, \<open>queue_family\<close>, \<open>keyed_store\<close>, \<open>comparator\<close>, \<open>byte_queue\<close>,
  \<open>priority_queue\<close>, \<open>hashing\<close>, \<open>compar_order\<close> and \<open>block_device\<close> state what clients of a component rely on; each is
  interpreted with the definitions of the component.

  \<^bold>\<open>Abstractions.\<close> The kernel theories hold trees as finite maps and slabs as lists of free objects, as
  \<open>Set_Map\<close> and \<open>Set_Slab\<close> justify; \<open>Set_Slab\<close>, \<open>Set_Hash\<close> and \<open>Vfs_Cache\<close> hold linked lists as HOL lists, as
  \<open>Set_List\<close> justifies. Function pointers are arguments, with what the code relies on stated as
  hypotheses. Interrupts do not occur inside a kernel operation: the code runs them with dispatching
  serialised, and the flag it sets is part of the state.

  \<^bold>\<open>Not modelled.\<close> Assembler and device access (boot code, context switch, interrupt entry, ATA, keyboard,
  display), the servers but for the timer server, the shell and the other applications, the window and drawing libraries,
  the opening of streams, and the parts of the C library that only call the servers.
\<close>

end
